(* ===== verification/Prelude.thy ===== *)
theory Prelude
  imports Main "HOL-Library.Word" "HOL-Library.Char_ord" "HOL-Library.List_Lexorder"
    "HOL-Library.Sublist"
begin

unbundle bit_operations_syntax

text \<open>
  What the components share: bytes and characters, the C library's character classes (in
  the C locale), the failures a C++ run can end in, and the search members of
  \<open>std::string\<close> (\<open>find_first_of\<close>, \<open>find_last_not_of\<close>, \<open>find\<close>, \<open>rfind\<close>, \<open>substr\<close>) as functions
  that return an \<open>option\<close> where C++ returns \<open>npos\<close>. A \<open>std::string\<close> is a list of bytes, each a
  \<open>char\<close> of HOL; plain \<open>char\<close> is signed, as it is on the platforms recoll is built for.
\<close>

named_theorems find_simps \<open>characterisations of the string searches\<close>

section \<open>Failures\<close>

text \<open>
  How a run can end without a result: a library exception (\<open>std::out_of_range\<close>,
  \<open>std::length_error\<close>), an access outside an object, a conversion whose result does not fit its
  type (both undefined behaviour), or \<open>abort()\<close>.
\<close>

datatype cxx_error = OutOfRange | LengthError | BadAccess | NotRepresentable | AbortCalled

type_synonym 'a run = "cxx_error + 'a"

section \<open>Bytes and characters\<close>

type_synonym byte = "8 word"

definition byte_of :: "char \<Rightarrow> byte" where
  "byte_of c = of_char c"

definition char_of_byte :: "byte \<Rightarrow> char" where
  "char_of_byte b = char_of (unat b)"

text \<open>The value of a plain (signed) \<open>char\<close>.\<close>

definition schar :: "char \<Rightarrow> int" where
  "schar c = (let n = (of_char c :: int) in if n < 128 then n else n - 256)"

lemma of_char_nat_less [simp]: "(of_char c :: nat) < 256"
  by (cases c) (auto simp: of_char_def horner_sum_simps)

lemma unat_byte_of [simp]: "unat (byte_of c) = of_char c"
proof -
  have "byte_of c = of_nat (of_char c :: nat)"
    by (simp add: byte_of_def of_nat_of_char)
  moreover have "(of_char c :: nat) < 2 ^ LENGTH(8)"
    using of_char_nat_less [of c] by simp
  ultimately show ?thesis
    by (simp add: unsigned_of_nat take_bit_nat_eq_self)
qed

lemma char_of_byte_of [simp]: "char_of_byte (byte_of c) = c"
  by (simp add: char_of_byte_def)

lemma byte_of_char_of_byte [simp]: "byte_of (char_of_byte b) = b"
proof -
  have "unat b < 256"
    using unsigned_less [of b, where ?'a = nat] by simp
  then have "unat (byte_of (char_of_byte b)) = unat b"
    by (simp add: char_of_byte_def)
  then show ?thesis
    by (simp only: word_unat_eq_iff)
qed

lemma byte_of_inject [simp]: "byte_of c = byte_of d \<longleftrightarrow> c = d"
  by (metis char_of_byte_of)

lemma char_of_byte_inject [simp]: "char_of_byte a = char_of_byte b \<longleftrightarrow> a = b"
  by (metis byte_of_char_of_byte)

text \<open>Characters that a HOL string literal cannot hold as they are.\<close>

abbreviation dquote :: char where "dquote \<equiv> CHR 0x22"
abbreviation backslash :: char where "backslash \<equiv> CHR 0x5C"
abbreviation tab :: char where "tab \<equiv> CHR 0x09"
abbreviation newline :: char where "newline \<equiv> CHR 0x0A"
abbreviation cret :: char where "cret \<equiv> CHR 0x0D"
abbreviation blank :: char where "blank \<equiv> CHR 0x20"

section \<open>Character classes\<close>

definition is_digit :: "char \<Rightarrow> bool" where
  "is_digit c \<longleftrightarrow> 48 \<le> (of_char c :: nat) \<and> (of_char c :: nat) \<le> 57"

definition is_upper :: "char \<Rightarrow> bool" where
  "is_upper c \<longleftrightarrow> 65 \<le> (of_char c :: nat) \<and> (of_char c :: nat) \<le> 90"

definition is_lower :: "char \<Rightarrow> bool" where
  "is_lower c \<longleftrightarrow> 97 \<le> (of_char c :: nat) \<and> (of_char c :: nat) \<le> 122"

definition is_space :: "char \<Rightarrow> bool" where
  "is_space c \<longleftrightarrow> of_char c = (32 :: nat) \<or> 9 \<le> (of_char c :: nat) \<and> (of_char c :: nat) \<le> 13"

definition to_lower :: "char \<Rightarrow> char" where
  "to_lower c = (if is_upper c then char_of ((of_char c :: nat) + 32) else c)"

definition to_upper :: "char \<Rightarrow> char" where
  "to_upper c = (if is_lower c then char_of ((of_char c :: nat) - 32) else c)"

lemma to_lower_not_upper [simp]: "\<not> is_upper (to_lower c)"
  by (auto simp: to_lower_def is_upper_def)

lemma to_upper_not_lower [simp]: "\<not> is_lower (to_upper c)"
  by (auto simp: to_upper_def is_lower_def)

lemma to_lower_idem [simp]: "to_lower (to_lower c) = to_lower c"
  by (simp add: to_lower_def [of "to_lower c"])

lemma to_upper_idem [simp]: "to_upper (to_upper c) = to_upper c"
  by (simp add: to_upper_def [of "to_upper c"])

text \<open>
  A byte written as two hexadecimal digits, each in upper or in lower case: what the properties of the decoders
  take as the encoding of a byte.
\<close>

definition hex_digit :: "bool \<Rightarrow> nat \<Rightarrow> char" where
  "hex_digit upper n = (if upper then ''0123456789ABCDEF'' else ''0123456789abcdef'') ! n"

definition hex_text :: "bool \<times> bool \<Rightarrow> char \<Rightarrow> string" where
  "hex_text upper c = [hex_digit (fst upper) (of_char c div 16), hex_digit (snd upper) (of_char c mod 16)]"

lemma of_char_nibbles: "(of_char c :: nat) div 16 < 16" "(of_char c :: nat) mod 16 < 16"
  using of_char_nat_less [of c] by (simp_all add: less_mult_imp_div_less del: of_char_nat_less)

text \<open>A function that reads each of the 32 digits as its value reads the digits of every byte.\<close>

lemma hex_digits_read:
  assumes "list_all (\<lambda>n. f (''0123456789ABCDEF'' ! n) = g n \<and> f (''0123456789abcdef'' ! n) = g n) [0..<16]"
  shows "n < 16 \<Longrightarrow> f (hex_digit u n) = g n"
  using assms by (simp add: hex_digit_def list_all_iff)

section \<open>Searching lists\<close>

text \<open>The index of the first and of the last element that satisfies a predicate.\<close>

fun find_idx :: "('a \<Rightarrow> bool) \<Rightarrow> 'a list \<Rightarrow> nat option" where
  "find_idx P [] = None"
| "find_idx P (x # xs) = (if P x then Some 0 else map_option Suc (find_idx P xs))"

fun find_last_idx :: "('a \<Rightarrow> bool) \<Rightarrow> 'a list \<Rightarrow> nat option" where
  "find_last_idx P [] = None"
| "find_last_idx P (x # xs) =
     (case find_last_idx P xs of
        Some i \<Rightarrow> Some (Suc i)
      | None \<Rightarrow> if P x then Some 0 else None)"

lemma find_idx_None [find_simps]: "find_idx P xs = None \<longleftrightarrow> (\<forall>x \<in> set xs. \<not> P x)"
  by (induction xs) auto

lemma find_idx_Some [find_simps]:
  "find_idx P xs = Some i \<longleftrightarrow> i < length xs \<and> P (xs ! i) \<and> (\<forall>j < i. \<not> P (xs ! j))"
proof (induction xs arbitrary: i)
  case Nil
  then show ?case by simp
next
  case (Cons x xs)
  show ?case
    by (cases i) (auto simp: Cons.IH less_Suc_eq_0_disj nth_Cons split: nat.splits)
qed

lemma find_idx_takeWhile:
  "find_idx P xs = Some i \<Longrightarrow> takeWhile (\<lambda>x. \<not> P x) xs = take i xs"
  by (induction xs arbitrary: i) (auto split: if_splits)

lemma find_idx_dropWhile:
  "find_idx P xs = Some i \<Longrightarrow> dropWhile (\<lambda>x. \<not> P x) xs = drop i xs"
  by (induction xs arbitrary: i) (auto split: if_splits)

lemma find_idx_append:
  "\<forall>x \<in> set xs. \<not> P x \<Longrightarrow> find_idx P (xs @ ys) = map_option ((+) (length xs)) (find_idx P ys)"
  by (cases "find_idx P ys"; induction xs) auto

lemma find_idx_skip: "\<forall>c \<in> set xs. \<not> P c \<Longrightarrow> P y \<Longrightarrow> find_idx P (xs @ y # ys) = Some (length xs)"
  by (induction xs) auto

lemma find_last_idx_None [find_simps]:
  "find_last_idx P xs = None \<longleftrightarrow> (\<forall>x \<in> set xs. \<not> P x)"
  by (induction xs) (auto split: option.splits)

lemma find_last_idx_Some [find_simps]:
  "find_last_idx P xs = Some i \<longleftrightarrow>
     i < length xs \<and> P (xs ! i) \<and> (\<forall>j. i < j \<and> j < length xs \<longrightarrow> \<not> P (xs ! j))"
proof (induction xs arbitrary: i)
  case Nil
  then show ?case by simp
next
  case (Cons x xs)
  show ?case
  proof (cases "find_last_idx P xs")
    case None
    then have "\<forall>y \<in> set xs. \<not> P y"
      by (simp add: find_last_idx_None)
    then show ?thesis
      using None by (cases i) (auto simp: nth_Cons split: nat.splits)
  next
    case (Some k)
    then have k: "k < length xs" "P (xs ! k)" "\<forall>j. k < j \<and> j < length xs \<longrightarrow> \<not> P (xs ! j)"
      using Cons.IH by auto
    show ?thesis
    proof (cases i)
      case 0
      then show ?thesis
        using Some k by auto
    next
      case (Suc m)
      then show ?thesis
        using Some Cons.IH [of m] by (auto simp: nth_Cons split: nat.splits)
    qed
  qed
qed

section \<open>The search members of \<open>std::string\<close>\<close>

definition find_first_of :: "string \<Rightarrow> string \<Rightarrow> nat \<Rightarrow> nat option" where
  "find_first_of s cs p = map_option ((+) p) (find_idx (\<lambda>c. c \<in> set cs) (drop p s))"

definition find_first_not_of :: "string \<Rightarrow> string \<Rightarrow> nat \<Rightarrow> nat option" where
  "find_first_not_of s cs p = map_option ((+) p) (find_idx (\<lambda>c. c \<notin> set cs) (drop p s))"

definition find_last_of :: "string \<Rightarrow> string \<Rightarrow> nat option" where
  "find_last_of s cs = find_last_idx (\<lambda>c. c \<in> set cs) s"

definition find_last_not_of :: "string \<Rightarrow> string \<Rightarrow> nat option" where
  "find_last_not_of s cs = find_last_idx (\<lambda>c. c \<notin> set cs) s"

definition find_char :: "string \<Rightarrow> char \<Rightarrow> nat \<Rightarrow> nat option" where
  "find_char s c p = map_option ((+) p) (find_idx ((=) c) (drop p s))"

definition rfind_char :: "string \<Rightarrow> char \<Rightarrow> nat option" where
  "rfind_char s c = find_last_idx ((=) c) s"

text \<open>\<open>s.find(sub, p)\<close>: the first occurrence of a substring at or after a position.\<close>

fun find_sub :: "string \<Rightarrow> string \<Rightarrow> nat option" where
  "find_sub sub [] = (if sub = [] then Some 0 else None)"
| "find_sub sub (c # cs) =
     (if prefix sub (c # cs) then Some 0 else map_option Suc (find_sub sub cs))"

definition find_str :: "string \<Rightarrow> string \<Rightarrow> nat \<Rightarrow> nat option" where
  "find_str s sub p =
     (if p \<le> length s then map_option ((+) p) (find_sub sub (drop p s)) else None)"

text \<open>\<open>s.substr(p, n)\<close> and \<open>s.substr(p)\<close>, for \<open>p \<le> s.size()\<close> (beyond it they throw).\<close>

definition substr :: "string \<Rightarrow> nat \<Rightarrow> nat \<Rightarrow> string" where
  "substr s p n = take n (drop p s)"

lemma find_from_Some:
  assumes "map_option ((+) p) (find_idx P (drop p s)) = Some i"
  shows "p \<le> i \<and> i < length s \<and> P (s ! i) \<and> (\<forall>j. p \<le> j \<and> j < i \<longrightarrow> \<not> P (s ! j))"
proof -
  obtain k where k: "find_idx P (drop p s) = Some k" "i = p + k"
    using assms by auto
  then have *: "k < length s - p" "P (s ! (p + k))" "\<forall>j < k. \<not> P (s ! (p + j))"
    by (auto simp: find_idx_Some)
  have "\<not> P (s ! j)" if "p \<le> j" "j < i" for j
    using *(3) [rule_format, of "j - p"] that k(2) by simp
  with * k(2) show ?thesis by auto
qed

lemma find_first_of_Some [find_simps]:
  "find_first_of s cs p = Some i \<Longrightarrow>
    p \<le> i \<and> i < length s \<and> s ! i \<in> set cs \<and> (\<forall>j. p \<le> j \<and> j < i \<longrightarrow> s ! j \<notin> set cs)"
  unfolding find_first_of_def by (rule find_from_Some)

lemma find_first_not_of_Some [find_simps]:
  "find_first_not_of s cs p = Some i \<Longrightarrow>
    p \<le> i \<and> i < length s \<and> s ! i \<notin> set cs \<and> (\<forall>j. p \<le> j \<and> j < i \<longrightarrow> s ! j \<in> set cs)"
  unfolding find_first_not_of_def by (drule find_from_Some) simp

lemma find_char_Some [find_simps]:
  "find_char s c p = Some i \<Longrightarrow>
    p \<le> i \<and> i < length s \<and> s ! i = c \<and> (\<forall>j. p \<le> j \<and> j < i \<longrightarrow> s ! j \<noteq> c)"
  unfolding find_char_def by (drule find_from_Some) auto

lemma find_first_of_None: "find_first_of s cs p = None \<longleftrightarrow> (\<forall>c \<in> set (drop p s). c \<notin> set cs)"
  by (simp add: find_first_of_def find_idx_None)

lemma find_first_not_of_None: "find_first_not_of s cs p = None \<longleftrightarrow> (\<forall>c \<in> set (drop p s). c \<in> set cs)"
  by (simp add: find_first_not_of_def find_idx_None)

lemma find_sub_Some:
  "find_sub sub s = Some i \<Longrightarrow> i + length sub \<le> length s \<and> prefix sub (drop i s)"
proof (induction s arbitrary: i)
  case Nil
  then show ?case by (auto split: if_splits)
next
  case (Cons c cs)
  then show ?case
    by (auto split: if_splits dest: prefix_length_le)
qed

lemma find_sub_None: "find_sub sub s = None \<longleftrightarrow> \<not> sublist sub s"
  by (induction s) (auto simp: sublist_Cons_right)

lemma find_sub_first: "find_sub sub s = Some i \<Longrightarrow> j < i \<Longrightarrow> \<not> prefix sub (drop j s)"
proof (induction s arbitrary: i j)
  case Nil
  then show ?case by (auto split: if_splits)
next
  case (Cons c cs)
  then show ?case
    by (cases j) (auto split: if_splits)
qed

lemma prefix_decomp: "prefix xs ys \<Longrightarrow> ys = xs @ drop (length xs) ys"
  by (auto simp: prefix_def)

section \<open>Lists\<close>

lemma dropWhile_append_all: "\<forall>x \<in> set xs. P x \<Longrightarrow> dropWhile P (xs @ ys) = dropWhile P ys"
  by (induction xs) auto

lemma takeWhile_append_all: "\<forall>x \<in> set xs. P x \<Longrightarrow> takeWhile P (xs @ ys) = xs @ takeWhile P ys"
  by (induction xs) auto

lemma take_Suc_nth: "i < length xs \<Longrightarrow> take (Suc i) xs = take i xs @ [xs ! i]"
  by (rule take_Suc_conv_app_nth)

section \<open>Decimal numbers\<close>

text \<open>\<open>std::to_string\<close> of a natural number and the value of a string of digits.\<close>

fun dec_string :: "nat \<Rightarrow> string" where
  "dec_string n =
     (if n < 10 then [char_of (48 + n)] else dec_string (n div 10) @ [char_of (48 + n mod 10)])"

declare dec_string.simps [simp del]

definition dec_int_string :: "int \<Rightarrow> string" where
  "dec_int_string z = (if z < 0 then CHR ''-'' # dec_string (nat (- z)) else dec_string (nat z))"

fun dec_value_from :: "nat \<Rightarrow> string \<Rightarrow> nat" where
  "dec_value_from acc [] = acc"
| "dec_value_from acc (c # cs) = dec_value_from (10 * acc + (of_char c - 48)) cs"

definition dec_value :: "string \<Rightarrow> nat" where
  "dec_value s = dec_value_from 0 (takeWhile is_digit s)"

lemma is_digit_char_of [simp]: "n < 10 \<Longrightarrow> is_digit (char_of (48 + n :: nat))"
  by (simp add: is_digit_def)

lemma dec_string_digits: "\<forall>c \<in> set (dec_string n). is_digit c"
proof (induction n rule: dec_string.induct)
  case (1 n)
  then show ?case
    by (subst dec_string.simps) auto
qed

lemma dec_string_nonempty [simp]: "dec_string n \<noteq> []"
  by (subst dec_string.simps) simp

lemma length_dec_string_le: "n < 10 ^ j \<Longrightarrow> 0 < j \<Longrightarrow> length (dec_string n) \<le> j"
proof (induction n arbitrary: j rule: dec_string.induct)
  case (1 n)
  show ?case
  proof (cases "n < 10")
    case True
    then show ?thesis using "1.prems" by (subst dec_string.simps) simp
  next
    case False
    then obtain i where i: "j = Suc i" "0 < i"
      using "1.prems" by (cases j; cases "j - 1") auto
    then have "n div 10 < 10 ^ i"
      using "1.prems" by (simp add: less_mult_imp_div_less mult.commute)
    then show ?thesis
      using "1.IH" [OF False, of i] False i by (subst dec_string.simps) simp
  qed
qed

lemma dec_value_from_append: "dec_value_from acc (s @ t) = dec_value_from (dec_value_from acc s) t"
  by (induction s arbitrary: acc) auto

lemma dec_value_from_dec_string: "dec_value_from 0 (dec_string n) = n"
proof (induction n rule: dec_string.induct)
  case (1 n)
  then show ?case
    by (subst dec_string.simps) (auto simp: dec_value_from_append)
qed

lemma dec_value_dec_string:
  "(rest = [] \<or> \<not> is_digit (hd rest)) \<Longrightarrow> dec_value (dec_string n @ rest) = n"
proof -
  assume "rest = [] \<or> \<not> is_digit (hd rest)"
  then have "takeWhile is_digit rest = []"
    by (cases rest) auto
  then have "takeWhile is_digit (dec_string n @ rest) = dec_string n"
    using takeWhile_append_all [OF dec_string_digits [of n], of rest] by simp
  then show ?thesis
    by (simp add: dec_value_def dec_value_from_dec_string)
qed

text \<open>
  \<open>strtol\<close> in base 10 on the bytes up to the first null: white space, a sign, digits. \<open>atoi\<close> and \<open>atoll\<close>
  are undefined when the value does not fit their result.
\<close>

definition strtol10 :: "string \<Rightarrow> int" where
  "strtol10 s =
     (let t = dropWhile is_space (takeWhile (\<lambda>c. c \<noteq> CHR 0x00) s) in
      case t of
        [] \<Rightarrow> 0
      | c # u \<Rightarrow> if c = CHR ''-'' then - int (dec_value u)
                 else if c = CHR ''+'' then int (dec_value u) else int (dec_value t))"

definition atoi :: "string \<Rightarrow> int run" where
  "atoi s = (let v = strtol10 s in if - (2 ^ 31) \<le> v \<and> v < 2 ^ 31 then Inr v else Inl NotRepresentable)"

definition atoll :: "string \<Rightarrow> int run" where
  "atoll s = (let v = strtol10 s in if - (2 ^ 63) \<le> v \<and> v < 2 ^ 63 then Inr v else Inl NotRepresentable)"

lemma digit_not_space [simp]: "is_digit c \<Longrightarrow> \<not> is_space c"
  by (auto simp: is_digit_def is_space_def)

lemma strtol10_dec_string:
  assumes "rest = [] \<or> \<not> is_digit (hd rest)"
  shows "strtol10 (dec_string n @ rest) = int n"
proof -
  let ?nz = "\<lambda>c. c \<noteq> CHR 0x00"
  obtain c cs where c: "dec_string n = c # cs"
    by (cases "dec_string n") auto
  have digits: "\<forall>d \<in> set (dec_string n). is_digit d"
    by (rule dec_string_digits)
  then have "\<forall>d \<in> set (dec_string n). ?nz d"
    by (auto simp: is_digit_def)
  then have tw: "takeWhile ?nz (dec_string n @ rest) = dec_string n @ takeWhile ?nz rest"
    by (rule takeWhile_append_all)
  have "takeWhile ?nz rest = [] \<or> \<not> is_digit (hd (takeWhile ?nz rest))"
    using assms by (cases rest) auto
  then have "dec_value (dec_string n @ takeWhile ?nz rest) = n"
    by (rule dec_value_dec_string)
  moreover have "is_digit c"
    using digits c by simp
  then have "\<not> is_space c" "c \<noteq> CHR ''-''" "c \<noteq> CHR ''+''"
    by (auto simp: is_digit_def)
  ultimately show ?thesis
    unfolding strtol10_def tw by (simp add: c)
qed

end
