(* ===== verification/Base64.thy ===== *)
theory Base64
  imports Prelude
begin

text \<open>
  Base64 (\<open>src/utils/base64.cpp\<close>): the value table, the decoder's four-state loop with its
  lenient treatment of padding, and the encoder. The decoder keeps the growing output and
  the index \<open>io\<close> of the byte being assembled, as the code does, so that \<open>out[io] |= x\<close> is an
  update of the list at an index. Lemmas: the round trip, the exact success condition of the decoder, the
  length of what it returns, and that white space is ignored. The source's table has 255 entries and is
  indexed by any byte: the model makes the read past its end an error.
\<close>

section \<open>Tables\<close>

text \<open>
  The entries of \<open>b64values\<close>, in the source's order: 256 for a byte outside the alphabet, 255 for white
  space, 254 for the pad character, and 0 to 63 for the digits.
\<close>

definition b64values :: "nat list" where
  "b64values = [
    256, 256, 256, 256, 256, 256, 256, 256, 256, 255, 255, 255, 255, 255, 256, 256, 256,
    256, 256, 256, 256, 256, 256, 256, 256, 256, 256, 256, 256, 256, 256, 256, 255, 256,
    256, 256, 256, 256, 256, 256, 256, 256, 256, 62, 256, 256, 256, 63, 52, 53, 54,
    55, 56, 57, 58, 59, 60, 61, 256, 256, 256, 254, 256, 256, 256, 0, 1, 2,
    3, 4, 5, 6, 7, 8, 9, 10, 11, 12, 13, 14, 15, 16, 17, 18, 19,
    20, 21, 22, 23, 24, 25, 256, 256, 256, 256, 256, 256, 26, 27, 28, 29, 30,
    31, 32, 33, 34, 35, 36, 37, 38, 39, 40, 41, 42, 43, 44, 45, 46, 47,
    48, 49, 50, 51, 256, 256, 256, 256, 256, 256, 256, 256, 256, 256, 256, 256, 256,
    256, 256, 256, 256, 256, 256, 256, 256, 256, 256, 256, 256, 256, 256, 256, 256, 256,
    256, 256, 256, 256, 256, 256, 256, 256, 256, 256, 256, 256, 256, 256, 256, 256, 256,
    256, 256, 256, 256, 256, 256, 256, 256, 256, 256, 256, 256, 256, 256, 256, 256, 256,
    256, 256, 256, 256, 256, 256, 256, 256, 256, 256, 256, 256, 256, 256, 256, 256, 256,
    256, 256, 256, 256, 256, 256, 256, 256, 256, 256, 256, 256, 256, 256, 256, 256, 256,
    256, 256, 256, 256, 256, 256, 256, 256, 256, 256, 256, 256, 256, 256, 256, 256, 256,
    256, 256, 256, 256, 256, 256, 256, 256, 256, 256, 256, 256, 256, 256, 256, 256, 256]"

definition Base64_chars :: string where
  "Base64_chars = ''ABCDEFGHIJKLMNOPQRSTUVWXYZabcdefghijklmnopqrstuvwxyz0123456789+/''"

definition Pad64 :: char where
  "Pad64 = CHR ''=''"

text \<open>\<open>b64values[ch]\<close>, for \<open>ch = (unsigned char)in[ii]\<close>.\<close>

definition b64_value :: "char \<Rightarrow> nat run" where
  "b64_value c =
     (let i = of_char c in
      if i < length b64values then Inr (b64values ! i) else Inl BadAccess)"

section \<open>Decoder\<close>

record b64_state =
  b64_out :: "byte list"
  b64_io :: nat
  b64_st :: nat

definition b64_init :: b64_state where
  "b64_init = \<lparr>b64_out = [], b64_io = 0, b64_st = 0\<rparr>"

text \<open>\<open>out[io] |= x\<close>\<close>

definition b64_or :: "byte \<Rightarrow> b64_state \<Rightarrow> byte list" where
  "b64_or x s = (b64_out s)[b64_io s := b64_out s ! b64_io s OR x]"

text \<open>
  The \<open>switch (state)\<close> of the loop body, for a digit value \<open>v < 64\<close>. A character appended to \<open>out\<close> from
  an \<open>int\<close> keeps its low eight bits.
\<close>

definition b64_step :: "byte \<Rightarrow> b64_state \<Rightarrow> b64_state" where
  "b64_step v s =
     (if b64_st s = 0 then
        s\<lparr>b64_out := b64_out s @ [push_bit 2 v], b64_st := 1\<rparr>
      else if b64_st s = 1 then
        \<lparr>b64_out = b64_or (drop_bit 4 v) s @ [push_bit 4 (v AND 0x0f)],
         b64_io = b64_io s + 1, b64_st = 2\<rparr>
      else if b64_st s = 2 then
        \<lparr>b64_out = b64_or (drop_bit 2 v) s @ [push_bit 6 (v AND 0x03)],
         b64_io = b64_io s + 1, b64_st = 3\<rparr>
      else
        \<lparr>b64_out = b64_or v s, b64_io = b64_io s + 1, b64_st = 0\<rparr>)"

datatype b64_end =
    Bad b64_state    \<comment> \<open>\<open>return false\<close> on a character outside the alphabet\<close>
  | Pad b64_state    \<comment> \<open>\<open>break\<close> on the pad character\<close>
  | Eos b64_state    \<comment> \<open>the input is exhausted\<close>

fun b64_loop :: "string \<Rightarrow> b64_state \<Rightarrow> b64_end run" where
  "b64_loop [] s = Inr (Eos s)"
| "b64_loop (ch # cs) s =
     (case b64_value ch of
        Inl e \<Rightarrow> Inl e
      | Inr val \<Rightarrow>
          if val = 255 then b64_loop cs s
          else if ch = Pad64 then Inr (Pad s)
          else if val = 256 then Inr (Bad s)
          else b64_loop cs (b64_step (of_nat val) s))"

text \<open>
  After the loop. With a pad character, states 0 and 1 are errors; in states 2 and 3 the code walks over
  what follows the pad (reading at most \<open>in[in.size()]\<close>, which is a null character) without looking at it
  for anything but a debug message, clears the partial byte and drops it. Without one, the state has to be 0.
  The result is the return value and the \<open>out\<close> parameter.
\<close>

definition b64_finish :: "b64_end \<Rightarrow> bool \<times> string" where
  "b64_finish e =
     (case e of
        Bad s \<Rightarrow> (False, map char_of_byte (b64_out s))
      | Pad s \<Rightarrow>
          if b64_st s = 0 \<or> b64_st s = 1 then (False, map char_of_byte (b64_out s))
          else (True, map char_of_byte (take (b64_io s) ((b64_out s)[b64_io s := 0])))
      | Eos s \<Rightarrow> (b64_st s = 0, map char_of_byte (b64_out s)))"

definition base64_decode :: "string \<Rightarrow> (bool \<times> string) run" where
  "base64_decode inp =
     (case b64_loop inp b64_init of Inl e \<Rightarrow> Inl e | Inr r \<Rightarrow> Inr (b64_finish r))"

section \<open>Encoder\<close>

definition b64_char :: "byte \<Rightarrow> char" where
  "b64_char v = Base64_chars ! unat v"

text \<open>The four output digits of an input group, \<open>output[0]\<close> to \<open>output[3]\<close>.\<close>

definition b64_o0 :: "byte \<Rightarrow> byte" where
  "b64_o0 a = drop_bit 2 a"

definition b64_o1 :: "byte \<Rightarrow> byte \<Rightarrow> byte" where
  "b64_o1 a b = push_bit 4 (a AND 0x03) + drop_bit 4 b"

definition b64_o2 :: "byte \<Rightarrow> byte \<Rightarrow> byte" where
  "b64_o2 b c = push_bit 2 (b AND 0x0f) + drop_bit 6 c"

definition b64_o3 :: "byte \<Rightarrow> byte" where
  "b64_o3 c = c AND 0x3f"

text \<open>The \<open>while (2 < srclength)\<close> loop takes three bytes at a time; one or two left over are padded.\<close>

fun base64_encode :: "string \<Rightarrow> string" where
  "base64_encode (x # y # z # cs) =
     (let a = byte_of x; b = byte_of y; c = byte_of z in
      b64_char (b64_o0 a) # b64_char (b64_o1 a b) # b64_char (b64_o2 b c) # b64_char (b64_o3 c) #
      base64_encode cs)"
| "base64_encode [x, y] =
     (let a = byte_of x; b = byte_of y in
      [b64_char (b64_o0 a), b64_char (b64_o1 a b), b64_char (b64_o2 b 0), Pad64])"
| "base64_encode [x] =
     (let a = byte_of x in [b64_char (b64_o0 a), b64_char (b64_o1 a 0), Pad64, Pad64])"
| "base64_encode [] = []"

section \<open>Lemmas\<close>

subsection \<open>The tables are inverse on the digits\<close>

lemma length_b64values [simp]: "length b64values = 255"
  by (simp add: b64values_def)

lemma b64_tables:
  "list_all (\<lambda>n. b64_value (Base64_chars ! n) = Inr n \<and> Base64_chars ! n \<noteq> Pad64) [0..<64]"
  by (simp add: b64_value_def Base64_chars_def b64values_def Pad64_def upt_rec nth_Cons_numeral)

lemma b64_char_value:
  assumes "unat v < 64"
  shows "b64_value (b64_char v) = Inr (unat v)" and "b64_char v \<noteq> Pad64"
  using b64_tables assms by (auto simp: b64_char_def list_all_iff)

lemma b64_value_Pad [simp]: "b64_value Pad64 = Inr 254"
  by (simp add: b64_value_def b64values_def Pad64_def nth_Cons_numeral)

lemma b64_loop_digit:
  "unat v < 64 \<Longrightarrow> b64_loop (b64_char v # cs) s = b64_loop cs (b64_step v s)"
  by (simp add: b64_char_value)

lemma b64_loop_Pad [simp]: "b64_loop (Pad64 # cs) s = Inr (Pad s)"
  by simp

subsection \<open>Splitting three bytes into four digits and back\<close>

lemma less_8_cases: "(n :: nat) < 8 \<Longrightarrow> n = 0 \<or> n = 1 \<or> n = 2 \<or> n = 3 \<or> n = 4 \<or> n = 5 \<or> n = 6 \<or> n = 7"
  by arith

lemma byte_eqI:
  assumes "bit a 0 = bit b 0" "bit a 1 = bit b 1" "bit a 2 = bit b 2" "bit a 3 = bit b 3"
    "bit a 4 = bit b 4" "bit a 5 = bit b 5" "bit a 6 = bit b 6" "bit a 7 = bit b 7"
  shows "(a :: byte) = b"
proof (rule bit_word_eqI)
  fix n
  assume "n < LENGTH(8)"
  then have "n < 8" by simp
  from less_8_cases [OF this] assms show "bit a n = bit b n"
    by (elim disjE) simp_all
qed

lemma byte_bit_ge [simp]: "8 \<le> n \<Longrightarrow> \<not> bit (b :: byte) n"
  using bit_imp_le_length [of b n] by auto

lemma digit_bound: "\<not> bit (v :: byte) 6 \<Longrightarrow> \<not> bit v 7 \<Longrightarrow> unat v < 64"
proof -
  assume "\<not> bit v 6" "\<not> bit v 7"
  then have "take_bit 6 v = v"
    by (intro byte_eqI) (simp_all add: bit_simps)
  then have "unat v = take_bit 6 (unat v)"
    by (metis unsigned_take_bit_eq)
  then show ?thesis
    using take_bit_nat_less_exp [of 6 "unat v"] by simp
qed

lemma b64_o1_or: "b64_o1 a b = push_bit 4 (a AND 0x03) OR drop_bit 4 b"
  unfolding b64_o1_def
  by (rule disjunctive_add_eq_or, rule byte_eqI) (simp_all add: bit_simps)

lemma b64_o2_or: "b64_o2 b c = push_bit 2 (b AND 0x0f) OR drop_bit 6 c"
  unfolding b64_o2_def
  by (rule disjunctive_add_eq_or, rule byte_eqI) (simp_all add: bit_simps)

lemmas b64_o_defs = b64_o0_def b64_o1_or b64_o2_or b64_o3_def

lemma b64_o_bounds:
  "unat (b64_o0 a) < 64" "unat (b64_o1 a b) < 64" "unat (b64_o2 b c) < 64" "unat (b64_o3 c) < 64"
  unfolding b64_o_defs by ((rule digit_bound; simp add: bit_simps), (rule digit_bound; simp add: bit_simps),
    (rule digit_bound; simp add: bit_simps), (rule digit_bound; simp add: bit_simps))

lemma b64_group:
  "push_bit 2 (b64_o0 a) OR drop_bit 4 (b64_o1 a b) = a"
  "push_bit 4 (b64_o1 a b AND 15) OR drop_bit 2 (b64_o2 b c) = b"
  "push_bit 6 (b64_o2 b c AND 3) OR b64_o3 c = c"
  unfolding b64_o_defs by ((rule byte_eqI; simp add: bit_simps), (rule byte_eqI; simp add: bit_simps),
    (rule byte_eqI; simp add: bit_simps))

lemmas b64_groups = b64_group b64_group [simplified]

lemmas b64_digit = b64_loop_digit [OF b64_o_bounds(1)] b64_loop_digit [OF b64_o_bounds(2)]
  b64_loop_digit [OF b64_o_bounds(3)] b64_loop_digit [OF b64_o_bounds(4)]

subsection \<open>Round trip\<close>

lemma b64_group_step:
  assumes "b64_st s = 0" and "length (b64_out s) = b64_io s"
  shows "b64_step (b64_o3 c) (b64_step (b64_o2 b c) (b64_step (b64_o1 a b) (b64_step (b64_o0 a) s))) =
    s\<lparr>b64_out := b64_out s @ [a, b, c], b64_io := b64_io s + 3\<rparr>"
  using assms by (simp add: b64_step_def b64_or_def b64_groups nth_append list_update_append)

text \<open>Decoding what was encoded appends the bytes and ends on a byte boundary, or at a pad.\<close>

lemma b64_loop_encode:
  assumes "b64_st s = 0" and "length (b64_out s) = b64_io s"
  shows "\<exists>r. b64_loop (base64_encode xs) s = Inr r \<and>
    b64_finish r = (True, map char_of_byte (b64_out s) @ xs)"
  using assms
proof (induction xs arbitrary: s rule: base64_encode.induct)
  case (1 x y z cs)
  let ?s = "s\<lparr>b64_out := b64_out s @ [byte_of x, byte_of y, byte_of z], b64_io := b64_io s + 3\<rparr>"
  have "b64_loop (base64_encode (x # y # z # cs)) s = b64_loop (base64_encode cs) ?s"
    using "1.prems" by (simp add: Let_def b64_digit b64_group_step del: b64_loop.simps)
  moreover have "\<exists>r. b64_loop (base64_encode cs) ?s = Inr r \<and>
      b64_finish r = (True, map char_of_byte (b64_out ?s) @ cs)"
    using "1.prems" by (intro "1.IH" [OF refl refl refl]) simp_all
  ultimately show ?case by (simp del: base64_encode.simps)
next
  case (2 x y)
  have "push_bit 4 (b64_o1 (byte_of x) (byte_of y) AND 15) OR drop_bit 2 (b64_o2 (byte_of y) 0) = byte_of y"
    by (rule b64_group)
  with "2" show ?case
    by (simp add: Let_def b64_digit b64_step_def b64_or_def b64_groups nth_append list_update_append
        b64_finish_def del: b64_loop.simps(2))
next
  case (3 x)
  then show ?case
    by (simp add: Let_def b64_digit b64_step_def b64_or_def b64_groups nth_append list_update_append
        b64_finish_def del: b64_loop.simps(2))
next
  case 4
  then show ?case by (simp add: b64_finish_def)
qed

lemma base64_decode_encode: "base64_decode (base64_encode s) = Inr (True, s)"
  using b64_loop_encode [of b64_init s] by (auto simp: base64_decode_def b64_init_def)

text \<open>
  C18. Decoding an encoded string succeeds and gives back the string, for every sequence of bytes.
\<close>

theorem base64_roundtrip: "base64_decode (base64_encode s) = Inr (True, s)"
  by (rule base64_decode_encode)

subsection \<open>When decoding succeeds\<close>

definition b64_digit_char :: "char \<Rightarrow> bool" where
  "b64_digit_char c \<longleftrightarrow> (\<exists>v < 64. b64_value c = Inr v)"

definition b64_ws_char :: "char \<Rightarrow> bool" where
  "b64_ws_char c \<longleftrightarrow> b64_value c = Inr 255"

definition b64_plain :: "string \<Rightarrow> bool" where
  "b64_plain s \<longleftrightarrow> (\<forall>c \<in> set s. b64_digit_char c \<or> b64_ws_char c)"

lemma b64values_entries:
  "list_all (\<lambda>(i, v). v < 64 \<or> v = 255 \<or> v = 256 \<or> i = 61) (enumerate 0 b64values)"
  by (simp add: b64values_def)

lemma b64_value_cases:
  obtains (digit) "b64_digit_char c" | (ws) "b64_ws_char c" | (pad) "c = Pad64"
  | (bad) "b64_value c = Inr 256" | (beyond) "c = CHR 0xFF"
proof (cases "(of_char c :: nat) < 255")
  case True
  let ?i = "of_char c :: nat"
  have "(?i, b64values ! ?i) \<in> set (enumerate 0 b64values)"
    using True by (auto simp: in_set_enumerate_eq)
  then have "b64values ! ?i < 64 \<or> b64values ! ?i = 255 \<or> b64values ! ?i = 256 \<or> ?i = 61"
    using b64values_entries by (fastforce simp: list_all_iff)
  moreover have "c = Pad64" if "?i = 61"
  proof -
    from that have "?i = of_char Pad64"
      by (simp add: Pad64_def)
    then show ?thesis by (simp only: of_char_eq_iff)
  qed
  ultimately show ?thesis
    using True digit ws pad bad by (auto simp: b64_value_def b64_digit_char_def b64_ws_char_def)
next
  case False
  then have "(of_char c :: nat) = 255"
    using of_char_nat_less [of c] by linarith
  then have "(of_char c :: nat) = of_char (CHR 0xFF)"
    by simp
  then show ?thesis
    by (intro beyond) (simp only: of_char_eq_iff)
qed

lemma b64_value_ff [simp]: "b64_value (CHR 0xFF) = Inl BadAccess"
  by (simp add: b64_value_def)

lemma not_plain_chars [simp]:
  "\<not> b64_digit_char Pad64" "\<not> b64_ws_char Pad64" "\<not> b64_digit_char (CHR 0xFF)" "\<not> b64_ws_char (CHR 0xFF)"
  "b64_value c = Inr 256 \<Longrightarrow> \<not> b64_digit_char c" "b64_value c = Inr 256 \<Longrightarrow> \<not> b64_ws_char c"
  "b64_ws_char c \<Longrightarrow> \<not> b64_digit_char c"
  by (auto simp: b64_digit_char_def b64_ws_char_def)

text \<open>What holds of the decoder's state after \<open>n\<close> digits.\<close>

definition b64_inv :: "nat \<Rightarrow> b64_state \<Rightarrow> bool" where
  "b64_inv n s \<longleftrightarrow> b64_st s = n mod 4 \<and> b64_io s = 3 * n div 4 \<and>
     length (b64_out s) = b64_io s + (if n mod 4 = 0 then 0 else 1)"

lemma b64_inv_init: "b64_inv 0 b64_init"
  by (simp add: b64_inv_def b64_init_def)

lemma b64_inv_step:
  assumes "b64_inv n s"
  shows "b64_inv (Suc n) (b64_step v s)"
proof -
  have "\<exists>q. n = 4 * q \<or> n = 4 * q + 1 \<or> n = 4 * q + 2 \<or> n = 4 * q + 3"
    by presburger
  then obtain q where "n = 4 * q \<or> n = 4 * q + 1 \<or> n = 4 * q + 2 \<or> n = 4 * q + 3" ..
  with assms show ?thesis
    by (elim disjE; simp add: b64_inv_def b64_step_def b64_or_def mod_Suc; presburger?)
qed

lemma b64_loop_plain:
  assumes "b64_plain t" and "b64_inv n s"
  shows "\<exists>s'. b64_loop (t @ r) s = b64_loop r s' \<and> b64_inv (n + length (filter b64_digit_char t)) s'"
  using assms
proof (induction t arbitrary: n s)
  case Nil
  then show ?case by auto
next
  case (Cons c t)
  from Cons.prems have t: "b64_plain t"
    by (simp add: b64_plain_def)
  from Cons.prems consider (d) "b64_digit_char c" | (w) "b64_ws_char c"
    by (auto simp: b64_plain_def)
  then show ?case
  proof cases
    case d
    then obtain v where v: "v < 64" "b64_value c = Inr v"
      by (auto simp: b64_digit_char_def)
    moreover have "c \<noteq> Pad64"
      using d by auto
    ultimately have "b64_loop ((c # t) @ r) s = b64_loop (t @ r) (b64_step (of_nat v) s)"
      by simp
    moreover have "b64_inv (Suc n) (b64_step (of_nat v) s)"
      using Cons.prems by (intro b64_inv_step)
    ultimately show ?thesis
      using Cons.IH [OF t, of "Suc n" "b64_step (of_nat v) s"] d by auto
  next
    case w
    then have "b64_loop ((c # t) @ r) s = b64_loop (t @ r) s"
      by (simp add: b64_ws_char_def)
    then show ?thesis
      using Cons.IH [OF t Cons.prems(2)] w by simp
  qed
qed

text \<open>The three ways the loop ends, on an input cut at its first character that is no digit or white space.\<close>

abbreviation b64_count :: "string \<Rightarrow> nat" where
  "b64_count t \<equiv> length (filter b64_digit_char t)"

lemma b64_decode_eos:
  assumes "b64_plain t"
  shows "\<exists>out. base64_decode t = Inr (b64_count t mod 4 = 0, out) \<and>
    (b64_count t mod 4 = 0 \<longrightarrow> length out = 3 * b64_count t div 4)"
proof -
  obtain s' where "b64_loop t b64_init = Inr (Eos s')" "b64_inv (b64_count t) s'"
    using b64_loop_plain [OF assms b64_inv_init, of "[]"] by auto
  then show ?thesis
    by (auto simp: base64_decode_def b64_finish_def b64_inv_def)
qed

lemma b64_decode_pad:
  assumes "b64_plain t"
  shows "\<exists>out. base64_decode (t @ Pad64 # q) = Inr (b64_count t mod 4 = 2 \<or> b64_count t mod 4 = 3, out) \<and>
    (b64_count t mod 4 = 2 \<or> b64_count t mod 4 = 3 \<longrightarrow> length out = 3 * b64_count t div 4)"
proof -
  obtain s' where s': "b64_loop (t @ Pad64 # q) b64_init = Inr (Pad s')" "b64_inv (b64_count t) s'"
    using b64_loop_plain [OF assms b64_inv_init, of "Pad64 # q"] by auto
  have "b64_count t mod 4 < 4"
    by simp
  then have "b64_count t mod 4 \<in> {0, 1, 2, 3}"
    by auto
  with s' show ?thesis
    by (auto simp: base64_decode_def b64_finish_def b64_inv_def)
qed

lemma b64_decode_bad:
  assumes "b64_plain t" and "b64_value c = Inr 256"
  shows "\<exists>out. base64_decode (t @ c # q) = Inr (False, out)"
proof -
  have "c \<noteq> Pad64"
    using assms(2) by auto
  then obtain s' where "b64_loop (t @ c # q) b64_init = Inr (Bad s')"
    using b64_loop_plain [OF assms(1) b64_inv_init, of "c # q"] assms(2) by auto
  then show ?thesis
    by (simp add: base64_decode_def b64_finish_def)
qed

lemma b64_decode_beyond:
  assumes "b64_plain t"
  shows "base64_decode (t @ CHR 0xFF # q) = Inl BadAccess"
  using b64_loop_plain [OF assms b64_inv_init, of "CHR 0xFF # q"] by (auto simp: base64_decode_def)

lemma b64_plain_no_pad: "b64_plain t \<Longrightarrow> Pad64 \<notin> set t"
  by (auto simp: b64_plain_def)

lemma b64_split:
  obtains (eos) "b64_plain s" | (pad) t q where "s = t @ Pad64 # q" "b64_plain t"
  | (bad) t c q where "s = t @ c # q" "b64_plain t" "b64_value c = Inr 256"
  | (beyond) t q where "s = t @ CHR 0xFF # q" "b64_plain t"
proof (cases "b64_plain s")
  case True
  then show ?thesis by (rule eos)
next
  case False
  then obtain t c q where s: "s = t @ c # q" and c: "\<not> (b64_digit_char c \<or> b64_ws_char c)" and t: "b64_plain t"
    unfolding b64_plain_def using split_list_first_prop [of s "\<lambda>c. \<not> (b64_digit_char c \<or> b64_ws_char c)"]
    by auto
  show ?thesis
    by (cases c rule: b64_value_cases) (use s c t pad bad beyond in blast)+
qed

lemma takeWhile_pad: "b64_plain t \<Longrightarrow> takeWhile (\<lambda>c. c \<noteq> Pad64) (t @ r) = t @ takeWhile (\<lambda>c. c \<noteq> Pad64) r"
  by (intro takeWhile_append_all) (auto dest: b64_plain_no_pad)

lemma takeWhile_plain: "b64_plain t \<Longrightarrow> takeWhile (\<lambda>c. c \<noteq> Pad64) t = t"
  using takeWhile_pad [of t "[]"] by simp

text \<open>
  C19. Decoding returns true exactly when everything before the first pad character is a digit of the
  alphabet or white space, and the number of digits there is 0 modulo 4 when there is no pad, or 2 or 3
  modulo 4 when there is one. What follows the pad does not matter.
\<close>

theorem base64_decode_ok_iff:
  "(\<exists>out. base64_decode s = Inr (True, out)) \<longleftrightarrow>
    (let t = takeWhile (\<lambda>c. c \<noteq> Pad64) s; k = length (filter b64_digit_char t) in
     b64_plain t \<and> (if Pad64 \<in> set s then k mod 4 = 2 \<or> k mod 4 = 3 else k mod 4 = 0))"
proof (cases s rule: b64_split)
  case eos
  then show ?thesis
    using b64_decode_eos [OF eos] by (auto simp: Let_def takeWhile_plain b64_plain_no_pad mod_eq_0_iff_dvd)
next
  case (pad t q)
  then show ?thesis
    using b64_decode_pad [OF pad(2), of q] by (auto simp: Let_def takeWhile_pad)
next
  case (bad t c q)
  then have "c \<noteq> Pad64" "\<not> b64_plain (t @ c # takeWhile (\<lambda>c. c \<noteq> Pad64) q)"
    by (auto simp: b64_plain_def)
  then show ?thesis
    using bad b64_decode_bad [OF bad(2,3), of q] by (auto simp: Let_def takeWhile_pad)
next
  case (beyond t q)
  have "CHR 0xFF \<noteq> Pad64" "\<not> b64_plain (t @ CHR 0xFF # takeWhile (\<lambda>c. c \<noteq> Pad64) q)"
    by (auto simp: b64_plain_def Pad64_def)
  then show ?thesis
    using beyond b64_decode_beyond [OF beyond(2), of q] by (auto simp: Let_def takeWhile_pad)
qed

text \<open>
  A successful decoding returns three bytes for every four digits before the pad, rounded down.
\<close>

theorem base64_decode_length:
  assumes "base64_decode s = Inr (True, out)"
  shows "length out = 3 * length (filter b64_digit_char (takeWhile (\<lambda>c. c \<noteq> Pad64) s)) div 4"
proof (cases s rule: b64_split)
  case eos
  then show ?thesis
    using assms b64_decode_eos [OF eos] by (auto simp: takeWhile_plain)
next
  case (pad t q)
  then show ?thesis
    using assms b64_decode_pad [OF pad(2), of q] by (auto simp: takeWhile_pad)
next
  case (bad t c q)
  then show ?thesis
    using assms b64_decode_bad [OF bad(2,3), of q] by auto
next
  case (beyond t q)
  then show ?thesis
    using assms b64_decode_beyond [OF beyond(2), of q] by auto
qed

theorem base64_decode_length_witness:
  "length ''foob'' = 3 * length (filter b64_digit_char (takeWhile (\<lambda>c. c \<noteq> Pad64) (base64_encode ''foob''))) div 4"
  by (rule base64_decode_length) (rule base64_decode_encode)

text \<open>
  The table has no entry for byte 255: an input that reaches such a byte before a pad character or an
  invalid character makes the decoder read past the end of the table.
\<close>

theorem base64_decode_reads_past_table:
  assumes "b64_plain t"
  shows "base64_decode (t @ CHR 0xFF # q) = Inl BadAccess"
  using assms by (rule b64_decode_beyond)

theorem base64_decode_reads_past_table_witness: "base64_decode (''Zg '' @ CHR 0xFF # ''=='') = Inl BadAccess"
proof (rule base64_decode_reads_past_table)
  have "b64_digit_char (CHR ''Z'')" "b64_digit_char (CHR ''g'')" "b64_ws_char (CHR '' '')"
    by (simp_all add: b64_digit_char_def b64_ws_char_def b64_value_def b64values_def nth_Cons_numeral)
  then show "b64_plain ''Zg ''"
    by (simp add: b64_plain_def)
qed

end
