(* ===== verification/Str_Basic.thy ===== *)
theory Str_Basic
  imports Prelude
begin

text \<open>
  The elementary string helpers of \<open>src/utils/smallut.cpp\<close>: case conversion and comparison, prefix and
  suffix tests, trimming, common prefixes, replacement of characters and truncation at a word. Lemmas:
  comparison returns 0 exactly for case variants, trimming removes exactly the outer white space, the common
  prefix is the longest one, truncation cuts at a separator and keeps within the limit.
\<close>

section \<open>Case\<close>

definition stringtolower :: "string \<Rightarrow> string" where
  "stringtolower s = map to_lower s"

definition stringtoupper :: "string \<Rightarrow> string" where
  "stringtoupper s = map to_upper s"

text \<open>
  The loops of \<open>stringlowercmp\<close> and \<open>stringuppercmp\<close>, which differ in the conversion applied to the second
  string: they run over the shorter string and return at the first difference. Plain \<open>char\<close>s compare as
  signed values.
\<close>

fun casecmp_loop :: "(char \<Rightarrow> char) \<Rightarrow> string \<Rightarrow> string \<Rightarrow> int option" where
  "casecmp_loop conv (c1 # s1) (d # s2) =
     (let c2 = conv d in
      if c1 \<noteq> c2 then Some (if schar c1 > schar c2 then 1 else -1) else casecmp_loop conv s1 s2)"
| "casecmp_loop conv _ _ = None"

definition casecmp :: "(char \<Rightarrow> char) \<Rightarrow> string \<Rightarrow> string \<Rightarrow> int" where
  "casecmp conv s1 s2 =
     (if length s1 < length s2 then
        (case casecmp_loop conv s1 s2 of Some r \<Rightarrow> r | None \<Rightarrow> if length s1 = length s2 then 0 else -1)
      else
        (case casecmp_loop conv s1 s2 of Some r \<Rightarrow> r | None \<Rightarrow> if length s1 = length s2 then 0 else 1))"

definition stringlowercmp :: "string \<Rightarrow> string \<Rightarrow> int" where
  "stringlowercmp = casecmp to_lower"

definition stringuppercmp :: "string \<Rightarrow> string \<Rightarrow> int" where
  "stringuppercmp = casecmp to_upper"

text \<open>\<open>stringicmp\<close> is \<open>strcasecmp\<close> of the C library on the strings up to their first null byte.\<close>

definition c_str :: "string \<Rightarrow> string" where
  "c_str s = takeWhile (\<lambda>c. c \<noteq> CHR 0x00) s"

fun strcasecmp :: "string \<Rightarrow> string \<Rightarrow> int" where
  "strcasecmp [] [] = 0"
| "strcasecmp [] (d # t) = - of_char (to_lower d)"
| "strcasecmp (c # s) [] = of_char (to_lower c)"
| "strcasecmp (c # s) (d # t) =
     (if to_lower c = to_lower d then strcasecmp s t
      else of_char (to_lower c) - of_char (to_lower d))"

definition stringicmp :: "string \<Rightarrow> string \<Rightarrow> int" where
  "stringicmp s1 s2 = strcasecmp (c_str s1) (c_str s2)"

section \<open>Prefixes and suffixes\<close>

definition beginswith :: "string \<Rightarrow> string \<Rightarrow> bool" where
  "beginswith bg sml \<longleftrightarrow> substr bg 0 (length sml) = sml"

definition endswith :: "string \<Rightarrow> string \<Rightarrow> bool" where
  "endswith bg sml \<longleftrightarrow>
     (if length bg \<ge> length sml then substr bg (length bg - length sml) (length sml) = sml else False)"

text \<open>
  \<open>commonprefix(curpfx, value, aspaths)\<close>. The loop shortens the prefix until the value begins with it; the
  empty list stands for the \<open>return {}\<close> inside it, which no other exit gives.
\<close>

function commonprefix_loop :: "string \<Rightarrow> string \<Rightarrow> bool \<Rightarrow> string" where
  "commonprefix_loop pfx v aspaths =
     (if substr v 0 (length pfx) = pfx then pfx
      else if aspaths \<and> last pfx = CHR ''/'' \<and> butlast pfx = v then pfx
      else if butlast pfx = [] then []
      else commonprefix_loop (butlast pfx) v aspaths)"
  by pat_completeness auto
termination
  by (relation "measure (\<lambda>(pfx, v, aspaths). length pfx)") (auto simp: substr_def intro: diff_less)

declare commonprefix_loop.simps [simp del]

definition commonprefix :: "string \<Rightarrow> string \<Rightarrow> bool \<Rightarrow> string" where
  "commonprefix curpfx v aspaths =
     (if curpfx = [] then v
      else
        let pfx = commonprefix_loop curpfx v aspaths in
        if pfx = [] then []
        else if aspaths \<and> length v > length pfx \<and> last pfx \<noteq> CHR ''/'' \<and> v ! length pfx = CHR ''/''
        then pfx @ ''/'' else pfx)"

text \<open>The loop of the container version, and that version.\<close>

fun commonprefix_fold :: "string \<Rightarrow> bool \<Rightarrow> string list \<Rightarrow> string" where
  "commonprefix_fold pfx aspaths [] = pfx"
| "commonprefix_fold pfx aspaths (v # vs) =
     (let pfx' = commonprefix pfx v aspaths in
      if pfx' = [] then [] else commonprefix_fold pfx' aspaths vs)"

definition commonprefix_all :: "string list \<Rightarrow> bool \<Rightarrow> string" where
  "commonprefix_all vals aspaths =
     (if vals = [] then [] else if length vals = 1 then hd vals else commonprefix_fold [] aspaths vals)"

section \<open>Trimming\<close>

definition rtrimstring :: "string \<Rightarrow> string \<Rightarrow> string" where
  "rtrimstring s ws =
     (case find_last_not_of s ws of
        None \<Rightarrow> []
      | Some pos \<Rightarrow> if pos \<noteq> length s - 1 then take (pos + 1) s else s)"

definition ltrimstring :: "string \<Rightarrow> string \<Rightarrow> string" where
  "ltrimstring s ws =
     (case find_first_not_of s ws 0 of None \<Rightarrow> [] | Some pos \<Rightarrow> drop pos s)"

definition trimstring :: "string \<Rightarrow> string \<Rightarrow> string" where
  "trimstring s ws = ltrimstring (rtrimstring s ws) ws"

definition trim_dflt :: string where
  "trim_dflt = [CHR '' '', CHR 0x09]"

definition leftzeropad :: "string \<Rightarrow> nat \<Rightarrow> string" where
  "leftzeropad s len =
     (if s \<noteq> [] \<and> length s < len then replicate (len - length s) (CHR ''0'') @ s else s)"

section \<open>Replacement and truncation\<close>

text \<open>\<open>neutchars\<close>: each run of characters outside \<open>chars\<close> is copied, followed by \<open>rep\<close> unless it ends the string.\<close>

function neutchars_from :: "string \<Rightarrow> string \<Rightarrow> char \<Rightarrow> nat \<Rightarrow> string" where
  "neutchars_from str chars rep pos =
     (case find_first_not_of str chars pos of
        None \<Rightarrow> []
      | Some startPos \<Rightarrow>
          (case find_first_of str chars startPos of
             None \<Rightarrow> drop startPos str
           | Some p \<Rightarrow> substr str startPos (p - startPos) @ [rep] @ neutchars_from str chars rep p))"
  by pat_completeness auto
termination
  by (relation "measure (\<lambda>(str, chars, rep, pos). length str - pos)")
    (auto dest!: find_first_not_of_Some find_first_of_Some, metis le_neq_implies_less diff_less_mono2 le_less_trans)

declare neutchars_from.simps [simp del]

definition neutchars :: "string \<Rightarrow> string \<Rightarrow> char \<Rightarrow> string" where
  "neutchars str chars rep = neutchars_from str chars rep 0"

definition cstr_SEPAR :: string where
  "cstr_SEPAR = [CHR '' '', CHR 0x09, CHR 0x0A, CHR 0x0D] @ ''-:.;,/[]{}''"

definition truncate_to_word :: "string \<Rightarrow> nat \<Rightarrow> string" where
  "truncate_to_word inp maxlen =
     (if length inp \<le> maxlen then inp
      else
        let outp = substr inp 0 maxlen in
        case find_last_of outp cstr_SEPAR of None \<Rightarrow> [] | Some space \<Rightarrow> take space outp)"

section \<open>Lemmas\<close>

subsection \<open>Comparison\<close>

lemma casecmp_loop_Some: "casecmp_loop conv s1 s2 = Some r \<Longrightarrow> r = 1 \<or> r = -1"
  by (induction conv s1 s2 rule: casecmp_loop.induct) (auto simp: Let_def split: if_splits)

lemma casecmp_loop_None:
  "length s1 = length s2 \<Longrightarrow> casecmp_loop conv s1 s2 = None \<longleftrightarrow> s1 = map conv s2"
  by (induction conv s1 s2 rule: casecmp_loop.induct) (auto simp: Let_def)

lemma casecmp_zero: "casecmp conv s1 s2 = 0 \<longleftrightarrow> s1 = map conv s2"
proof (cases "length s1 = length s2")
  case True
  then show ?thesis
    using casecmp_loop_None [OF True, of conv] casecmp_loop_Some [of conv s1 s2]
    by (cases "casecmp_loop conv s1 s2") (auto simp: casecmp_def)
next
  case False
  moreover from False have "s1 \<noteq> map conv s2" by auto
  ultimately show ?thesis
    using casecmp_loop_Some [of conv s1 s2]
    by (cases "casecmp_loop conv s1 s2") (auto simp: casecmp_def)
qed

text \<open>
  \<open>stringlowercmp\<close> returns 0 exactly when its first argument is the lower-case form of the second, and
  \<open>stringuppercmp\<close> when it is the upper-case form; in particular neither returns 0 when the first
  argument breaks the stated precondition and is not in that case.
\<close>

theorem stringcmp_zero_iff:
  "(stringlowercmp s1 s2 = 0 \<longleftrightarrow> s1 = stringtolower s2) \<and>
   (stringuppercmp s1 s2 = 0 \<longleftrightarrow> s1 = stringtoupper s2)"
  by (simp add: stringlowercmp_def stringuppercmp_def casecmp_zero stringtolower_def stringtoupper_def)

lemma stringtolower_idem [simp]: "stringtolower (stringtolower s) = stringtolower s"
  by (simp add: stringtolower_def)

subsection \<open>Trimming\<close>

lemma ltrimstring_dropWhile: "ltrimstring s ws = dropWhile (\<lambda>c. c \<in> set ws) s"
proof (cases "find_idx (\<lambda>c. c \<notin> set ws) s")
  case None
  then have "dropWhile (\<lambda>c. c \<in> set ws) s = []"
    by (simp add: find_idx_None dropWhile_eq_Nil_conv)
  with None show ?thesis
    by (simp only: ltrimstring_def find_first_not_of_def drop_0 option.map option.case)
next
  case (Some i)
  then show ?thesis
    using find_idx_dropWhile [OF Some] by (simp add: ltrimstring_def find_first_not_of_def)
qed

lemma find_last_idx_rev:
  "find_last_idx P xs = map_option (\<lambda>i. length xs - 1 - i) (find_idx P (rev xs))"
proof (cases "find_idx P (rev xs)")
  case None
  then have "find_last_idx P xs = None"
    by (simp add: find_last_idx_None find_idx_None)
  with None show ?thesis by simp
next
  case (Some i)
  then have i: "i < length xs" "P (rev xs ! i)" "\<forall>j < i. \<not> P (rev xs ! j)"
    by (auto simp: find_idx_Some)
  have "\<not> P (xs ! j)" if "length xs - 1 - i < j" "j < length xs" for j
    using i(3) [rule_format, of "length xs - 1 - j"] that by (simp add: rev_nth)
  with i have "find_last_idx P xs = Some (length xs - 1 - i)"
    by (auto simp: find_last_idx_Some rev_nth)
  with Some show ?thesis by simp
qed

lemma rtrimstring_dropWhile: "rtrimstring s ws = rev (dropWhile (\<lambda>c. c \<in> set ws) (rev s))"
proof (cases "find_idx (\<lambda>c. c \<notin> set ws) (rev s)")
  case None
  then have "\<forall>c \<in> set s. c \<in> set ws"
    by (simp add: find_idx_None)
  with None show ?thesis
    by (simp add: rtrimstring_def find_last_not_of_def find_last_idx_rev dropWhile_eq_Nil_conv)
next
  case (Some i)
  then have i: "i < length s" by (simp add: find_idx_Some)
  have "rev (dropWhile (\<lambda>c. c \<in> set ws) (rev s)) = take (length s - i) s"
    using find_idx_dropWhile [OF Some] by (simp add: drop_rev)
  with i Some show ?thesis
    by (simp add: rtrimstring_def find_last_not_of_def find_last_idx_rev Suc_diff_Suc)
qed

lemma rev_dropWhile_decomp:
  "\<exists>b. s = rev (dropWhile P (rev s)) @ b \<and> (\<forall>c \<in> set b. P c)"
proof -
  have "rev s = takeWhile P (rev s) @ dropWhile P (rev s)"
    by simp
  then have "s = rev (dropWhile P (rev s)) @ rev (takeWhile P (rev s))"
    by (metis rev_append rev_rev_ident)
  then show ?thesis
    by (metis set_rev set_takeWhileD)
qed

lemma last_rev_dropWhile: "rev (dropWhile P (rev s)) \<noteq> [] \<Longrightarrow> \<not> P (last (rev (dropWhile P (rev s))))"
  by (simp add: last_rev hd_dropWhile)

lemma last_dropWhile: "dropWhile P xs \<noteq> [] \<Longrightarrow> last (dropWhile P xs) = last xs"
  by (induction xs) auto

text \<open>
  \<open>trimstring\<close> removes characters of the given set at both ends and nothing else, and leaves none of
  them there.
\<close>

theorem trimstring_spec:
  "(\<exists>a b. s = a @ trimstring s ws @ b \<and> set a \<subseteq> set ws \<and> set b \<subseteq> set ws) \<and>
   (if trimstring s ws = [] then True
    else hd (trimstring s ws) \<notin> set ws \<and> last (trimstring s ws) \<notin> set ws)"
proof -
  let ?P = "\<lambda>c. c \<in> set ws" and ?r = "rtrimstring s ws"
  obtain b where b: "s = ?r @ b" "set b \<subseteq> set ws"
    using rev_dropWhile_decomp [of s ?P] by (auto simp: rtrimstring_dropWhile)
  have a: "?r = takeWhile ?P ?r @ trimstring s ws"
    by (simp add: trimstring_def ltrimstring_dropWhile)
  have "set (takeWhile ?P ?r) \<subseteq> set ws"
    by (auto dest: set_takeWhileD)
  moreover have "s = takeWhile ?P ?r @ trimstring s ws @ b"
    using a b(1) by (metis append.assoc)
  moreover have "hd (trimstring s ws) \<notin> set ws \<and> last (trimstring s ws) \<notin> set ws" if "trimstring s ws \<noteq> []"
  proof -
    from that have ne: "dropWhile ?P ?r \<noteq> []"
      by (simp add: trimstring_def ltrimstring_dropWhile)
    then have "?r \<noteq> []" by auto
    then have "last ?r \<notin> set ws"
      using last_rev_dropWhile [of ?P s] by (simp add: rtrimstring_dropWhile)
    with ne show ?thesis
      using hd_dropWhile [OF ne] by (simp add: trimstring_def ltrimstring_dropWhile last_dropWhile)
  qed
  ultimately show ?thesis
    using b(2) by (metis (full_types))
qed

subsection \<open>Common prefix\<close>

lemma substr_prefix_iff: "substr v 0 (length p) = p \<longleftrightarrow> prefix p v"
  by (auto simp: substr_def take_is_prefix prefix_def) (metis append_eq_conv_conj)

lemma prefix_butlast_iff: "prefix q p \<Longrightarrow> \<not> prefix p v \<Longrightarrow> prefix q v \<Longrightarrow> prefix q (butlast p)"
  by (metis append_butlast_last_id prefix_order.eq_iff prefix_snoc prefix_bot.bot_least butlast.simps(1))

lemma commonprefix_loop_longest:
  "prefix (commonprefix_loop p v False) p \<and> prefix (commonprefix_loop p v False) v \<and>
   (prefix q p \<and> prefix q v \<longrightarrow> prefix q (commonprefix_loop p v False))"
proof (induction p v False rule: commonprefix_loop.induct)
  case (1 p v)
  show ?case
  proof (cases "prefix p v")
    case True
    then have "commonprefix_loop p v False = p"
      by (subst commonprefix_loop.simps) (simp add: substr_prefix_iff)
    with True show ?thesis by simp
  next
    case False
    show ?thesis
    proof (cases "butlast p = []")
      case True
      then have "commonprefix_loop p v False = []"
        using False by (subst commonprefix_loop.simps) (simp add: substr_prefix_iff)
      moreover have "prefix q (butlast p)" if "prefix q p" "prefix q v"
        using prefix_butlast_iff [OF that(1) False that(2)] .
      ultimately show ?thesis
        using True by auto
    next
      case ne: False
      then have eq: "commonprefix_loop p v False = commonprefix_loop (butlast p) v False"
        using False by (subst commonprefix_loop.simps) (simp add: substr_prefix_iff)
      have IH: "prefix (commonprefix_loop (butlast p) v False) (butlast p) \<and>
          prefix (commonprefix_loop (butlast p) v False) v \<and>
          (prefix q (butlast p) \<and> prefix q v \<longrightarrow> prefix q (commonprefix_loop (butlast p) v False))"
        using "1.hyps" False ne by (simp add: substr_prefix_iff)
      show ?thesis
        unfolding eq
        using IH prefix_butlast_iff [of q p v] False prefixeq_butlast [of p]
        by (auto intro: prefix_order.trans)
    qed
  qed
qed

lemma commonprefix_longest:
  assumes "cur \<noteq> []"
  shows "prefix (commonprefix cur v False) cur" "prefix (commonprefix cur v False) v"
    "prefix q cur \<Longrightarrow> prefix q v \<Longrightarrow> prefix q (commonprefix cur v False)"
  using assms commonprefix_loop_longest [of cur v q] by (auto simp: commonprefix_def Let_def)

lemma commonprefix_fold_longest:
  "cur \<noteq> [] \<Longrightarrow>
   (prefix (commonprefix_fold cur False vs) cur \<and> (\<forall>v \<in> set vs. prefix (commonprefix_fold cur False vs) v)) \<and>
   (prefix q cur \<longrightarrow> (\<forall>v \<in> set vs. prefix q v) \<longrightarrow> prefix q (commonprefix_fold cur False vs))"
proof (induction vs arbitrary: cur)
  case Nil
  then show ?case by simp
next
  case (Cons v vs)
  let ?c = "commonprefix cur v False"
  note c = commonprefix_longest [OF Cons.prems, where v = v]
  show ?case
  proof (cases "?c = []")
    case True
    then show ?thesis
      using c(3) [of q] by auto
  next
    case False
    then show ?thesis
      using Cons.IH [OF False] c(1,2) c(3) [of q] by (auto intro: prefix_order.trans)
  qed
qed

text \<open>
  For a non-empty list of values not taken as paths, \<open>commonprefix\<close> returns a prefix of every value, and
  every common prefix of the values is a prefix of it: it is the longest one.
\<close>

theorem commonprefix_all_longest:
  assumes "vals \<noteq> []"
  shows "(\<forall>v \<in> set vals. prefix q v) \<longleftrightarrow> prefix q (commonprefix_all vals False)"
proof -
  obtain v vs where vals: "vals = v # vs"
    using assms by (cases vals) auto
  show ?thesis
  proof (cases "v = []")
    case True
    then show ?thesis
      using vals by (auto simp: commonprefix_all_def commonprefix_def)
  next
    case False
    then have "commonprefix_all vals False = commonprefix_fold v False vs"
      using vals by (auto simp: commonprefix_all_def commonprefix_def)
    then show ?thesis
      using vals commonprefix_fold_longest [OF False, of vs q] by (auto intro: prefix_order.trans)
  qed
qed

theorem commonprefix_all_longest_witness:
  "prefix ''ab'' (commonprefix_all [''abc'', ''abd'', ''abcd''] False)"
  using commonprefix_all_longest [of "[''abc'', ''abd'', ''abcd'']" "''ab''"] by simp

subsection \<open>Truncation\<close>

text \<open>
  \<open>truncate_to_word\<close> returns its input when it is short enough; otherwise a prefix of at most \<open>maxlen - 1\<close>
  bytes, cut in front of a separator, or nothing when there is no separator in the first \<open>maxlen\<close> bytes.
\<close>

theorem truncate_to_word_spec:
  "if length s \<le> maxlen then truncate_to_word s maxlen = s
   else if \<exists>c \<in> set (take maxlen s). c \<in> set cstr_SEPAR then
     (\<exists>i < maxlen. truncate_to_word s maxlen = take i s \<and> s ! i \<in> set cstr_SEPAR \<and>
        (\<nexists>j. i < j \<and> j < maxlen \<and> s ! j \<in> set cstr_SEPAR))
   else truncate_to_word s maxlen = []"
proof (cases "find_last_idx (\<lambda>c. c \<in> set cstr_SEPAR) (take maxlen s)")
  case None
  then have "\<forall>c \<in> set (take maxlen s). c \<notin> set cstr_SEPAR"
    by (simp add: find_last_idx_None)
  with None show ?thesis
    by (auto simp: truncate_to_word_def substr_def find_last_of_def)
next
  case (Some i)
  then have i: "i < length (take maxlen s)" "take maxlen s ! i \<in> set cstr_SEPAR"
    "\<forall>j. i < j \<and> j < length (take maxlen s) \<longrightarrow> take maxlen s ! j \<notin> set cstr_SEPAR"
    unfolding find_last_idx_Some by blast+
  then have "\<exists>c \<in> set (take maxlen s). c \<in> set cstr_SEPAR"
    by (metis nth_mem)
  moreover have "take maxlen s ! i = s ! i"
    using i(1) by simp
  then have "s ! i \<in> set cstr_SEPAR"
    using i(2) by metis
  ultimately show ?thesis
    using Some i by (auto simp: truncate_to_word_def substr_def find_last_of_def min_def intro!: exI [of _ i])
qed

end
