(* ===== verification/Str_Tokens.thy ===== *)
theory Str_Tokens
  imports Str_Basic
begin

text \<open>
  Splitting strings and joining them (\<open>src/utils/smallut.cpp\<close>): the quoting parser \<open>stringToStrings\<close> with
  its four states and its inverse \<open>stringsToString\<close>, CSV output, and the splitters without quoting. The
  containers are lists, as for the \<open>std::list\<close> and \<open>std::vector\<close> instances. Lemmas: the round trip of
  the quoting pair on the tokens that survive it, tokens it does not preserve, \<open>stringToTokens\<close> against a
  reference splitter, and \<open>stringSplitString\<close> against joining.
\<close>

section \<open>The quoting parser\<close>

datatype tok_state = SPACE | TOKEN | INQUOTE | ESCAPE

type_synonym tok_acc = "string list \<times> string \<times> tok_state"

text \<open>One iteration of the loop over the characters, with the accumulated tokens and current token.\<close>

definition sts_step :: "string \<Rightarrow> char \<Rightarrow> tok_acc \<Rightarrow> tok_acc" where
  "sts_step addseps i acc = (case acc of (tokens, current, state) \<Rightarrow>
     if i = dquote then
       (case state of
          SPACE \<Rightarrow> (tokens, current, INQUOTE)
        | TOKEN \<Rightarrow> (tokens, current @ [dquote], TOKEN)
        | INQUOTE \<Rightarrow> (tokens @ [current], [], SPACE)
        | ESCAPE \<Rightarrow> (tokens, current @ [dquote], INQUOTE))
     else if i = backslash then
       (case state of
          SPACE \<Rightarrow> (tokens, current @ [backslash], TOKEN)
        | TOKEN \<Rightarrow> (tokens, current @ [backslash], TOKEN)
        | INQUOTE \<Rightarrow> (tokens, current, ESCAPE)
        | ESCAPE \<Rightarrow> (tokens, current @ [backslash], INQUOTE))
     else if i = blank \<or> i = tab \<or> i = newline \<or> i = cret then
       (case state of
          SPACE \<Rightarrow> (tokens, current, SPACE)
        | TOKEN \<Rightarrow> (tokens @ [current], [], SPACE)
        | INQUOTE \<Rightarrow> (tokens, current @ [i], INQUOTE)
        | ESCAPE \<Rightarrow> (tokens, current @ [i], ESCAPE))
     else if addseps \<noteq> [] \<and> i \<in> set addseps then
       (case state of
          ESCAPE \<Rightarrow> (tokens, current @ [i], INQUOTE)
        | INQUOTE \<Rightarrow> (tokens, current @ [i], INQUOTE)
        | SPACE \<Rightarrow> (tokens @ [[i]], current, SPACE)
        | TOKEN \<Rightarrow> (tokens @ [current] @ [[i]], [], SPACE))
     else
       (case state of
          ESCAPE \<Rightarrow> (tokens, current @ [i], INQUOTE)
        | SPACE \<Rightarrow> (tokens, current @ [i], TOKEN)
        | TOKEN \<Rightarrow> (tokens, current @ [i], TOKEN)
        | INQUOTE \<Rightarrow> (tokens, current @ [i], INQUOTE)))"

definition stringToStrings :: "string \<Rightarrow> string \<Rightarrow> bool \<times> string list" where
  "stringToStrings s addseps =
     (case fold (sts_step addseps) s ([], [], SPACE) of (tokens, current, state) \<Rightarrow>
        (case state of
           SPACE \<Rightarrow> (True, tokens)
         | TOKEN \<Rightarrow> (True, tokens @ [current])
         | INQUOTE \<Rightarrow> (False, tokens)
         | ESCAPE \<Rightarrow> (False, tokens)))"

section \<open>Joining with quotes\<close>

text \<open>What the loop body of \<open>stringsToString\<close> appends for a token.\<close>

definition has_blanks :: "string \<Rightarrow> bool" where
  "has_blanks tok \<longleftrightarrow> find_first_of tok [blank, tab, newline] 0 \<noteq> None"

definition quote_escape :: "string \<Rightarrow> string" where
  "quote_escape tok = concat (map (\<lambda>c. if c = dquote then [backslash, dquote] else [c]) tok)"

definition token_text :: "string \<Rightarrow> string" where
  "token_text tok =
     (if tok = [] then [dquote, dquote, blank]
      else
        (if has_blanks tok then [dquote] else []) @ quote_escape tok @
        (if has_blanks tok then [dquote] else []) @ [blank])"

text \<open>\<open>stringsToString\<close> appends to its output parameter and then drops the last blank.\<close>

definition stringsToString_app :: "string list \<Rightarrow> string \<Rightarrow> string" where
  "stringsToString_app tokens s =
     (if tokens = [] then s else butlast (s @ concat (map token_text tokens)))"

definition stringsToString :: "string list \<Rightarrow> string" where
  "stringsToString tokens = stringsToString_app tokens []"

definition csv_text :: "char \<Rightarrow> string \<Rightarrow> string" where
  "csv_text sep tok =
     (let needquotes = (tok = [] \<or> find_first_of tok [sep, dquote, newline] 0 \<noteq> None) in
      (if needquotes then [dquote] else []) @
      concat (map (\<lambda>c. if c = dquote then [dquote, dquote] else [c]) tok) @
      (if needquotes then [dquote] else []) @ [sep])"

definition stringsToCSV :: "string list \<Rightarrow> char \<Rightarrow> string" where
  "stringsToCSV tokens sep =
     (let s = concat (map (csv_text sep) tokens) in if s \<noteq> [] then butlast s else s)"

section \<open>Splitting without quotes\<close>

function stringToTokens_loop ::
  "string \<Rightarrow> string \<Rightarrow> bool \<Rightarrow> nat \<Rightarrow> string list \<Rightarrow> string list" where
  "stringToTokens_loop str delims allowempty startPos tokens =
     (if startPos < length str then
        (case find_first_of str delims startPos of
           None \<Rightarrow> tokens @ [drop startPos str]
         | Some pos \<Rightarrow>
             if pos = startPos then
               stringToTokens_loop str delims allowempty (pos + 1)
                 (if allowempty \<or> tokens = [] then tokens @ [[]] else tokens)
             else
               stringToTokens_loop str delims allowempty (pos + 1)
                 (tokens @ [substr str startPos (pos - startPos)]))
      else tokens)"
  by pat_completeness auto
termination
  by (relation "measure (\<lambda>(str, delims, allowempty, startPos, tokens). length str - startPos)")
    (auto dest!: find_first_of_Some)

declare stringToTokens_loop.simps [simp del]

text \<open>\<open>tokens\<close> is an in-out parameter: what it holds on entry is kept, and counts for \<open>tokens.empty()\<close>.\<close>

definition stringToTokens :: "string \<Rightarrow> string list \<Rightarrow> string \<Rightarrow> bool \<Rightarrow> bool \<Rightarrow> string list" where
  "stringToTokens str tokens delims skipinit allowempty =
     (if skipinit then
        (case find_first_not_of str delims 0 of
           None \<Rightarrow> tokens
         | Some startPos \<Rightarrow> stringToTokens_loop str delims allowempty startPos tokens)
      else stringToTokens_loop str delims allowempty 0 tokens)"

text \<open>The loop of \<open>stringSplitString\<close>; the separator is not empty there.\<close>

function stringSplitString_loop :: "string \<Rightarrow> string \<Rightarrow> nat \<Rightarrow> string list \<Rightarrow> string list" where
  "stringSplitString_loop str sep startPos tokens =
     (if startPos < length str \<and> sep \<noteq> [] then
        (case find_str str sep startPos of
           None \<Rightarrow> tokens @ [drop startPos str]
         | Some pos \<Rightarrow>
             stringSplitString_loop str sep (pos + length sep)
               (if pos = startPos then tokens @ [[]]
                else tokens @ [substr str startPos (pos - startPos)]))
      else tokens)"
  by pat_completeness auto
termination
  by (relation "measure (\<lambda>(str, sep, startPos, tokens). length str - startPos)")
    (auto simp: find_str_def intro: diff_less_mono2)

declare stringSplitString_loop.simps [simp del]

definition stringSplitString :: "string \<Rightarrow> string list \<Rightarrow> string \<Rightarrow> string list" where
  "stringSplitString str tokens sep =
     (if str = [] \<or> sep = [] then tokens else stringSplitString_loop str sep 0 tokens)"

fun tokensToString_from :: "string \<Rightarrow> string \<Rightarrow> string list \<Rightarrow> string" where
  "tokensToString_from sep out [] = out"
| "tokensToString_from sep out (token # tokens) =
     tokensToString_from sep ((if out \<noteq> [] then out @ sep else out) @ token) tokens"

definition tokensToString :: "string list \<Rightarrow> string \<Rightarrow> string" where
  "tokensToString tokens sep = tokensToString_from sep [] tokens"

section \<open>The quoting pair\<close>

lemma has_blanks_iff: "has_blanks t \<longleftrightarrow> (\<exists>c \<in> set t. c = blank \<or> c = tab \<or> c = newline)"
  by (auto simp: has_blanks_def find_first_of_None)

lemma quote_escape_simps [simp]:
  "quote_escape [] = []"
  "quote_escape (c # t) = (if c = dquote then [backslash, dquote] else [c]) @ quote_escape t"
  by (simp_all add: quote_escape_def)

lemma quote_escape_id: "dquote \<notin> set t \<Longrightarrow> quote_escape t = t"
  by (induction t) auto

lemma fold_quoted:
  "backslash \<notin> set t \<Longrightarrow>
   fold (sts_step []) (quote_escape t) (toks, cur, INQUOTE) = (toks, cur @ t, INQUOTE)"
  by (induction t arbitrary: cur) (auto simp: sts_step_def)

lemma fold_raw:
  "\<forall>c \<in> set t. c \<notin> {dquote, blank, tab, newline, cret} \<Longrightarrow>
   fold (sts_step []) t (toks, cur, TOKEN) = (toks, cur @ t, TOKEN)"
  by (induction t arbitrary: cur) (auto simp: sts_step_def)

text \<open>The tokens that \<open>stringToStrings\<close> reads back unchanged from what \<open>stringsToString\<close> writes.\<close>

definition token_survives :: "string \<Rightarrow> bool" where
  "token_survives t \<longleftrightarrow>
     (if has_blanks t then backslash \<notin> set t else dquote \<notin> set t \<and> cret \<notin> set t)"

text \<open>The text of a token without the final blank, and the state in which it leaves the parser.\<close>

lemma fold_token_body:
  assumes "token_survives t"
  shows "fold (sts_step []) (butlast (token_text t)) (toks, [], SPACE) \<in>
    {(toks @ [t], [], SPACE), (toks, t, TOKEN)}"
proof (cases "has_blanks t")
  case True
  moreover have "t \<noteq> []"
    using True by (auto simp: has_blanks_iff)
  moreover have "backslash \<notin> set t"
    using assms True by (simp add: token_survives_def)
  ultimately have "fold (sts_step []) (butlast (token_text t)) (toks, [], SPACE) = (toks @ [t], [], SPACE)"
    by (simp add: token_text_def butlast_append fold_quoted sts_step_def)
  then show ?thesis by simp
next
  case False
  show ?thesis
  proof (cases t)
    case Nil
    then show ?thesis by (simp add: token_text_def sts_step_def)
  next
    case (Cons c u)
    have raw: "\<forall>c \<in> set t. c \<notin> {dquote, blank, tab, newline, cret}"
      using False assms by (auto simp: token_survives_def has_blanks_iff)
    then have "quote_escape t = t"
      by (intro quote_escape_id) auto
    then have "butlast (token_text t) = t"
      using False Cons by (simp add: token_text_def butlast_append del: quote_escape_simps)
    moreover have "fold (sts_step []) t (toks, [], SPACE) = fold (sts_step []) u (toks, [c], TOKEN)"
      using raw Cons by (auto simp: sts_step_def)
    moreover have "fold (sts_step []) u (toks, [c], TOKEN) = (toks, t, TOKEN)"
      using raw Cons by (subst fold_raw) auto
    ultimately show ?thesis by simp
  qed
qed

lemma token_text_snoc: "token_text t = butlast (token_text t) @ [blank]"
  by (simp add: token_text_def butlast_append)

lemma fold_token_text:
  "token_survives t \<Longrightarrow> fold (sts_step []) (token_text t) (toks, [], SPACE) = (toks @ [t], [], SPACE)"
  using fold_token_body [of t toks] by (subst token_text_snoc) (auto simp: sts_step_def)

lemma fold_token_texts:
  "\<forall>t \<in> set ts. token_survives t \<Longrightarrow>
   fold (sts_step []) (concat (map token_text ts)) (toks, [], SPACE) = (toks @ ts, [], SPACE)"
  by (induction ts arbitrary: toks) (auto simp: fold_token_text)

lemma stringToStrings_stringsToString:
  assumes "\<And>t. t \<in> set ts \<Longrightarrow> token_survives t"
  shows "stringToStrings (stringsToString ts) [] = (True, ts)"
proof (cases ts rule: rev_cases)
  case Nil
  then show ?thesis
    by (simp add: stringToStrings_def stringsToString_def stringsToString_app_def)
next
  case (snoc us t)
  have "concat (map token_text ts) = (concat (map token_text us) @ butlast (token_text t)) @ [blank]"
    using snoc token_text_snoc [of t] by simp
  then have "stringsToString ts = concat (map token_text us) @ butlast (token_text t)"
    using snoc by (simp only: stringsToString_def stringsToString_app_def butlast_snoc append_Nil) simp
  moreover have "fold (sts_step []) (concat (map token_text us)) ([], [], SPACE) = (us, [], SPACE)"
    using assms snoc fold_token_texts [of us "[]"] by simp
  moreover have "token_survives t"
    using assms snoc by simp
  ultimately show ?thesis
    using fold_token_body [of t us] snoc by (auto simp: stringToStrings_def)
qed

text \<open>
  \<open>stringToStrings\<close> reads back the list of tokens that \<open>stringsToString\<close> wrote, provided every token with a
  blank, tab or newline has no backslash, and every other token has no double quote and no carriage return.
\<close>

theorem strings_roundtrip:
  assumes "\<And>t. t \<in> set ts \<Longrightarrow> token_survives t"
  shows "stringToStrings (stringsToString ts) [] = (True, ts)"
  by (rule stringToStrings_stringsToString [OF assms])

theorem strings_roundtrip_witness:
  "stringToStrings (stringsToString [''one'', [], ''two '' @ [dquote] @ ''words'', [backslash]]) [] =
    (True, [''one'', [], ''two '' @ [dquote] @ ''words'', [backslash]])"
proof -
  have "list_all token_survives [''one'', [], ''two '' @ [dquote] @ ''words'', [backslash]]"
    by (simp add: token_survives_def has_blanks_iff)
  then show ?thesis
    unfolding list_all_iff by (intro strings_roundtrip) blast
qed

text \<open>
  The pair is not inverse on all tokens: a backslash inside a token with a blank is lost, since
  \<open>stringsToString\<close> does not escape it; a double quote in a token without a blank gains a backslash; and a
  carriage return splits a token without a blank.
\<close>

theorem strings_roundtrip_fails:
  "stringToStrings (stringsToString [''a '' @ [backslash] @ ''b'']) [] = (True, [''a b'']) \<and>
   stringToStrings (stringsToString [''a'' @ [dquote]]) [] = (True, [''a'' @ [backslash, dquote]]) \<and>
   stringToStrings (stringsToString [''a'' @ [cret] @ ''b'']) [] = (True, [''a'', ''b''])"
  by (simp add: stringToStrings_def stringsToString_def stringsToString_app_def token_text_def
      has_blanks_iff sts_step_def)

section \<open>Splitting\<close>

text \<open>The reference: the maximal runs of characters that are no delimiters.\<close>

function words_by :: "(char \<Rightarrow> bool) \<Rightarrow> string \<Rightarrow> string list" where
  "words_by d s =
     (case dropWhile d s of
        [] \<Rightarrow> []
      | c # cs \<Rightarrow> takeWhile (\<lambda>x. \<not> d x) (c # cs) # words_by d (dropWhile (\<lambda>x. \<not> d x) (c # cs)))"
  by pat_completeness auto
termination
proof (relation "measure (\<lambda>(d, s). length s)")
  fix d and s :: string and c cs
  assume eq: "dropWhile d s = c # cs"
  then have "\<not> d c"
    by (metis hd_dropWhile list.discI list.sel(1))
  then have "length (dropWhile (\<lambda>x. \<not> d x) (c # cs)) \<le> length cs"
    by (simp add: length_dropWhile_le)
  moreover have "length (c # cs) \<le> length s"
    unfolding eq [symmetric] by (rule length_dropWhile_le)
  ultimately show "((d, dropWhile (\<lambda>x. \<not> d x) (c # cs)), d, s) \<in> measure (\<lambda>(d, s). length s)"
    by simp
qed simp

declare words_by.simps [simp del]

lemma words_by_Nil [simp]: "words_by d [] = []"
  by (subst words_by.simps) simp

lemma words_by_delim: "d c \<Longrightarrow> words_by d (c # s) = words_by d s"
  by (subst words_by.simps, subst (2) words_by.simps) simp

lemma words_by_word:
  "\<not> d c \<Longrightarrow> words_by d (c # s) =
    takeWhile (\<lambda>x. \<not> d x) (c # s) # words_by d (dropWhile (\<lambda>x. \<not> d x) (c # s))"
  by (subst words_by.simps) simp

lemma words_by_cons:
  "w \<noteq> [] \<Longrightarrow> \<forall>c \<in> set w. \<not> d c \<Longrightarrow> d c \<Longrightarrow> words_by d (w @ c # rest) = w # words_by d rest"
proof -
  assume w: "w \<noteq> []" "\<forall>c \<in> set w. \<not> d c" "d c"
  obtain a w1 where a: "w = a # w1" using w by (cases w) auto
  have "takeWhile (\<lambda>x. \<not> d x) (w @ c # rest) = w" "dropWhile (\<lambda>x. \<not> d x) (w @ c # rest) = c # rest"
    using w by (simp_all add: takeWhile_append_all dropWhile_append_all)
  then show ?thesis using w words_by_word[of d a "w1 @ c # rest"] by (simp add: a words_by_delim)
qed

lemma words_by_dropWhile: "words_by d (dropWhile d s) = words_by d s"
  by (induction s) (auto simp: words_by_delim)

lemma words_by_all_delims: "\<forall>c \<in> set s. d c \<Longrightarrow> words_by d s = []"
  by (induction s) (auto simp: words_by_delim)

lemma words_by_all_words: "s \<noteq> [] \<Longrightarrow> \<forall>c \<in> set s. \<not> d c \<Longrightarrow> words_by d s = [s]"
proof (cases s)
  case (Cons c cs)
  moreover assume "\<forall>c \<in> set s. \<not> d c"
  ultimately have "takeWhile (\<lambda>x. \<not> d x) s = s" "dropWhile (\<lambda>x. \<not> d x) s = []" "\<not> d c"
    by (simp_all add: takeWhile_eq_all_conv dropWhile_eq_Nil_conv)
  with Cons show ?thesis
    by (metis words_by_word words_by_Nil)
qed simp

text \<open>From a position where the tokens so far, or the next character, rule out an empty first token.\<close>

lemma stringToTokens_loop_words:
  assumes "tokens \<noteq> [] \<or> startPos < length str \<and> str ! startPos \<notin> set delims"
  shows "stringToTokens_loop str delims False startPos tokens =
    tokens @ words_by (\<lambda>c. c \<in> set delims) (drop startPos str)"
  using assms
proof (induction str delims False startPos tokens rule: stringToTokens_loop.induct)
  case (1 str delims startPos tokens)
  let ?d = "\<lambda>c. c \<in> set delims" and ?u = "drop startPos str"
  show ?case
  proof (cases "startPos < length str")
    case False
    then show ?thesis by (subst stringToTokens_loop.simps) simp
  next
    case lt: True
    show ?thesis
    proof (cases "find_first_of str delims startPos")
      case None
      then have "words_by ?d ?u = [?u]"
        using lt by (intro words_by_all_words) (auto simp: find_first_of_None)
      with lt None show ?thesis
        by (subst stringToTokens_loop.simps) simp
    next
      case (Some pos)
      then obtain k where k: "find_idx ?d ?u = Some k" "pos = startPos + k"
        by (auto simp: find_first_of_def)
      from find_first_of_Some [OF Some] have pos: "startPos \<le> pos" "pos < length str" "?d (str ! pos)"
        "\<forall>j. startPos \<le> j \<and> j < pos \<longrightarrow> \<not> ?d (str ! j)" by auto
      have rest: "drop pos str = str ! pos # drop (pos + 1) str"
        using pos(2) by (simp add: Cons_nth_drop_Suc)
      show ?thesis
      proof (cases "pos = startPos")
        case True
        then have "tokens \<noteq> []"
          using "1.prems" pos(3) by auto
        then have "stringToTokens_loop str delims False startPos tokens =
            stringToTokens_loop str delims False (pos + 1) tokens"
          using lt Some True by (subst stringToTokens_loop.simps) simp
        also have "\<dots> = tokens @ words_by ?d (drop (pos + 1) str)"
          using "1.hyps"(1) [OF lt Some True] \<open>tokens \<noteq> []\<close> by simp
        finally show ?thesis
          using rest True pos(3) by (simp add: words_by_delim)
      next
        case False
        let ?t = "substr str startPos (pos - startPos)"
        have t: "takeWhile (\<lambda>x. \<not> ?d x) ?u = ?t" "dropWhile (\<lambda>x. \<not> ?d x) ?u = drop pos str"
          using find_idx_takeWhile [OF k(1)] find_idx_dropWhile [OF k(1)] k(2)
          by (simp_all add: substr_def add.commute)
        have "?u = str ! startPos # drop (Suc startPos) str" "\<not> ?d (str ! startPos)"
          using lt pos False by (auto simp: Cons_nth_drop_Suc)
        then have "words_by ?d ?u = ?t # words_by ?d (drop (pos + 1) str)"
          using words_by_word [of ?d "str ! startPos" "drop (Suc startPos) str"] t rest pos(3)
          by (simp add: words_by_delim)
        moreover have "stringToTokens_loop str delims False startPos tokens =
            stringToTokens_loop str delims False (pos + 1) (tokens @ [?t])"
          using lt Some False by (subst stringToTokens_loop.simps) simp
        moreover have "\<dots> = (tokens @ [?t]) @ words_by ?d (drop (pos + 1) str)"
          using "1.hyps"(2) [OF lt Some False] by simp
        ultimately show ?thesis by simp
      qed
    qed
  qed
qed

lemma words_no_delim: "w \<in> set (words_by d s) \<Longrightarrow> w \<noteq> [] \<and> (\<forall>c \<in> set w. \<not> d c)"
proof (induction "length s" arbitrary: s rule: less_induct)
  case less
  show ?case
  proof (cases s)
    case (Cons c t)
    show ?thesis
    proof (cases "d c")
      case True
      then show ?thesis using less.hyps[of t] less.prems Cons by (simp add: words_by_delim)
    next
      case False
      have smaller: "length (dropWhile (\<lambda>x. \<not> d x) s) < length s"
        using False Cons length_dropWhile_le[of "\<lambda>x. \<not> d x" t] by (simp add: le_imp_less_Suc)
      show ?thesis
      proof -
        let ?w = "takeWhile (\<lambda>x. \<not> d x) s" and ?r = "dropWhile (\<lambda>x. \<not> d x) s"
        have "w = ?w \<or> w \<in> set (words_by d ?r)" using less.prems words_by_word[of d c t] False Cons by simp
        moreover have "?w \<noteq> []" "\<forall>x \<in> set ?w. \<not> d x" using False Cons by (auto dest: set_takeWhileD)
        ultimately show ?thesis using less.hyps[of ?r] smaller by metis
      qed
    qed
  qed (use less in simp)
qed


lemma stringToTokens_words_by:
  "stringToTokens str tokens delims True False = tokens @ words_by (\<lambda>c. c \<in> set delims) str"
proof (cases "find_first_not_of str delims 0")
  case None
  then have "words_by (\<lambda>c. c \<in> set delims) str = []"
    by (intro words_by_all_delims) (simp add: find_first_not_of_None)
  with None show ?thesis by (simp add: stringToTokens_def)
next
  case (Some p)
  then have "find_idx (\<lambda>c. c \<notin> set delims) str = Some p"
    by (simp add: find_first_not_of_def option.map_ident)
  then have "dropWhile (\<lambda>c. c \<in> set delims) str = drop p str"
    by (auto dest: find_idx_dropWhile)
  then have "words_by (\<lambda>c. c \<in> set delims) (drop p str) = words_by (\<lambda>c. c \<in> set delims) str"
    using words_by_dropWhile [of "\<lambda>c. c \<in> set delims" str] by simp
  with Some find_first_not_of_Some [OF Some] show ?thesis
    by (simp add: stringToTokens_def stringToTokens_loop_words)
qed

text \<open>
  With its default flags \<open>stringToTokens\<close> appends exactly the maximal runs of non-delimiters, in order.
\<close>

theorem stringToTokens_words:
  "stringToTokens str tokens delims True False = tokens @ words_by (\<lambda>c. c \<in> set delims) str"
  by (rule stringToTokens_words_by)

text \<open>Splitting at a string, on the text that is left, and joining.\<close>

function split_by :: "string \<Rightarrow> string \<Rightarrow> string list" where
  "split_by sep u =
     (if u = [] \<or> sep = [] then []
      else (case find_sub sep u of None \<Rightarrow> [u] | Some i \<Rightarrow> take i u # split_by sep (drop (i + length sep) u)))"
  by pat_completeness auto
termination
  by (relation "measure (\<lambda>(sep, u). length u)") auto

declare split_by.simps [simp del]

fun join_with :: "string \<Rightarrow> string list \<Rightarrow> string" where
  "join_with sep [] = []"
| "join_with sep [t] = t"
| "join_with sep (t # ts) = t @ sep @ join_with sep ts"

lemma stringSplitString_loop_split:
  "sep \<noteq> [] \<Longrightarrow> stringSplitString_loop str sep p tokens = tokens @ split_by sep (drop p str)"
proof (induction str sep p tokens rule: stringSplitString_loop.induct)
  case (1 str sep p tokens)
  let ?u = "drop p str"
  show ?case
  proof (cases "p < length str")
    case False
    then show ?thesis
      by (subst stringSplitString_loop.simps, subst split_by.simps) simp
  next
    case lt: True
    show ?thesis
    proof (cases "find_sub sep ?u")
      case None
      then show ?thesis
        using lt "1.prems"
        by (subst stringSplitString_loop.simps, subst split_by.simps) (simp add: find_str_def)
    next
      case (Some i)
      let ?toks = "if p + i = p then tokens @ [[]] else tokens @ [substr str p (p + i - p)]"
      have find: "find_str str sep p = Some (p + i)"
        using lt Some by (simp add: find_str_def)
      have "stringSplitString_loop str sep p tokens =
          stringSplitString_loop str sep (p + i + length sep) ?toks"
        using lt "1.prems" find by (subst stringSplitString_loop.simps) simp
      also have "\<dots> = ?toks @ split_by sep (drop (p + i + length sep) str)"
        using "1.IH" [OF _ find] lt "1.prems" by simp
      also have "?toks = tokens @ [take i ?u]"
        by (simp add: substr_def)
      finally show ?thesis
        using lt "1.prems" Some by (subst split_by.simps) (simp add: add.commute add.left_commute)
    qed
  qed
qed

lemma take_no_sep:
  assumes "find_sub sep u = Some i" and "sep \<noteq> []"
  shows "\<not> sublist sep (take i u)"
proof
  assume "sublist sep (take i u)"
  then obtain a b where ab: "take i u = a @ sep @ b"
    by (auto simp: sublist_def)
  then have "length a + length sep \<le> i"
    by (metis add.assoc le_add1 length_append length_take min.boundedE)
  then have "length a < i"
    using assms(2) by (cases sep) auto
  moreover have "prefix sep (drop (length a) u)"
    using ab append_take_drop_id [of i u] by (metis append.assoc append_eq_conv_conj prefixI)
  ultimately show False
    using find_sub_first [OF assms(1)] by blast
qed

lemma split_by_nonempty: "u \<noteq> [] \<Longrightarrow> sep \<noteq> [] \<Longrightarrow> split_by sep u \<noteq> []"
  by (subst split_by.simps) (auto split: option.splits)

lemma split_by_spec:
  "u \<noteq> [] \<Longrightarrow> sep \<noteq> [] \<Longrightarrow>
   (u = join_with sep (split_by sep u) \<or> u = join_with sep (split_by sep u) @ sep) \<and>
   list_all (\<lambda>t. \<not> sublist sep t) (split_by sep u)"
proof (induction sep u rule: split_by.induct)
  case (1 sep u)
  show ?case
  proof (cases "find_sub sep u")
    case None
    then show ?thesis
      using "1.prems" find_sub_None [of sep u] by (subst (1 2 3) split_by.simps) simp
  next
    case (Some i)
    let ?r = "drop (i + length sep) u"
    have split: "split_by sep u = take i u # split_by sep ?r"
      using "1.prems" Some by (subst split_by.simps) simp
    have u: "u = take i u @ sep @ ?r"
      using find_sub_Some [OF Some] by (metis add.commute append_take_drop_id drop_drop prefix_decomp)
    show ?thesis
    proof (cases "?r = []")
      case True
      then have "split_by sep u = [take i u]"
        using split by (simp add: split_by.simps)
      then show ?thesis
        using u True take_no_sep [OF Some "1.prems"(2)] by simp
    next
      case False
      then obtain t ts where ts: "split_by sep ?r = t # ts"
        using split_by_nonempty [OF False "1.prems"(2)] by (cases "split_by sep ?r") auto
      then have "join_with sep (split_by sep u) = take i u @ sep @ join_with sep (split_by sep ?r)"
        using split by simp
      then show ?thesis
        using "1.IH" [OF _ Some False "1.prems"(2)] "1.prems" u split take_no_sep [OF Some "1.prems"(2)]
        by auto
    qed
  qed
qed

text \<open>
  Splitting a non-empty string at a non-empty separator gives tokens without the separator which,
  joined with it, give the string back, up to one separator at the end.
\<close>

theorem stringSplitString_join:
  assumes "str \<noteq> []" and "sep \<noteq> []"
  shows "(str = join_with sep (stringSplitString str [] sep) \<or>
      str = join_with sep (stringSplitString str [] sep) @ sep) \<and>
    list_all (\<lambda>t. \<not> sublist sep t) (stringSplitString str [] sep)"
  using split_by_spec [OF assms] assms
  by (simp add: stringSplitString_def stringSplitString_loop_split)

theorem stringSplitString_join_witness:
  "list_all (\<lambda>t. \<not> sublist '', '' t) (stringSplitString ''a, b, , c'' [] '', '')"
  using stringSplitString_join [of "''a, b, , c''" "'', ''"] by simp

end
