(* ===== verification/Str_Escape.thy ===== *)
theory Str_Escape
  imports Str_Tokens
begin

text \<open>
  Escaping and substitution (\<open>src/utils/smallut.cpp\<close>): the three character escapers, printf-like
  substitution in its three versions, hexadecimal printing, percent encoding and decoding, line breaking and the printing
  of flags. The escapers share an interface, the locale \<open>char_escaper\<close>: a non-empty image for every character,
  none of which is a prefix of another. Lemmas: such an escaper is injective on strings, escaped HTML holds
  no markup character, percent decoding inverts \<open>path_pcencode\<close> and every other percent encoding, the versions
  of \<open>pcSubst\<close> agree, and \<open>breakIntoLines\<close> only inserts newlines.
\<close>

section \<open>Escapers\<close>

definition html_escape :: "char \<Rightarrow> string" where
  "html_escape c =
     (if c = CHR ''<'' then ''&lt;''
      else if c = CHR ''>'' then ''&gt;''
      else if c = CHR ''&'' then ''&amp;''
      else if c = dquote then ''&quot;''
      else if c = CHR 0x27 then ''&#39;''
      else [c])"

definition escapeHtml :: "string \<Rightarrow> string" where
  "escapeHtml s = concat (map html_escape s)"

definition shell_escape :: "char \<Rightarrow> string" where
  "shell_escape c =
     (if c = CHR ''$'' then [backslash, CHR ''$'']
      else if c = CHR 0x60 then [backslash, CHR 0x60]
      else if c = dquote then [backslash, dquote]
      else if c = newline then [backslash, newline]
      else if c = backslash then [backslash, backslash]
      else [c])"

definition escapeShell :: "string \<Rightarrow> string" where
  "escapeShell s = [dquote] @ concat (map shell_escape s) @ [dquote]"

definition cstring_escape :: "char \<Rightarrow> string" where
  "cstring_escape c =
     (if c = dquote then [backslash, dquote]
      else if c = newline then [backslash, CHR ''n'']
      else if c = cret then [backslash, CHR ''r'']
      else if c = backslash then [backslash, backslash]
      else [c])"

definition makeCString :: "string \<Rightarrow> string" where
  "makeCString s = [dquote] @ concat (map cstring_escape s) @ [dquote]"

section \<open>Substitution\<close>

text \<open>
  \<open>pcSubst\<close> with a map from characters. It appends to its output parameter; the function gives what is
  appended.
\<close>

fun pcSubst_chars :: "(char \<rightharpoonup> string) \<Rightarrow> string \<Rightarrow> string" where
  "pcSubst_chars subs [] = []"
| "pcSubst_chars subs [c] = [c]"
| "pcSubst_chars subs (c # d # cs) =
     (if c = CHR ''%'' then
        (if d = CHR ''%'' then ''%''
         else (case subs d of Some v \<Rightarrow> v | None \<Rightarrow> [CHR ''%'', d])) @ pcSubst_chars subs cs
      else c # pcSubst_chars subs (d # cs))"

text \<open>\<open>pcSubst\<close> with a function, which also takes keys in parentheses.\<close>

function (sequential) pcSubst_fn :: "(string \<Rightarrow> string) \<Rightarrow> string \<Rightarrow> string" where
  "pcSubst_fn mapper [] = []"
| "pcSubst_fn mapper [c] = [c]"
| "pcSubst_fn mapper (c # d # cs) =
     (if c = CHR ''%'' then
        (if d = CHR ''%'' then CHR ''%'' # pcSubst_fn mapper cs
         else if d = CHR ''('' then
           (if cs = [] then ''%(''
            else
              (case find_char cs (CHR '')'') 0 of
                 None \<Rightarrow> c # d # cs
               | Some j \<Rightarrow> mapper (take j cs) @ pcSubst_fn mapper (drop (Suc j) cs)))
         else mapper [d] @ pcSubst_fn mapper cs)
      else c # pcSubst_fn mapper (d # cs))"
  by pat_completeness auto
termination
  by (relation "measure (\<lambda>(m, s). length s)") auto

text \<open>\<open>PcSubstMapMapper::domap\<close> and the version with a map from strings.\<close>

definition domap :: "(string \<rightharpoonup> string) \<Rightarrow> string \<Rightarrow> string" where
  "domap subs key =
     (case subs key of
        Some v \<Rightarrow> v
      | None \<Rightarrow> ''%'' @ (if length key = 1 then key else ''('' @ key @ '')''))"

definition pcSubst_map :: "(string \<rightharpoonup> string) \<Rightarrow> string \<Rightarrow> string" where
  "pcSubst_map subs s = pcSubst_fn (domap subs) s"

section \<open>Hexadecimal and percent encoding\<close>

definition hex_digits :: string where
  "hex_digits = ''0123456789abcdef''"

definition hex_byte :: "char \<Rightarrow> string" where
  "hex_byte c = [hex_digits ! unat (drop_bit 4 (byte_of c)), hex_digits ! unat (byte_of c AND 0x0f)]"

text \<open>\<open>hexprint\<close>; a null separator means none.\<close>

fun hexprint :: "string \<Rightarrow> char \<Rightarrow> string" where
  "hexprint [] separ = []"
| "hexprint [c] separ = hex_byte c"
| "hexprint (c # cs) separ = hex_byte c @ (if separ \<noteq> CHR 0x00 then [separ] else []) @ hexprint cs separ"

definition h2d :: "char \<Rightarrow> int" where
  "h2d c =
     (if schar (CHR ''0'') \<le> schar c \<and> schar c \<le> schar (CHR ''9'') then schar c - schar (CHR ''0'')
      else if schar (CHR ''A'') \<le> schar c \<and> schar c \<le> schar (CHR ''F'') then 10 + schar c - schar (CHR ''A'')
      else if schar (CHR ''a'') \<le> schar c \<and> schar c \<le> schar (CHR ''f'') then 10 + schar c - schar (CHR ''a'')
      else -1)"

text \<open>The loop of \<open>pc_decode\<close> runs while three characters are left, the second loop copies the rest.\<close>

fun pc_decode_loop :: "string \<Rightarrow> string" where
  "pc_decode_loop (c # x # y # cs) =
     (if c = CHR ''%'' then
        (let d1 = h2d x; d2 = h2d y in
         if d1 \<noteq> -1 \<and> d2 \<noteq> -1 then char_of (push_bit 4 d1 + d2) # pc_decode_loop cs
         else [CHR ''%'', x, y] @ pc_decode_loop cs)
      else c # pc_decode_loop (x # y # cs))"
| "pc_decode_loop s = s"

definition pc_decode :: "string \<Rightarrow> string" where
  "pc_decode s = (if length s \<le> 2 then s else pc_decode_loop s)"

text \<open>
  \<open>path_pcencode\<close> (\<open>common/rclutil.cpp\<close>), the encoder of thumbnail names and printable URLs: the characters behind
  \<open>offs\<close> that are not printable ASCII or are in its list. A character is taken as a 32-bit unsigned value,
  with the sign of \<open>char\<close> spread over the upper bits.
\<close>

definition pcencode_char :: "char \<Rightarrow> string" where
  "pcencode_char ch =
     (let c = word_of_int (schar ch) :: 32 word; h = ''0123456789ABCDEF'' in
      if c \<le> 0x20 \<or> 0x7f \<le> c \<or> ch \<in> set (dquote # ''#%;<>?['' @ backslash # '']^`{|}'')
      then [CHR ''%'', h ! unat (drop_bit 4 c AND 0xf), h ! unat (c AND 0xf)]
      else [ch])"

definition path_pcencode :: "string \<Rightarrow> nat \<Rightarrow> string" where
  "path_pcencode url offs = take offs url @ concat (map pcencode_char (drop offs url))"

section \<open>Breaking lines\<close>

definition first_line :: "string \<Rightarrow> nat \<Rightarrow> string" where
  "first_line query ll =
     (let ss = substr query 0 ll in
      if length ss = ll then
        (case find_last_of ss '' '' of
           None \<Rightarrow> (case find_first_of query '' '' 0 of Some pos \<Rightarrow> substr query 0 (pos + 1) | None \<Rightarrow> query)
         | Some pos \<Rightarrow> take (pos + 1) ss)
      else ss)"

function breakIntoLines_loop :: "nat \<Rightarrow> nat \<Rightarrow> string \<Rightarrow> string \<Rightarrow> nat \<Rightarrow> string" where
  "breakIntoLines_loop ll maxlines query oq nlines =
     (if query \<noteq> [] then
        (let ss = first_line query ll in
         if ss = [] then query
         else if nlines \<ge> maxlines then oq @ ss @ [newline] @ '' ... '' @ [newline]
         else breakIntoLines_loop ll maxlines (drop (length ss) query) (oq @ ss @ [newline]) (nlines + 1))
      else oq)"
  by pat_completeness auto
termination
  by (relation "measure (\<lambda>(ll, maxlines, query, oq, nlines). length query)") auto

declare breakIntoLines_loop.simps [simp del]

definition breakIntoLines :: "string \<Rightarrow> nat \<Rightarrow> nat \<Rightarrow> string" where
  "breakIntoLines s ll maxlines = breakIntoLines_loop ll maxlines s [] 0"

section \<open>Flags\<close>

text \<open>An entry of the descriptive table; a null pointer for a name is \<open>None\<close>.\<close>

record CharFlags =
  cf_flag :: "32 word"
  yesname :: "string option"
  noname :: "string option"

fun flagsToString_from :: "CharFlags list \<Rightarrow> 32 word \<Rightarrow> string \<Rightarrow> string" where
  "flagsToString_from [] val out = out"
| "flagsToString_from (f # fs) val out =
     (let s = (if val AND cf_flag f = cf_flag f then yesname f else noname f) in
      flagsToString_from fs val
        (case s of
           None \<Rightarrow> out
         | Some t \<Rightarrow> if t = [] then out else (if out \<noteq> [] then out @ ''|'' else out) @ t))"

definition flagsToString :: "CharFlags list \<Rightarrow> 32 word \<Rightarrow> string" where
  "flagsToString fs val = flagsToString_from fs val []"

definition copybits :: "32 word \<Rightarrow> 32 word \<Rightarrow> 32 word \<Rightarrow> 32 word" where
  "copybits to frm msk = (to AND NOT msk) OR (frm AND msk)"

section \<open>The escaper interface\<close>

locale char_escaper =
  fixes esc :: "char \<Rightarrow> string"
  assumes esc_nonempty: "esc c \<noteq> []"
    and esc_prefix_free: "prefix (esc c) (esc d) \<Longrightarrow> c = d"
begin

lemma esc_concat_inj: "concat (map esc s) = concat (map esc t) \<Longrightarrow> s = t"
proof (induction s arbitrary: t)
  case Nil
  then show ?case
    by (cases t) (auto simp: esc_nonempty)
next
  case (Cons c s)
  then obtain d t' where t: "t = d # t'"
    by (cases t) (auto simp: esc_nonempty)
  with Cons.prems have eq: "esc c @ concat (map esc s) = esc d @ concat (map esc t')"
    by simp
  then have "prefix (esc c) (esc d) \<or> prefix (esc d) (esc c)"
    by (metis prefixI prefix_same_cases)
  then have "c = d"
    using esc_prefix_free by blast
  with eq Cons.IH t show ?case by simp
qed

lemma esc_concat_iff: "concat (map esc s) = concat (map esc t) \<longleftrightarrow> s = t"
  using esc_concat_inj by blast

end

interpretation html: char_escaper html_escape
  by unfold_locales (auto simp: html_escape_def split: if_splits)

interpretation shell: char_escaper shell_escape
  by unfold_locales (auto simp: shell_escape_def split: if_splits)

interpretation cstring: char_escaper cstring_escape
  by unfold_locales (auto simp: cstring_escape_def split: if_splits)

text \<open>
  \<open>escapeHtml\<close> leaves no angle bracket and no quote in its result, and different strings have different
  escaped forms.
\<close>

theorem escapeHtml_safe:
  "set (escapeHtml s) \<inter> {CHR ''<'', CHR ''>'', dquote, CHR 0x27} = {} \<and>
   (escapeHtml s = escapeHtml t \<longleftrightarrow> s = t)"
  by (auto simp: escapeHtml_def html.esc_concat_iff html_escape_def split: if_splits)

text \<open>\<open>makeCString\<close> is injective as well.\<close>

lemma makeCString_inj: "makeCString s = makeCString t \<longleftrightarrow> s = t"
  by (simp add: makeCString_def cstring.esc_concat_iff)

subsection \<open>What a shell makes of an escaped string\<close>

text \<open>
  How the POSIX shell reads the inside of a double-quoted string up to its closing quote (Shell Command
  Language, 2.2.3): a backslash is removed in front of a dollar, a backquote, a double quote or a backslash, a
  backslash and a newline after it are both removed, and an unescaped dollar or backquote starts an expansion. \<open>None\<close> stands
  for an expansion, for a string that is not closed, and for text after the closing quote.
\<close>

fun sh_dquoted :: "string \<Rightarrow> string option" where
  "sh_dquoted [] = None"
| "sh_dquoted [c] = (if c = dquote then Some [] else None)"
| "sh_dquoted (c # d # cs) =
     (if c = dquote \<or> c = CHR ''$'' \<or> c = CHR 0x60 then None
      else if c = backslash \<and> d = newline then sh_dquoted cs
      else if c = backslash \<and> d \<in> {CHR ''$'', CHR 0x60, dquote, backslash} then
        map_option ((#) d) (sh_dquoted cs)
      else map_option ((#) c) (sh_dquoted (d # cs)))"

lemma sh_dquoted_escape:
  "sh_dquoted (concat (map shell_escape s) @ [dquote]) = Some (filter (\<lambda>c. c \<noteq> newline) s)"
proof (induction s)
  case Nil
  then show ?case by simp
next
  case (Cons c s)
  obtain d ds where ds: "concat (map shell_escape s) @ [dquote] = d # ds"
    by (cases "concat (map shell_escape s) @ [dquote]") auto
  have "concat (map shell_escape (c # s)) @ [dquote] = shell_escape c @ (d # ds)"
    by (simp add: ds [symmetric])
  moreover have "sh_dquoted (shell_escape c @ (d # ds)) = Some (filter (\<lambda>c. c \<noteq> newline) (c # s))"
    using Cons.IH unfolding ds by (auto simp: shell_escape_def)
  ultimately show ?case by simp
qed

text \<open>
  C20. A shell reads the result of \<open>escapeShell\<close> as one double-quoted word without any expansion, whose value is
  the argument without its newlines: the backslash put in front of a newline makes the shell drop it.
\<close>

theorem escapeShell_read_back:
  "\<exists>body. escapeShell s = dquote # body \<and> sh_dquoted body = Some (filter (\<lambda>c. c \<noteq> newline) s)"
  by (simp add: escapeShell_def sh_dquoted_escape)

section \<open>Substitution\<close>

definition single_key :: "(char \<rightharpoonup> string) \<Rightarrow> string \<rightharpoonup> string" where
  "single_key m key = (case key of [c] \<Rightarrow> m c | _ \<Rightarrow> None)"

text \<open>
  On a format without an opening parenthesis the version of \<open>pcSubst\<close> for a map from strings substitutes
  as the one for a map from characters, and a format without a percent sign is copied.
\<close>

theorem pcSubst_versions_agree:
  assumes "CHR ''('' \<notin> set s"
  shows "pcSubst_map (single_key m) s = pcSubst_chars m s \<and>
    (CHR ''%'' \<notin> set s \<longrightarrow> pcSubst_map subs s = s)"
proof -
  have "pcSubst_fn (domap (single_key m)) s = pcSubst_chars m s"
    using assms
    by (induction m s rule: pcSubst_chars.induct) (auto simp: domap_def single_key_def split: option.splits)
  moreover have "CHR ''%'' \<notin> set s \<Longrightarrow> pcSubst_fn (domap subs) s = s"
    by (induction "domap subs" s rule: pcSubst_fn.induct) auto
  ultimately show ?thesis
    by (simp add: pcSubst_map_def)
qed

theorem pcSubst_versions_agree_witness:
  "pcSubst_map (single_key [CHR ''a'' \<mapsto> ''xy'']) ''1%a%%%b'' = pcSubst_chars [CHR ''a'' \<mapsto> ''xy''] ''1%a%%%b''"
  using pcSubst_versions_agree [of "''1%a%%%b''" "[CHR ''a'' \<mapsto> ''xy'']"] by simp

section \<open>Percent decoding\<close>

lemma h2d_hex: "list_all (\<lambda>n. h2d (hex_digits ! n) = int n) [0..<16]"
  by (simp add: h2d_def hex_digits_def schar_def upt_rec nth_Cons_numeral)

lemma h2d_hex_digit: "n < 16 \<Longrightarrow> h2d (hex_digits ! n) = int n"
  using h2d_hex by (simp add: list_all_iff)

lemma hex_byte_split:
  "hex_byte c = [hex_digits ! (of_char c div 16), hex_digits ! (of_char c mod 16)]"
proof -
  have "unat (drop_bit 4 (byte_of c)) = of_char c div 16"
    by (simp add: drop_bit_eq_div unat_div_distrib)
  moreover have "byte_of c AND 15 = take_bit 4 (byte_of c)"
    by (simp add: take_bit_eq_mask mask_eq_exp_minus_1)
  then have "unat (byte_of c AND 15) = of_char c mod 16"
    by (simp add: take_bit_eq_mod unat_mod_distrib)
  ultimately show ?thesis
    by (simp add: hex_byte_def)
qed

lemma pc_decode_loop_plain: "c \<noteq> CHR ''%'' \<Longrightarrow> pc_decode_loop (c # cs) = c # pc_decode_loop cs"
  by (cases cs rule: list.exhaust [case_names Nil Cons]; cases "tl cs") auto

lemma h2d_hex_text: "n < 16 \<Longrightarrow> h2d (hex_digit u n) = int n"
  by (rule hex_digits_read [where f = h2d and g = int]) (simp_all add: h2d_def schar_def upt_rec nth_Cons_numeral)

lemma pc_decode_loop_hex: "pc_decode_loop (CHR ''%'' # hex_text u c @ cs) = c # pc_decode_loop cs"
proof -
  obtain n :: nat where n: "n = of_char c" by simp
  have "push_bit 4 (int (n div 16)) + int (n mod 16) = int n"
    by (simp add: push_bit_eq_mult zdiv_int zmod_int)
  then have "char_of (push_bit 4 (int (n div 16)) + int (n mod 16)) = c"
    by (simp add: of_nat_of_char n)
  then show ?thesis
    using of_char_nibbles [of c] by (simp add: hex_text_def h2d_hex_text Let_def n)
qed

lemma pc_decode_loop_eq: "pc_decode s = pc_decode_loop s"
  by (cases s rule: pc_decode_loop.cases) (auto simp: pc_decode_def)

text \<open>An encoded text: a list of characters, each as it is or as a byte in hexadecimal digits of either case.\<close>

fun pc_item_text :: "char \<times> (bool \<times> bool) option \<Rightarrow> string" where
  "pc_item_text (c, None) = [c]"
| "pc_item_text (c, Some u) = CHR ''%'' # hex_text u c"

definition pc_items_ok :: "(char \<times> (bool \<times> bool) option) list \<Rightarrow> bool" where
  "pc_items_ok items \<longleftrightarrow> (CHR ''%'', None) \<notin> set items"

lemma pc_decode_items: "pc_items_ok items \<Longrightarrow> pc_decode (concat (map pc_item_text items)) = map fst items"
proof (induction items)
  case Nil
  then show ?case by (simp add: pc_decode_def)
next
  case (Cons it items)
  then have IH: "pc_decode_loop (concat (map pc_item_text items)) = map fst items"
    by (simp add: pc_items_ok_def pc_decode_loop_eq)
  obtain c u where "it = (c, u)" by (cases it)
  then show ?case
    using Cons.prems IH by (cases u) (auto simp: pc_items_ok_def pc_decode_loop_eq pc_decode_loop_hex pc_decode_loop_plain
        simp del: pc_decode_loop.simps)
qed

lemma schar_nibbles:
  "unat (drop_bit 4 (word_of_int (schar c) :: 32 word) AND 0xf) = of_char c div 16"
  "unat ((word_of_int (schar c) :: 32 word) AND 0xf) = of_char c mod 16"
proof -
  obtain w :: "32 word" where w: "w = word_of_int (schar c)" by simp
  obtain n :: nat where n: "n = of_char c" "n < 256" by simp
  have "schar c mod 256 = int n"
    using n by (auto simp: schar_def Let_def of_nat_of_char)
  then have "take_bit 8 w = word_of_nat n"
    unfolding w by (simp add: take_bit_of_int take_bit_eq_mod [of 8 "schar c"])
  moreover have "take_bit 32 n = n"
    using n(2) by (intro take_bit_nat_eq_self) simp
  ultimately have u: "unat (take_bit 8 w) = n"
    by (simp add: unsigned_of_nat)
  have m: "x AND 15 = take_bit 4 x" for x :: "32 word"
    by (simp add: take_bit_eq_mask mask_eq_exp_minus_1)
  have "drop_bit 4 w AND 15 = drop_bit 4 (take_bit 8 w)"
    by (simp add: m take_bit_drop_bit)
  then show "unat (drop_bit 4 (word_of_int (schar c) :: 32 word) AND 0xf) = of_char c div 16"
    using u n w by (simp add: drop_bit_eq_div unat_div_distrib)
  have "w AND 15 = take_bit 4 (take_bit 8 w)"
    by (simp add: m)
  then show "unat ((word_of_int (schar c) :: 32 word) AND 0xf) = of_char c mod 16"
    using u n w by (simp add: take_bit_eq_mod unat_mod_distrib)
qed

lemma pcencode_char_text:
  "pcencode_char c = [c] \<and> c \<noteq> CHR ''%'' \<or> pcencode_char c = pc_item_text (c, Some (True, True))"
  by (simp add: pcencode_char_def Let_def schar_nibbles hex_text_def hex_digit_def)

lemma pcencode_items:
  "\<exists>items. pc_items_ok items \<and> map fst items = s \<and> concat (map pc_item_text items) = concat (map pcencode_char s)"
proof (induction s)
  case Nil
  then show ?case by (intro exI [of _ "[]"]) (simp add: pc_items_ok_def)
next
  case (Cons c s)
  then obtain items where items: "pc_items_ok items" "map fst items = s"
      "concat (map pc_item_text items) = concat (map pcencode_char s)" by blast
  from pcencode_char_text [of c] show ?case
  proof
    assume "pcencode_char c = [c] \<and> c \<noteq> CHR ''%''"
    with items show ?case by (intro exI [of _ "(c, None) # items"]) (auto simp: pc_items_ok_def)
  next
    assume "pcencode_char c = pc_item_text (c, Some (True, True))"
    with items show ?case by (intro exI [of _ "(c, Some (True, True)) # items"]) (auto simp: pc_items_ok_def)
  qed
qed

lemma pc_decode_pcencode: "CHR ''%'' \<notin> set (take offs s) \<Longrightarrow> pc_decode (path_pcencode s offs) = s"
proof -
  assume no: "CHR ''%'' \<notin> set (take offs s)"
  obtain items where items: "pc_items_ok items" "map fst items = drop offs s"
      "concat (map pc_item_text items) = concat (map pcencode_char (drop offs s))"
    using pcencode_items by blast
  obtain pre where pre: "pre = map (\<lambda>c. (c, None :: (bool \<times> bool) option)) (take offs s)" by simp
  have "concat (map (pc_item_text \<circ> (\<lambda>c. (c, None))) xs) = xs" for xs
    by (induction xs) auto
  then have "concat (map pc_item_text (pre @ items)) = path_pcencode s offs"
    using items by (simp add: pre path_pcencode_def)
  moreover have "pc_items_ok (pre @ items)"
    using items no by (auto simp: pc_items_ok_def pre)
  ultimately have "pc_decode (path_pcencode s offs) = map fst (pre @ items)"
    using pc_decode_items by metis
  then show ?thesis
    using items by (simp add: pre comp_def)
qed

text \<open>
  C21. \<open>pc_decode\<close> reads back every percent encoding: a text in which any of the characters, the percent sign always, stand as a percent
  sign and the two hexadecimal digits of the byte, each digit in upper or in lower case. In particular it undoes
  \<open>path_pcencode\<close>, from any offset, when no percent sign stands in the part before the offset, which is left as it is.
\<close>

theorem pc_decode_roundtrip:
  "(pc_items_ok items \<longrightarrow> pc_decode (concat (map pc_item_text items)) = map fst items) \<and>
   (CHR ''%'' \<notin> set (take offs s) \<longrightarrow> pc_decode (path_pcencode s offs) = s)"
  using pc_decode_items pc_decode_pcencode by blast

theorem pc_decode_roundtrip_witness:
  "pc_decode (''100%25%4a%4A%aF'') = ''100%JJ'' @ [CHR 0xAF] \<and>
   path_pcencode ''file:///a b?'' 7 = ''file:///a%20b%3F'' \<and> pc_decode (path_pcencode ''file:///a b?'' 7) = ''file:///a b?''"
proof -
  obtain items where items: "items =
      [(CHR ''1'', None), (CHR ''0'', None), (CHR ''0'', None), (CHR ''%'', Some (True, True)),
       (CHR ''J'', Some (True, False)), (CHR ''J'', Some (False, True)), (CHR 0xAF, Some (False, True))]" by simp
  have "concat (map pc_item_text items) = ''100%25%4a%4A%aF''" "map fst items = ''100%JJ'' @ [CHR 0xAF]" "pc_items_ok items"
    unfolding items by code_simp+
  moreover have "path_pcencode ''file:///a b?'' 7 = ''file:///a%20b%3F''" "CHR ''%'' \<notin> set (take 7 ''file:///a b?'')"
    by code_simp+
  ultimately show ?thesis
    using pc_decode_roundtrip [of items 7 "''file:///a b?''"] by metis
qed

text \<open>
  What does not look like an encoded byte is not always left alone one character at a time: after a percent sign
  that starts no encoded byte the next two characters are skipped, so an encoded byte that
  begins there is not decoded.
\<close>

theorem pc_decode_skips_after_percent:
  "pc_decode (''%%'' @ hex_byte (CHR ''A'')) = ''%%41'' \<and> pc_decode (''%'' @ hex_byte (CHR ''A'')) = ''A''"
  by (simp add: pc_decode_def hex_byte_split hex_digits_def h2d_def schar_def nth_Cons_numeral push_bit_eq_mult char_of_def)

section \<open>Breaking lines\<close>

lemma first_line_take: "\<exists>n > 0. first_line q ll = take n q" if "q \<noteq> []"
proof -
  let ?ss = "substr q 0 ll"
  show ?thesis
  proof (cases "length ?ss = ll")
    case False
    then have "first_line q ll = take ll q" "ll \<noteq> 0"
      by (auto simp: first_line_def substr_def)
    then show ?thesis by auto
  next
    case full: True
    show ?thesis
    proof (cases "find_last_of ?ss '' ''")
      case (Some pos)
      then have "first_line q ll = take (pos + 1) q"
        using full find_last_idx_Some [of "\<lambda>c. c \<in> set '' ''" ?ss pos]
        by (simp add: first_line_def substr_def find_last_of_def min_def)
      then show ?thesis by auto
    next
      case None
      show ?thesis
      proof (cases "find_first_of q '' '' 0")
        case None': None
        then have "first_line q ll = take (length q) q"
          using full None by (simp add: first_line_def)
        then show ?thesis
          using that by blast
      next
        case (Some pos)
        then have "first_line q ll = take (pos + 1) q"
          using full None by (simp add: first_line_def substr_def)
        then show ?thesis by auto
      qed
    qed
  qed
qed

lemma first_line_decomp: "first_line q ll @ drop (length (first_line q ll)) q = q"
proof (cases "q = []")
  case True
  then show ?thesis
    by (simp add: first_line_def substr_def find_last_of_def find_first_of_def)
next
  case False
  then obtain n where "first_line q ll = take n q"
    using first_line_take by blast
  then show ?thesis
    by (metis append_eq_conv_conj append_take_drop_id)
qed

lemma first_line_nonempty: "q \<noteq> [] \<Longrightarrow> first_line q ll \<noteq> []"
  using first_line_take [of q ll] by auto

text \<open>A line is longer than the limit only when no blank occurs in it but at its end.\<close>

lemma first_line_fits: "if length (first_line q ll) \<le> ll then True else blank \<notin> set (butlast (first_line q ll))"
proof (cases "length (substr q 0 ll) = ll")
  case False
  then show ?thesis by (auto simp: first_line_def substr_def)
next
  case full: True
  show ?thesis
  proof (cases "find_last_of (substr q 0 ll) '' ''")
    case (Some pos)
    then have "pos < ll"
      using full find_last_idx_Some [of "\<lambda>c. c \<in> set '' ''" "substr q 0 ll" pos]
      by (simp add: find_last_of_def)
    then show ?thesis
      using full Some by (simp add: first_line_def substr_def)
  next
    case None
    show ?thesis
    proof (cases "find_first_of q '' '' 0")
      case None': None
      then have "blank \<notin> set q"
        by (auto simp: find_first_of_None)
      then show ?thesis
        using full None None' by (auto simp: first_line_def dest: in_set_butlastD)
    next
      case (Some pos)
      from find_first_of_Some [OF Some] have pos: "pos < length q" "\<forall>j < pos. q ! j \<noteq> blank"
        by auto
      then have "blank \<notin> set (take pos q)"
        by (auto simp: in_set_conv_nth)
      then show ?thesis
        using full None Some pos(1) by (simp add: first_line_def substr_def butlast_take)
    qed
  qed
qed

text \<open>The lines, without the limit on their number.\<close>

function lines_of :: "nat \<Rightarrow> string \<Rightarrow> string list" where
  "lines_of ll q = (if q = [] then [] else first_line q ll # lines_of ll (drop (length (first_line q ll)) q))"
  by pat_completeness auto
termination
  by (relation "measure (\<lambda>(ll, q). length q)") (auto simp: first_line_nonempty)

declare lines_of.simps [simp del]

lemma breakIntoLines_loop_lines:
  "nlines \<le> maxlines \<Longrightarrow> breakIntoLines_loop ll maxlines q oq nlines =
    oq @ concat (map (\<lambda>l. l @ [newline]) (take (maxlines + 1 - nlines) (lines_of ll q))) @
    (if length (lines_of ll q) > maxlines - nlines then '' ... '' @ [newline] else [])"
proof (induction ll maxlines q oq nlines rule: breakIntoLines_loop.induct)
  case (1 ll maxlines q oq nlines)
  show ?case
  proof (cases "q = []")
    case True
    then show ?thesis
      by (simp add: breakIntoLines_loop.simps lines_of.simps)
  next
    case ne: False
    let ?ss = "first_line q ll" and ?r = "drop (length (first_line q ll)) q"
    have ss: "?ss \<noteq> []"
      using ne by (rule first_line_nonempty)
    have ls: "lines_of ll q = ?ss # lines_of ll ?r"
      using ne by (subst lines_of.simps) simp
    show ?thesis
    proof (cases "nlines \<ge> maxlines")
      case True
      then have "nlines = maxlines"
        using "1.prems" by simp
      then show ?thesis
        using ne ss ls by (subst breakIntoLines_loop.simps) (simp add: Let_def)
    next
      case False
      then have "breakIntoLines_loop ll maxlines q oq nlines =
          breakIntoLines_loop ll maxlines ?r (oq @ ?ss @ [newline]) (nlines + 1)"
        using ne ss by (subst breakIntoLines_loop.simps) (simp add: Let_def)
      also have "\<dots> = (oq @ ?ss @ [newline]) @
          concat (map (\<lambda>l. l @ [newline]) (take (maxlines + 1 - (nlines + 1)) (lines_of ll ?r))) @
          (if length (lines_of ll ?r) > maxlines - (nlines + 1) then '' ... '' @ [newline] else [])"
        using "1.IH" [OF ne refl ss] False by simp
      finally show ?thesis
        using False ls by (simp add: Suc_diff_le) arith
    qed
  qed
qed

lemma lines_of_spec:
  "concat (lines_of ll q) = q \<and>
   list_all (\<lambda>l. l \<noteq> [] \<and> (if length l \<le> ll then True else blank \<notin> set (butlast l))) (lines_of ll q)"
proof (induction ll q rule: lines_of.induct)
  case (1 ll q)
  show ?case
  proof (cases "q = []")
    case True
    then show ?thesis by (simp add: lines_of.simps)
  next
    case False
    then have "lines_of ll q = first_line q ll # lines_of ll (drop (length (first_line q ll)) q)"
      by (subst lines_of.simps) simp
    then show ?thesis
      using "1.IH" [OF False] first_line_decomp [of q ll] first_line_nonempty [OF False, of ll]
        first_line_fits [of q ll] by simp
  qed
qed

text \<open>
  \<open>breakIntoLines\<close> cuts its input into non-empty lines, in order and without losing a character, each
  at most \<open>ll\<close> bytes long unless it has no blank before its last character; it writes the first \<open>maxlines + 1\<close>
  of them, and an ellipsis line when there are more than \<open>maxlines\<close>.
\<close>

theorem breakIntoLines_spec:
  "\<exists>ls. breakIntoLines s ll maxlines =
      concat (map (\<lambda>l. l @ [newline]) (take (maxlines + 1) ls)) @
      (if length ls > maxlines then '' ... '' @ [newline] else []) \<and>
    concat ls = s \<and>
    list_all (\<lambda>l. l \<noteq> [] \<and> (if length l \<le> ll then True else blank \<notin> set (butlast l))) ls"
  using breakIntoLines_loop_lines [of 0 maxlines ll s "[]"] lines_of_spec [of ll s]
  by (intro exI [of _ "lines_of ll s"]) (simp add: breakIntoLines_def)

end
