(* ===== verification/Str_Number.thy ===== *)
theory Str_Number
  imports Str_Tokens
begin

text \<open>
  Strings and numbers (\<open>src/utils/smallut.cpp\<close>): booleans, the HTTP range header, and the natural ordering
  of strings with numeric parts. Lemmas: a printed list of ranges is read back, the ordering is irreflexive and
  asymmetric where it returns, and it is not the strict weak ordering that sorting needs.
\<close>

section \<open>Booleans\<close>

definition stringToBool :: "string \<Rightarrow> bool run" where
  "stringToBool s =
     (if s = [] then Inr False
      else if is_digit (hd s) then (case atoi s of Inl e \<Rightarrow> Inl e | Inr val \<Rightarrow> Inr (val \<noteq> 0))
      else Inr (find_first_of s ''yYtT'' 0 = Some 0))"

section \<open>HTTP ranges\<close>

text \<open>\<open>part.empty() ? -1 : atoll(part)\<close>\<close>

definition range_bound :: "string \<Rightarrow> int run" where
  "range_bound part = (if part = [] then Inr (-1) else atoll part)"

text \<open>
  The loop over the comma-separated ranges. When the comma comes before the dash, the size computed for the second part
  wraps around to a count beyond the end of the string.
\<close>

function http_ranges_loop :: "string \<Rightarrow> nat \<Rightarrow> (int \<times> int) list \<Rightarrow> (bool \<times> (int \<times> int) list) run" where
  "http_ranges_loop ranges pos oranges =
     (case find_char ranges (CHR ''-'') pos of
        None \<Rightarrow> Inr (False, oranges)
      | Some dash \<Rightarrow>
          (let comma = find_char ranges (CHR '','') pos;
               firstPart = trimstring (substr ranges pos (dash - pos)) trim_dflt;
               secondPart = trimstring
                 (case comma of
                    None \<Rightarrow> drop (dash + 1) ranges
                  | Some c \<Rightarrow> if dash + 1 \<le> c then substr ranges (dash + 1) (c - dash - 1)
                             else drop (dash + 1) ranges) trim_dflt
           in case range_bound firstPart of
                Inl e \<Rightarrow> Inl e
              | Inr start \<Rightarrow>
                  (case range_bound secondPart of
                     Inl e \<Rightarrow> Inl e
                   | Inr fin \<Rightarrow>
                       if start = -1 \<and> fin = -1 then Inr (False, oranges)
                       else (case comma of
                               None \<Rightarrow> Inr (True, oranges @ [(start, fin)])
                             | Some c \<Rightarrow> http_ranges_loop ranges (c + 1) (oranges @ [(start, fin)])))))"
  by pat_completeness auto
termination
  by (relation "measure (\<lambda>(ranges, pos, oranges). length ranges - pos)")
    (auto dest!: find_char_Some find_char_Some [OF sym])

declare http_ranges_loop.simps [simp del]

definition parseHTTPRanges :: "string \<Rightarrow> (bool \<times> (int \<times> int) list) run" where
  "parseHTTPRanges ranges =
     (case find_str ranges ''bytes='' 0 of
        None \<Rightarrow> Inr (False, [])
      | Some p \<Rightarrow> http_ranges_loop ranges (p + 6) [])"

section \<open>Natural ordering\<close>

text \<open>
  \<open>extractNumber\<close> on the text from the index on: the number and what follows its digits, \<open>None\<close> where it
  returns false. \<open>std::stoi\<close> throws when the number exceeds an \<open>int\<close>.
\<close>

definition extractNumber :: "string \<Rightarrow> (nat \<times> string) option run" where
  "extractNumber s =
     (if s = [] then Inr None
      else
        let digits = takeWhile is_digit s in
        if digits = [] then Inr None
        else if dec_value digits < 2 ^ 31 then Inr (Some (dec_value digits, dropWhile is_digit s))
        else Inl OutOfRange)"

text \<open>
  \<open>naturalCompare\<close>: the indices \<open>i\<close> and \<open>j\<close> are represented by the texts that begin there. A number that was not
  extracted would be read uninitialised; both indices are at digits when that is asked.
\<close>

function natural_loop :: "nat \<Rightarrow> nat \<Rightarrow> string \<Rightarrow> string \<Rightarrow> bool run" where
  "natural_loop na nb (x # xs) (y # ys) =
     (if is_digit x \<and> is_digit y then
        (case extractNumber (x # xs) of
           Inr (Some (numA, xs')) \<Rightarrow>
             (case extractNumber (y # ys) of
                Inr (Some (numB, ys')) \<Rightarrow>
                  if numA \<noteq> numB then Inr (numA < numB)
                  else natural_loop na nb xs' ys'
              | Inr None \<Rightarrow> Inl BadAccess
              | Inl e \<Rightarrow> Inl e)
         | Inr None \<Rightarrow> Inl BadAccess
         | Inl e \<Rightarrow> Inl e)
      else if x \<noteq> y then Inr (schar x < schar y)
      else natural_loop na nb xs ys)"
| "natural_loop na nb [] ys = Inr (na < nb)"
| "natural_loop na nb (x # xs) [] = Inr (na < nb)"
  by pat_completeness auto

lemma extractNumber_shorter:
  "extractNumber s = Inr (Some (n, s')) \<Longrightarrow> length s' < length s"
proof -
  assume "extractNumber s = Inr (Some (n, s'))"
  then have s': "s' = dropWhile is_digit s" "takeWhile is_digit s \<noteq> []"
    by (auto simp: extractNumber_def Let_def split: if_splits)
  have "length s = length (takeWhile is_digit s) + length (dropWhile is_digit s)"
    by (metis length_append takeWhile_dropWhile_id)
  with s' show ?thesis
    by (metis length_greater_0_conv less_add_same_cancel2)
qed

termination natural_loop
  by (relation "measure (\<lambda>(na, nb, a, b). length a)") (auto dest: extractNumber_shorter)

definition naturalCompare :: "string \<Rightarrow> string \<Rightarrow> bool run" where
  "naturalCompare a b = natural_loop (length a) (length b) a b"

section \<open>Ranges read back\<close>

definition range_text :: "int \<times> int \<Rightarrow> string" where
  "range_text r =
     (if fst r = -1 then [] else dec_string (nat (fst r))) @ ''-'' @
     (if snd r = -1 then [] else dec_string (nat (snd r)))"

definition range_ok :: "int \<times> int \<Rightarrow> bool" where
  "range_ok r \<longleftrightarrow> -1 \<le> fst r \<and> fst r < 2 ^ 63 \<and> -1 \<le> snd r \<and> snd r < 2 ^ 63 \<and> r \<noteq> (-1, -1)"

definition bound_text :: "int \<Rightarrow> string" where
  "bound_text z = (if z = -1 then [] else dec_string (nat z))"

lemma bound_text_digits: "\<forall>c \<in> set (bound_text z). is_digit c"
  by (simp add: bound_text_def dec_string_digits)

lemma digit_neq [simp]: "is_digit c \<Longrightarrow> c \<noteq> CHR ''-'' \<and> c \<noteq> CHR '','' \<and> c \<noteq> blank \<and> c \<noteq> tab"
  by (auto simp: is_digit_def)

lemma trimstring_id: "\<forall>c \<in> set s. c \<notin> set ws \<Longrightarrow> trimstring s ws = s"
proof -
  assume *: "\<forall>c \<in> set s. c \<notin> set ws"
  have "dropWhile (\<lambda>c. c \<in> set ws) t = t" if "set t \<subseteq> set s" for t
    using * that by (cases t) auto
  from this [of s] this [of "rev s"] show ?thesis
    by (simp add: trimstring_def ltrimstring_dropWhile rtrimstring_dropWhile)
qed

lemma bound_text_no [simp]:
  "CHR ''-'' \<notin> set (bound_text z)" "CHR '','' \<notin> set (bound_text z)"
  using bound_text_digits [of z] digit_neq by blast+

lemma trim_bound_text [simp]: "trimstring (bound_text z) trim_dflt = bound_text z"
  by (rule trimstring_id) (use bound_text_digits [of z] in \<open>auto simp: trim_dflt_def\<close>)

lemma range_bound_text:
  assumes "-1 \<le> z" and "z < 2 ^ 63"
  shows "range_bound (bound_text z) = Inr z"
proof (cases "z = -1")
  case True
  then show ?thesis by (simp add: range_bound_def bound_text_def)
next
  case False
  then have "strtol10 (dec_string (nat z)) = z"
    using assms strtol10_dec_string [of "[]" "nat z"] by simp
  then show ?thesis
    using False assms by (simp add: range_bound_def bound_text_def atoll_def)
qed

lemma find_char_text:
  assumes "drop pos s = t @ c # u" and "c \<notin> set t"
  shows "find_char s c pos = Some (pos + length t)"
proof -
  have "find_idx ((=) c) (t @ c # u) = map_option ((+) (length t)) (find_idx ((=) c) (c # u))"
    using assms(2) by (intro find_idx_append) auto
  then show ?thesis
    by (simp add: find_char_def assms(1))
qed

lemma http_ranges_loop_text:
  "rs \<noteq> [] \<Longrightarrow> \<forall>r \<in> set rs. range_ok r \<Longrightarrow> drop pos s = join_with '','' (map range_text rs) \<Longrightarrow>
   http_ranges_loop s pos acc = Inr (True, acc @ rs)"
proof (induction rs arbitrary: pos acc)
  case Nil
  then show ?case by simp
next
  case (Cons r rs)
  obtain a b where r: "r = (a, b)" by force
  let ?A = "bound_text a" and ?B = "bound_text b"
  let ?rest = "if rs = [] then [] else CHR '','' # join_with '','' (map range_text rs)"
  have "range_text r = ?A @ CHR ''-'' # ?B"
    by (simp add: r range_text_def bound_text_def)
  then have u: "drop pos s = ?A @ CHR ''-'' # ?B @ ?rest"
    using Cons.prems(3) by (cases rs) simp_all
  have ab: "range_bound ?A = Inr a" "range_bound ?B = Inr b" "\<not> (a = -1 \<and> b = -1)"
    using Cons.prems(2) r by (auto simp: range_ok_def intro!: range_bound_text)
  have dash: "find_char s (CHR ''-'') pos = Some (pos + length ?A)"
    by (rule find_char_text [OF u]) simp
  have first: "substr s pos (pos + length ?A - pos) = ?A"
    by (simp add: substr_def u)
  have tail: "drop (pos + length ?A + 1) s = ?B @ ?rest"
  proof -
    have "drop (pos + length ?A + 1) s = drop (length ?A + 1) (drop pos s)"
      by (simp add: add.commute)
    then show ?thesis by (simp add: u)
  qed
  show ?case
  proof (cases "rs = []")
    case True
    have "find_char s (CHR '','') pos = None"
      using True by (auto simp: find_char_def find_idx_None u)
    then show ?thesis
      using True r ab dash first tail by (subst http_ranges_loop.simps) (simp add: Let_def)
  next
    case False
    let ?c = "pos + length ?A + 1 + length ?B"
    have u': "drop pos s = (?A @ CHR ''-'' # ?B) @ CHR '','' # join_with '','' (map range_text rs)"
      using u False by simp
    have "find_char s (CHR '','') pos = Some (pos + length (?A @ CHR ''-'' # ?B))"
      by (rule find_char_text [OF u']) simp
    then have comma: "find_char s (CHR '','') pos = Some ?c"
      by simp
    have second: "substr s (pos + length ?A + 1) (?c - (pos + length ?A) - 1) = ?B"
      using tail by (simp add: substr_def)
    have "drop (?c + 1) s = drop (length ?B + 1) (drop (pos + length ?A + 1) s)"
      unfolding drop_drop by (simp add: add.commute)
    also have "\<dots> = join_with '','' (map range_text rs)"
      unfolding tail using False by simp
    finally have "drop (?c + 1) s = join_with '','' (map range_text rs)" .
    then have "http_ranges_loop s (?c + 1) (acc @ [r]) = Inr (True, (acc @ [r]) @ rs)"
      using Cons.IH [OF False] Cons.prems(2) by simp
    then show ?thesis
      using r ab dash first comma second by (subst http_ranges_loop.simps) (simp add: Let_def)
  qed
qed

text \<open>
  A range header written from a non-empty list of ranges with bounds below \<open>2 ^ 63\<close>, where -1 stands for a
  missing bound and at least one bound of a range is there, is read back as that list.
\<close>

theorem parseHTTPRanges_roundtrip:
  assumes "rs \<noteq> []" and "list_all range_ok rs"
  shows "parseHTTPRanges (''bytes='' @ join_with '','' (map range_text rs)) = Inr (True, rs)"
proof -
  let ?t = "join_with '','' (map range_text rs)"
  have "find_str (''bytes='' @ ?t) ''bytes='' 0 = Some 0"
    by (simp add: find_str_def)
  moreover have "http_ranges_loop (''bytes='' @ ?t) 6 [] = Inr (True, [] @ rs)"
    by (rule http_ranges_loop_text) (use assms in \<open>auto simp: list_all_iff\<close>)
  ultimately show ?thesis
    by (simp add: parseHTTPRanges_def)
qed

theorem parseHTTPRanges_roundtrip_witness:
  "parseHTTPRanges (''bytes='' @ join_with '','' (map range_text [(0, 499), (1000, -1), (-1, 5)])) =
    Inr (True, [(0, 499), (1000, -1), (-1, 5)])"
  by (rule parseHTTPRanges_roundtrip) (simp_all add: range_ok_def)

section \<open>The natural ordering\<close>

lemma natural_loop_irrefl: "natural_loop n n s s \<noteq> Inr True"
proof (induction s rule: length_induct)
  case (1 s)
  show ?case
  proof (cases s)
    case Nil
    then show ?thesis by simp
  next
    case (Cons x xs)
    then show ?thesis
      using 1 by (auto split: sum.splits option.splits dest: extractNumber_shorter)
  qed
qed

lemma natural_loop_asym:
  "natural_loop na nb a b = Inr True \<Longrightarrow> natural_loop nb na b a = Inr False"
proof (induction na nb a b rule: natural_loop.induct)
  case (1 na nb x xs y ys)
  then show ?case
    by (auto split: sum.splits option.splits if_splits)
next
  case (2 na nb ys)
  then show ?case by (cases ys) auto
next
  case (3 na nb x xs)
  then show ?case by auto
qed

text \<open>
  Where it returns, \<open>naturalCompare\<close> never puts a string before itself, and never puts two strings before each other.
\<close>

theorem naturalCompare_asym:
  assumes "naturalCompare a b = Inr True"
  shows "naturalCompare b a = Inr False \<and> naturalCompare a a \<noteq> Inr True"
  using assms natural_loop_asym natural_loop_irrefl by (simp add: naturalCompare_def)

theorem naturalCompare_asym_witness: "naturalCompare ''f10'' ''f9'' = Inr False"
proof -
  have "naturalCompare ''f9'' ''f10'' = Inr True"
    by (simp add: naturalCompare_def is_digit_def extractNumber_def dec_value_def)
  from naturalCompare_asym [OF this] show ?thesis by simp
qed

text \<open>
  \<open>naturalCompare\<close> is not the strict weak ordering \<open>std::sort\<close> requires: being unordered is not transitive,
  because strings that agree up to the end of one of them are ordered by their whole lengths. And it throws on a number that exceeds an \<open>int\<close>.
\<close>

theorem naturalCompare_not_weak_order:
  "naturalCompare ''1x'' ''01'' = Inr False \<and> naturalCompare ''01'' ''1x'' = Inr False \<and>
   naturalCompare ''01'' ''1y'' = Inr False \<and> naturalCompare ''1y'' ''01'' = Inr False \<and>
   naturalCompare ''1x'' ''1y'' = Inr True \<and>
   naturalCompare ''2147483648'' ''1'' = Inl OutOfRange"
  by (simp add: naturalCompare_def is_digit_def extractNumber_def dec_value_def schar_def)

end
