(* ===== verification/Utf8.thy ===== *)
theory Utf8
  imports Prelude
begin

text \<open>
  The UTF-8 iterator (\<open>utils/utf8iter.h\<close>) and the functions built on it
  (\<open>utils/utf8iter.cpp\<close>): truncation, length, checking and repair. An iterator holds the
  string, the byte offset, the length of the character there (0 is an error) and the character
  number, a 32-bit counter. \<open>operator++\<close> does not move an iterator that is in error, so the loops of
  \<open>utf8truncate\<close> may not end; they are partial functions and \<open>None\<close> is a call that does not return.
\<close>

section \<open>The iterator\<close>

record Utf8Iter =
  m_sp :: string
  m_cl :: nat
  m_pos :: nat
  m_charpos :: "32 word"

definition ubyte :: "string \<Rightarrow> nat \<Rightarrow> byte" where
  "ubyte s p = byte_of (s ! p)"

definition poslok :: "string \<Rightarrow> nat \<Rightarrow> nat \<Rightarrow> bool" where
  "poslok s p l \<longleftrightarrow> l > 0 \<and> p + l \<le> length s"

definition get_cl :: "string \<Rightarrow> nat \<Rightarrow> nat" where
  "get_cl s p =
     (let z = ubyte s p in
      if z \<le> 127 then 1
      else if z AND 224 = 192 then 2
      else if z AND 240 = 224 then 3
      else if z AND 248 = 240 then 4
      else 0)"

definition checkvalidat :: "string \<Rightarrow> nat \<Rightarrow> nat \<Rightarrow> bool" where
  "checkvalidat s p l =
     (if l = 1 then ubyte s p < 128
      else if l = 2 then ubyte s p AND 224 = 192 \<and> ubyte s (p + 1) AND 192 = 128
      else if l = 3 then ubyte s p AND 240 = 224 \<and> ubyte s (p + 1) AND 192 = 128 \<and>
        ubyte s (p + 2) AND 192 = 128
      else if l = 4 then ubyte s p AND 248 = 240 \<and> ubyte s (p + 1) AND 192 = 128 \<and>
        ubyte s (p + 2) AND 192 = 128 \<and> ubyte s (p + 3) AND 192 = 128
      else False)"

text \<open>The subtractions are done in \<open>int\<close> and cut to 8 bits; the sums stay below \<open>2 ^ 31\<close>.\<close>

definition getvalueat :: "string \<Rightarrow> nat \<Rightarrow> nat \<Rightarrow> 32 word" where
  "getvalueat s p l =
     (if l = 1 then ucast (ubyte s p)
      else if l = 2 then ucast (ubyte s p - 192) * 64 + ucast (ubyte s (p + 1) - 128)
      else if l = 3 then ucast (ubyte s p - 224) * 4096 + ucast (ubyte s (p + 1) - 128) * 64 +
        ucast (ubyte s (p + 2) - 128)
      else if l = 4 then ucast (ubyte s p - 240) * 262144 + ucast (ubyte s (p + 1) - 128) * 4096 +
        ucast (ubyte s (p + 2) - 128) * 64 + ucast (ubyte s (p + 3) - 128)
      else -1)"

definition update_cl :: "Utf8Iter \<Rightarrow> Utf8Iter" where
  "update_cl it =
     (if m_pos it \<ge> length (m_sp it) then it\<lparr>m_cl := 0\<rparr>
      else let l = get_cl (m_sp it) (m_pos it) in
        if \<not> poslok (m_sp it) (m_pos it) l then it\<lparr>m_cl := 0\<rparr>
        else if \<not> checkvalidat (m_sp it) (m_pos it) l then it\<lparr>m_cl := 0\<rparr>
        else it\<lparr>m_cl := l\<rparr>)"

definition utf8_iter :: "string \<Rightarrow> Utf8Iter" where
  "utf8_iter s = update_cl \<lparr>m_sp = s, m_cl = 0, m_pos = 0, m_charpos = 0\<rparr>"

definition utf8_rewind :: "Utf8Iter \<Rightarrow> Utf8Iter" where
  "utf8_rewind it = update_cl (it\<lparr>m_cl := 0, m_pos := 0, m_charpos := 0\<rparr>)"

definition utf8_eof :: "Utf8Iter \<Rightarrow> bool" where
  "utf8_eof it \<longleftrightarrow> m_pos it = length (m_sp it)"

definition utf8_error :: "Utf8Iter \<Rightarrow> bool" where
  "utf8_error it \<longleftrightarrow> m_cl it = 0"

definition retryfurther :: "Utf8Iter \<Rightarrow> Utf8Iter" where
  "retryfurther it =
     (if utf8_eof it then it
      else let it1 = it\<lparr>m_pos := m_pos it + 1\<rparr> in
        if utf8_eof it1 then it1 else update_cl it1)"

text \<open>\<open>operator++\<close>: the new iterator, and the offset it returns (\<open>None\<close> is \<open>npos\<close>).\<close>

definition utf8_next :: "Utf8Iter \<Rightarrow> Utf8Iter \<times> nat option" where
  "utf8_next it =
     (if m_cl it = 0 then (it, None)
      else let it1 = update_cl (it\<lparr>m_pos := m_pos it + m_cl it, m_charpos := m_charpos it + 1\<rparr>) in
        (it1, Some (m_pos it1)))"

definition utf8_deref :: "Utf8Iter \<Rightarrow> 32 word" where
  "utf8_deref it = (if m_cl it = 0 then -1 else getvalueat (m_sp it) (m_pos it) (m_cl it))"

definition utf8_char_string :: "Utf8Iter \<Rightarrow> string" where
  "utf8_char_string it = substr (m_sp it) (m_pos it) (m_cl it)"

definition appendchartostring :: "Utf8Iter \<Rightarrow> string \<Rightarrow> string \<times> nat" where
  "appendchartostring it out = (out @ utf8_char_string it, m_cl it)"

text \<open>\<open>operator[]\<close>: a walk from the current position, or from the start, to a character number.\<close>

function utf8_seek :: "string \<Rightarrow> 32 word \<Rightarrow> nat \<Rightarrow> 32 word \<Rightarrow> 32 word" where
  "utf8_seek s charpos mypos mycp =
     (if mypos < length s \<and> mycp \<noteq> charpos then
        let l = get_cl s mypos in
        if l = 0 \<or> \<not> poslok s mypos l \<or> \<not> checkvalidat s mypos l then -1
        else utf8_seek s charpos (mypos + l) (mycp + 1)
      else if mypos < length s \<and> mycp = charpos then
        let l = get_cl s mypos in
        if poslok s mypos l \<and> checkvalidat s mypos l then getvalueat s mypos l else -1
      else -1)"
  by pat_completeness auto
termination
  by (relation "measure (\<lambda>(s, charpos, mypos, mycp). length s - mypos)") auto

declare utf8_seek.simps [simp del]

definition utf8_at :: "Utf8Iter \<Rightarrow> 32 word \<Rightarrow> 32 word" where
  "utf8_at it charpos =
     (if charpos \<ge> m_charpos it then utf8_seek (m_sp it) charpos (m_pos it) (m_charpos it)
      else utf8_seek (m_sp it) charpos 0 0)"

definition utf8codepointsize :: "32 word \<Rightarrow> nat" where
  "utf8codepointsize c =
     (if c \<le> 0x7F then 1 else if c \<le> 0x7FF then 2 else if c < 0xFFFF then 3 else 4)"

section \<open>Length, check and repair\<close>

text \<open>Each turn of these loops moves the iterator, so they end on every input.\<close>

function utf8len_loop :: "Utf8Iter \<Rightarrow> nat \<Rightarrow> nat" where
  "utf8len_loop it len =
     (case utf8_next it of
        (it1, None) \<Rightarrow> len
      | (it1, Some p) \<Rightarrow> utf8len_loop it1 (len + 1))"
  by pat_completeness auto

lemma update_cl_sel [simp]:
  "m_sp (update_cl it) = m_sp it" "m_pos (update_cl it) = m_pos it"
  "m_charpos (update_cl it) = m_charpos it"
  by (simp_all add: update_cl_def Let_def)

lemma update_cl_bound:
  "m_cl (update_cl it) \<noteq> 0 \<Longrightarrow> m_pos it + m_cl (update_cl it) \<le> length (m_sp it)"
  by (auto simp: update_cl_def Let_def poslok_def split: if_splits)

definition utf8_left :: "Utf8Iter \<Rightarrow> nat" where
  "utf8_left it = 2 * (length (m_sp it) - m_pos it) + (if m_cl it = 0 then 0 else 1)"

lemma utf8_next_left: "utf8_next it = (it1, Some p) \<Longrightarrow> utf8_left it1 < utf8_left it"
proof -
  let ?it = "it\<lparr>m_pos := m_pos it + m_cl it, m_charpos := m_charpos it + 1\<rparr>"
  assume "utf8_next it = (it1, Some p)"
  then have "it1 = update_cl ?it" "m_cl it \<noteq> 0"
    by (auto simp: utf8_next_def Let_def split: if_splits)
  then show ?thesis
    using update_cl_bound [of ?it] by (auto simp: utf8_left_def split: if_splits)
qed

termination utf8len_loop
  by (relation "measure (\<lambda>(it, len). utf8_left it)") (auto dest: utf8_next_left [OF sym])

declare utf8len_loop.simps [simp del]

lemma utf8len_loop_code [code]:
  "utf8len_loop it len = (let r = utf8_next it in if snd r = None then len else utf8len_loop (fst r) (len + 1))"
  by (subst utf8len_loop.simps) (auto simp: Let_def split: prod.split option.split)

definition utf8len :: "string \<Rightarrow> nat" where
  "utf8len s = utf8len_loop (utf8_iter s) 0"

definition replchar :: string where
  "replchar = [CHR 0xEF, CHR 0xBF, CHR 0xBD]"

text \<open>
  The inner loop of \<open>utf8check\<close>, from its test: the iterator, the output and the count it leaves
  and whether it returned from the function (at the end of the string).
\<close>

function utf8check_retry :: "int \<Rightarrow> Utf8Iter \<Rightarrow> string \<Rightarrow> int \<Rightarrow> Utf8Iter \<times> string \<times> int \<times> bool" where
  "utf8check_retry maxrepl it out cnt =
     (if cnt < maxrepl then
        let it1 = retryfurther it in
        if utf8_eof it1 then (it1, out, cnt, True)
        else if \<not> utf8_error it1 then (it1, out, cnt, False)
        else utf8check_retry maxrepl it1 (out @ replchar) (cnt + 1)
      else (it, out, cnt, False))"
  by pat_completeness auto
termination
  by (relation "measure (\<lambda>(maxrepl, it, out, cnt). nat (maxrepl - cnt))") auto

declare utf8check_retry.simps [simp del]

lemma retryfurther_left:
  "m_cl it = 0 \<Longrightarrow> utf8_left (retryfurther it) \<le> utf8_left it \<and>
    (m_cl (retryfurther it) \<noteq> 0 \<longrightarrow> utf8_left (retryfurther it) < utf8_left it)"
  using update_cl_bound [of "it\<lparr>m_pos := m_pos it + 1\<rparr>"]
  by (auto simp: retryfurther_def utf8_left_def Let_def)

lemma utf8check_retry_left:
  "utf8check_retry maxrepl it out cnt = (it1, out1, cnt1, False) \<Longrightarrow> m_cl it = 0 \<Longrightarrow> m_cl it1 \<noteq> 0 \<Longrightarrow>
    utf8_left it1 < utf8_left it"
proof (induction maxrepl it out cnt arbitrary: it1 rule: utf8check_retry.induct)
  case (1 maxrepl it out cnt)
  note r = retryfurther_left [OF \<open>m_cl it = 0\<close>]
  show ?case
  proof (cases "cnt < maxrepl \<and> \<not> utf8_eof (retryfurther it) \<and> utf8_error (retryfurther it)")
    case True
    then have "utf8_left it1 < utf8_left (retryfurther it)"
      using 1 by (subst (asm) (2) utf8check_retry.simps) (auto simp: utf8_error_def)
    with r show ?thesis by simp
  next
    case False
    then show ?thesis
      using 1 r by (subst (asm) (2) utf8check_retry.simps) (auto simp: utf8_error_def Let_def split: if_splits)
  qed
qed

function utf8check_loop :: "bool \<Rightarrow> int \<Rightarrow> Utf8Iter \<Rightarrow> string \<Rightarrow> int \<Rightarrow> int \<times> string" where
  "utf8check_loop fixit maxrepl it out cnt =
     (if utf8_eof it then (cnt, out)
      else if \<not> utf8_error it then
        utf8check_loop fixit maxrepl (fst (utf8_next it)) (if fixit then fst (appendchartostring it out) else out) cnt
      else if \<not> fixit then (-1, out)
      else
        case utf8check_retry maxrepl it (out @ replchar) (cnt + 1) of
          (it1, out1, cnt1, returned) \<Rightarrow>
            if returned then (cnt1, out1)
            else if utf8_error it1 then (-1, out1)
            else utf8check_loop fixit maxrepl (fst (utf8_next it1)) (fst (appendchartostring it1 out1)) cnt1)"
  by pat_completeness auto

lemma utf8_next_ok: "0 < m_cl it \<Longrightarrow> utf8_left (fst (utf8_next it)) < utf8_left it"
  using utf8_next_left [of it "fst (utf8_next it)"] by (simp add: utf8_next_def Let_def)

lemma utf8check_retry_next:
  assumes "(it1, out1, cnt1, False) = utf8check_retry maxrepl it out cnt" and "m_cl it = 0" and "0 < m_cl it1"
  shows "utf8_left (fst (utf8_next it1)) < utf8_left it"
  using utf8_next_ok [of it1] utf8check_retry_left [of maxrepl it out cnt it1 out1 cnt1] assms by simp

termination utf8check_loop
  by (relation "measure (\<lambda>(fixit, maxrepl, it, out, cnt). utf8_left it)")
    (auto simp: utf8_error_def utf8_next_ok intro: utf8check_retry_next)

declare utf8check_loop.simps [simp del]

definition utf8check :: "string \<Rightarrow> bool \<Rightarrow> string \<Rightarrow> int \<Rightarrow> int \<times> string" where
  "utf8check s fixit out maxrepl = utf8check_loop fixit maxrepl (utf8_iter s) out 0"

section \<open>Truncation\<close>

text \<open>The white space set: \<open>None\<close> when the loop over it does not end.\<close>

partial_function (option) utf8_collect :: "Utf8Iter \<Rightarrow> 32 word list \<Rightarrow> 32 word list option" where
  "utf8_collect it acc =
     (if utf8_eof it then Some acc else utf8_collect (fst (utf8_next it)) (utf8_deref it # acc))"

text \<open>The scan for the cut positions; returns \<open>pos\<close> and \<open>lastwspos\<close>.\<close>

partial_function (option) truncate_scan ::
  "bool \<Rightarrow> 32 word list \<Rightarrow> nat \<Rightarrow> Utf8Iter \<Rightarrow> nat \<Rightarrow> nat \<Rightarrow> (nat \<times> nat) option" where
  "truncate_scan atword wss maxlen it pos lastwspos =
     (if utf8_eof it then Some (pos, lastwspos)
      else if m_pos it < maxlen then
        truncate_scan atword wss maxlen (fst (utf8_next it)) (m_pos it + m_cl it)
          (if atword \<and> utf8_deref it \<in> set wss then m_pos it + m_cl it else lastwspos)
      else Some (pos, lastwspos))"

text \<open>The last character of a string and its offset.\<close>

partial_function (option) last_char_loop :: "Utf8Iter \<Rightarrow> 32 word \<Rightarrow> nat \<Rightarrow> (32 word \<times> nat) option" where
  "last_char_loop it c pos =
     (if utf8_eof it then Some (c, pos)
      else last_char_loop (fst (utf8_next it)) (utf8_deref it) (m_pos it))"

text \<open>\<open>erase(pos)\<close> throws when \<open>pos\<close> is past the end.\<close>

definition erase_from :: "string \<Rightarrow> nat \<Rightarrow> string run" where
  "erase_from s pos = (if pos > length s then Inl OutOfRange else Inr (take pos s))"

partial_function (option) strip_ws_loop :: "32 word list \<Rightarrow> string \<Rightarrow> nat \<Rightarrow> string run option" where
  "strip_ws_loop wss s pos =
     (case last_char_loop (utf8_iter s) 0 pos of
        None \<Rightarrow> None
      | Some (c, pos1) \<Rightarrow>
          if c \<notin> set wss then Some (Inr s)
          else case erase_from s pos1 of
              Inl e \<Rightarrow> Some (Inl e)
            | Inr s1 \<Rightarrow> strip_ws_loop wss s1 pos1)"

definition UTF8T_ATWORD :: "32 word" where
  "UTF8T_ATWORD = 1"

definition UTF8T_ELLIPSIS :: "32 word" where
  "UTF8T_ELLIPSIS = 2"

text \<open>A negative \<open>maxlen\<close> converted to \<open>size_type\<close> is larger than any string: nothing is cut.\<close>

definition utf8truncate ::
  "string \<Rightarrow> int \<Rightarrow> 32 word \<Rightarrow> string \<Rightarrow> string \<Rightarrow> string run option" where
  "utf8truncate s maxlen flags ellipsis ws =
     (if int (length s) \<le> maxlen mod 2 ^ 64 then Some (Inr s)
      else
        let atword = flags AND UTF8T_ATWORD \<noteq> 0;
            ell = flags AND UTF8T_ELLIPSIS \<noteq> 0;
            limit = if ell then max 0 (maxlen - int (utf8len ellipsis)) else maxlen
        in case (if atword then utf8_collect (utf8_iter ws) [] else Some []) of
             None \<Rightarrow> None
           | Some wss \<Rightarrow>
             (case truncate_scan atword wss (nat limit) (utf8_iter s) 0 0 of
                None \<Rightarrow> None
              | Some (pos, lastwspos) \<Rightarrow>
                map_option (map_sum id (\<lambda>t. if ell then t @ ellipsis else t))
                  (if atword then
                     (case erase_from s lastwspos of
                        Inl e \<Rightarrow> Some (Inl e)
                      | Inr t \<Rightarrow> strip_ws_loop wss t pos)
                   else Some (erase_from s pos))))"

section \<open>The byte tests in arithmetic\<close>

lemma and_high: "unat (b AND NOT (Bit_Operations.mask k) :: byte) = unat b div 2 ^ k * 2 ^ k"
proof -
  have "b AND NOT (Bit_Operations.mask k) = push_bit k (drop_bit k b)"
    by (rule bit_word_eqI) (auto simp: bit_simps)
  moreover have "push_bit k (drop_bit k (unat b)) < 256"
    using unsigned_less [of b, where ?'a = nat]
    by (simp add: push_bit_eq_mult drop_bit_eq_div) (intro le_less_trans [OF div_times_less_eq_dividend], simp)
  ultimately have "unat (b AND NOT (Bit_Operations.mask k)) = push_bit k (drop_bit k (unat b))"
    using unsigned_less [of b, where ?'a = nat]
    by (simp add: unsigned_push_bit_eq unsigned_drop_bit_eq take_bit_nat_eq_self)
  then show ?thesis
    by (simp add: push_bit_eq_mult drop_bit_eq_div)
qed

lemma high_masks:
  "NOT (Bit_Operations.mask 5) = (224 :: byte)" "NOT (Bit_Operations.mask 4) = (240 :: byte)"
  "NOT (Bit_Operations.mask 3) = (248 :: byte)" "NOT (Bit_Operations.mask 6) = (192 :: byte)"
  by (simp_all add: mask_numeral)

lemma byte_tests:
  fixes b :: byte
  shows "b AND 224 = 192 \<longleftrightarrow> 192 \<le> unat b \<and> unat b < 224"
    and "b AND 240 = 224 \<longleftrightarrow> 224 \<le> unat b \<and> unat b < 240"
    and "b AND 248 = 240 \<longleftrightarrow> 240 \<le> unat b \<and> unat b < 248"
    and "b AND 192 = 128 \<longleftrightarrow> 128 \<le> unat b \<and> unat b < 192"
  using and_high [of b 5] and_high [of b 4] and_high [of b 3] and_high [of b 6]
  by (auto simp: high_masks word_unat_eq_iff)

lemma byte_le_127: "byte_of c \<le> 127 \<longleftrightarrow> (of_char c :: nat) < 128"
  and byte_less_128: "byte_of c < 128 \<longleftrightarrow> (of_char c :: nat) < 128"
  by (auto simp: word_le_nat_alt word_less_nat_alt)

definition lead_len :: "char \<Rightarrow> nat" where
  "lead_len c = (let n = (of_char c :: nat) in
     if n < 128 then 1 else if n < 192 then 0 else if n < 224 then 2 else if n < 240 then 3
     else if n < 248 then 4 else 0)"

definition is_cont :: "char \<Rightarrow> bool" where
  "is_cont c \<longleftrightarrow> 128 \<le> (of_char c :: nat) \<and> (of_char c :: nat) < 192"

lemma get_cl_lead: "get_cl s p = lead_len (s ! p)"
  by (auto simp: get_cl_def lead_len_def ubyte_def byte_le_127 byte_tests Let_def)

text \<open>The length of the character a string starts with, 0 when it does not start with one.\<close>

definition char_len :: "string \<Rightarrow> nat" where
  "char_len s =
     (case s of [] \<Rightarrow> 0
      | c # cs \<Rightarrow>
         if length s < lead_len c then 0
         else if list_all is_cont (take (lead_len c - 1) cs) then lead_len c else 0)"

lemma lead_len_cases: "lead_len c \<in> {0, 1, 2, 3, 4}"
  by (simp add: lead_len_def Let_def)

lemma length_ge_2: "2 \<le> length xs \<Longrightarrow> \<exists>a b r. xs = a # b # r"
  by (cases xs rule: list.exhaust; cases "tl xs") auto

lemma length_ge_3: "3 \<le> length xs \<Longrightarrow> \<exists>a b c r. xs = a # b # c # r"
  by (cases xs; cases "tl xs"; cases "tl (tl xs)") auto

lemma char_len_get_cl:
  assumes "p < length s"
  shows "(if poslok s p (get_cl s p) \<and> checkvalidat s p (get_cl s p) then get_cl s p else 0) = char_len (drop p s)"
proof -
  obtain c cs where d: "drop p s = c # cs"
    using assms by (metis Cons_nth_drop_Suc)
  have nth: "s ! p = c" and cs: "\<And>i. Suc (p + i) < length s \<Longrightarrow> s ! Suc (p + i) = cs ! i"
    using d nth_drop [of p s 0] nth_drop [of p s "Suc i" for i] assms by auto
  have len: "length s = p + Suc (length cs)"
    using arg_cong [OF d, of length] assms by simp
  have lc: "lead_len c = 1 \<Longrightarrow> (of_char c :: nat) < 128"
    "lead_len c = 2 \<Longrightarrow> 192 \<le> (of_char c :: nat) \<and> (of_char c :: nat) < 224"
    "lead_len c = 3 \<Longrightarrow> 224 \<le> (of_char c :: nat) \<and> (of_char c :: nat) < 240"
    "lead_len c = 4 \<Longrightarrow> 240 \<le> (of_char c :: nat) \<and> (of_char c :: nat) < 248"
    by (auto simp: lead_len_def Let_def split: if_splits)
  consider "lead_len c = 0" | "lead_len c = 1" | "lead_len c = 2" | "lead_len c = 3" | "lead_len c = 4"
    using lead_len_cases [of c] by auto
  then show ?thesis
  proof cases
    case 3
    show ?thesis
    proof (cases cs)
      case Nil
      with 3 show ?thesis by (simp add: get_cl_lead nth d char_len_def poslok_def len)
    next
      case (Cons c1 r)
      with 3 cs [of 0] lc(2) show ?thesis
        by (simp add: get_cl_lead nth d char_len_def poslok_def checkvalidat_def len ubyte_def byte_tests is_cont_def)
    qed
  next
    case 4
    show ?thesis
    proof (cases "length cs < 2")
      case True
      with 4 show ?thesis by (simp add: get_cl_lead nth d char_len_def poslok_def len)
    next
      case False
      then obtain c1 c2 r where "cs = c1 # c2 # r"
        by (metis length_ge_2 not_less)
      with 4 cs [of 0] cs [of 1] lc(3) show ?thesis
        by (simp add: get_cl_lead nth d char_len_def poslok_def checkvalidat_def len ubyte_def byte_tests is_cont_def)
    qed
  next
    case 5
    show ?thesis
    proof (cases "length cs < 3")
      case True
      with 5 show ?thesis by (simp add: get_cl_lead nth d char_len_def poslok_def len)
    next
      case False
      then obtain c1 c2 c3 r where "cs = c1 # c2 # c3 # r"
        by (metis length_ge_3 not_less)
      with 5 cs [of 0] cs [of 1] cs [of 2] lc(4) show ?thesis
        by (simp add: get_cl_lead nth d char_len_def poslok_def checkvalidat_def len ubyte_def byte_tests is_cont_def
            numeral_3_eq_3)
    qed
  qed (auto simp: get_cl_lead nth d char_len_def poslok_def checkvalidat_def len ubyte_def byte_less_128 lc)
qed

section \<open>Where an iterator stands\<close>

definition at_pos :: "string \<Rightarrow> nat \<Rightarrow> 32 word \<Rightarrow> Utf8Iter" where
  "at_pos s p c = \<lparr>m_sp = s, m_cl = char_len (drop p s), m_pos = p, m_charpos = c\<rparr>"

lemma at_pos_sel [simp]:
  "m_sp (at_pos s p c) = s" "m_pos (at_pos s p c) = p" "m_charpos (at_pos s p c) = c"
  "m_cl (at_pos s p c) = char_len (drop p s)"
  by (simp_all add: at_pos_def)

lemma char_len_Nil [simp]: "char_len [] = 0"
  by (simp add: char_len_def)

lemma char_len_le: "char_len s \<le> length s"
  by (auto simp: char_len_def split: list.splits)

lemma update_cl_at: "update_cl \<lparr>m_sp = s, m_cl = l, m_pos = p, m_charpos = c\<rparr> = at_pos s p c"
proof (cases "p < length s")
  case True
  then show ?thesis
    using char_len_get_cl [OF True] by (auto simp: update_cl_def at_pos_def Let_def split: if_splits)
qed (simp add: update_cl_def at_pos_def)

lemma utf8_iter_at: "utf8_iter s = at_pos s 0 0"
  by (simp add: utf8_iter_def update_cl_at)

lemma utf8_rewind_at: "utf8_rewind (at_pos s p c) = at_pos s 0 0"
  using update_cl_at [of s 0 0 0] by (simp add: utf8_rewind_def at_pos_def)

lemma utf8_next_at:
  "utf8_next (at_pos s p c) =
     (if char_len (drop p s) = 0 then (at_pos s p c, None)
      else (at_pos s (p + char_len (drop p s)) (c + 1), Some (p + char_len (drop p s))))"
  using update_cl_at [of s "char_len (drop p s)" "p + char_len (drop p s)" "c + 1"]
  by (simp add: utf8_next_def Let_def at_pos_def)

lemma utf8_eof_at [simp]: "utf8_eof (at_pos s p c) \<longleftrightarrow> p = length s"
  by (simp add: utf8_eof_def)

lemma utf8_error_at [simp]: "utf8_error (at_pos s p c) \<longleftrightarrow> char_len (drop p s) = 0"
  by (simp add: utf8_error_def)

lemma retryfurther_at:
  "char_len (drop p s) = 0 \<Longrightarrow> p < length s \<Longrightarrow> retryfurther (at_pos s p c) = at_pos s (p + 1) c"
  using update_cl_at [of s 0 "p + 1" c]
  by (simp add: retryfurther_def Let_def utf8_eof_def) (simp add: at_pos_def)

lemma utf8_char_string_at: "utf8_char_string (at_pos s p c) = take (char_len (drop p s)) (drop p s)"
  by (simp add: utf8_char_string_def substr_def)

lemmas iter_at = utf8_iter_at utf8_next_at retryfurther_at utf8_char_string_at

text \<open>The characters a string starts with, up to its end or to a byte that starts none.\<close>

function utf8_chars :: "string \<Rightarrow> string list" where
  "utf8_chars s =
     (if char_len s = 0 then [] else take (char_len s) s # utf8_chars (drop (char_len s) s))"
  by pat_completeness auto
termination
proof (relation "measure length")
  fix s :: string
  assume "char_len s \<noteq> 0"
  then show "(drop (char_len s) s, s) \<in> measure length"
    using char_len_le [of s] by (cases s) auto
qed simp

declare utf8_chars.simps [simp del]

definition utf8_valid :: "string \<Rightarrow> bool" where
  "utf8_valid s \<longleftrightarrow> concat (utf8_chars s) = s"

section \<open>The standard encoding is decoded\<close>

definition utf8_enc :: "nat \<Rightarrow> string" where
  "utf8_enc n =
     (if n < 0x80 then [char_of n]
      else if n < 0x800 then [char_of (192 + n div 64), char_of (128 + n mod 64)]
      else if n < 0x10000 then
        [char_of (224 + n div 4096), char_of (128 + n div 64 mod 64), char_of (128 + n mod 64)]
      else
        [char_of (240 + n div 262144), char_of (128 + n div 4096 mod 64), char_of (128 + n div 64 mod 64),
         char_of (128 + n mod 64)])"

lemma byte_of_char_of: "byte_of (char_of (m :: nat)) = of_nat m"
proof -
  have "of_char (char_of m :: char) = (of_nat (of_char (char_of m :: char)) :: byte)"
    by (simp only: of_nat_of_char)
  also have "\<dots> = of_nat (m mod 256)"
    by simp
  also have "\<dots> = of_nat m"
    by (simp add: word_unat_eq_iff unsigned_of_nat take_bit_eq_mod)
  finally show ?thesis
    by (simp add: byte_of_def)
qed

lemma ucast_byte_minus:
  assumes "m < 256" and "k \<le> m"
  shows "ucast (byte_of (char_of m) - of_nat k) = (of_nat (m - k) :: 32 word)"
proof -
  have "byte_of (char_of m) - of_nat k = (of_nat (m - k) :: byte)"
    using assms(2) by (simp add: byte_of_char_of of_nat_diff)
  then have "ucast (byte_of (char_of m) - of_nat k) = (of_nat (take_bit 8 (m - k)) :: 32 word)"
    by (simp add: unsigned_of_nat)
  with assms(1) show ?thesis
    by (simp add: take_bit_nat_eq_self)
qed

lemma ucast_byte_minus_num:
  "a < 64 \<Longrightarrow> ucast (byte_of (char_of (192 + a)) - 192) = (of_nat a :: 32 word)"
  "a < 32 \<Longrightarrow> ucast (byte_of (char_of (224 + a)) - 224) = (of_nat a :: 32 word)"
  "a < 16 \<Longrightarrow> ucast (byte_of (char_of (240 + a)) - 240) = (of_nat a :: 32 word)"
  "a < 64 \<Longrightarrow> ucast (byte_of (char_of (128 + a)) - 128) = (of_nat a :: 32 word)"
  using ucast_byte_minus [of "192 + a" 192] ucast_byte_minus [of "224 + a" 224]
    ucast_byte_minus [of "240 + a" 240] ucast_byte_minus [of "128 + a" 128]
  by simp_all

lemma digits64:
  "(n :: nat) div 64 * 64 + n mod 64 = n"
  "n div 4096 * 4096 + n div 64 mod 64 * 64 + n mod 64 = n"
  "n div 262144 * 262144 + n div 4096 mod 64 * 4096 + n div 64 mod 64 * 64 + n mod 64 = n"
proof -
  have d: "m div 64 * 64 + m mod 64 = m" for m :: nat
    by simp
  have q: "n div 64 div 64 = n div 4096" "n div 4096 div 64 = n div 262144"
    using div_mult2_eq [of n 64 64] div_mult2_eq [of n 4096 64] by simp_all
  show "n div 64 * 64 + n mod 64 = n"
    by (rule d)
  show e: "n div 4096 * 4096 + n div 64 mod 64 * 64 + n mod 64 = n"
    using d [of n] d [of "n div 64"] unfolding q by linarith
  show "n div 262144 * 262144 + n div 4096 mod 64 * 4096 + n div 64 mod 64 * 64 + n mod 64 = n"
    using e d [of "n div 4096"] unfolding q by linarith
qed

lemma nth_of_drop: "drop p s = t @ r \<Longrightarrow> i < length t \<Longrightarrow> s ! (p + i) = t ! i"
  by (metis add_leD1 length_append nth_append nth_drop trans_le_add1 drop_all linorder_le_cases
      append_is_Nil_conv list.size(3) not_less_zero)

lemma char_len_enc: "n < 2 ^ 21 \<Longrightarrow> char_len (utf8_enc n @ r) = length (utf8_enc n)"
  by (auto simp: utf8_enc_def char_len_def lead_len_def is_cont_def Let_def)

lemma getvalueat_enc:
  assumes "n < 2 ^ 21" and d: "drop p s = utf8_enc n @ r"
  shows "getvalueat s p (length (utf8_enc n)) = of_nat n"
proof -
  note nth = nth_of_drop [OF d]
  consider "n < 0x80" | "0x80 \<le> n" "n < 0x800" | "0x800 \<le> n" "n < 0x10000" | "0x10000 \<le> n"
    by linarith
  then show ?thesis
  proof cases
    case 1
    then show ?thesis
      using nth [of 0] by (simp add: utf8_enc_def getvalueat_def ubyte_def byte_of_char_of unsigned_of_nat
          take_bit_nat_eq_self)
  next
    case 2
    then have e: "getvalueat s p (length (utf8_enc n)) = of_nat (n div 64) * 64 + of_nat (n mod 64)"
      using nth [of 0] nth [of 1]
      by (simp add: utf8_enc_def getvalueat_def ubyte_def ucast_byte_minus_num)
    have "\<dots> = of_nat (n div 64 * 64 + n mod 64)"
      by (simp only: of_nat_add of_nat_mult of_nat_numeral)
    with e show ?thesis by (simp only: digits64)
  next
    case 3
    then have e: "getvalueat s p (length (utf8_enc n)) =
        of_nat (n div 4096) * 4096 + of_nat (n div 64 mod 64) * 64 + of_nat (n mod 64)"
      using nth [of 0] nth [of 1] nth [of 2]
      by (simp add: utf8_enc_def getvalueat_def ubyte_def ucast_byte_minus_num)
    have "\<dots> = of_nat (n div 4096 * 4096 + n div 64 mod 64 * 64 + n mod 64)"
      by (simp only: of_nat_add of_nat_mult of_nat_numeral)
    with e show ?thesis by (simp only: digits64)
  next
    case 4
    then have e: "getvalueat s p (length (utf8_enc n)) =
        of_nat (n div 262144) * 262144 + of_nat (n div 4096 mod 64) * 4096 + of_nat (n div 64 mod 64) * 64 +
        of_nat (n mod 64)"
      using nth [of 0] nth [of 1] nth [of 2] nth [of 3] assms(1)
      by (simp add: utf8_enc_def getvalueat_def ubyte_def ucast_byte_minus_num)
    have "\<dots> = of_nat (n div 262144 * 262144 + n div 4096 mod 64 * 4096 + n div 64 mod 64 * 64 + n mod 64)"
      by (simp only: of_nat_add of_nat_mult of_nat_numeral)
    with e show ?thesis by (simp only: digits64)
  qed
qed

lemma utf8_chars_Nil [simp]: "utf8_chars [] = []"
  by (subst utf8_chars.simps) simp

lemma utf8_chars_step:
  "char_len s \<noteq> 0 \<Longrightarrow> utf8_chars s = take (char_len s) s # utf8_chars (drop (char_len s) s)"
  by (subst utf8_chars.simps) simp

lemma utf8_chars_bad: "char_len s = 0 \<Longrightarrow> utf8_chars s = []"
  by (subst utf8_chars.simps) simp

lemma utf8_chars_prefix: "\<exists>r. s = concat (utf8_chars s) @ r \<and> char_len r = 0"
proof (induction s rule: utf8_chars.induct)
  case (1 s)
  show ?case
  proof (cases "char_len s = 0")
    case True
    then show ?thesis by (simp add: utf8_chars_bad)
  next
    case False
    with 1 obtain r where "drop (char_len s) s = concat (utf8_chars (drop (char_len s) s)) @ r" "char_len r = 0"
      by blast
    with False show ?thesis
      by (metis append.assoc append_take_drop_id concat.simps(2) utf8_chars_step)
  qed
qed

lemma utf8_chars_drop:
  "utf8_chars (drop (length (concat (take k (utf8_chars s)))) s) = drop k (utf8_chars s)"
proof (induction s arbitrary: k rule: utf8_chars.induct)
  case (1 s)
  show ?case
  proof (cases "char_len s = 0")
    case True
    then show ?thesis by (simp add: utf8_chars_bad)
  next
    case False
    then show ?thesis
    proof (cases k)
      case (Suc j)
      have "drop (length (concat (take k (utf8_chars s)))) s =
          drop (length (concat (take j (utf8_chars (drop (char_len s) s))))) (drop (char_len s) s)"
        using False Suc char_len_le [of s] by (simp add: utf8_chars_step add.commute min_absorb2)
      with 1 [OF False, of j] show ?thesis
        using False Suc by (simp add: utf8_chars_step)
    qed simp
  qed
qed

lemma utf8_chars_nth:
  assumes "k < length (utf8_chars s)"
  defines "p \<equiv> length (concat (take k (utf8_chars s)))"
  shows "char_len (drop p s) = length (utf8_chars s ! k)" "utf8_chars s ! k \<noteq> []"
    "take (char_len (drop p s)) (drop p s) = utf8_chars s ! k"
proof -
  have d: "utf8_chars (drop p s) = drop k (utf8_chars s)"
    by (simp add: p_def utf8_chars_drop)
  then have ne: "char_len (drop p s) \<noteq> 0"
    using assms(1) utf8_chars_bad [of "drop p s"] by auto
  then have e: "utf8_chars s ! k = take (char_len (drop p s)) (drop p s)"
    using d utf8_chars_step [OF ne] assms(1) by (metis Cons_nth_drop_Suc list.inject)
  then show "char_len (drop p s) = length (utf8_chars s ! k)"
    "take (char_len (drop p s)) (drop p s) = utf8_chars s ! k"
    using char_len_le [of "drop p s"] by simp_all
  with ne show "utf8_chars s ! k \<noteq> []"
    by auto
qed

text \<open>After \<open>k\<close> increments the iterator is at the start of character \<open>k\<close>.\<close>

abbreviation utf8_inc :: "Utf8Iter \<Rightarrow> Utf8Iter" where
  "utf8_inc it \<equiv> fst (utf8_next it)"

lemma utf8_inc_power:
  "k \<le> length (utf8_chars s) \<Longrightarrow>
    (utf8_inc ^^ k) (utf8_iter s) = at_pos s (length (concat (take k (utf8_chars s)))) (of_nat k)"
proof (induction k)
  case 0
  then show ?case by (simp add: utf8_iter_at)
next
  case (Suc k)
  then show ?case
    using utf8_chars_nth [of k s]
    by (simp add: utf8_next_at take_Suc_conv_app_nth add.commute)
qed

lemma utf8_enc_not_Nil [simp]: "utf8_enc n \<noteq> []"
  by (simp add: utf8_enc_def)

lemma utf8_chars_enc:
  "list_all (\<lambda>n. n < 2 ^ 21) cps \<Longrightarrow> utf8_chars (concat (map utf8_enc cps)) = map utf8_enc cps"
proof (induction cps)
  case (Cons n cps)
  then show ?case
    using char_len_enc [of n "concat (map utf8_enc cps)"]
    by (subst utf8_chars_step) simp_all
qed simp

lemma utf8len_loop_at: "utf8len_loop (at_pos s p c) n = n + length (utf8_chars (drop p s))"
proof (induction "length s - p" arbitrary: p c n rule: less_induct)
  case less
  show ?case
  proof (cases "char_len (drop p s) = 0")
    case True
    then show ?thesis
      by (subst utf8len_loop.simps) (simp add: utf8_next_at utf8_chars_bad)
  next
    case False
    then have "length s - (p + char_len (drop p s)) < length s - p"
      using char_len_le [of "drop p s"] by auto
    from less [OF this] False show ?thesis
      by (subst utf8len_loop.simps) (simp add: utf8_next_at utf8_chars_step add.commute)
  qed
qed

lemma utf8len_chars: "utf8len s = length (utf8_chars s)"
  by (simp add: utf8len_def utf8_iter_at utf8len_loop_at)

text \<open>
  On the standard encoding of a list of code points (any values of at most 21 bits), \<open>utf8len\<close> counts them, and after
  \<open>k\<close> increments the iterator gives code point \<open>k\<close>, its bytes and its offsets, without an error, until it reaches the
  end after the last one.
\<close>

theorem utf8_iter_decodes:
  assumes "list_all (\<lambda>n. n < 2 ^ 21) cps" and "k \<le> length cps"
  defines "s \<equiv> concat (map utf8_enc cps)"
  defines "it \<equiv> (utf8_inc ^^ k) (utf8_iter s)"
  shows "utf8len s = length cps \<and> m_pos it = length (concat (map utf8_enc (take k cps))) \<and>
    m_charpos it = of_nat k \<and>
    (if k = length cps then utf8_eof it
     else \<not> utf8_eof it \<and> \<not> utf8_error it \<and> utf8_deref it = of_nat (cps ! k) \<and>
       utf8_char_string it = utf8_enc (cps ! k))"
proof -
  have chars: "utf8_chars s = map utf8_enc cps"
    using assms(1) by (simp add: s_def utf8_chars_enc)
  let ?p = "length (concat (map utf8_enc (take k cps)))"
  have it: "it = at_pos s ?p (of_nat k)"
    using utf8_inc_power [of k s] assms(2) by (simp add: it_def chars take_map)
  show ?thesis
  proof (cases "k = length cps")
    case True
    then show ?thesis by (simp add: it chars utf8len_chars) (simp add: s_def)
  next
    case False
    with assms(2) have k: "k < length cps" by simp
    note nth = utf8_chars_nth [of k s, unfolded chars take_map, simplified k, simplified]
    have "drop ?p s = utf8_enc (cps ! k) @ concat (map utf8_enc (drop (Suc k) cps))"
    proof -
      have "cps = take k cps @ cps ! k # drop (Suc k) cps"
        using k by (simp add: id_take_nth_drop)
      then have "s = concat (map utf8_enc (take k cps)) @ utf8_enc (cps ! k) @ concat (map utf8_enc (drop (Suc k) cps))"
        unfolding s_def by (metis concat.simps(2) concat_append list.simps(9) map_append)
      then show ?thesis by (metis append_eq_conv_conj)
    qed
    moreover have "cps ! k < 2 ^ 21"
      using assms(1) k by (simp add: list_all_length)
    ultimately show ?thesis
      using nth k getvalueat_enc [of "cps ! k" ?p s] drop_all [of s ?p]
      by (auto simp: it chars utf8len_chars utf8_char_string_at utf8_deref_def)
  qed
qed

theorem utf8_iter_decodes_witness:
  "utf8_deref ((utf8_inc ^^ 2) (utf8_iter (concat (map utf8_enc [0x41, 0xE9, 0x20AC, 0x1F600])))) = 0x20AC"
  using utf8_iter_decodes [of "[0x41, 0xE9, 0x20AC, 0x1F600]" 2] by simp

section \<open>Check and repair\<close>

function utf8_repair :: "string \<Rightarrow> string" where
  "utf8_repair s =
     (if s = [] then []
      else if char_len s = 0 then replchar @ utf8_repair (tl s)
      else take (char_len s) s @ utf8_repair (drop (char_len s) s))"
  by pat_completeness auto
termination
  by (relation "measure length") (auto simp: length_greater_0_conv)

declare utf8_repair.simps [simp del]

function utf8_bad :: "string \<Rightarrow> nat" where
  "utf8_bad s =
     (if s = [] then 0
      else if char_len s = 0 then 1 + utf8_bad (tl s)
      else utf8_bad (drop (char_len s) s))"
  by pat_completeness auto
termination
  by (relation "measure length") (auto simp: length_greater_0_conv)

declare utf8_bad.simps [simp del]

lemma utf8_repair_simps:
  "utf8_repair [] = []" "utf8_bad [] = 0"
  "s \<noteq> [] \<Longrightarrow> char_len s = 0 \<Longrightarrow> utf8_repair s = replchar @ utf8_repair (drop 1 s)"
  "s \<noteq> [] \<Longrightarrow> char_len s = 0 \<Longrightarrow> utf8_bad s = 1 + utf8_bad (drop 1 s)"
  "char_len s \<noteq> 0 \<Longrightarrow> utf8_repair s = take (char_len s) s @ utf8_repair (drop (char_len s) s)"
  "char_len s \<noteq> 0 \<Longrightarrow> utf8_bad s = utf8_bad (drop (char_len s) s)"
  by (subst utf8_repair.simps utf8_bad.simps; auto simp: drop_Suc)+

text \<open>What \<open>utf8check\<close> does after its inner loop.\<close>

definition check_cont :: "int \<Rightarrow> Utf8Iter \<times> string \<times> int \<times> bool \<Rightarrow> int \<times> string" where
  "check_cont maxrepl r =
     (case r of (it1, out1, cnt1, returned) \<Rightarrow>
        if returned then (cnt1, out1)
        else if utf8_error it1 then (-1, out1)
        else utf8check_loop True maxrepl (fst (utf8_next it1)) (fst (appendchartostring it1 out1)) cnt1)"

definition check_result :: "bool \<Rightarrow> string \<Rightarrow> string \<Rightarrow> int \<Rightarrow> int \<times> string \<Rightarrow> bool" where
  "check_result ok t out cnt r \<longleftrightarrow>
     (if ok then r = (cnt + int (utf8_bad t), out @ utf8_repair t) else fst r = -1)"

lemma utf8check_loop_bad:
  "char_len (drop p s) = 0 \<Longrightarrow> p < length s \<Longrightarrow>
    utf8check_loop True maxrepl (at_pos s p c) out cnt =
      check_cont maxrepl (utf8check_retry maxrepl (at_pos s p c) (out @ replchar) (cnt + 1))"
  by (subst utf8check_loop.simps) (simp add: check_cont_def)

lemma utf8check_loop_good:
  "char_len (drop p s) \<noteq> 0 \<Longrightarrow>
    utf8check_loop True maxrepl (at_pos s p c) out cnt =
      utf8check_loop True maxrepl (at_pos s (p + char_len (drop p s)) (c + 1))
        (out @ take (char_len (drop p s)) (drop p s)) cnt"
  using char_len_le [of "drop p s"]
  by (subst utf8check_loop.simps) (auto simp: utf8_next_at appendchartostring_def utf8_char_string_at)

lemma utf8check_loop_spec:
  "p \<le> length s \<Longrightarrow> check_result (utf8_bad (drop p s) = 0 \<or> cnt + int (utf8_bad (drop p s)) < maxrepl) (drop p s) out cnt
      (utf8check_loop True maxrepl (at_pos s p c) out cnt) \<and>
    (char_len (drop p s) = 0 \<longrightarrow> p < length s \<longrightarrow>
      check_result (cnt + int (utf8_bad (drop (p + 1) s)) < maxrepl) (drop (p + 1) s) out cnt
        (check_cont maxrepl (utf8check_retry maxrepl (at_pos s p c) out cnt)))"
proof (induction "length s - p" arbitrary: p c out cnt rule: less_induct)
  case less
  have Q: "check_result (cnt + int (utf8_bad (drop (p + 1) s)) < maxrepl) (drop (p + 1) s) out cnt
        (check_cont maxrepl (utf8check_retry maxrepl (at_pos s p c) out cnt))"
    if b: "char_len (drop p s) = 0" "p < length s" for out cnt
  proof -
    let ?it = "at_pos s (p + 1) c" and ?t = "drop (p + 1) s"
    have r: "retryfurther (at_pos s p c) = ?it"
      by (rule retryfurther_at [OF b])
    consider "\<not> cnt < maxrepl" | "cnt < maxrepl" "p + 1 = length s"
      | "cnt < maxrepl" "p + 1 < length s" "char_len ?t = 0" | "cnt < maxrepl" "p + 1 < length s" "char_len ?t \<noteq> 0"
      using b(2) by linarith
    then show ?thesis
    proof cases
      case 1
      then show ?thesis
        by (subst utf8check_retry.simps) (simp add: check_cont_def check_result_def b(1))
    next
      case 2
      then show ?thesis
        by (subst utf8check_retry.simps) (simp add: r check_cont_def check_result_def utf8_repair_simps)
    next
      case 3
      have "utf8check_retry maxrepl (at_pos s p c) out cnt = utf8check_retry maxrepl ?it (out @ replchar) (cnt + 1)"
        using 3 by (subst utf8check_retry.simps) (simp add: r)
      moreover have "check_result (cnt + 1 + int (utf8_bad (drop (p + 1 + 1) s)) < maxrepl) (drop (p + 1 + 1) s)
          (out @ replchar) (cnt + 1) (check_cont maxrepl (utf8check_retry maxrepl ?it (out @ replchar) (cnt + 1)))"
        using 3 less(1) [of "p + 1"] by simp
      ultimately show ?thesis
        using 3 by (simp add: check_result_def utf8_repair_simps algebra_simps split: if_splits)
    next
      case 4
      have "utf8check_retry maxrepl (at_pos s p c) out cnt = (?it, out, cnt, False)"
        using 4 by (subst utf8check_retry.simps) (simp add: r)
      then have "check_cont maxrepl (utf8check_retry maxrepl (at_pos s p c) out cnt) =
          utf8check_loop True maxrepl (at_pos s (p + 1 + char_len ?t) (c + 1)) (out @ take (char_len ?t) ?t) cnt"
        using 4 by (simp add: check_cont_def utf8_next_at appendchartostring_def utf8_char_string_at)
      moreover have "check_result (utf8_bad (drop (p + 1 + char_len ?t) s) = 0 \<or>
            cnt + int (utf8_bad (drop (p + 1 + char_len ?t) s)) < maxrepl) (drop (p + 1 + char_len ?t) s)
          (out @ take (char_len ?t) ?t) cnt
          (utf8check_loop True maxrepl (at_pos s (p + 1 + char_len ?t) (c + 1)) (out @ take (char_len ?t) ?t) cnt)"
        using 4 char_len_le [of ?t] less(1) [of "p + 1 + char_len ?t"] by simp
      ultimately show ?thesis
        using 4 by (auto simp: check_result_def utf8_repair_simps algebra_simps split: if_splits)
    qed
  qed
  have "check_result (utf8_bad (drop p s) = 0 \<or> cnt + int (utf8_bad (drop p s)) < maxrepl) (drop p s) out cnt
      (utf8check_loop True maxrepl (at_pos s p c) out cnt)"
  proof (cases "p = length s")
    case True
    then show ?thesis
      by (subst utf8check_loop.simps) (simp add: check_result_def utf8_repair_simps)
  next
    case False
    then have p: "p < length s" using less.prems by simp
    show ?thesis
    proof (cases "char_len (drop p s) = 0")
      case True
      show ?thesis
        using Q [OF True p, of "cnt + 1" "out @ replchar"] p True
        by (simp add: utf8check_loop_bad check_result_def utf8_repair_simps algebra_simps split: if_splits)
    next
      case False
      let ?l = "char_len (drop p s)"
      have "check_result (utf8_bad (drop (p + ?l) s) = 0 \<or> cnt + int (utf8_bad (drop (p + ?l) s)) < maxrepl)
          (drop (p + ?l) s) (out @ take ?l (drop p s)) cnt
          (utf8check_loop True maxrepl (at_pos s (p + ?l) (c + 1)) (out @ take ?l (drop p s)) cnt)"
        using False p char_len_le [of "drop p s"] less(1) [of "p + ?l"] by simp
      then show ?thesis
        using False by (simp add: utf8check_loop_good check_result_def utf8_repair_simps add.commute split: if_splits)
    qed
  qed
  with Q show ?case by blast
qed

lemma utf8_bad_valid: "utf8_bad s = 0 \<longleftrightarrow> utf8_valid s"
proof (induction s rule: utf8_bad.induct)
  case (1 s)
  consider "s = []" | "s \<noteq> []" "char_len s = 0" | "char_len s \<noteq> 0"
    by blast
  then show ?case
  proof cases
    case 3
    then have "s \<noteq> []" by auto
    have "utf8_valid s \<longleftrightarrow> utf8_valid (drop (char_len s) s)"
      using 3 by (simp add: utf8_valid_def utf8_chars_step) (metis append_take_drop_id same_append_eq)
    with 1(2) 3 \<open>s \<noteq> []\<close> show ?thesis
      by (simp add: utf8_repair_simps)
  qed (simp_all add: utf8_repair_simps utf8_valid_def utf8_chars_bad)
qed

lemma utf8_repair_id: "utf8_bad s = 0 \<Longrightarrow> utf8_repair s = s"
  by (induction s rule: utf8_bad.induct)
    (metis add_eq_0_iff_both_eq_0 append_take_drop_id utf8_repair_simps(1,4,5,6) zero_neq_one)

lemma char_len_take_append: "char_len s \<noteq> 0 \<Longrightarrow> char_len (take (char_len s) s @ r) = char_len s"
proof -
  assume *: "char_len s \<noteq> 0"
  then obtain c cs where s: "s = c # cs"
    by (cases s) auto
  with * have l: "char_len s = lead_len c" "lead_len c \<le> length s" "list_all is_cont (take (lead_len c - 1) cs)"
    by (auto simp: char_len_def split: if_splits)
  then obtain k where k: "lead_len c = Suc k"
    using * by (cases "lead_len c") auto
  then show ?thesis
    using l by (simp add: s) (simp add: char_len_def min_absorb2)
qed

lemma utf8_valid_append_char: "char_len s \<noteq> 0 \<Longrightarrow> utf8_valid r \<Longrightarrow> utf8_valid (take (char_len s) s @ r)"
  using char_len_take_append [of s r] char_len_le [of s]
  by (simp add: utf8_valid_def utf8_chars_step min_absorb2)

lemma char_len_replchar: "char_len replchar = 3"
  by (simp add: char_len_def replchar_def lead_len_def is_cont_def)

lemma utf8_valid_repair: "utf8_valid (utf8_repair s)"
proof (induction s rule: utf8_repair.induct)
  case (1 s)
  consider "s = []" | "s \<noteq> []" "char_len s = 0" | "s \<noteq> []" "char_len s \<noteq> 0"
    by blast
  then show ?case
  proof cases
    case 2
    with 1(1) show ?thesis
      using utf8_valid_append_char [of replchar "utf8_repair (tl s)"] char_len_replchar
      by (simp add: utf8_repair_simps drop_Suc) (simp add: replchar_def)
  qed (simp_all add: 1(2) utf8_repair_simps utf8_valid_append_char utf8_valid_def [of "[]"])
qed

lemma utf8check_loop_nofix:
  "p \<le> length s \<Longrightarrow>
    utf8check_loop False maxrepl (at_pos s p c) out 0 = (if utf8_bad (drop p s) = 0 then 0 else -1, out)"
proof (induction "length s - p" arbitrary: p c rule: less_induct)
  case less
  let ?l = "char_len (drop p s)"
  consider "p = length s" | "p < length s" "?l = 0" | "p < length s" "?l \<noteq> 0"
    using less.prems by linarith
  then show ?case
  proof cases
    case 3
    then show ?thesis
      using less(1) [of "p + ?l" "c + 1"] char_len_le [of "drop p s"]
      by (subst utf8check_loop.simps) (simp add: utf8_next_at utf8_repair_simps add.commute)
  qed (subst utf8check_loop.simps, simp add: utf8_repair_simps)+
qed

text \<open>
  C22. Without repair, \<open>utf8check\<close> tells valid strings from the others. With repair it fails when the bytes that start no character are
  as many as the limit, and otherwise returns their number and appends the string with each of them replaced; the replacement is a
  valid string, and the string itself when that was valid.
\<close>

theorem utf8check_repairs:
  "fst (utf8check s False out maxrepl) = (if utf8_valid s then 0 else -1) \<and>
   (if utf8_valid s \<or> int (utf8_bad s) < maxrepl
    then utf8check s True out maxrepl = (int (utf8_bad s), out @ utf8_repair s)
    else fst (utf8check s True out maxrepl) = -1) \<and>
   utf8_valid (utf8_repair s) \<and> (if utf8_valid s then utf8_repair s = s else utf8_bad s > 0)"
proof -
  have "check_result (utf8_bad s = 0 \<or> int (utf8_bad s) < maxrepl) s out 0 (utf8check s True out maxrepl)"
    using utf8check_loop_spec [where p = 0 and cnt = 0 and c = 0 and s = s and maxrepl = maxrepl and out = out] by (simp add: utf8check_def utf8_iter_at)
  moreover have "utf8check s False out maxrepl = (if utf8_bad s = 0 then 0 else -1, out)"
    using utf8check_loop_nofix [where p = 0 and c = 0 and s = s] by (simp add: utf8check_def utf8_iter_at)
  ultimately show ?thesis
    using utf8_repair_id [of s] utf8_valid_repair [of s]
    by (auto simp: check_result_def utf8_bad_valid [symmetric])
qed

section \<open>Truncation of valid strings\<close>

definition boundary :: "string \<Rightarrow> nat \<Rightarrow> nat" where
  "boundary s k = length (concat (take k (utf8_chars s)))"

definition char_value :: "string \<Rightarrow> 32 word" where
  "char_value c = getvalueat c 0 (length c)"

definition char_iter :: "string \<Rightarrow> nat \<Rightarrow> Utf8Iter" where
  "char_iter s k = at_pos s (boundary s k) (of_nat k)"

lemma boundary_0 [simp]: "boundary s 0 = 0"
  by (simp add: boundary_def)

lemma boundary_Suc: "k < length (utf8_chars s) \<Longrightarrow> boundary s (Suc k) = boundary s k + length (utf8_chars s ! k)"
  by (simp add: boundary_def take_Suc_conv_app_nth)

lemma boundary_mono: "j \<le> k \<Longrightarrow> boundary s j \<le> boundary s k"
proof -
  assume "j \<le> k"
  then have "take k (utf8_chars s) = take j (utf8_chars s) @ take (k - j) (drop j (utf8_chars s))"
    by (metis add_diff_inverse_nat not_less take_add)
  then show ?thesis by (simp add: boundary_def)
qed

lemma take_boundary: "take (boundary s k) s = concat (take k (utf8_chars s))"
proof -
  obtain r where r: "s = concat (utf8_chars s) @ r"
    using utf8_chars_prefix by blast
  have "concat (utf8_chars s) = concat (take k (utf8_chars s)) @ concat (drop k (utf8_chars s))"
    by (metis append_take_drop_id concat_append)
  with r have "s = concat (take k (utf8_chars s)) @ concat (drop k (utf8_chars s)) @ r"
    by simp
  then show ?thesis
    unfolding boundary_def by (metis append_eq_conv_conj)
qed

lemma boundary_le: "boundary s k \<le> length s"
  using take_boundary [of s k] boundary_def [of s k] by (metis length_take min.absorb_iff2 min.commute)

lemma boundary_all: "utf8_valid s \<Longrightarrow> boundary s (length (utf8_chars s)) = length s"
  by (simp add: boundary_def utf8_valid_def)

lemma utf8_chars_take: "utf8_chars (concat (take k (utf8_chars s))) = take k (utf8_chars s)"
proof (induction s arbitrary: k rule: utf8_chars.induct)
  case (1 s)
  show ?case
  proof (cases "char_len s = 0 \<or> k = 0")
    case True
    then show ?thesis by (auto simp: utf8_chars_bad)
  next
    case False
    then obtain j where j: "k = Suc j" and l: "char_len s \<noteq> 0" by (cases k) auto
    then show ?thesis
      using 1 [OF l, of j] char_len_take_append [OF l, of "concat (take j (utf8_chars (drop (char_len s) s)))"]
        char_len_le [of s]
      by (simp add: utf8_chars_step min_absorb2)
  qed
qed

lemma getvalueat_take: "getvalueat (take l (drop p s)) 0 l = getvalueat s p l" if "p + l \<le> length s"
proof -
  have "ubyte (take l (drop p s)) i = ubyte s (p + i)" if "i < l" for i
    using that \<open>p + l \<le> length s\<close> by (simp add: ubyte_def)
  from this [of 0] this [of 1] this [of 2] this [of 3] show ?thesis
    by (auto simp: getvalueat_def numeral_2_eq_2)
qed

lemma char_iter_step:
  assumes "k < length (utf8_chars s)"
  shows "utf8_inc (char_iter s k) = char_iter s (Suc k)"
    and "m_pos (char_iter s k) + m_cl (char_iter s k) = boundary s (Suc k)"
    and "utf8_deref (char_iter s k) = char_value (utf8_chars s ! k)"
    and "\<not> utf8_eof (char_iter s k)"
    and "boundary s k < boundary s (Suc k)" "boundary s (Suc k) \<le> boundary s k + 4"
proof -
  let ?c = "utf8_chars s ! k"
  note nth = utf8_chars_nth [OF assms, folded boundary_def]
  have cl: "char_len (drop (boundary s k) s) = length ?c" "length ?c > 0"
    using nth by simp_all
  then have le: "boundary s k + length ?c \<le> length s"
    using char_len_le [of "drop (boundary s k) s"] boundary_le [of s k] by simp
  show "utf8_inc (char_iter s k) = char_iter s (Suc k)"
    using cl by (simp add: char_iter_def utf8_next_at boundary_Suc [OF assms] add.commute)
  show "m_pos (char_iter s k) + m_cl (char_iter s k) = boundary s (Suc k)"
    using cl by (simp add: char_iter_def boundary_Suc [OF assms])
  show "utf8_deref (char_iter s k) = char_value ?c"
    using cl getvalueat_take [OF le] nth(3) by (simp add: utf8_deref_def char_iter_def char_value_def)
  show "\<not> utf8_eof (char_iter s k)"
    using cl(2) le unfolding char_iter_def utf8_eof_at by linarith
  show "boundary s k < boundary s (Suc k)"
    using cl by (simp add: boundary_Suc [OF assms])
  have "char_len (drop (boundary s k) s) \<le> 4"
    by (auto simp: char_len_def lead_len_def Let_def split: list.splits)
  with cl show "boundary s (Suc k) \<le> boundary s k + 4"
    by (simp add: boundary_Suc [OF assms])
qed

lemma char_iter_eof: "utf8_valid s \<Longrightarrow> utf8_eof (char_iter s (length (utf8_chars s)))"
  by (simp add: char_iter_def boundary_all)

lemma char_iter_0: "utf8_iter s = char_iter s 0"
  by (simp add: utf8_iter_at char_iter_def)

lemma utf8_collect_chars:
  "utf8_valid s \<Longrightarrow> k \<le> length (utf8_chars s) \<Longrightarrow>
    utf8_collect (char_iter s k) acc = Some (rev (map char_value (drop k (utf8_chars s))) @ acc)"
proof (induction "length (utf8_chars s) - k" arbitrary: k acc)
  case 0
  then show ?case
    using char_iter_eof [of s] by (subst utf8_collect.simps) simp
next
  case (Suc m)
  then have k: "k < length (utf8_chars s)" by simp
  then show ?case
    using Suc.hyps(1) [of "Suc k"] Suc.hyps(2) Suc.prems
    by (subst utf8_collect.simps) (simp add: char_iter_step Cons_nth_drop_Suc [symmetric])
qed

lemma last_char_loop_chars:
  "utf8_valid s \<Longrightarrow> k < length (utf8_chars s) \<Longrightarrow>
    last_char_loop (char_iter s k) c pos =
      Some (char_value (last (utf8_chars s)), boundary s (length (utf8_chars s) - 1))"
proof (induction "length (utf8_chars s) - k" arbitrary: k c pos)
  case (Suc m)
  let ?n = "length (utf8_chars s)"
  show ?case
  proof (cases "Suc k = ?n")
    case True
    then have "last_char_loop (char_iter s (Suc k)) c' pos' = Some (c', pos')" for c' pos'
      using char_iter_eof [OF Suc.prems(1)] by (subst last_char_loop.simps) simp
    moreover have k: "k = ?n - 1"
      using True by linarith
    moreover have "utf8_chars s ! k = last (utf8_chars s)"
      using True k by (metis last_conv_nth list.size(3) nat.distinct(1))
    ultimately show ?thesis
      using Suc.prems by (subst last_char_loop.simps, simp add: char_iter_step) (simp add: char_iter_def)
  next
    case False
    then show ?thesis
      using Suc by (subst last_char_loop.simps) (simp add: char_iter_step)
  qed
qed simp

text \<open>
  What is kept of a list of characters: those that start before byte \<open>m\<close>, and, to cut at a word, of these only what stands before
  the last run of separators.
\<close>

fun start_before :: "nat \<Rightarrow> string list \<Rightarrow> string list" where
  "start_before m [] = []"
| "start_before m (c # cs) = (if m = 0 then [] else c # start_before (m - length c) cs)"

lemma start_before_0 [simp]: "start_before 0 cs = []"
  by (cases cs) simp_all

definition drop_last_word :: "(string \<Rightarrow> bool) \<Rightarrow> string list \<Rightarrow> string list" where
  "drop_last_word sep cs = rev (dropWhile (\<lambda>c. \<not> sep c) (rev cs))"

definition drop_separators :: "(string \<Rightarrow> bool) \<Rightarrow> string list \<Rightarrow> string list" where
  "drop_separators sep cs = rev (dropWhile sep (rev cs))"

lemma start_before_length:
  assumes "\<forall>c \<in> set cs. length c \<le> 4"
  shows "length (concat (start_before m cs)) \<le> m + 3"
    and "start_before m cs = cs \<or> m \<le> length (concat (start_before m cs))"
proof -
  have "length (concat (start_before m cs)) \<le> (if m = 0 then 0 else m + 3) \<and>
    (start_before m cs = cs \<or> m \<le> length (concat (start_before m cs)))"
    using assms
  proof (induction cs arbitrary: m)
    case (Cons c cs)
    show ?case
      using Cons.IH [of "m - length c"] Cons.prems by (cases "m = 0"; cases "m \<le> length c") auto
  qed simp
  then show "length (concat (start_before m cs)) \<le> m + 3" "start_before m cs = cs \<or> m \<le> length (concat (start_before m cs))"
    by (auto split: if_splits)
qed

lemma drop_separators_length: "length (concat (drop_separators sep cs)) \<le> length (concat cs)"
proof -
  have "length (concat (dropWhile sep ds)) \<le> length (concat ds)" for ds
    by (induction ds) auto
  then show ?thesis
    by (metis drop_separators_def length_concat rev_map rev_rev_ident sum_list_rev)
qed

lemma strip_ws_loop_chars:
  assumes "utf8_valid s" and "0 \<notin> set wss"
  shows "k \<le> length (utf8_chars s) \<Longrightarrow>
    strip_ws_loop wss (take (boundary s k) s) pos =
      Some (Inr (concat (drop_separators (\<lambda>c. char_value c \<in> set wss) (take k (utf8_chars s)))))"
proof (induction k arbitrary: pos)
  case 0
  have "last_char_loop (utf8_iter []) 0 pos = Some (0, pos)"
    by (subst last_char_loop.simps) (simp add: utf8_iter_at)
  then show ?case
    using assms(2) by (subst strip_ws_loop.simps) (simp add: drop_separators_def)
next
  case (Suc k)
  let ?t = "take (boundary s (Suc k)) s"
  have t: "utf8_chars ?t = take (Suc k) (utf8_chars s)"
    by (simp only: take_boundary utf8_chars_take)
  have valid: "utf8_valid ?t"
    unfolding utf8_valid_def t by (simp add: take_boundary)
  have lens: "length (utf8_chars ?t) = Suc k"
    using Suc.prems by (simp add: t)
  have last: "last (utf8_chars ?t) = utf8_chars s ! k"
    using Suc.prems by (simp add: t take_Suc_conv_app_nth)
  have bt: "boundary ?t k = boundary s k"
    using t by (simp only: boundary_def [of ?t] boundary_def [of s k]) simp
  have l: "last_char_loop (utf8_iter ?t) 0 pos = Some (char_value (utf8_chars s ! k), boundary s k)"
    using last_char_loop_chars [OF valid, of 0 0 pos] lens last bt by (simp add: char_iter_0)
  have taken: "take (Suc k) (utf8_chars s) = take k (utf8_chars s) @ [utf8_chars s ! k]"
    using Suc.prems by (simp add: take_Suc_conv_app_nth)
  show ?case
  proof (cases "char_value (utf8_chars s ! k) \<in> set wss")
    case True
    have "erase_from ?t (boundary s k) = Inr (take (boundary s k) s)"
      using boundary_mono [of k "Suc k" s] boundary_le [of s k] by (simp add: erase_from_def min_absorb2)
    then show ?thesis
      using True Suc by (subst strip_ws_loop.simps) (simp add: l taken drop_separators_def)
  next
    case False
    then have "strip_ws_loop wss ?t pos = Some (Inr ?t)"
      by (subst strip_ws_loop.simps) (simp add: l)
    with False show ?thesis
      by (simp add: take_boundary taken drop_separators_def)
  qed
qed

lemma truncate_scan_chars:
  assumes "utf8_valid s" and "atword \<or> wss = []"
  defines "sep \<equiv> \<lambda>c. char_value c \<in> set wss"
  shows "k \<le> length (utf8_chars s) \<Longrightarrow> i \<le> k \<Longrightarrow>
      take i (utf8_chars s) = drop_last_word sep (take k (utf8_chars s)) \<Longrightarrow>
    \<exists>j i'. i' \<le> j \<and> j \<le> length (utf8_chars s) \<and>
      take j (utf8_chars s) = take k (utf8_chars s) @ start_before (m - boundary s k) (drop k (utf8_chars s)) \<and>
      take i' (utf8_chars s) = drop_last_word sep (take j (utf8_chars s)) \<and>
      truncate_scan atword wss m (char_iter s k) (boundary s k) (boundary s i) = Some (boundary s j, boundary s i')"
proof (induction "length (utf8_chars s) - k" arbitrary: k i)
  case 0
  then have "k = length (utf8_chars s)" by simp
  with 0 show ?case
    using char_iter_eof [OF assms(1)] by (subst truncate_scan.simps) (intro exI [of _ k] exI [of _ i], simp)
next
  case (Suc n)
  then have k: "k < length (utf8_chars s)" by simp
  note step = char_iter_step [OF k]
  have pos: "m_pos (char_iter s k) = boundary s k"
    by (simp add: char_iter_def)
  have dropped: "drop k (utf8_chars s) = utf8_chars s ! k # drop (Suc k) (utf8_chars s)"
    using k by (simp add: Cons_nth_drop_Suc)
  have taken: "take (Suc k) (utf8_chars s) = take k (utf8_chars s) @ [utf8_chars s ! k]"
    using k by (simp add: take_Suc_conv_app_nth)
  show ?case
  proof (cases "boundary s k < m")
    case False
    then have "truncate_scan atword wss m (char_iter s k) (boundary s k) (boundary s i) =
        Some (boundary s k, boundary s i)"
      using step(4) by (subst truncate_scan.simps) (simp add: pos)
    with False Suc.prems k show ?thesis
      by (intro exI [of _ k] exI [of _ i]) (simp add: dropped)
  next
    case True
    define i' where "i' = (if sep (utf8_chars s ! k) then Suc k else i)"
    have "truncate_scan atword wss m (char_iter s k) (boundary s k) (boundary s i) =
        truncate_scan atword wss m (char_iter s (Suc k)) (boundary s (Suc k)) (boundary s i')"
      using True step(1,3,4) step(2) [unfolded pos] assms(2)
      by (subst truncate_scan.simps) (auto simp: pos i'_def sep_def)
    moreover have "take i' (utf8_chars s) = drop_last_word sep (take (Suc k) (utf8_chars s))" "i' \<le> Suc k"
      using Suc.prems k by (auto simp: i'_def taken drop_last_word_def)
    moreover have "start_before (m - boundary s k) (drop k (utf8_chars s)) =
        utf8_chars s ! k # start_before (m - boundary s (Suc k)) (drop (Suc k) (utf8_chars s))"
      using True by (simp add: dropped boundary_Suc [OF k])
    ultimately show ?thesis
      using Suc.hyps(1) [of "Suc k" i'] Suc.hyps(2) Suc.prems(1) k by (simp add: taken)
  qed
qed

text \<open>
  C23. On a valid string with a valid set of separators (without NUL), \<open>utf8truncate\<close> returns the string itself when it is
  no longer than the limit. Otherwise it keeps exactly the characters that start before the limit (less the length of the ellipsis), at
  most 3 bytes more than the limit and no fewer bytes than it, or the whole string; when word truncation is asked for, it then drops the characters
  behind the last separator of these and that separator with the ones before it: the word that the limit cuts, or ends at, is
  never kept, and nothing is left when no separator is within the limit. The ellipsis follows if asked for.
\<close>

theorem utf8truncate_valid:
  fixes s ellipsis ws :: string and maxlen :: int and flags :: "32 word"
  assumes "utf8_valid s" and "utf8_valid ws" and "0 \<notin> char_value ` set (utf8_chars ws)" and "0 \<le> maxlen"
    and "maxlen < 2 ^ 31"
  defines "ell \<equiv> flags AND UTF8T_ELLIPSIS \<noteq> 0"
  defines "limit \<equiv> nat (if ell then max 0 (maxlen - int (utf8len ellipsis)) else maxlen)"
  defines "sep \<equiv> \<lambda>c. char_value c \<in> char_value ` set (utf8_chars ws)"
  defines "kept \<equiv> start_before limit (utf8_chars s)"
  shows "utf8truncate s maxlen flags ellipsis ws =
      Some (Inr (if int (length s) \<le> maxlen then s
        else concat (if flags AND UTF8T_ATWORD = 0 then kept else drop_separators sep (drop_last_word sep kept)) @
          (if ell then ellipsis else []))) \<and>
    length (concat kept) \<le> limit + 3 \<and> (kept = utf8_chars s \<or> limit \<le> length (concat kept))"
proof -
  let ?at = "flags AND UTF8T_ATWORD \<noteq> 0"
  define wss where "wss = (if ?at then rev (map char_value (utf8_chars ws)) else [])"
  have collect: "(if ?at then utf8_collect (utf8_iter ws) [] else Some []) = Some wss"
    using utf8_collect_chars [OF assms(2), of 0 "[]"] by (simp add: wss_def char_iter_0)
  have "\<exists>j i. i \<le> j \<and> j \<le> length (utf8_chars s) \<and> take j (utf8_chars s) = kept \<and>
    take i (utf8_chars s) = drop_last_word (\<lambda>c. char_value c \<in> set wss) (take j (utf8_chars s)) \<and>
    truncate_scan ?at wss limit (utf8_iter s) 0 0 = Some (boundary s j, boundary s i)"
    using truncate_scan_chars [OF assms(1), of ?at wss 0 0 limit]
    by (simp add: char_iter_0 kept_def wss_def drop_last_word_def)
  then obtain j i where ij: "i \<le> j" "j \<le> length (utf8_chars s)" "take j (utf8_chars s) = kept"
    "take i (utf8_chars s) = drop_last_word (\<lambda>c. char_value c \<in> set wss) kept"
    "truncate_scan ?at wss limit (utf8_iter s) 0 0 = Some (boundary s j, boundary s i)"
    by metis
  have e: "erase_from s (boundary s k) = Inr (take (boundary s k) s)" for k
    using boundary_le [of s k] by (simp add: erase_from_def)
  have big: "maxlen mod 18446744073709551616 = maxlen"
    using assms(4,5) by simp
  note unfolded = utf8truncate_def Let_def big collect limit_def [symmetric] ell_def [symmetric]
  have "utf8truncate s maxlen flags ellipsis ws =
      Some (Inr (if int (length s) \<le> maxlen then s
        else concat (if \<not> ?at then kept else drop_separators sep (drop_last_word sep kept)) @ (if ell then ellipsis else [])))"
  proof (cases ?at)
    case False
    then show ?thesis
      using collect ij(3,5) e by (simp add: unfolded take_boundary)
  next
    case True
    then have wss: "set wss = char_value ` set (utf8_chars ws)"
      by (simp add: wss_def)
    have "strip_ws_loop wss (take (boundary s i) s) (boundary s j) =
        Some (Inr (concat (drop_separators sep (drop_last_word sep kept))))"
      using strip_ws_loop_chars [OF assms(1), of wss i "boundary s j"] assms(3) ij(1,2,4) wss by (simp add: sep_def)
    then show ?thesis
      using True collect ij(5) e by (simp add: unfolded)
  qed
  moreover have "\<forall>c \<in> set (utf8_chars s). length c \<le> 4"
    using char_iter_step(6) boundary_Suc by (metis add_le_cancel_left in_set_conv_nth)
  ultimately show ?thesis
    using start_before_length by (simp add: kept_def)
qed

theorem utf8truncate_valid_witness:
  "utf8truncate ''one two six'' 9 UTF8T_ATWORD ''...'' '' '' = Some (Inr ''one two'')"
proof -
  have c: "char_len (c # cs) = 1" if "(of_char c :: nat) < 128" for c cs
    using that by (simp add: char_len_def lead_len_def)
  have chars: "utf8_chars ''one two six'' = map (\<lambda>c. [c]) ''one two six''" "utf8_chars '' '' = ['' '']"
    by (subst utf8_chars.simps; simp add: c)+
  have "utf8_valid ''one two six''" "utf8_valid '' ''" "0 \<notin> char_value ` set (utf8_chars '' '')"
    by (simp_all add: utf8_valid_def chars char_value_def getvalueat_def ubyte_def byte_of_def)
  then show ?thesis
    using utf8truncate_valid [where s = "''one two six''" and ws = "'' ''" and maxlen = 9 and flags = UTF8T_ATWORD
        and ellipsis = "''...''"]
    by (simp add: UTF8T_ATWORD_def UTF8T_ELLIPSIS_def chars char_value_def getvalueat_def ubyte_def byte_of_def
        drop_separators_def drop_last_word_def)
qed

lemma truncate_scan_stuck:
  assumes "truncate_scan atword wss m it pos lw = Some r"
  shows "m_cl it = 0 \<longrightarrow> m_pos it < m \<longrightarrow> utf8_eof it"
proof (rule truncate_scan.raw_induct [OF _ assms,
      where P = "\<lambda>atword wss m it pos lw r. m_cl it = 0 \<longrightarrow> m_pos it < m \<longrightarrow> utf8_eof it"])
  fix scan and atword :: bool and wss m it and pos lw :: nat and r :: "nat \<times> nat"
  assume step: "\<And>atword wss m it pos lw r. scan atword wss m it pos lw = Some r \<Longrightarrow>
      m_cl it = 0 \<longrightarrow> m_pos it < m \<longrightarrow> utf8_eof it"
    and body: "(if utf8_eof it then Some (pos, lw)
      else if m_pos it < m then
        scan atword wss m (fst (utf8_next it)) (m_pos it + m_cl it)
          (if atword \<and> utf8_deref it \<in> set wss then m_pos it + m_cl it else lw)
      else Some (pos, lw)) = Some r"
  show "m_cl it = 0 \<longrightarrow> m_pos it < m \<longrightarrow> utf8_eof it"
  proof (intro impI)
    assume "m_cl it = 0" "m_pos it < m"
    with step [of atword wss m it] body show "utf8_eof it"
      by (cases r) (auto simp: utf8_next_def split: if_splits)
  qed
qed

lemma truncate_scan_hangs:
  assumes "boundary s (length (utf8_chars s)) < m" and "\<not> utf8_valid s"
  shows "k \<le> length (utf8_chars s) \<Longrightarrow> truncate_scan False wss m (char_iter s k) pos lw = None"
proof (induction "length (utf8_chars s) - k" arbitrary: k pos lw)
  case 0
  then have k: "k = length (utf8_chars s)" by simp
  let ?it = "char_iter s k"
  have bad: "char_len (drop (boundary s k) s) = 0"
  proof -
    obtain r where r: "s = concat (utf8_chars s) @ r" "char_len r = 0"
      using utf8_chars_prefix by blast
    then have "drop (boundary s k) s = r"
      by (metis append_eq_conv_conj boundary_def k order_refl take_all)
    with r show ?thesis by simp
  qed
  have "boundary s k \<noteq> length s"
    using assms(2) take_boundary [of s k] k by (auto simp: utf8_valid_def)
  then have "\<not> utf8_eof ?it" "m_cl ?it = 0" "m_pos ?it < m"
    using bad assms(1) k by (simp_all add: char_iter_def)
  then show ?case
    using truncate_scan_stuck [of False wss m ?it pos lw] by (cases "truncate_scan False wss m ?it pos lw") auto
next
  case (Suc n)
  then have k: "k < length (utf8_chars s)" by simp
  have "boundary s k < m"
    using assms(1) boundary_mono [of k "length (utf8_chars s)" s] k by simp
  then show ?case
    using Suc char_iter_step [OF k] k by (subst truncate_scan.simps) (simp add: char_iter_def [of s k])
qed

text \<open>
  When a string is longer than the limit and the first byte that starts no character comes before the limit, \<open>utf8truncate\<close>
  does not return.
\<close>

theorem utf8truncate_hangs:
  assumes "\<not> utf8_valid s" and "int (length (concat (utf8_chars s))) < maxlen" and "maxlen < int (length s)"
    and "maxlen < 2 ^ 31"
  shows "utf8truncate s maxlen 0 ellipsis ws = None"
proof -
  have big: "maxlen mod 18446744073709551616 = maxlen"
    using assms(2,4) by simp
  have "boundary s (length (utf8_chars s)) < nat maxlen"
    using assms(2) by (simp add: boundary_def)
  then have "truncate_scan False [] (nat maxlen) (utf8_iter s) 0 0 = None"
    using truncate_scan_hangs [OF _ assms(1), of "nat maxlen" 0] by (simp add: char_iter_0)
  with assms(3) show ?thesis
    by (simp add: utf8truncate_def big)
qed

theorem utf8truncate_hangs_witness: "utf8truncate (CHR 0xFF # ''abc'') 2 0 ''...'' '' '' = None"
proof -
  have "char_len (CHR 0xFF # ''abc'') = 0"
    by (simp add: char_len_def lead_len_def)
  then have "utf8_chars (CHR 0xFF # ''abc'') = []"
    by (rule utf8_chars_bad)
  then show ?thesis
    by (intro utf8truncate_hangs) (simp_all add: utf8_valid_def)
qed

text \<open>
  The limit counts the bytes before the last character kept, so the result can be up to 3 bytes longer than \<open>maxlen\<close>, which
  the header calls the maximum size after truncation.
\<close>

lemma utf8truncate_exceeds:
  "utf8truncate (utf8_enc 0x20AC @ utf8_enc 0x20AC) 1 0 ellipsis ws = Some (Inr (utf8_enc 0x20AC))"
    "length (utf8_enc 0x20AC) = 3"
proof -
  let ?s = "utf8_enc 0x20AC @ utf8_enc 0x20AC"
  have chars: "utf8_chars ?s = [utf8_enc 0x20AC, utf8_enc 0x20AC]"
    using utf8_chars_enc [of "[0x20AC, 0x20AC]"] by simp
  show len: "length (utf8_enc 0x20AC) = 3"
    by (simp add: utf8_enc_def)
  have b: "boundary ?s (Suc 0) = 3"
    by (simp add: boundary_def chars len)
  have "truncate_scan False [] 1 (char_iter ?s (Suc 0)) 3 0 = Some (3, 0)"
    by (subst truncate_scan.simps) (simp add: char_iter_def b len)
  then have "truncate_scan False [] 1 (utf8_iter ?s) 0 0 = Some (3, 0)"
    using char_iter_step(1,2,4) [of 0 ?s]
    by (subst truncate_scan.simps) (simp add: char_iter_0 chars b, simp add: char_iter_def)
  then show "utf8truncate ?s 1 0 ellipsis ws = Some (Inr (utf8_enc 0x20AC))"
    by (simp add: utf8truncate_def erase_from_def len)
qed

end
