(* ===== verification/Conf_Map.thy ===== *)
theory Conf_Map
  imports Str_Basic
begin

text \<open>
  \<open>std::map\<close> with the comparator of the configuration classes (\<open>CaseComparator\<close> of
  \<open>utils/conftree.h\<close>). A map is the list of its entries in the order of an iteration. The laws of
  the operations are proved once, in a locale for any comparator that orders by a key, and used for
  both comparators of the code.
\<close>

section \<open>The operations\<close>

type_synonym ('k, 'v) omap = "('k \<times> 'v) list"

text \<open>\<open>find\<close>: the lower bound of the key, when the key is not below it.\<close>

fun omap_find :: "('k \<Rightarrow> 'k \<Rightarrow> bool) \<Rightarrow> 'k \<Rightarrow> ('k, 'v) omap \<Rightarrow> 'v option" where
  "omap_find lt k [] = None"
| "omap_find lt k ((a, v) # m) =
     (if lt a k then omap_find lt k m else if lt k a then None else Some v)"

text \<open>\<open>m[k] = v\<close>: an existing entry keeps its key.\<close>

fun omap_put :: "('k \<Rightarrow> 'k \<Rightarrow> bool) \<Rightarrow> 'k \<Rightarrow> 'v \<Rightarrow> ('k, 'v) omap \<Rightarrow> ('k, 'v) omap" where
  "omap_put lt k v [] = [(k, v)]"
| "omap_put lt k v ((a, w) # m) =
     (if lt a k then (a, w) # omap_put lt k v m
      else if lt k a then (k, v) # (a, w) # m
      else (a, v) # m)"

fun omap_erase :: "('k \<Rightarrow> 'k \<Rightarrow> bool) \<Rightarrow> 'k \<Rightarrow> ('k, 'v) omap \<Rightarrow> ('k, 'v) omap" where
  "omap_erase lt k [] = []"
| "omap_erase lt k ((a, w) # m) =
     (if lt a k then (a, w) # omap_erase lt k m else if lt k a then (a, w) # m else m)"

definition omap_ok :: "('k \<Rightarrow> 'k \<Rightarrow> bool) \<Rightarrow> ('k, 'v) omap \<Rightarrow> bool" where
  "omap_ok lt m \<longleftrightarrow> sorted_wrt lt (map fst m)"

lemma omap_ok_simps [simp]:
  "omap_ok lt []" "omap_ok lt ((a, v) # m) \<longleftrightarrow> (\<forall>b \<in> fst ` set m. lt a b) \<and> omap_ok lt m"
  by (auto simp: omap_ok_def)

section \<open>The laws\<close>

locale keyed_order =
  fixes lt :: "'k \<Rightarrow> 'k \<Rightarrow> bool" and key :: "'k \<Rightarrow> 'o :: linorder"
  assumes lt_key: "lt a b \<longleftrightarrow> key a < key b"
begin

lemma find_put:
  "omap_ok lt m \<Longrightarrow> omap_find lt k' (omap_put lt k v m) = (if key k' = key k then Some v else omap_find lt k' m)"
  by (induction m) (auto simp: lt_key)

lemma put_keys: "(a, w) \<in> set (omap_put lt k v m) \<Longrightarrow> a = k \<or> a \<in> fst ` set m"
  by (induction m) (force split: if_splits)+

lemma ok_put: "omap_ok lt m \<Longrightarrow> omap_ok lt (omap_put lt k v m)"
proof (induction m)
  case (Cons x m)
  obtain a w where x: "x = (a, w)" by force
  have "lt a b" if "lt a k" "(b, u) \<in> set (omap_put lt k v m)" for b u
    using put_keys [OF that(2)] Cons.prems that(1) by (auto simp: x)
  moreover have "lt k b" if "lt k a" "b \<in> fst ` set m" for b
    using Cons.prems that by (auto simp: x lt_key dest: less_trans)
  ultimately show ?case
    using Cons by (auto simp: x)
qed simp

lemma erase_keys: "x \<in> set (omap_erase lt k m) \<Longrightarrow> x \<in> set m"
  by (induction m) (auto split: if_splits)

lemma ok_erase: "omap_ok lt m \<Longrightarrow> omap_ok lt (omap_erase lt k m)"
  by (induction m) (fastforce dest: erase_keys)+

lemma find_erase:
  "omap_ok lt m \<Longrightarrow> omap_find lt k' (omap_erase lt k m) = (if key k' = key k then None else omap_find lt k' m)"
proof (induction m)
  case (Cons x m)
  obtain a w where x: "x = (a, w)" by force
  have none: "omap_find lt k' m = None" if "key k' \<le> key a"
    using that Cons.prems by (cases m) (auto simp: x lt_key)
  have "lt a k \<longleftrightarrow> key a < key k" "lt k a \<longleftrightarrow> key k < key a" "lt a k' \<longleftrightarrow> key a < key k'"
    "lt k' a \<longleftrightarrow> key k' < key a"
    by (rule lt_key)+
  then show ?case
    using Cons none by (auto simp: x)
qed simp

lemma find_cong: "key a = key b \<Longrightarrow> omap_find lt a m = omap_find lt b m"
  by (induction m) (auto simp: lt_key)

lemma find_mem: "omap_ok lt m \<Longrightarrow> (k, v) \<in> set m \<Longrightarrow> omap_find lt k m = Some v"
  by (induction m) (force simp: lt_key)+

lemma find_SomeD: "omap_find lt k m = Some v \<Longrightarrow> \<exists>a. (a, v) \<in> set m \<and> key a = key k"
  by (induction m) (auto simp: lt_key not_less split: if_splits)

lemma equiv_key: "\<not> lt a b \<and> \<not> lt b a \<longleftrightarrow> key a = key b"
  by (auto simp: lt_key)

end

section \<open>The comparators of the code\<close>

definition CaseComparator :: "bool \<Rightarrow> string \<Rightarrow> string \<Rightarrow> bool" where
  "CaseComparator nocase a b =
     (if \<not> nocase then map (of_char :: char \<Rightarrow> int) a < map of_char b
      else map (\<lambda>c. schar (to_lower c)) a < map (\<lambda>c. schar (to_lower c)) b)"

definition conf_key :: "bool \<Rightarrow> string \<Rightarrow> int list" where
  "conf_key nocase a = (if nocase then map (\<lambda>c. schar (to_lower c)) a else map of_char a)"

interpretation cmap: keyed_order "CaseComparator nocase" "conf_key nocase"
  for nocase
  by unfold_locales (simp add: CaseComparator_def conf_key_def)

lemma of_char_int_inject [simp]: "(of_char a :: int) = of_char b \<longleftrightarrow> a = b"
  by (metis char_of_char of_char_eq_iff)

lemma schar_inject [simp]: "schar a = schar b \<longleftrightarrow> a = b"
proof -
  have "0 \<le> (of_char c :: int)" "(of_char c :: int) < 256" for c
    by (simp_all add: of_char_def horner_sum_simps split: char.splits)
  then show ?thesis
    by (auto simp: schar_def Let_def split: if_splits) (smt (verit) of_char_int_inject)+
qed

lemma conf_key_case: "conf_key False a = conf_key False b \<longleftrightarrow> a = b"
  by (auto simp: conf_key_def inj_map_eq_map inj_def)

lemma conf_key_nocase: "conf_key True a = conf_key True b \<longleftrightarrow> stringtolower a = stringtolower b"
proof -
  have "conf_key True s = map schar (stringtolower s)" for s
    by (simp add: conf_key_def stringtolower_def)
  then show ?thesis
    by (simp add: inj_map_eq_map inj_def)
qed

lemma conf_key_Nil [simp]: "conf_key nocase a = conf_key nocase [] \<longleftrightarrow> a = []"
  by (auto simp: conf_key_def)

lemma conf_key_refl_eq: "a = b \<Longrightarrow> conf_key nocase a = conf_key nocase b"
  by simp

end
