(* ===== verification/Conf_Simple.thy ===== *)
theory Conf_Simple
  imports Conf_Map
begin

text \<open>
  Configuration files with subsections (\<open>ConfSimple\<close> of \<open>utils/conftree.cpp\<close> and
  \<open>utils/conftree.h\<close>): the object as a record, reading from text, lookup, update with the upkeep of the
  presentation data, removal, and writing. The disk is a record with the files' contents and what can
  be opened. \<open>path_tildexpand\<close>, which reads the environment and the password file, is the
  parameter \<open>tilde\<close>. The modification time of the file (\<open>sourceChanged\<close>) is not modelled, nor are
  output streams that fail.
\<close>

section \<open>Data\<close>

datatype Kind = CFL_COMMENT | CFL_SK | CFL_VAR | CFL_VARCOMMENT

record ConfLine =
  m_kind :: Kind
  m_data :: string
  m_value :: string
  m_aux :: string

definition conf_line :: "Kind \<Rightarrow> string \<Rightarrow> ConfLine" where
  "conf_line k d = \<lparr>m_kind = k, m_data = d, m_value = [], m_aux = []\<rparr>"

datatype StatusCode = STATUS_ERROR | STATUS_RO | STATUS_RW

record ConfSimple =
  dotildexpand :: bool
  trimvalues :: bool
  status :: StatusCode
  m_flags :: "32 word"
  m_filename :: string
  m_submaps :: "(string, (string, string) omap) omap"
  m_order :: "ConfLine list"
  m_subkeys_unsorted :: "string list"
  m_holdWrites :: bool

definition CFSF_RO :: "32 word" where "CFSF_RO = 1"
definition CFSF_TILDEXP :: "32 word" where "CFSF_TILDEXP = 2"
definition CFSF_NOTRIMVALUES :: "32 word" where "CFSF_NOTRIMVALUES = 4"
definition CFSF_SUBMAPNOCASE :: "32 word" where "CFSF_SUBMAPNOCASE = 8"
definition CFSF_KEYNOCASE :: "32 word" where "CFSF_KEYNOCASE = 16"
definition CFSF_FROMSTRING :: "32 word" where "CFSF_FROMSTRING = 32"

lemmas cfsf_defs = CFSF_RO_def CFSF_TILDEXP_def CFSF_NOTRIMVALUES_def CFSF_SUBMAPNOCASE_def
  CFSF_KEYNOCASE_def CFSF_FROMSTRING_def

abbreviation sub_nocase :: "ConfSimple \<Rightarrow> bool" where
  "sub_nocase c \<equiv> m_flags c AND CFSF_SUBMAPNOCASE \<noteq> 0"

abbreviation key_nocase :: "ConfSimple \<Rightarrow> bool" where
  "key_nocase c \<equiv> m_flags c AND CFSF_KEYNOCASE \<noteq> 0"

text \<open>The comparators of the two levels of maps.\<close>

abbreviation sub_lt :: "ConfSimple \<Rightarrow> string \<Rightarrow> string \<Rightarrow> bool" where
  "sub_lt c \<equiv> CaseComparator (sub_nocase c)"

abbreviation key_lt :: "ConfSimple \<Rightarrow> string \<Rightarrow> string \<Rightarrow> bool" where
  "key_lt c \<equiv> CaseComparator (key_nocase c)"

text \<open>\<open>OrderComp\<close>: a line of the same kind whose data is equivalent.\<close>

definition OrderComp :: "Kind \<Rightarrow> string \<Rightarrow> bool \<Rightarrow> ConfLine \<Rightarrow> bool" where
  "OrderComp k d nocase cfl \<longleftrightarrow>
     m_kind cfl = k \<and> \<not> CaseComparator nocase d (m_data cfl) \<and> \<not> CaseComparator nocase (m_data cfl) d"

definition conf_ok :: "ConfSimple \<Rightarrow> bool" where
  "conf_ok c \<longleftrightarrow> status c \<noteq> STATUS_ERROR"

section \<open>Lookup\<close>

definition conf_get :: "ConfSimple \<Rightarrow> string \<Rightarrow> string \<Rightarrow> string option" where
  "conf_get c nm sk =
     (if \<not> conf_ok c then None
      else case omap_find (sub_lt c) sk (m_submaps c) of
          None \<Rightarrow> None
        | Some sub \<Rightarrow> omap_find (key_lt c) nm sub)"

text \<open>The optional pattern is what \<open>fnmatch\<close> accepts.\<close>

definition conf_getNames :: "ConfSimple \<Rightarrow> string \<Rightarrow> (string \<Rightarrow> bool) option \<Rightarrow> string list" where
  "conf_getNames c sk pat =
     (if \<not> conf_ok c then []
      else case omap_find (sub_lt c) sk (m_submaps c) of
          None \<Rightarrow> []
        | Some sub \<Rightarrow> filter (\<lambda>nm. case pat of None \<Rightarrow> True | Some p \<Rightarrow> p nm) (map fst sub))"

definition conf_getSubKeys :: "ConfSimple \<Rightarrow> string list" where
  "conf_getSubKeys c = (if \<not> conf_ok c then [] else map fst (m_submaps c))"

definition conf_hasSubKey :: "ConfSimple \<Rightarrow> string \<Rightarrow> bool" where
  "conf_hasSubKey c sk \<longleftrightarrow> omap_find (sub_lt c) sk (m_submaps c) \<noteq> None"

definition conf_hasNameAnywhere :: "ConfSimple \<Rightarrow> string \<Rightarrow> bool" where
  "conf_hasNameAnywhere c nm \<longleftrightarrow> list_ex (\<lambda>sk. conf_get c nm sk \<noteq> None) (conf_getSubKeys c)"

section \<open>Setting a variable in memory\<close>

definition insert_at :: "nat \<Rightarrow> 'a \<Rightarrow> 'a list \<Rightarrow> 'a list" where
  "insert_at i x xs = take i xs @ x # drop i xs"

text \<open>The second half of \<open>i_set\<close>: a variable that did not exist goes into the order data.\<close>

definition i_set_order :: "string \<Rightarrow> string \<Rightarrow> string \<Rightarrow> bool \<Rightarrow> ConfSimple \<Rightarrow> (bool \<times> ConfSimple) run" where
  "i_set_order nm v sk init c =
     (if init then Inr (True, c\<lparr>m_order := m_order c @ [(conf_line CFL_VAR nm)\<lparr>m_value := v\<rparr>]\<rparr>)
      else
        case (if sk = [] then Some 0
              else map_option Suc (find_idx (OrderComp CFL_SK sk (sub_nocase c)) (m_order c))) of
          None \<Rightarrow> Inl AbortCalled
        | Some start \<Rightarrow>
            let behind = drop start (m_order c);
                fin = (case find_idx (\<lambda>l. m_kind l = CFL_SK) behind of
                         None \<Rightarrow> length (m_order c)
                       | Some i \<Rightarrow> start + i);
                zone = take (fin - start) behind
            in if find_idx (OrderComp CFL_VAR nm (key_nocase c)) zone = None then
                 let pos = (case find_idx (\<lambda>l. m_kind l = CFL_VARCOMMENT \<and> m_aux l = nm) zone of
                              Some i \<Rightarrow> start + i + 1
                            | None \<Rightarrow> fin)
                 in Inr (True, c\<lparr>m_order := insert_at pos (conf_line CFL_VAR nm) (m_order c)\<rparr>)
               else Inr (True, c))"

definition i_set :: "string \<Rightarrow> string \<Rightarrow> string \<Rightarrow> bool \<Rightarrow> ConfSimple \<Rightarrow> (bool \<times> ConfSimple) run" where
  "i_set nm v sk init c =
     (if find_first_of v [newline, cret] 0 \<noteq> None then Inr (False, c)
      else case omap_find (sub_lt c) sk (m_submaps c) of
          None \<Rightarrow>
            let c1 = c\<lparr>m_submaps := omap_put (sub_lt c) sk (omap_put (key_lt c) nm v []) (m_submaps c)\<rparr>;
                c2 = (if sk \<noteq> [] \<and> find_idx (OrderComp CFL_SK sk (sub_nocase c)) (m_order c) = None
                      then c1\<lparr>m_order := m_order c @ [conf_line CFL_SK sk]\<rparr> else c1)
            in i_set_order nm v sk init c2
        | Some sub \<Rightarrow>
            let c1 = c\<lparr>m_submaps := omap_put (sub_lt c) sk (omap_put (key_lt c) nm v sub) (m_submaps c)\<rparr>
            in if omap_find (key_lt c) nm sub \<noteq> None then Inr (True, c1)
               else i_set_order nm v sk init c1)"

section \<open>Reading\<close>

text \<open>The search for \<open>[ \t]*#[ \t]*([a-zA-Z0-9]+)[ \t]*=\<close> in a line: the name of the first match.\<close>

definition is_alnum :: "char \<Rightarrow> bool" where
  "is_alnum c \<longleftrightarrow> is_digit c \<or> is_upper c \<or> is_lower c"

definition blank_tab :: "char \<Rightarrow> bool" where
  "blank_tab c \<longleftrightarrow> c = blank \<or> c = tab"

fun varcomment_name :: "string \<Rightarrow> string option" where
  "varcomment_name [] = None"
| "varcomment_name (c # cs) =
     (let t = dropWhile blank_tab cs;
          nm = takeWhile is_alnum t;
          u = dropWhile blank_tab (dropWhile is_alnum t)
      in if c = CHR ''#'' \<and> nm \<noteq> [] \<and> u \<noteq> [] \<and> hd u = CHR ''='' then Some nm
         else varcomment_name cs)"

text \<open>\<open>std::getline\<close>: the line, the rest, and whether the stream is still good.\<close>

definition get_line :: "string \<Rightarrow> string \<times> string \<times> bool" where
  "get_line s =
     (case find_idx ((=) newline) s of
        Some i \<Rightarrow> (take i s, drop (i + 1) s, True)
      | None \<Rightarrow> (s, [], False))"

definition chomp :: "string \<Rightarrow> string" where
  "chomp cline =
     (case find_last_not_of cline [newline, cret] of
        None \<Rightarrow> []
      | Some pos \<Rightarrow> take (pos + 1) cline)"

definition comment_line :: "string \<Rightarrow> ConfLine" where
  "comment_line l =
     (case varcomment_name (c_str l) of
        Some nm \<Rightarrow> (conf_line CFL_VARCOMMENT l)\<lparr>m_aux := nm\<rparr>
      | None \<Rightarrow> conf_line CFL_COMMENT l)"

definition push_order :: "ConfLine \<Rightarrow> ConfSimple \<Rightarrow> ConfSimple" where
  "push_order l c = c\<lparr>m_order := m_order c @ [l]\<rparr>"

definition clean_line :: "ConfSimple \<Rightarrow> string \<Rightarrow> string" where
  "clean_line c l = (if trimvalues c then trimstring l trim_dflt else ltrimstring l trim_dflt)"

text \<open>One line that is neither empty, a comment nor continued: the object and the section after it.\<close>

definition section_name :: "(string \<Rightarrow> string) \<Rightarrow> ConfSimple \<Rightarrow> string \<Rightarrow> string" where
  "section_name tilde c l =
     (let t = trimstring l (''[] '' @ [tab]) in if dotildexpand c then tilde t else t)"

text \<open>The name and the value of an assignment, \<open>None\<close> when there is no equal sign or no name.\<close>

definition assignment :: "ConfSimple \<Rightarrow> string \<Rightarrow> (string \<times> string) option" where
  "assignment c l =
     (case find_char l (CHR ''='') 0 of
        None \<Rightarrow> None
      | Some eqpos \<Rightarrow>
          let nm = trimstring (take eqpos l) trim_dflt;
              v0 = drop (eqpos + 1) l;
              v = if trimvalues c then trimstring v0 trim_dflt else v0
          in if nm = [] then None else Some (nm, v))"

lemma chomp_Nil [simp]: "chomp [] = []"
  by (simp add: chomp_def find_last_not_of_def)

lemma get_line_rest: "get_line s = (cline, rest, good) \<Longrightarrow> length rest < length s \<or> s = [] \<and> cline = [] \<and> rest = []"
  by (cases s) (auto simp: get_line_def split: option.splits)

lemma clean_line_length: "length (clean_line c l) \<le> length l"
  by (auto simp: clean_line_def trimstring_def ltrimstring_dropWhile rtrimstring_dropWhile
      intro!: order_trans [OF length_dropWhile_le])

function parse_loop ::
  "(string \<Rightarrow> string) \<Rightarrow> string \<Rightarrow> string \<Rightarrow> string \<Rightarrow> bool \<Rightarrow> ConfSimple \<Rightarrow> ConfSimple run" where
  "parse_loop tilde rest submapkey line appending c =
     (case get_line rest of (cline, rest', good) \<Rightarrow>
        let l = clean_line c (if appending then line @ chomp cline else chomp cline) in
        if l = [] \<or> hd l = CHR ''#'' then
          if \<not> good then Inr c
          else parse_loop tilde rest' submapkey l appending (push_order (comment_line l) c)
        else if last l = backslash then parse_loop tilde rest' submapkey (butlast l) True c
        else if hd l = CHR ''['' then
          let sk = section_name tilde c l in
          parse_loop tilde rest' sk l False
            (push_order (conf_line CFL_SK sk) (c\<lparr>m_subkeys_unsorted := m_subkeys_unsorted c @ [sk]\<rparr>))
        else
          case assignment c l of
            None \<Rightarrow> parse_loop tilde rest' submapkey l False (push_order (conf_line CFL_COMMENT l) c)
          | Some (nm, v) \<Rightarrow>
              (case i_set nm v submapkey True c of
                 Inl e \<Rightarrow> Inl e
               | Inr (done, c1) \<Rightarrow>
                   if \<not> good then Inr c1 else parse_loop tilde rest' submapkey l False c1))"
  by pat_completeness auto

lemma get_line_good: "get_line rest = (cline, rest', True) \<Longrightarrow> length rest' < length rest"
  by (auto simp: get_line_def find_idx_Some split: option.splits)

lemma parse_loop_decreases:
  assumes g: "get_line rest = (cline, rest', good)"
  shows "clean_line c (line @ chomp cline) \<noteq> [] \<Longrightarrow> length rest' < length rest \<or>
      length rest' = length rest \<and> length (clean_line c (line @ chomp cline)) \<le> length line"
    and "clean_line c (chomp cline) \<noteq> [] \<Longrightarrow> length rest' < length rest"
  using get_line_rest [OF g] clean_line_length [of c line] clean_line_length [of c "[]"] by auto

termination parse_loop
  by (relation "measures [\<lambda>(tilde, rest, k, line, appending, c). length rest,
      \<lambda>(tilde, rest, k, line, appending, c). if appending then Suc (length line) else 0]")
    (auto dest!: sym [of _ "get_line _"] dest: get_line_good parse_loop_decreases)

declare parse_loop.simps [simp del]

definition parseinput :: "(string \<Rightarrow> string) \<Rightarrow> string \<Rightarrow> ConfSimple \<Rightarrow> ConfSimple run" where
  "parseinput tilde text c = parse_loop tilde text [] [] False c"

section \<open>Writing\<close>

text \<open>
  \<open>varprinter\<close>: a subsection line or a variable, with long values broken after a blank. The loop's
  arguments are what is left of the value and the length of the output line.
\<close>

fun break_value :: "nat \<Rightarrow> string \<Rightarrow> string" where
  "break_value ll [] = []"
| "break_value ll (c # cs) =
     (if ll + 1 > 50 \<and> length (c # cs) > 10 \<and> (c = blank \<or> c = tab)
      then c # backslash # newline # break_value 0 cs
      else c # break_value (ll + 1) cs)"

definition varprinter :: "string \<Rightarrow> string \<Rightarrow> string" where
  "varprinter nm v =
     (if nm = [] then newline # ''['' @ v @ '']'' @ [newline]
      else nm @ '' = '' @ (if length nm + length v < 75 then v else break_value 0 v) @ [newline])"

text \<open>\<open>sortwalk\<close> with this printer, which never stops the walk. Names of subsections go through a C string.\<close>

definition content_write :: "ConfSimple \<Rightarrow> string" where
  "content_write c =
     (if \<not> conf_ok c then []
      else concat (map (\<lambda>(sk, sub).
          (if sk \<noteq> [] then varprinter [] (c_str sk) else []) @ concat (map (\<lambda>(nm, v). varprinter nm v) sub))
        (m_submaps c)))"

text \<open>The loop over the order data: the section is that of the last subsection line.\<close>

fun write_order :: "ConfSimple \<Rightarrow> string \<Rightarrow> ConfLine list \<Rightarrow> string" where
  "write_order c sk [] = []"
| "write_order c sk (l # ls) =
     (case m_kind l of
        CFL_COMMENT \<Rightarrow> m_data l @ newline # write_order c sk ls
      | CFL_VARCOMMENT \<Rightarrow> m_data l @ newline # write_order c sk ls
      | CFL_SK \<Rightarrow>
          (if omap_find (sub_lt c) (m_data l) (m_submaps c) \<noteq> None
           then ''['' @ m_data l @ '']'' @ [newline] else []) @ write_order c (m_data l) ls
      | CFL_VAR \<Rightarrow>
          (case conf_get c (m_data l) sk of
             Some v \<Rightarrow> varprinter (m_data l) v
           | None \<Rightarrow> []) @ write_order c sk ls)"

text \<open>\<open>write(out)\<close>: what it returns and the text.\<close>

definition conf_write :: "ConfSimple \<Rightarrow> bool \<times> string" where
  "conf_write c =
     (if \<not> conf_ok c then (False, [])
      else (True, (if m_order c = [] then content_write c else []) @ write_order c [] (m_order c)))"

record Disk =
  d_files :: "string \<rightharpoonup> string"
  d_readable :: "string \<Rightarrow> bool"
  d_writable :: "string \<Rightarrow> bool"

definition no_disk :: Disk where
  "no_disk = \<lparr>d_files = Map.empty, d_readable = (\<lambda>_. False), d_writable = (\<lambda>_. False)\<rparr>"

text \<open>\<open>write()\<close>: rewrite the file, if there is one and writing is not held.\<close>

definition conf_flush :: "ConfSimple \<Rightarrow> Disk \<Rightarrow> bool \<times> Disk" where
  "conf_flush c d =
     (if \<not> conf_ok c then (False, d)
      else if m_holdWrites c then (True, d)
      else if m_filename c \<noteq> [] then
        if \<not> d_writable d (m_filename c) then (False, d)
        else (fst (conf_write c), d\<lparr>d_files := (d_files d)(m_filename c \<mapsto> snd (conf_write c))\<rparr>)
      else (True, d))"

definition conf_holdWrites :: "bool \<Rightarrow> ConfSimple \<Rightarrow> Disk \<Rightarrow> bool \<times> ConfSimple \<times> Disk" where
  "conf_holdWrites on c d =
     (let c1 = c\<lparr>m_holdWrites := on\<rparr> in
      if \<not> on then (case conf_flush c1 d of (b, d1) \<Rightarrow> (b, c1, d1)) else (True, c1, d))"

section \<open>Changing\<close>

definition conf_set ::
  "string \<Rightarrow> string \<Rightarrow> string \<Rightarrow> ConfSimple \<Rightarrow> Disk \<Rightarrow> (bool \<times> ConfSimple \<times> Disk) run" where
  "conf_set nm v sk c d =
     (if status c \<noteq> STATUS_RW then Inr (False, c, d)
      else case i_set nm v sk False c of
          Inl e \<Rightarrow> Inl e
        | Inr (done, c1) \<Rightarrow>
            if \<not> done then Inr (False, c1, d)
            else case conf_flush c1 d of (b, d1) \<Rightarrow> Inr (b, c1, d1))"

definition conf_set_int ::
  "string \<Rightarrow> int \<Rightarrow> string \<Rightarrow> ConfSimple \<Rightarrow> Disk \<Rightarrow> (bool \<times> ConfSimple \<times> Disk) run" where
  "conf_set_int nm z sk c d = conf_set nm (dec_int_string z) sk c d"

definition erase_mem :: "string \<Rightarrow> string \<Rightarrow> (string, string) omap \<Rightarrow> ConfSimple \<Rightarrow> ConfSimple" where
  "erase_mem nm sk sub c =
     (let sub1 = omap_erase (key_lt c) nm sub in
      c\<lparr>m_submaps := (if sub1 = [] then omap_erase (sub_lt c) sk (m_submaps c)
                      else omap_put (sub_lt c) sk sub1 (m_submaps c))\<rparr>)"

definition conf_erase :: "string \<Rightarrow> string \<Rightarrow> ConfSimple \<Rightarrow> Disk \<Rightarrow> bool \<times> ConfSimple \<times> Disk" where
  "conf_erase nm sk c d =
     (if status c \<noteq> STATUS_RW then (False, c, d)
      else case omap_find (sub_lt c) sk (m_submaps c) of
          None \<Rightarrow> (False, c, d)
        | Some sub \<Rightarrow>
            let c1 = erase_mem nm sk sub c in
            case conf_flush c1 d of (b, d1) \<Rightarrow> (b, c1, d1))"

fun erase_all :: "string \<Rightarrow> string list \<Rightarrow> ConfSimple \<Rightarrow> Disk \<Rightarrow> ConfSimple \<times> Disk" where
  "erase_all sk [] c d = (c, d)"
| "erase_all sk (nm # nms) c d =
     (case conf_erase nm sk c d of (b, c1, d1) \<Rightarrow> erase_all sk nms c1 d1)"

definition conf_eraseKey :: "string \<Rightarrow> ConfSimple \<Rightarrow> Disk \<Rightarrow> bool \<times> ConfSimple \<times> Disk" where
  "conf_eraseKey sk c d =
     (case erase_all sk (conf_getNames c sk None) c d of
        (c1, d1) \<Rightarrow> case conf_flush c1 d1 of (b, d2) \<Rightarrow> (b, c1, d2))"

definition conf_clear :: "ConfSimple \<Rightarrow> Disk \<Rightarrow> bool \<times> ConfSimple \<times> Disk" where
  "conf_clear c d =
     (let c1 = c\<lparr>m_submaps := [], m_order := []\<rparr> in
      case conf_flush c1 d of (b, d1) \<Rightarrow> (b, c1, d1))"

section \<open>Construction\<close>

definition conf_init :: "32 word \<Rightarrow> ConfSimple" where
  "conf_init flags =
     \<lparr>dotildexpand = flags AND CFSF_TILDEXP \<noteq> 0, trimvalues = flags AND CFSF_NOTRIMVALUES = 0,
      status = (if flags AND CFSF_RO \<noteq> 0 then STATUS_RO else STATUS_RW), m_flags = flags, m_filename = [],
      m_submaps = [], m_order = [], m_subkeys_unsorted = [], m_holdWrites = False\<rparr>"

definition varsToFlags :: "bool \<Rightarrow> bool \<Rightarrow> bool \<Rightarrow> 32 word" where
  "varsToFlags readonly tildexp trimv =
     (if readonly then CFSF_RO else 0) OR (if tildexp then CFSF_TILDEXP else 0) OR
     (if \<not> trimv then CFSF_NOTRIMVALUES else 0)"

text \<open>\<open>openfile\<close>: the status, the text read if the file could be opened, and the disk (a missing file is created).\<close>

definition conf_openfile :: "bool \<Rightarrow> ConfSimple \<Rightarrow> Disk \<Rightarrow> StatusCode \<times> string \<times> Disk" where
  "conf_openfile readonly c d =
     (let fn = m_filename c;
          can_read = d_files d fn \<noteq> None \<and> d_readable d fn
      in if \<not> readonly \<and> d_files d fn = None \<and> d_writable d fn then
           (status c, [], d\<lparr>d_files := (d_files d)(fn \<mapsto> [])\<rparr>)
         else if \<not> readonly \<and> can_read \<and> d_writable d fn then (status c, the (d_files d fn), d)
         else if can_read then (if readonly then status c else STATUS_RO, the (d_files d fn), d)
         else (STATUS_ERROR, [], d))"

definition conf_new ::
  "(string \<Rightarrow> string) \<Rightarrow> 32 word \<Rightarrow> string \<Rightarrow> Disk \<Rightarrow> (ConfSimple \<times> Disk) run" where
  "conf_new tilde flags dataorfn d =
     (let c = conf_init flags in
      if flags AND CFSF_FROMSTRING \<noteq> 0 then
        if dataorfn = [] then Inr (c, d)
        else map_sum id (\<lambda>c1. (c1, d)) (parseinput tilde dataorfn c)
      else
        let c1 = c\<lparr>m_filename := dataorfn\<rparr> in
        case conf_openfile (flags AND CFSF_RO \<noteq> 0) c1 d of
          (st, text, d1) \<Rightarrow>
            if st = STATUS_ERROR then Inr (c1\<lparr>status := st\<rparr>, d1)
            else map_sum id (\<lambda>c2. (c2, d1)) (parseinput tilde text (c1\<lparr>status := st\<rparr>)))"

definition conf_reparse :: "(string \<Rightarrow> string) \<Rightarrow> string \<Rightarrow> ConfSimple \<Rightarrow> Disk \<Rightarrow> (ConfSimple \<times> Disk) run" where
  "conf_reparse tilde text c d =
     (case conf_clear c d of
        (b, c1, d1) \<Rightarrow> map_sum id (\<lambda>c2. (c2, d1)) (parseinput tilde text c1))"

text \<open>The copy constructor does not copy the order data; an object in error has nothing else copied.\<close>

definition conf_copy :: "ConfSimple \<Rightarrow> ConfSimple" where
  "conf_copy rhs =
     (if status rhs = STATUS_ERROR then (conf_init 0)\<lparr>status := STATUS_ERROR\<rparr>
      else rhs\<lparr>m_order := [], m_subkeys_unsorted := [], m_holdWrites := False\<rparr>)"

definition conf_assign :: "ConfSimple \<Rightarrow> ConfSimple \<Rightarrow> ConfSimple" where
  "conf_assign rhs c =
     (if status rhs = STATUS_ERROR then c\<lparr>status := STATUS_ERROR\<rparr>
      else c\<lparr>status := status rhs, dotildexpand := dotildexpand rhs, trimvalues := trimvalues rhs,
             m_flags := m_flags rhs, m_filename := m_filename rhs, m_submaps := m_submaps rhs\<rparr>)"

text \<open>\<open>commentsAsXML\<close>.\<close>

definition comments_xml_line :: "ConfLine \<Rightarrow> string" where
  "comments_xml_line l =
     (let comment = (case find_first_not_of (m_data l) ''# '' 0 of
            Some pos \<Rightarrow> drop pos (m_data l) @ [newline]
          | None \<Rightarrow> [newline])
      in case m_kind l of
           CFL_COMMENT \<Rightarrow> comment
         | CFL_VARCOMMENT \<Rightarrow> comment
         | CFL_SK \<Rightarrow> ''<subkey>'' @ m_data l @ ''</subkey>'' @ [newline]
         | CFL_VAR \<Rightarrow> ''<varsetting>'' @ m_data l @ '' = '' @ m_value l @ ''</varsetting>'' @ [newline])"

definition commentsAsXML :: "ConfSimple \<Rightarrow> string" where
  "commentsAsXML c =
     ''<confcomments>'' @ newline # concat (map comments_xml_line (m_order c)) @ ''</confcomments>'' @ [newline]"

section \<open>The invariant\<close>

text \<open>The section and the name of every variable line, and the section after the lines.\<close>

fun order_vars :: "string \<Rightarrow> ConfLine list \<Rightarrow> (string \<times> string) list" where
  "order_vars cur [] = []"
| "order_vars cur (l # ls) =
     (case m_kind l of
        CFL_SK \<Rightarrow> order_vars (m_data l) ls
      | CFL_VAR \<Rightarrow> (cur, m_data l) # order_vars cur ls
      | _ \<Rightarrow> order_vars cur ls)"

fun cur_after :: "string \<Rightarrow> ConfLine list \<Rightarrow> string" where
  "cur_after cur [] = cur"
| "cur_after cur (l # ls) = cur_after (if m_kind l = CFL_SK then m_data l else cur) ls"

definition maps_ok :: "ConfSimple \<Rightarrow> bool" where
  "maps_ok c \<longleftrightarrow> omap_ok (sub_lt c) (m_submaps c) \<and>
     (\<forall>(sk, sub) \<in> set (m_submaps c). sub \<noteq> [] \<and> omap_ok (key_lt c) sub)"

definition conf_raw :: "ConfSimple \<Rightarrow> string \<Rightarrow> string \<Rightarrow> string option" where
  "conf_raw c nm sk = Option.bind (omap_find (sub_lt c) sk (m_submaps c)) (omap_find (key_lt c) nm)"

definition order_has :: "ConfSimple \<Rightarrow> string \<Rightarrow> string \<Rightarrow> bool" where
  "order_has c nm sk \<longleftrightarrow> (\<exists>(sk', nm') \<in> set (order_vars [] (m_order c)).
     conf_key (sub_nocase c) sk' = conf_key (sub_nocase c) sk \<and>
     conf_key (key_nocase c) nm' = conf_key (key_nocase c) nm)"

text \<open>Every variable has a line in the order data, in its section.\<close>

definition conf_inv :: "ConfSimple \<Rightarrow> bool" where
  "conf_inv c \<longleftrightarrow> maps_ok c \<and> (\<forall>nm sk. conf_raw c nm sk \<noteq> None \<longrightarrow> order_has c nm sk)"

abbreviation same_var :: "ConfSimple \<Rightarrow> string \<Rightarrow> string \<Rightarrow> string \<Rightarrow> string \<Rightarrow> bool" where
  "same_var c nm sk nm' sk' \<equiv> conf_key (sub_nocase c) sk' = conf_key (sub_nocase c) sk \<and>
     conf_key (key_nocase c) nm' = conf_key (key_nocase c) nm"

lemma conf_get_raw: "conf_get c nm sk = (if conf_ok c then conf_raw c nm sk else None)"
  by (simp add: conf_get_def conf_raw_def Option.bind_eq_None_conv split: option.splits)

lemma order_vars_append:
  "order_vars cur (xs @ ys) = order_vars cur xs @ order_vars (cur_after cur xs) ys"
  by (induction xs arbitrary: cur) (auto split: Kind.splits)

lemma cur_after_append [simp]: "cur_after cur (xs @ ys) = cur_after (cur_after cur xs) ys"
  by (induction xs arbitrary: cur) auto

lemma cur_after_no_sk: "\<forall>l \<in> set ls. m_kind l \<noteq> CFL_SK \<Longrightarrow> cur_after cur ls = cur"
  by (induction ls) auto

lemma cur_after_sk:
  "cur_after cur ls = cur \<or> (\<exists>l \<in> set ls. m_kind l = CFL_SK \<and> m_data l = cur_after cur ls)"
  by (induction ls arbitrary: cur) (auto, metis)

lemma order_vars_sk:
  "(sk, nm) \<in> set (order_vars cur ls) \<Longrightarrow> sk = cur \<or> (\<exists>l \<in> set ls. m_kind l = CFL_SK \<and> m_data l = sk)"
  by (induction ls arbitrary: cur) (auto split: Kind.splits)

lemma OrderComp_key: "OrderComp k d nocase l \<longleftrightarrow> m_kind l = k \<and> conf_key nocase (m_data l) = conf_key nocase d"
  by (auto simp: OrderComp_def cmap.equiv_key [symmetric])

lemma maps_okD:
  assumes "maps_ok c" and "omap_find (sub_lt c) sk (m_submaps c) = Some sub"
  shows "sub \<noteq> []" "omap_ok (key_lt c) sub"
  using cmap.find_SomeD [OF assms(2)] assms(1) by (auto simp: maps_ok_def)

text \<open>Putting a variable into the two levels of maps.\<close>

definition sub_of :: "ConfSimple \<Rightarrow> string \<Rightarrow> (string, string) omap" where
  "sub_of c sk = (case omap_find (sub_lt c) sk (m_submaps c) of None \<Rightarrow> [] | Some sub \<Rightarrow> sub)"

definition put_var :: "string \<Rightarrow> string \<Rightarrow> string \<Rightarrow> ConfSimple \<Rightarrow> ConfSimple" where
  "put_var nm v sk c =
     c\<lparr>m_submaps := omap_put (sub_lt c) sk (omap_put (key_lt c) nm v (sub_of c sk)) (m_submaps c)\<rparr>"

lemma omap_put_mem:
  "x \<in> set (omap_put lt k v m) \<Longrightarrow> x \<in> set m \<or> snd x = v"
  by (induction m) (auto split: if_splits)

lemma omap_put_not_Nil [simp]: "omap_put lt k v m \<noteq> []"
  by (cases m) (auto split: if_splits)

lemma put_var_maps_ok:
  assumes ok: "maps_ok c"
  shows "maps_ok (put_var nm v sk c)"
proof -
  let ?sub = "omap_put (key_lt c) nm v (sub_of c sk)"
  have "omap_ok (key_lt c) (sub_of c sk)"
    using maps_okD(2) [OF ok] by (simp add: sub_of_def split: option.splits)
  then have sub: "omap_ok (key_lt c) ?sub"
    by (rule cmap.ok_put)
  have "snd x \<noteq> [] \<and> omap_ok (key_lt c) (snd x)" if "x \<in> set (omap_put (sub_lt c) sk ?sub (m_submaps c))" for x
    using omap_put_mem [OF that]
  proof
    assume "x \<in> set (m_submaps c)"
    then show ?thesis using ok by (auto simp: maps_ok_def)
  qed (simp add: sub)
  moreover have "omap_ok (sub_lt c) (omap_put (sub_lt c) sk ?sub (m_submaps c))"
    using ok by (intro cmap.ok_put) (simp add: maps_ok_def)
  ultimately show ?thesis
    by (simp add: maps_ok_def put_var_def case_prod_unfold)
qed

lemma put_var_raw:
  assumes "maps_ok c"
  shows "conf_raw (put_var nm v sk c) nm' sk' = (if same_var c nm sk nm' sk' then Some v else conf_raw c nm' sk')"
proof (cases "conf_key (sub_nocase c) sk' = conf_key (sub_nocase c) sk")
  case True
  have "omap_find (sub_lt c) sk' (m_submaps c) = omap_find (sub_lt c) sk (m_submaps c)"
    by (rule cmap.find_cong [OF True])
  moreover have "omap_ok (key_lt c) (sub_of c sk)"
    using maps_okD(2) [OF assms] by (simp add: sub_of_def split: option.splits)
  ultimately show ?thesis
    using assms True
    by (auto simp: conf_raw_def put_var_def maps_ok_def cmap.find_put sub_of_def split: option.splits)
next
  case False
  with assms show ?thesis
    by (simp add: conf_raw_def put_var_def maps_ok_def cmap.find_put)
qed

lemma i_set_raw:
  assumes "find_first_of v [newline, cret] 0 = None"
  shows "i_set nm v sk init c =
    (if conf_raw c nm sk \<noteq> None then Inr (True, put_var nm v sk c)
     else i_set_order nm v sk init
       (if sk \<noteq> [] \<and> omap_find (sub_lt c) sk (m_submaps c) = None \<and>
           find_idx (OrderComp CFL_SK sk (sub_nocase c)) (m_order c) = None
        then (put_var nm v sk c)\<lparr>m_order := m_order c @ [conf_line CFL_SK sk]\<rparr> else put_var nm v sk c))"
  using assms by (simp add: i_set_def put_var_def sub_of_def conf_raw_def Let_def split: option.splits)

lemma put_var_sel [simp]:
  "m_order (put_var nm v sk c) = m_order c" "m_flags (put_var nm v sk c) = m_flags c"
  "status (put_var nm v sk c) = status c" "trimvalues (put_var nm v sk c) = trimvalues c"
  "dotildexpand (put_var nm v sk c) = dotildexpand c" "m_filename (put_var nm v sk c) = m_filename c"
  "m_holdWrites (put_var nm v sk c) = m_holdWrites c"
  by (simp_all add: put_var_def)

lemma conf_raw_order [simp]: "conf_raw (c\<lparr>m_order := ls\<rparr>) = conf_raw c"
  by (intro ext) (simp add: conf_raw_def)

lemma maps_ok_order [simp]: "maps_ok (c\<lparr>m_order := ls\<rparr>) = maps_ok c"
  by (simp add: maps_ok_def)

text \<open>
  The zone of a section that has a line: the order data splits before and behind the insertion point, and the section there is the
  section asked for.
\<close>

lemma zone_split:
  fixes ls :: "ConfLine list"
  defines "fin start \<equiv> (case find_idx (\<lambda>l. m_kind l = CFL_SK) (drop start ls) of
      None \<Rightarrow> length ls | Some i \<Rightarrow> start + i)"
  assumes "start \<le> length ls" and "start \<le> pos" and "pos \<le> fin start"
  shows "pos \<le> length ls \<and> cur_after [] (take pos ls) = cur_after [] (take start ls)"
proof -
  have no_sk: "\<forall>l \<in> set (take (fin start - start) (drop start ls)). m_kind l \<noteq> CFL_SK" "fin start \<le> length ls"
  proof -
    show "\<forall>l \<in> set (take (fin start - start) (drop start ls)). m_kind l \<noteq> CFL_SK"
      using find_idx_takeWhile [of "\<lambda>l. m_kind l = CFL_SK" "drop start ls", symmetric]
      by (auto simp: fin_def find_idx_None split: option.splits dest: in_set_takeD set_takeWhileD)
    show "fin start \<le> length ls"
      using assms(2) by (auto simp: fin_def find_idx_Some split: option.splits)
  qed
  have "take pos ls = take start ls @ take (pos - start) (drop start ls)"
    using assms(3) by (metis le_add_diff_inverse take_add)
  moreover have "set (take (pos - start) (drop start ls)) \<subseteq> set (take (fin start - start) (drop start ls))"
    using assms(4) by (intro set_take_subset_set_take) simp
  then have "\<forall>l \<in> set (take (pos - start) (drop start ls)). m_kind l \<noteq> CFL_SK"
    using no_sk(1) by blast
  ultimately show ?thesis
    using no_sk(2) assms(4) by (simp add: cur_after_no_sk)
qed

lemma order_vars_insert:
  "order_vars [] (insert_at pos (conf_line CFL_VAR nm) ls) =
    order_vars [] (take pos ls) @ (cur_after [] (take pos ls), nm) # order_vars (cur_after [] (take pos ls)) (drop pos ls)"
  by (simp add: insert_at_def order_vars_append conf_line_def)

lemma order_vars_take_drop:
  "order_vars [] ls = order_vars [] (take pos ls) @ order_vars (cur_after [] (take pos ls)) (drop pos ls)"
  by (metis append_take_drop_id order_vars_append)

definition zone_start :: "string \<Rightarrow> ConfSimple \<Rightarrow> nat option" where
  "zone_start sk c =
     (if sk = [] then Some 0 else map_option Suc (find_idx (OrderComp CFL_SK sk (sub_nocase c)) (m_order c)))"

definition zone_end :: "nat \<Rightarrow> ConfLine list \<Rightarrow> nat" where
  "zone_end start ls =
     (case find_idx (\<lambda>l. m_kind l = CFL_SK) (drop start ls) of None \<Rightarrow> length ls | Some i \<Rightarrow> start + i)"

definition zone_pos :: "string \<Rightarrow> nat \<Rightarrow> ConfLine list \<Rightarrow> nat" where
  "zone_pos nm start ls =
     (case find_idx (\<lambda>l. m_kind l = CFL_VARCOMMENT \<and> m_aux l = nm) (take (zone_end start ls - start) (drop start ls)) of
        Some i \<Rightarrow> start + i + 1
      | None \<Rightarrow> zone_end start ls)"

lemma i_set_order_zone:
  "i_set_order nm v sk False c =
     (case zone_start sk c of
        None \<Rightarrow> Inl AbortCalled
      | Some start \<Rightarrow>
          if find_idx (OrderComp CFL_VAR nm (key_nocase c))
              (take (zone_end start (m_order c) - start) (drop start (m_order c))) = None
          then Inr (True, c\<lparr>m_order := insert_at (zone_pos nm start (m_order c)) (conf_line CFL_VAR nm) (m_order c)\<rparr>)
          else Inr (True, c))"
  by (simp add: i_set_order_def zone_start_def zone_end_def zone_pos_def Let_def split: option.splits)

lemma zone_start_Some:
  assumes "zone_start sk c = Some start"
  shows "start \<le> length (m_order c)"
    and "conf_key (sub_nocase c) (cur_after [] (take start (m_order c))) = conf_key (sub_nocase c) sk"
proof (atomize (full), cases "sk = []")
  case False
  then obtain i where i: "find_idx (OrderComp CFL_SK sk (sub_nocase c)) (m_order c) = Some i" "start = Suc i"
    using assms by (auto simp: zone_start_def)
  then have "i < length (m_order c)" "m_kind (m_order c ! i) = CFL_SK"
    "conf_key (sub_nocase c) (m_data (m_order c ! i)) = conf_key (sub_nocase c) sk"
    by (auto simp: find_idx_Some OrderComp_key)
  then show "start \<le> length (m_order c) \<and>
      conf_key (sub_nocase c) (cur_after [] (take start (m_order c))) = conf_key (sub_nocase c) sk"
    by (simp add: i(2) take_Suc_conv_app_nth)
qed (use assms in \<open>auto simp: zone_start_def\<close>)

lemma zone_end_bounds: "start \<le> length ls \<Longrightarrow> start \<le> zone_end start ls \<and> zone_end start ls \<le> length ls"
  by (auto simp: zone_end_def find_idx_Some split: option.splits)

lemma zone_pos_bounds:
  assumes "start \<le> length ls"
  shows "start \<le> zone_pos nm start ls \<and> zone_pos nm start ls \<le> zone_end start ls"
proof -
  have "i < zone_end start ls - start"
    if "find_idx P (take (zone_end start ls - start) (drop start ls)) = Some i" for P i
    using that by (auto simp: find_idx_Some)
  with zone_end_bounds [OF assms] show ?thesis
    by (fastforce simp: zone_pos_def split: option.splits)
qed

lemma order_has_append: "order_has (c\<lparr>m_order := ls\<rparr>) nm sk \<longleftrightarrow>
    (\<exists>(sk', nm') \<in> set (order_vars [] ls). same_var c nm sk nm' sk')"
  by (simp add: order_has_def)

lemma i_set_order_ok:
  assumes maps: "maps_ok c"
    and others: "\<And>nm' sk'. conf_raw c nm' sk' \<noteq> None \<Longrightarrow> same_var c nm sk nm' sk' \<or> order_has c nm' sk'"
    and cur: "if init then cur_after [] (m_order c) = sk else zone_start sk c \<noteq> None"
  shows "\<exists>ls. i_set_order nm v sk init c = Inr (True, c\<lparr>m_order := ls\<rparr>) \<and> conf_inv (c\<lparr>m_order := ls\<rparr>) \<and>
    cur_after [] ls = cur_after [] (m_order c) \<and>
    (\<forall>l \<in> set ls. l \<in> set (m_order c) \<or> m_kind l = CFL_VAR \<and> m_data l = nm)"
proof -
  have inv: "conf_inv (c\<lparr>m_order := ls\<rparr>)"
    if "set (order_vars [] (m_order c)) \<subseteq> set (order_vars [] ls)" and "order_has (c\<lparr>m_order := ls\<rparr>) nm sk" for ls
  proof -
    have "order_has (c\<lparr>m_order := ls\<rparr>) nm' sk'" if "conf_raw c nm' sk' \<noteq> None" for nm' sk'
      using others [OF that]
    proof
      assume "same_var c nm sk nm' sk'"
      with \<open>order_has (c\<lparr>m_order := ls\<rparr>) nm sk\<close> show ?thesis
        by (auto simp: order_has_def)
    next
      assume "order_has c nm' sk'"
      with \<open>set (order_vars [] (m_order c)) \<subseteq> set (order_vars [] ls)\<close> show ?thesis
        unfolding order_has_append by (fastforce simp: order_has_def)
    qed
    with maps show ?thesis
      by (simp add: conf_inv_def)
  qed
  show ?thesis
  proof (cases init)
    case True
    define ls where "ls = m_order c @ [(conf_line CFL_VAR nm)\<lparr>m_value := v\<rparr>]"
    have v: "order_vars [] ls = order_vars [] (m_order c) @ [(sk, nm)]"
      using cur True by (simp add: ls_def order_vars_append conf_line_def)
    have "conf_inv (c\<lparr>m_order := ls\<rparr>)"
      by (rule inv) (auto simp: order_has_append v)
    moreover have "cur_after [] ls = cur_after [] (m_order c)"
      by (simp add: ls_def conf_line_def)
    ultimately show ?thesis
      using True by (intro exI [of _ ls]) (auto simp: i_set_order_def ls_def conf_line_def)
  next
    case False
    then obtain start where start: "zone_start sk c = Some start"
      using cur by auto
    note z = zone_start_Some [OF start]
    let ?ls = "m_order c"
    let ?zone = "take (zone_end start ?ls - start) (drop start ?ls)"
    show ?thesis
    proof (cases "find_idx (OrderComp CFL_VAR nm (key_nocase c)) ?zone")
      case None
      let ?pos = "zone_pos nm start ?ls"
      define ls where "ls = insert_at ?pos (conf_line CFL_VAR nm) ?ls"
      have pos: "?pos \<le> length ?ls" "cur_after [] (take ?pos ?ls) = cur_after [] (take start ?ls)"
        using zone_split [of start ?ls ?pos] z(1) zone_pos_bounds [OF z(1), of nm] by (auto simp: zone_end_def)
      have v: "set (order_vars [] ls) = insert (cur_after [] (take start ?ls), nm) (set (order_vars [] ?ls))"
        using order_vars_take_drop [of ?ls ?pos] by (simp add: ls_def order_vars_insert pos(2))
      have "conf_inv (c\<lparr>m_order := ls\<rparr>)"
        by (rule inv) (auto simp: order_has_append v z(2))
      moreover have "cur_after [] ls = cur_after (cur_after [] (take ?pos ?ls)) (drop ?pos ?ls)"
        by (simp add: ls_def insert_at_def conf_line_def)
      then have "cur_after [] ls = cur_after [] ?ls"
        by (metis append_take_drop_id cur_after_append)
      moreover have "\<forall>l \<in> set ls. l \<in> set ?ls \<or> m_kind l = CFL_VAR \<and> m_data l = nm"
        by (auto simp: ls_def insert_at_def conf_line_def dest: in_set_takeD in_set_dropD)
      ultimately show ?thesis
        using False start None by (intro exI [of _ ls]) (simp add: i_set_order_zone ls_def)
    next
      case (Some i)
      then have i: "i < length ?zone" "m_kind (?zone ! i) = CFL_VAR"
        "conf_key (key_nocase c) (m_data (?zone ! i)) = conf_key (key_nocase c) nm"
        by (auto simp: find_idx_Some OrderComp_key)
      have "zone_end start ?ls \<le> length ?ls"
        using z(1) by (auto simp: zone_end_def find_idx_Some split: option.splits)
      then have l: "?zone ! i = ?ls ! (start + i)" "start + i < zone_end start ?ls" "start + i < length ?ls"
        using i(1) z(1) by auto
      have c: "cur_after [] (take (start + i) ?ls) = cur_after [] (take start ?ls)"
        using zone_split [of start ?ls "start + i"] z(1) l by (auto simp: zone_end_def)
      have "(cur_after [] (take start ?ls), m_data (?ls ! (start + i))) \<in> set (order_vars [] ?ls)"
        using order_vars_take_drop [of ?ls "start + i"] i(2) l c
        by (simp add: Cons_nth_drop_Suc [symmetric])
      then have "order_has (c\<lparr>m_order := ?ls\<rparr>) nm sk"
        using z(2) i(3) l unfolding order_has_append by auto
      then have "conf_inv (c\<lparr>m_order := ?ls\<rparr>)"
        by (intro inv) auto
      then show ?thesis
        using False start Some by (intro exI [of _ ?ls]) (simp add: i_set_order_zone)
    qed
  qed
qed

section \<open>Every operation keeps the invariant\<close>

lemma conf_raw_None_find:
  "maps_ok c \<Longrightarrow> omap_find (sub_lt c) sk (m_submaps c) = Some sub \<Longrightarrow> \<exists>nm. conf_raw c nm sk \<noteq> None"
proof -
  assume ok: "maps_ok c" and sub: "omap_find (sub_lt c) sk (m_submaps c) = Some sub"
  from maps_okD [OF ok sub] obtain nm v m where "sub = (nm, v) # m" "omap_ok (key_lt c) sub"
    by (cases sub) auto
  then have "omap_find (key_lt c) nm sub = Some v"
    by (intro cmap.find_mem) simp_all
  then show ?thesis
    by (intro exI [of _ nm]) (simp add: conf_raw_def sub)
qed

lemma conf_inv_zone_start:
  assumes inv: "conf_inv c" and sub: "omap_find (sub_lt c) sk (m_submaps c) = Some sub"
  shows "zone_start sk c \<noteq> None"
proof (cases "sk = []")
  case False
  obtain nm where "conf_raw c nm sk \<noteq> None"
    using conf_raw_None_find [OF _ sub] inv by (auto simp: conf_inv_def)
  then obtain sk' nm' where v: "(sk', nm') \<in> set (order_vars [] (m_order c))"
    and k: "conf_key (sub_nocase c) sk' = conf_key (sub_nocase c) sk"
    using inv by (force simp: conf_inv_def order_has_def)
  then have "sk' \<noteq> []"
    using False by (metis conf_key_Nil)
  with order_vars_sk [OF v] obtain l where "l \<in> set (m_order c)" "OrderComp CFL_SK sk (sub_nocase c) l"
    using k by (auto simp: OrderComp_key)
  then show ?thesis
    using False by (auto simp: zone_start_def find_idx_None)
qed (simp add: zone_start_def)

lemma zone_start_None:
  "zone_start sk c = None \<longleftrightarrow> sk \<noteq> [] \<and> (\<forall>l \<in> set (m_order c). \<not> OrderComp CFL_SK sk (sub_nocase c) l)"
  by (auto simp: zone_start_def find_idx_None)

lemma i_set_inv:
  assumes inv: "conf_inv c" and v: "find_first_of v [newline, cret] 0 = None"
    and cur: "init \<Longrightarrow> cur_after [] (m_order c) = sk"
  shows "\<exists>ls. i_set nm v sk init c = Inr (True, (put_var nm v sk c)\<lparr>m_order := ls\<rparr>) \<and>
    conf_inv ((put_var nm v sk c)\<lparr>m_order := ls\<rparr>) \<and> (init \<longrightarrow> cur_after [] ls = sk)"
proof (cases "conf_raw c nm sk = None")
  case False
  have "conf_inv (put_var nm v sk c)"
    using inv False put_var_maps_ok put_var_raw
    by (fastforce simp: conf_inv_def order_has_def split: if_splits)
  moreover have "(put_var nm v sk c)\<lparr>m_order := m_order c\<rparr> = put_var nm v sk c"
    by (simp add: put_var_def)
  ultimately show ?thesis
    using False cur by (intro exI [of _ "m_order c"]) (simp only: i_set_raw [OF v], simp)
next
  case True
  let ?p = "put_var nm v sk c"
  define add where "add \<longleftrightarrow> sk \<noteq> [] \<and> omap_find (sub_lt c) sk (m_submaps c) = None \<and>
      find_idx (OrderComp CFL_SK sk (sub_nocase c)) (m_order c) = None"
  define ls0 where "ls0 = (if add then m_order c @ [conf_line CFL_SK sk] else m_order c)"
  have e: "i_set nm v sk init c = i_set_order nm v sk init (?p\<lparr>m_order := ls0\<rparr>)"
    using True by (auto simp: i_set_raw [OF v] add_def [symmetric] ls0_def put_var_def)
  have maps: "maps_ok (?p\<lparr>m_order := ls0\<rparr>)"
    using inv put_var_maps_ok by (simp add: conf_inv_def)
  have others: "same_var (?p\<lparr>m_order := ls0\<rparr>) nm sk nm' sk' \<or> order_has (?p\<lparr>m_order := ls0\<rparr>) nm' sk'"
    if "conf_raw (?p\<lparr>m_order := ls0\<rparr>) nm' sk' \<noteq> None" for nm' sk'
  proof -
    have "order_has c nm' sk' \<or> same_var c nm sk nm' sk'"
      using that inv put_var_raw [of c nm v sk nm' sk'] by (auto simp: conf_inv_def split: if_splits)
    moreover have "set (order_vars [] (m_order c)) \<subseteq> set (order_vars [] ls0)"
      by (simp add: ls0_def order_vars_append)
    ultimately show ?thesis
      by (fastforce simp: order_has_def)
  qed
  have start: "if init then cur_after [] ls0 = sk else zone_start sk (?p\<lparr>m_order := ls0\<rparr>) \<noteq> None"
  proof (cases init)
    case True
    then have c: "cur_after [] (m_order c) = sk" by (rule cur)
    then show ?thesis
      using True by (simp add: ls0_def conf_line_def)
  next
    case False
    show ?thesis
    proof (cases "omap_find (sub_lt c) sk (m_submaps c)")
      case None
      then show ?thesis
        using False unfolding zone_start_None
        by (auto simp: ls0_def add_def find_idx_None OrderComp_key conf_line_def)
    next
      case (Some sub)
      then have "ls0 = m_order c" by (simp add: ls0_def add_def)
      then show ?thesis
        using False conf_inv_zone_start [OF inv Some] unfolding zone_start_None by simp
    qed
  qed
  have start': "if init then cur_after [] (m_order (?p\<lparr>m_order := ls0\<rparr>)) = sk
      else zone_start sk (?p\<lparr>m_order := ls0\<rparr>) \<noteq> None"
    using start by (cases init) simp_all
  obtain ls where "i_set_order nm v sk init (?p\<lparr>m_order := ls0\<rparr>) = Inr (True, ?p\<lparr>m_order := ls\<rparr>)"
    "conf_inv (?p\<lparr>m_order := ls\<rparr>)" "cur_after [] ls = cur_after [] ls0"
    using i_set_order_ok [OF maps others start', of v] by auto
  then show ?thesis
    using e start by (intro exI [of _ ls]) auto
qed

lemma conf_inv_more:
  "conf_inv (c\<lparr>m_subkeys_unsorted := x\<rparr>) = conf_inv c" "conf_inv (c\<lparr>m_holdWrites := h\<rparr>) = conf_inv c"
  "conf_inv (c\<lparr>status := st\<rparr>) = conf_inv c" "conf_inv (c\<lparr>m_filename := f\<rparr>) = conf_inv c"
  by (simp_all add: conf_inv_def maps_ok_def conf_raw_def order_has_def)

lemma conf_inv_push:
  "m_kind l \<noteq> CFL_VAR \<Longrightarrow> conf_inv c \<Longrightarrow> conf_inv (push_order l c)"
  by (fastforce simp: conf_inv_def push_order_def order_has_def order_vars_append split: Kind.splits)

lemma conf_inv_init: "conf_inv (conf_init flags)"
  by (simp add: conf_inv_def maps_ok_def conf_raw_def conf_init_def)

lemma conf_inv_clear: "conf_inv (c\<lparr>m_submaps := [], m_order := []\<rparr>)"
  by (simp add: conf_inv_def maps_ok_def conf_raw_def)

lemma comment_line_kind [simp]: "m_kind (comment_line l) \<noteq> CFL_VAR" "m_kind (comment_line l) \<noteq> CFL_SK"
  by (simp_all add: comment_line_def conf_line_def split: option.splits)

lemma parse_loop_inv:
  "conf_inv c \<Longrightarrow> cur_after [] (m_order c) = submapkey \<Longrightarrow>
    \<exists>c1. parse_loop tilde rest submapkey line appending c = Inr c1 \<and> conf_inv c1"
proof (induction tilde rest submapkey line appending c rule: parse_loop.induct)
  case (1 tilde rest submapkey line appending c)
  obtain cline rest' good where g: "get_line rest = (cline, rest', good)"
    by (cases "get_line rest")
  define l where "l = clean_line c (if appending then line @ chomp cline else chomp cline)"
  note IH = 1(1-5) [OF g [symmetric] refl l_def]
  note push = conf_inv_push [OF _ 1(6)]
  show ?case
  proof (cases "l = [] \<or> hd l = CHR ''#''")
    case True
    then show ?thesis
      using IH(1) 1(6,7) push [of "comment_line l"]
      by (subst parse_loop.simps) (auto simp: g l_def [symmetric] push_order_def)
  next
    case nocomment: False
    show ?thesis
    proof (cases "last l = backslash")
      case True
      then show ?thesis
        using IH(2) nocomment 1(6,7) by (subst parse_loop.simps) (simp add: g l_def [symmetric])
    next
      case nocont: False
      show ?thesis
      proof (cases "hd l = CHR ''[''")
        case True
        let ?sk = "section_name tilde c l"
        let ?c = "push_order (conf_line CFL_SK ?sk) (c\<lparr>m_subkeys_unsorted := m_subkeys_unsorted c @ [?sk]\<rparr>)"
        have "conf_inv ?c"
          using 1(6) by (intro conf_inv_push) (simp_all add: conf_inv_more conf_line_def)
        moreover have "cur_after [] (m_order ?c) = ?sk"
          by (simp add: push_order_def conf_line_def)
        ultimately show ?thesis
          using IH(3) [OF nocomment nocont True refl] nocomment nocont True
          by (subst parse_loop.simps) (simp add: g l_def [symmetric] Let_def)
      next
        case nosk: False
        show ?thesis
        proof (cases "assignment c l")
          case None
          then show ?thesis
            using IH(4) [OF nocomment nocont nosk None] nocomment nocont nosk 1(7) push [of "conf_line CFL_COMMENT l"]
            by (subst parse_loop.simps) (simp add: g l_def [symmetric] push_order_def conf_line_def)
        next
          case (Some a)
          obtain nm v where a: "a = (nm, v)" by force
          have "\<exists>b c1. i_set nm v submapkey True c = Inr (b, c1) \<and> conf_inv c1 \<and> cur_after [] (m_order c1) = submapkey"
          proof (cases "find_first_of v [newline, cret] 0")
            case None
            show ?thesis
              using i_set_inv [OF 1(6) None, of True submapkey nm] 1(7) by auto
          next
            case (Some i)
            then show ?thesis
              using 1(6,7) by (intro exI [of _ False] exI [of _ c]) (simp add: i_set_def)
          qed
          then obtain b c1 where i: "i_set nm v submapkey True c = Inr (b, c1)" "conf_inv c1"
            "cur_after [] (m_order c1) = submapkey"
            by blast
          show ?thesis
            using IH(5) [OF nocomment nocont nosk Some a [symmetric] i(1) refl] nocomment nocont nosk Some a i
            by (subst parse_loop.simps) (auto simp: g l_def [symmetric])
        qed
      qed
    qed
  qed
qed

lemma erase_mem_spec:
  assumes inv: "conf_inv c" and sub: "omap_find (sub_lt c) sk (m_submaps c) = Some sub"
  shows "conf_inv (erase_mem nm sk sub c)"
    and "conf_raw (erase_mem nm sk sub c) nm' sk' = (if same_var c nm sk nm' sk' then None else conf_raw c nm' sk')"
proof -
  let ?sub1 = "omap_erase (key_lt c) nm sub" and ?c = "erase_mem nm sk sub c"
  have maps: "maps_ok c" using inv by (simp add: conf_inv_def)
  note ok = maps_okD [OF maps sub]
  have okm: "omap_ok (sub_lt c) (m_submaps c)" using maps by (simp add: maps_ok_def)
  have raw: "conf_raw ?c nm' sk' = (if same_var c nm sk nm' sk' then None else conf_raw c nm' sk')" for nm' sk'
  proof (cases "conf_key (sub_nocase c) sk' = conf_key (sub_nocase c) sk")
    case True
    have f: "omap_find (sub_lt c) sk' (m_submaps c) = Some sub"
      using cmap.find_cong [OF True, of "m_submaps c"] sub by simp
    have "omap_find (key_lt c) nm' ?sub1 = (if conf_key (key_nocase c) nm' = conf_key (key_nocase c) nm then None
        else omap_find (key_lt c) nm' sub)"
      by (rule cmap.find_erase [OF ok(2)])
    then show ?thesis
      using True f okm by (auto simp: conf_raw_def erase_mem_def Let_def cmap.find_put cmap.find_erase)
  next
    case False
    then show ?thesis
      using okm by (simp add: conf_raw_def erase_mem_def Let_def cmap.find_put cmap.find_erase)
  qed
  show "conf_raw ?c nm' sk' = (if same_var c nm sk nm' sk' then None else conf_raw c nm' sk')"
    by (rule raw)
  have "maps_ok ?c"
  proof (cases "?sub1 = []")
    case True
    then show ?thesis
      using maps cmap.ok_erase [OF okm] by (auto simp: maps_ok_def erase_mem_def dest!: cmap.erase_keys)
  next
    case False
    have "snd x \<noteq> [] \<and> omap_ok (key_lt c) (snd x)" if "x \<in> set (omap_put (sub_lt c) sk ?sub1 (m_submaps c))" for x
      using omap_put_mem [OF that]
    proof
      assume "x \<in> set (m_submaps c)"
      then show ?thesis using maps by (auto simp: maps_ok_def)
    qed (simp add: False cmap.ok_erase [OF ok(2)])
    then show ?thesis
      using False cmap.ok_put [OF okm] by (simp add: maps_ok_def erase_mem_def case_prod_unfold)
  qed
  moreover have "order_has ?c nm' sk'" if "conf_raw ?c nm' sk' \<noteq> None" for nm' sk'
  proof -
    have "conf_raw c nm' sk' \<noteq> None"
      using that raw by (auto split: if_splits)
    then have "order_has c nm' sk'"
      using inv by (simp add: conf_inv_def)
    then show ?thesis
      by (simp add: order_has_def erase_mem_def Let_def)
  qed
  ultimately show "conf_inv ?c"
    by (simp add: conf_inv_def)
qed

lemma conf_erase_inv: "conf_inv c \<Longrightarrow> conf_erase nm sk c d = (b, c1, d1) \<Longrightarrow> conf_inv c1"
  using erase_mem_spec(1) by (auto simp: conf_erase_def Let_def split: if_splits option.splits prod.splits)

lemma erase_all_inv: "conf_inv c \<Longrightarrow> erase_all sk nms c d = (c1, d1) \<Longrightarrow> conf_inv c1"
  by (induction nms arbitrary: c d) (auto split: prod.splits dest: conf_erase_inv)

lemma conf_set_inv:
  assumes "conf_inv c"
  shows "\<exists>b c1 d1. conf_set nm v sk c d = Inr (b, c1, d1) \<and> conf_inv c1"
proof (cases "find_first_of v [newline, cret] 0")
  case None
  then show ?thesis
    using i_set_inv [OF assms None, of False sk nm] assms
    by (auto simp: conf_set_def split: prod.splits)
next
  case (Some i)
  then show ?thesis
    using assms by (intro exI [of _ False] exI [of _ c] exI [of _ d]) (simp add: conf_set_def i_set_def)
qed

lemma parseinput_inv: "conf_inv c \<Longrightarrow> m_order c = [] \<Longrightarrow> \<exists>c1. parseinput tilde text c = Inr c1 \<and> conf_inv c1"
  using parse_loop_inv [of c "[]"] by (simp add: parseinput_def)

lemma conf_new_inv: "\<exists>c d1. conf_new tilde flags s d = Inr (c, d1) \<and> conf_inv c"
proof -
  have "\<exists>c1. parseinput tilde t (conf_init flags) = Inr c1 \<and> conf_inv c1" for t
    by (rule parseinput_inv [OF conf_inv_init]) (simp add: conf_init_def)
  moreover have "\<exists>c1. parseinput tilde t ((conf_init flags)\<lparr>m_filename := fn, status := st\<rparr>) = Inr c1 \<and> conf_inv c1"
    for t fn st
    by (rule parseinput_inv) (simp_all add: conf_inv_more conf_inv_init, simp add: conf_init_def)
  ultimately show ?thesis
    by (auto simp: conf_new_def Let_def conf_inv_more conf_inv_init split: prod.splits) (metis map_sum.simps(2))+
qed

text \<open>
  The objects a program can make without copying: built from text or from a file, then changed by any of the operations, whatever else
  happens to the disk in between.
\<close>

inductive conf_made :: "(string \<Rightarrow> string) \<Rightarrow> ConfSimple \<Rightarrow> bool" for tilde where
  made_new: "conf_new tilde flags s d = Inr (c, d1) \<Longrightarrow> conf_made tilde c"
| made_set: "conf_made tilde c \<Longrightarrow> conf_set nm v sk c d = Inr (b, c1, d1) \<Longrightarrow> conf_made tilde c1"
| made_erase: "conf_made tilde c \<Longrightarrow> conf_erase nm sk c d = (b, c1, d1) \<Longrightarrow> conf_made tilde c1"
| made_eraseKey: "conf_made tilde c \<Longrightarrow> conf_eraseKey sk c d = (b, c1, d1) \<Longrightarrow> conf_made tilde c1"
| made_clear: "conf_made tilde c \<Longrightarrow> conf_clear c d = (b, c1, d1) \<Longrightarrow> conf_made tilde c1"
| made_hold: "conf_made tilde c \<Longrightarrow> conf_holdWrites h c d = (b, c1, d1) \<Longrightarrow> conf_made tilde c1"
| made_reparse: "conf_made tilde c \<Longrightarrow> conf_reparse tilde t c d = Inr (c1, d1) \<Longrightarrow> conf_made tilde c1"

lemma conf_made_inv: "conf_made tilde c \<Longrightarrow> conf_inv c"
proof (induction rule: conf_made.induct)
  case (made_new flags s d c d1)
  then show ?case using conf_new_inv [of tilde flags s d] by auto
next
  case (made_set c nm v sk d b c1 d1)
  then show ?case using conf_set_inv [of c nm v sk d] by auto
next
  case (made_erase c nm sk d b c1 d1)
  then show ?case by (blast intro: conf_erase_inv)
next
  case (made_eraseKey c sk d b c1 d1)
  then show ?case by (auto simp: conf_eraseKey_def split: prod.splits dest: erase_all_inv)
next
  case (made_clear c d b c1 d1)
  then show ?case by (auto simp: conf_clear_def Let_def conf_inv_clear split: prod.splits)
next
  case (made_hold c h d b c1 d1)
  then show ?case by (auto simp: conf_holdWrites_def Let_def conf_inv_more split: prod.splits if_splits)
next
  case (made_reparse c t d c1 d1)
  have "\<exists>c2. parseinput tilde t (c\<lparr>m_submaps := [], m_order := []\<rparr>) = Inr c2 \<and> conf_inv c2"
    by (rule parseinput_inv [OF conf_inv_clear]) simp
  with made_reparse show ?case
    by (auto simp: conf_reparse_def conf_clear_def Let_def split: prod.splits)
qed

text \<open>
  C24. An object that was built and changed by the operations, without being copied, has in its order data a line for each of its
  variables, in the right section; reading never aborts, nor does \<open>set\<close>, on any text, names and values: the failure that \<open>i_set\<close>
  calls logically impossible does not happen.
\<close>

theorem conf_made_safe:
  assumes "conf_made tilde c"
  shows "conf_inv c \<and> (\<exists>b c1 d1. conf_set nm v sk c d = Inr (b, c1, d1)) \<and>
    (\<exists>c2 d2. conf_reparse tilde text c d = Inr (c2, d2))"
proof -
  have inv: "conf_inv c" by (rule conf_made_inv [OF assms])
  have "\<exists>c2. parseinput tilde text (c\<lparr>m_submaps := [], m_order := []\<rparr>) = Inr c2 \<and> conf_inv c2"
    by (rule parseinput_inv [OF conf_inv_clear]) simp
  then have "\<exists>c2 d2. conf_reparse tilde text c d = Inr (c2, d2)"
    by (auto simp: conf_reparse_def conf_clear_def Let_def split: prod.splits)
  with inv conf_set_inv [OF inv] show ?thesis
    by blast
qed

theorem conf_made_safe_witness:
  "\<exists>b c1 d1. conf_set ''a'' ''1'' ''s'' (conf_init CFSF_FROMSTRING)
    no_disk = Inr (b, c1, d1)"
proof -
  have "conf_new id CFSF_FROMSTRING [] d = Inr (conf_init CFSF_FROMSTRING, d)" for d
    by (simp add: conf_new_def CFSF_FROMSTRING_def)
  then have "conf_made id (conf_init CFSF_FROMSTRING)"
    by (rule made_new)
  from conf_made_safe [OF this] show ?thesis by blast
qed

section \<open>What lookup finds after a change\<close>

definition line_breaks :: "string \<Rightarrow> bool" where
  "line_breaks v \<longleftrightarrow> newline \<in> set v \<or> cret \<in> set v"

lemma find_breaks: "find_first_of v [newline, cret] 0 = None \<longleftrightarrow> \<not> line_breaks v"
  by (auto simp: find_first_of_None line_breaks_def)

lemma conf_made_maps: "conf_made tilde c \<Longrightarrow> maps_ok c"
  using conf_made_inv by (auto simp: conf_inv_def)

text \<open>
  C25. Setting a variable of a writable object: a value with a line break is refused and changes nothing; any other value is what lookup
  finds afterwards under every spelling the comparators identify, other variables keep their values, and the file, when there is one,
  holds the text of the new object.
\<close>

theorem conf_set_get:
  assumes "conf_made tilde c" and "status c = STATUS_RW" and "conf_set nm v sk c d = Inr (b, c1, d1)"
  shows "if line_breaks v then \<not> b \<and> c1 = c \<and> d1 = d
    else conf_get c1 nm' sk' = (if same_var c nm sk nm' sk' then Some v else conf_get c nm' sk') \<and>
      (b, d1) = conf_flush c1 d"
proof (cases "line_breaks v")
  case True
  then have "\<exists>i. find_first_of v [newline, cret] 0 = Some i"
    using find_breaks by blast
  with True assms(2,3) show ?thesis
    by (auto simp: conf_set_def i_set_def)
next
  case False
  then have "find_first_of v [newline, cret] 0 = None"
    by (simp add: find_breaks)
  from i_set_inv [OF conf_made_inv [OF assms(1)] this, of False sk nm]
  obtain ls where "i_set nm v sk False c = Inr (True, (put_var nm v sk c)\<lparr>m_order := ls\<rparr>)"
    by auto
  then have c1: "c1 = (put_var nm v sk c)\<lparr>m_order := ls\<rparr>" and "(b, d1) = conf_flush c1 d"
    using assms(2,3) by (auto simp: conf_set_def split: prod.splits)
  then show ?thesis
    using False assms(2) conf_made_maps [OF assms(1)]
    by (simp add: conf_get_raw conf_ok_def put_var_raw)
qed

theorem conf_set_get_witness:
  "\<exists>b c1 d1. conf_set ''Key'' ''v'' ''s'' (conf_init (CFSF_FROMSTRING OR CFSF_KEYNOCASE)) no_disk = Inr (b, c1, d1) \<and>
    conf_get c1 ''kEY'' ''s'' = Some ''v''"
proof -
  let ?c = "conf_init (CFSF_FROMSTRING OR CFSF_KEYNOCASE)"
  have "conf_new id (CFSF_FROMSTRING OR CFSF_KEYNOCASE) [] no_disk = Inr (?c, no_disk)"
    by (simp add: conf_new_def cfsf_defs)
  then have made: "conf_made id ?c"
    by (rule made_new)
  obtain b c1 d1 where s: "conf_set ''Key'' ''v'' ''s'' ?c no_disk = Inr (b, c1, d1)"
    using conf_set_inv [OF conf_made_inv [OF made]] by blast
  have "status ?c = STATUS_RW" "key_nocase ?c"
    by (simp_all add: conf_init_def cfsf_defs)
  moreover have "char_of (107 :: nat) = CHR ''k''" "char_of (101 :: nat) = CHR ''e''" "char_of (121 :: nat) = CHR ''y''"
    by code_simp+
  ultimately show ?thesis
    using conf_set_get [OF made _ s, of "''kEY''" "''s''"] s
    by (simp add: line_breaks_def conf_key_nocase stringtolower_def to_lower_def is_upper_def)
qed

text \<open>The same for the name and the section as they were given, for the clients of \<open>set\<close>.\<close>

lemma conf_set_get_same:
  assumes "conf_made tilde c" and "status c = STATUS_RW" and "conf_set nm v sk c d = Inr (b, c1, d1)" and "\<not> line_breaks v"
  shows "conf_get c1 nm sk = Some v"
proof -
  have "find_first_of v [newline, cret] 0 = None"
    using assms(4) by (simp add: find_breaks)
  from i_set_inv [OF conf_made_inv [OF assms(1)] this, of False sk nm] assms(2,3) show ?thesis
    using conf_made_maps [OF assms(1)] by (auto simp: conf_set_def conf_get_raw conf_ok_def put_var_raw split: prod.splits)
qed

text \<open>Erasing.\<close>

lemma conf_erase_get:
  assumes "conf_inv c" and "status c = STATUS_RW" and "conf_erase nm sk c d = (b, c1, d1)"
  shows "conf_get c1 nm' sk' = (if same_var c nm sk nm' sk' then None else conf_get c nm' sk')"
    and "status c1 = STATUS_RW" "m_flags c1 = m_flags c" "conf_inv c1"
proof -
  show "conf_inv c1"
    using conf_erase_inv [OF assms(1,3)] .
  show "conf_get c1 nm' sk' = (if same_var c nm sk nm' sk' then None else conf_get c nm' sk')"
  proof (cases "omap_find (sub_lt c) sk (m_submaps c)")
    case None
    then have "conf_raw c nm' sk' = None" if "conf_key (sub_nocase c) sk' = conf_key (sub_nocase c) sk"
      using cmap.find_cong [OF that, of "m_submaps c"] by (simp add: conf_raw_def)
    then show ?thesis
      using None assms(2,3) by (auto simp: conf_erase_def conf_get_raw)
  next
    case (Some sub)
    then have "c1 = erase_mem nm sk sub c"
      using assms(2,3) by (auto simp: conf_erase_def Let_def split: prod.splits)
    then show ?thesis
      using erase_mem_spec(2) [OF assms(1) Some, of nm nm' sk'] assms(2)
      by (simp add: conf_get_raw conf_ok_def erase_mem_def Let_def)
  qed
  show "status c1 = STATUS_RW" "m_flags c1 = m_flags c"
    using assms(2,3) by (auto simp: conf_erase_def erase_mem_def Let_def split: if_splits option.splits prod.splits)
qed

lemma erase_all_get:
  assumes "conf_inv c" and "status c = STATUS_RW" and "erase_all sk nms c d = (c1, d1)"
  shows "conf_get c1 nm' sk' =
    (if \<exists>nm \<in> set nms. same_var c nm sk nm' sk' then None else conf_get c nm' sk')"
  using assms
proof (induction nms arbitrary: c d)
  case Nil
  then show ?case by simp
next
  case (Cons nm nms)
  obtain b c2 d2 where e: "conf_erase nm sk c d = (b, c2, d2)"
    by (cases "conf_erase nm sk c d") auto
  note s = conf_erase_get [OF Cons.prems(1,2) e]
  have "erase_all sk nms c2 d2 = (c1, d1)"
    using Cons.prems(3) e by simp
  from Cons.IH [OF s(4,2) this] s(1,3) show ?case
    by auto
qed

text \<open>
  C26. \<open>eraseKey\<close> removes all the variables of the section, whatever the spelling of its name, and nothing else.
\<close>

theorem conf_eraseKey_get:
  assumes "conf_made tilde c" and "status c = STATUS_RW" and "conf_eraseKey sk c d = (b, c1, d1)"
  shows "conf_get c1 nm' sk' =
    (if conf_key (sub_nocase c) sk' = conf_key (sub_nocase c) sk then None else conf_get c nm' sk')"
proof -
  have inv: "conf_inv c" by (rule conf_made_inv [OF assms(1)])
  obtain d2 where e: "erase_all sk (conf_getNames c sk None) c d = (c1, d2)"
    using assms(3) by (auto simp: conf_eraseKey_def split: prod.splits)
  have "\<exists>nm \<in> set (conf_getNames c sk None). same_var c nm sk nm' sk'"
    if k: "conf_key (sub_nocase c) sk' = conf_key (sub_nocase c) sk" and g: "conf_get c nm' sk' \<noteq> None"
  proof -
    obtain sub v where s: "omap_find (sub_lt c) sk' (m_submaps c) = Some sub" "omap_find (key_lt c) nm' sub = Some v"
      using g by (auto simp: conf_get_def split: option.splits if_splits)
    then obtain nm where "(nm, v) \<in> set sub" "conf_key (key_nocase c) nm = conf_key (key_nocase c) nm'"
      using cmap.find_SomeD [OF s(2)] by blast
    moreover have "omap_find (sub_lt c) sk (m_submaps c) = Some sub"
      using s(1) cmap.find_cong [OF k, of "m_submaps c"] by simp
    ultimately show ?thesis
      using k assms(2) by (force simp: conf_getNames_def conf_ok_def)
  qed
  then show ?thesis
    using erase_all_get [OF inv assms(2) e, of nm' sk'] by (cases "conf_get c nm' sk'") auto
qed

theorem conf_eraseKey_get_witness:
  "\<exists>b c1 d1. conf_eraseKey ''s'' (conf_init CFSF_FROMSTRING) no_disk = (b, c1, d1) \<and> conf_get c1 ''a'' ''s'' = None"
proof -
  let ?c = "conf_init CFSF_FROMSTRING"
  have "conf_new id CFSF_FROMSTRING [] no_disk = Inr (?c, no_disk)"
    by (simp add: conf_new_def cfsf_defs)
  then have made: "conf_made id ?c"
    by (rule made_new)
  obtain b c1 d1 where e: "conf_eraseKey ''s'' ?c no_disk = (b, c1, d1)"
    by (cases "conf_eraseKey ''s'' ?c no_disk") auto
  have "status ?c = STATUS_RW"
    by (simp add: conf_init_def cfsf_defs)
  from conf_eraseKey_get [OF made this e, of "''a''" "''s''"] e show ?thesis
    by simp
qed

section \<open>Changing a copy\<close>

lemma conf_copy_sel:
  "status c \<noteq> STATUS_ERROR \<Longrightarrow> status (conf_copy c) = status c"
  "status c \<noteq> STATUS_ERROR \<Longrightarrow> m_submaps (conf_copy c) = m_submaps c"
  "status c \<noteq> STATUS_ERROR \<Longrightarrow> m_flags (conf_copy c) = m_flags c"
  "status c \<noteq> STATUS_ERROR \<Longrightarrow> m_order (conf_copy c) = []"
  "status c \<noteq> STATUS_ERROR \<Longrightarrow> m_filename (conf_copy c) = m_filename c"
  "status c \<noteq> STATUS_ERROR \<Longrightarrow> m_holdWrites (conf_copy c) = False"
  by (simp_all add: conf_copy_def)

text \<open>
  A copy has the maps of the original and no order data, so it answers lookups as the original does, but setting a variable that is
  new to an existing section of it aborts, and setting a new global variable rewrites its file with that variable alone.
\<close>

theorem conf_copy_set:
  assumes "status c = STATUS_RW" and "\<not> line_breaks v" and "conf_get c nm sk = None" and "maps_ok c"
  shows "conf_get (conf_copy c) = conf_get c \<and>
    (if sk \<noteq> [] then conf_hasSubKey c sk = (conf_set nm v sk (conf_copy c) d = Inl AbortCalled)
     else if m_filename c = [] \<or> \<not> d_writable d (m_filename c) then True
     else \<exists>c1. conf_set nm v sk (conf_copy c) d =
         Inr (True, c1, d\<lparr>d_files := (d_files d)(m_filename c \<mapsto> varprinter nm v)\<rparr>))"
proof -
  let ?c = "conf_copy c"
  have ne: "status c \<noteq> STATUS_ERROR" using assms(1) by simp
  note sel = conf_copy_sel [OF ne]
  have get: "conf_get ?c = conf_get c"
    by (intro ext) (simp add: conf_get_def conf_ok_def sel split: option.splits)
  have raw: "conf_raw ?c nm sk = None"
    using assms(1,3) by (simp add: conf_get_raw conf_ok_def conf_raw_def sel)
  have maps: "maps_ok ?c"
    using assms(4) by (simp add: maps_ok_def sel)
  have breaks: "find_first_of v [newline, cret] 0 = None"
    using assms(2) by (simp add: find_breaks)
  show ?thesis
  proof (cases "sk = []")
    case False
    have "i_set nm v sk False ?c = Inl AbortCalled" if "conf_hasSubKey c sk"
      using that raw False by (auto simp: i_set_raw [OF breaks] conf_hasSubKey_def sel i_set_order_zone zone_start_def)
    moreover have "\<exists>c1. i_set nm v sk False ?c = Inr (True, c1)" if "\<not> conf_hasSubKey c sk"
      using that raw False
      by (auto simp: i_set_raw [OF breaks] conf_hasSubKey_def sel i_set_order_zone zone_start_def OrderComp_key conf_line_def)
    ultimately show ?thesis
      using False assms(1) get by (cases "conf_hasSubKey c sk") (auto simp: conf_set_def sel split: prod.splits)
  next
    case True
    let ?c1 = "(put_var nm v [] ?c)\<lparr>m_order := [conf_line CFL_VAR nm]\<rparr>"
    have i: "i_set nm v [] False ?c = Inr (True, ?c1)"
      using raw True by (simp add: i_set_raw [OF breaks] i_set_order_zone zone_start_def zone_pos_def zone_end_def sel insert_at_def)
    have "conf_get ?c1 nm [] = Some v"
      using assms(1) by (simp add: conf_get_raw conf_ok_def put_var_raw [OF maps] sel)
    then have w: "conf_write ?c1 = (True, varprinter nm v)"
      using assms(1) by (simp add: conf_write_def conf_ok_def conf_line_def sel)
    show ?thesis
      using True get assms(1) w by (auto simp: conf_set_def conf_flush_def conf_ok_def i sel)
  qed
qed

theorem conf_copy_set_witness:
  "conf_hasSubKey (put_var ''a'' ''1'' ''s'' (conf_init 0)) ''s'' =
    (conf_set ''b'' ''2'' ''s'' (conf_copy (put_var ''a'' ''1'' ''s'' (conf_init 0))) no_disk = Inl AbortCalled)"
proof -
  let ?c = "put_var ''a'' ''1'' ''s'' (conf_init 0)"
  have maps: "maps_ok ?c"
    using conf_inv_init [of 0] by (intro put_var_maps_ok) (simp add: conf_inv_def)
  have "conf_raw (conf_init 0) nm sk = None" for nm sk
    by (simp add: conf_raw_def conf_init_def)
  then have "conf_get ?c ''b'' ''s'' = None"
    using conf_inv_init [of 0] by (simp add: conf_get_raw put_var_raw conf_inv_def conf_key_case conf_init_def cfsf_defs)
  moreover have "status ?c = STATUS_RW"
    by (simp add: conf_init_def cfsf_defs)
  ultimately show ?thesis
    using conf_copy_set [of ?c "''2''" "''b''" "''s''" no_disk] maps by (simp add: line_breaks_def)
qed

end
