(* ===== verification/Conf_Write.thy ===== *)
theory Conf_Write
  imports Conf_Simple
begin

text \<open>
  The text of a configuration object is read back: the object made from the text that \<open>write\<close>
  produced answers every lookup as the original does, when names, values, subsections and comments
  are of the kind the format can hold. The conditions are those the proofs need; the lemmas
  at the end show that the writer does not check them.
\<close>

section \<open>What the format can hold\<close>

definition name_ok :: "string \<Rightarrow> bool" where
  "name_ok nm \<longleftrightarrow> nm \<noteq> [] \<and> newline \<notin> set nm \<and> CHR ''='' \<notin> set nm \<and> trimstring nm trim_dflt = nm \<and>
     hd nm \<noteq> CHR ''#'' \<and> hd nm \<noteq> CHR ''[''"

definition value_ok :: "string \<Rightarrow> bool" where
  "value_ok v \<longleftrightarrow> \<not> line_breaks v \<and> trimstring v trim_dflt = v \<and> (v = [] \<or> last v \<noteq> backslash)"

definition section_ok :: "(string \<Rightarrow> string) \<Rightarrow> ConfSimple \<Rightarrow> string \<Rightarrow> bool" where
  "section_ok tilde c sk \<longleftrightarrow> newline \<notin> set sk \<and> trimstring sk (''[] '' @ [tab]) = sk \<and>
     (if dotildexpand c then tilde sk = sk else True)"

text \<open>A comment line that is read as a comment line.\<close>

definition comment_ok :: "ConfSimple \<Rightarrow> string \<Rightarrow> bool" where
  "comment_ok c x \<longleftrightarrow> newline \<notin> set x \<and>
     (let l = clean_line c (chomp x) in
      l = [] \<or> hd l = CHR ''#'' \<or> last l \<noteq> backslash \<and> hd l \<noteq> CHR ''['' \<and> assignment c l = None)"

fun order_writable :: "(string \<Rightarrow> string) \<Rightarrow> ConfSimple \<Rightarrow> string \<Rightarrow> ConfLine list \<Rightarrow> bool" where
  "order_writable tilde c sk [] \<longleftrightarrow> True"
| "order_writable tilde c sk (l # ls) \<longleftrightarrow>
     (case m_kind l of
        CFL_COMMENT \<Rightarrow> comment_ok c (m_data l) \<and> order_writable tilde c sk ls
      | CFL_VARCOMMENT \<Rightarrow> comment_ok c (m_data l) \<and> order_writable tilde c sk ls
      | CFL_SK \<Rightarrow> (conf_hasSubKey c (m_data l) \<longrightarrow> section_ok tilde c (m_data l)) \<and>
          order_writable tilde c (m_data l) ls
      | CFL_VAR \<Rightarrow> (case conf_raw c (m_data l) sk of
            None \<Rightarrow> True
          | Some v \<Rightarrow> name_ok (m_data l) \<and> value_ok v) \<and> order_writable tilde c sk ls)"

definition conf_writable :: "(string \<Rightarrow> string) \<Rightarrow> ConfSimple \<Rightarrow> bool" where
  "conf_writable tilde c \<longleftrightarrow> trimvalues c \<and> order_writable tilde c [] (m_order c)"

section \<open>One line\<close>

lemma get_line_newline: "newline \<notin> set x \<Longrightarrow> get_line (x @ newline # rest) = (x, rest, True)"
proof -
  assume "newline \<notin> set x"
  then have "find_idx ((=) newline) (x @ newline # rest) = Some (length x)"
    by (subst find_idx_append) auto
  then show ?thesis by (simp add: get_line_def)
qed

lemma get_line_end [simp]: "get_line [] = ([], [], False)"
  by (simp add: get_line_def)

lemma rtrim_id: "s = [] \<or> last s \<notin> set ws \<Longrightarrow> rev (dropWhile (\<lambda>c. c \<in> set ws) (rev s)) = s"
  by (cases s rule: rev_cases) auto

lemma ltrim_id: "s = [] \<or> hd s \<notin> set ws \<Longrightarrow> dropWhile (\<lambda>c. c \<in> set ws) s = s"
  by (cases s) auto

lemma trimstring_ends:
  "s = [] \<or> hd s \<notin> set ws \<and> last s \<notin> set ws \<Longrightarrow> trimstring s ws = s"
  using rtrim_id [of s ws] ltrim_id [of s ws]
  by (auto simp: trimstring_def ltrimstring_dropWhile rtrimstring_dropWhile)

lemma trimstring_endsD:
  assumes "trimstring s ws = s" and "s \<noteq> []"
  shows "hd s \<notin> set ws" "last s \<notin> set ws"
proof -
  let ?P = "\<lambda>c. c \<in> set ws"
  have e: "dropWhile ?P (rev (dropWhile ?P (rev s))) = s"
    using assms(1) by (simp add: trimstring_def ltrimstring_dropWhile rtrimstring_dropWhile)
  then show "hd s \<notin> set ws"
    using assms(2) hd_dropWhile [of ?P "rev (dropWhile ?P (rev s))"] by auto
  have "length (dropWhile ?P (rev s)) \<le> length s"
    using length_dropWhile_le [of ?P "rev s"] by simp
  moreover have "length s \<le> length (dropWhile ?P (rev s))"
    using length_dropWhile_le [of ?P "rev (dropWhile ?P (rev s))"] e by simp
  ultimately have "dropWhile ?P (rev s) = rev s"
    by (metis append_self_conv2 diff_is_0_eq dropWhile_eq_drop drop_0 length_drop length_rev length_takeWhile_le
        le_antisym length_0_conv length_append add_cancel_right_left takeWhile_dropWhile_id)
  then show "last s \<notin> set ws"
    using assms(2) by (metis hd_dropWhile hd_rev rev_is_Nil_conv)
qed

lemma chomp_id: "x = [] \<or> last x \<noteq> newline \<and> last x \<noteq> cret \<Longrightarrow> chomp x = x"
proof -
  assume x: "x = [] \<or> last x \<noteq> newline \<and> last x \<noteq> cret"
  show ?thesis
  proof (cases x rule: rev_cases)
    case (snoc ys y)
    then have "find_last_not_of x [newline, cret] = Some (length ys)"
      using x by (auto simp: find_last_not_of_def find_last_idx_Some nth_append less_Suc_eq)
    then show ?thesis by (simp add: chomp_def snoc)
  qed simp
qed

lemma trim_bracket: "trimstring (CHR ''['' # sk @ '']'') (''[] '' @ [tab]) = trimstring sk (''[] '' @ [tab])"
proof -
  let ?P = "\<lambda>c. c \<in> set (''[] '' @ [tab])"
  have br: "?P (CHR ''['')" "?P (CHR '']'')" by simp_all
  have r: "dropWhile ?P (rev (CHR ''['' # sk @ '']'')) = dropWhile ?P (rev sk @ ''['')"
    using br by simp
  show ?thesis
  proof (cases "\<forall>c \<in> set sk. ?P c")
    case True
    then have "dropWhile ?P (rev sk @ ''['') = []" "dropWhile ?P (rev sk) = []"
      using br by (simp_all only: dropWhile_eq_Nil_conv) auto
    then show ?thesis
      unfolding trimstring_def ltrimstring_dropWhile rtrimstring_dropWhile r by (simp only: rev.simps dropWhile.simps)
  next
    case False
    then have "dropWhile ?P (rev sk @ ''['') = dropWhile ?P (rev sk) @ ''[''"
      by (subst dropWhile_append) auto
    then show ?thesis
      unfolding trimstring_def ltrimstring_dropWhile rtrimstring_dropWhile r using br by simp
  qed
qed

section \<open>Reading what was written\<close>

lemma comment_ok_static:
  "trimvalues p = trimvalues c \<Longrightarrow> comment_ok p x = comment_ok c x"
  by (simp add: comment_ok_def clean_line_def assignment_def Let_def split: option.splits)

lemma parse_comment:
  assumes "comment_ok p x"
  shows "\<exists>l ln. parse_loop tilde (x @ newline # rest) psk line False p =
      parse_loop tilde rest psk ln False (push_order l p) \<and> m_kind l \<noteq> CFL_VAR \<and> m_kind l \<noteq> CFL_SK"
proof -
  let ?l = "clean_line p (chomp x)"
  have g: "get_line (x @ newline # rest) = (x, rest, True)"
    using assms by (intro get_line_newline) (simp add: comment_ok_def)
  show ?thesis
  proof (cases "?l = [] \<or> hd ?l = CHR ''#''")
    case True
    then show ?thesis
      by (subst parse_loop.simps) (intro exI [of _ "comment_line ?l"] exI [of _ ?l], auto simp: g Let_def)
  next
    case False
    then have "last ?l \<noteq> backslash" "hd ?l \<noteq> CHR ''[''" "assignment p ?l = None"
      using assms by (simp_all add: comment_ok_def Let_def)
    then show ?thesis
      using False
      by (subst parse_loop.simps)
        (intro exI [of _ "conf_line CFL_COMMENT ?l"] exI [of _ ?l], simp add: g Let_def conf_line_def)
  qed
qed

lemma parse_section:
  assumes "section_ok tilde p sk" and "trimvalues p"
  shows "\<exists>ln. parse_loop tilde (CHR ''['' # sk @ CHR '']'' # newline # rest) psk line False p =
    parse_loop tilde rest sk ln False
      (push_order (conf_line CFL_SK sk) (p\<lparr>m_subkeys_unsorted := m_subkeys_unsorted p @ [sk]\<rparr>))"
proof -
  let ?x = "CHR ''['' # sk @ '']''"
  have g: "get_line (CHR ''['' # sk @ CHR '']'' # newline # rest) = (?x, rest, True)"
    using get_line_newline [of ?x rest] assms(1) by (simp add: section_ok_def)
  have "chomp ?x = ?x"
    by (rule chomp_id) simp
  moreover have "trimstring ?x trim_dflt = ?x"
    by (rule trimstring_ends) (simp add: trim_dflt_def)
  ultimately have l: "clean_line p (chomp ?x) = ?x"
    using assms(2) by (simp add: clean_line_def)
  have "section_name tilde p ?x = sk"
    using assms(1) trim_bracket [of sk] by (simp add: section_name_def section_ok_def Let_def)
  then show ?thesis
    by (subst parse_loop.simps) (simp add: g l Let_def, blast)
qed

text \<open>An assignment, read from several lines.\<close>

lemma break_value_cases:
  "break_value ll v = v \<or>
    (\<exists>v1 b v2. v = v1 @ b # v2 \<and> (b = blank \<or> b = tab) \<and> v2 \<noteq> [] \<and>
      break_value ll v = v1 @ b # backslash # newline # break_value 0 v2)"
proof (induction v arbitrary: ll)
  case (Cons c cs)
  show ?case
  proof (cases "ll + 1 > 50 \<and> length (c # cs) > 10 \<and> (c = blank \<or> c = tab)")
    case True
    then show ?thesis
      by (intro disjI2 exI [of _ "[]"] exI [of _ c] exI [of _ cs]) auto
  next
    case False
    then have e: "break_value ll (c # cs) = c # break_value (ll + 1) cs"
      by auto
    consider "break_value (ll + 1) cs = cs"
      | v1 b v2 where "cs = v1 @ b # v2" "b = blank \<or> b = tab" "v2 \<noteq> []"
        "break_value (ll + 1) cs = v1 @ b # backslash # newline # break_value 0 v2"
      using Cons [of "ll + 1"] by blast
    then show ?thesis
    proof cases
      case 1
      then show ?thesis
        unfolding e by simp
    next
      case 2
      then show ?thesis
        unfolding e by (intro disjI2 exI [of _ "c # v1"] exI [of _ b] exI [of _ v2]) auto
    qed
  qed
qed simp

text \<open>The state of the reader behind a line that sets a variable.\<close>

definition set_line :: "(string \<Rightarrow> string) \<Rightarrow> string \<Rightarrow> string \<Rightarrow> string \<Rightarrow> string \<Rightarrow> ConfSimple \<Rightarrow> ConfSimple run" where
  "set_line tilde rest psk nm v p =
     (case i_set nm v psk True p of
        Inl e \<Rightarrow> Inl e
      | Inr (b, p1) \<Rightarrow> parse_loop tilde rest psk [] False p1)"

lemma parse_loop_line_irrelevant:
  "parse_loop tilde rest psk line False p = parse_loop tilde rest psk line' False p"
  by (subst (1 2) parse_loop.simps) simp

lemma parse_appending:
  assumes "l = clean_line p (a @ chomp x)" and "get_line text = (x, rest, True)" and "l \<noteq> []" "hd l \<noteq> CHR ''#''"
    and "a = [] \<or> app"
  shows "parse_loop tilde text psk a app p =
    (if last l = backslash then parse_loop tilde rest psk (butlast l) True p
     else if hd l = CHR ''['' then
       parse_loop tilde rest (section_name tilde p l) l False
         (push_order (conf_line CFL_SK (section_name tilde p l)) (p\<lparr>m_subkeys_unsorted := m_subkeys_unsorted p @ [section_name tilde p l]\<rparr>))
     else case assignment p l of
         None \<Rightarrow> parse_loop tilde rest psk l False (push_order (conf_line CFL_COMMENT l) p)
       | Some (nm, v) \<Rightarrow> set_line tilde rest psk nm v p)"
proof -
  have l: "app \<Longrightarrow> clean_line p (a @ chomp x) = l" "\<not> app \<Longrightarrow> clean_line p (chomp x) = l"
    using assms(1,5) by auto
  show ?thesis
    using assms(2-4) parse_loop_line_irrelevant [of tilde rest psk l _ "[]"]
    by (subst parse_loop.simps; cases app) (auto simp: l Let_def set_line_def split: option.splits sum.splits)
qed

lemma parse_broken_value:
  assumes "a = [] \<or> app" and "newline \<notin> set (y @ v)" and "cret \<notin> set v" and "a @ y \<noteq> []"
    and "hd (a @ y) \<notin> {blank, tab, CHR ''#'', CHR ''[''}"
    and "last (a @ y @ v) \<notin> {cret, backslash}" and "trimvalues p"
    and nv: "assignment p (trimstring (a @ y @ v) trim_dflt) = Some (nm, w)"
    and "last (trimstring (a @ y @ v) trim_dflt) \<noteq> backslash" 
    and "y \<noteq> [] \<or> v \<noteq> []" and "t = v \<or> t = break_value ll v"
  shows "parse_loop tilde (y @ t @ newline # rest) psk a app p = set_line tilde rest psk nm w p"
  using assms
proof (induction "length v" arbitrary: a app y v t ll rule: less_induct)
  case less
  note pr = less.prems
  consider "t = v"
    | v1 b v2 where "v = v1 @ b # v2" "b = blank \<or> b = tab" "v2 \<noteq> []"
      "t = v1 @ b # backslash # newline # break_value 0 v2"
    using break_value_cases [of ll v] pr(11) by metis
  then show ?case
  proof cases
    case 1
    let ?f = "a @ y @ v" and ?l = "trimstring (a @ y @ v) trim_dflt"
    have g: "get_line (y @ t @ newline # rest) = (y @ v, rest, True)"
      using get_line_newline [OF pr(2)] 1 by simp
    have "last (y @ v) = last ?f"
      using pr(10) by (cases "v = []") auto
    moreover have "last (y @ v) \<noteq> newline"
      using pr(2,10) by (metis append_is_Nil_conv last_in_set)
    ultimately have "chomp (y @ v) = y @ v"
      using pr(6) by (intro chomp_id) auto
    then have l: "?l = clean_line p (a @ chomp (y @ v))"
      using pr(7) by (simp add: clean_line_def)
    have hd: "hd ?l = hd (a @ y)" "?l \<noteq> []"
    proof -
      let ?r = "rev (dropWhile (\<lambda>c. c \<in> set trim_dflt) (rev ?f))"
      obtain h t where f: "?f = h # t" and h: "h = hd (a @ y)" "h \<noteq> blank" "h \<noteq> tab"
        using pr(4,5) that [of "hd (a @ y)" "tl (a @ y) @ v"]
        by (metis append.assoc append_Cons insertCI list.collapse)
      then have "?r = h # rev (dropWhile (\<lambda>c. c \<in> set trim_dflt) (rev t))"
        by (simp add: dropWhile_append trim_dflt_def)
      then show "hd ?l = hd (a @ y)" "?l \<noteq> []"
        using h by (simp_all add: trimstring_def ltrimstring_dropWhile rtrimstring_dropWhile trim_dflt_def)
    qed
    show ?thesis
      using parse_appending [OF l g hd(2) _ pr(1), of tilde psk] pr(5,8,9) hd by simp
  next
    case 2
    let ?x = "y @ v1 @ [b, backslash]"
    have g: "get_line (y @ t @ newline # rest) = (?x, break_value 0 v2 @ newline # rest, True)"
      using get_line_newline [of ?x "break_value 0 v2 @ newline # rest"] pr(2) 2 by simp
    have hd: "hd (a @ ?x) = hd (a @ y)"
      using pr(4) by (cases a; cases y) auto
    have "chomp ?x = ?x"
      by (rule chomp_id) simp
    moreover have "trimstring (a @ ?x) trim_dflt = a @ ?x"
    proof (intro trimstring_ends disjI2 conjI)
      show "hd (a @ ?x) \<notin> set trim_dflt"
        unfolding hd using pr(5) by (auto simp: trim_dflt_def)
    qed (simp add: trim_dflt_def)
    ultimately have l: "a @ ?x = clean_line p (a @ chomp ?x)"
      using pr(7) by (simp add: clean_line_def)
    have "parse_loop tilde (y @ t @ newline # rest) psk a app p =
        parse_loop tilde (break_value 0 v2 @ newline # rest) psk (a @ y @ v1 @ [b]) True p"
      using parse_appending [OF l g _ _ pr(1), of tilde psk] hd pr(5) by (simp add: butlast_append)
    also have "\<dots> = set_line tilde rest psk nm w p"
      using less.hyps [of v2 "a @ y @ v1 @ [b]" True "[]" "break_value 0 v2" 0] pr 2 hd by (auto simp: hd_append split: if_splits)
    finally show ?thesis .
  qed
qed

lemma find_char_first: "c \<notin> set x \<Longrightarrow> find_char (x @ c # y) c 0 = Some (length x)"
proof -
  assume "c \<notin> set x"
  then have "find_idx ((=) c) (x @ c # y) = Some (length x)"
    by (subst find_idx_append) auto
  then show ?thesis by (simp add: find_char_def)
qed

lemma parse_var:
  assumes nm: "name_ok nm" and v: "value_ok v" and "trimvalues p"
  shows "parse_loop tilde (varprinter nm v @ rest) psk line False p = set_line tilde rest psk nm v p"
proof -
  have nm1: "nm \<noteq> []" "newline \<notin> set nm" "CHR ''='' \<notin> set nm" "hd nm \<noteq> CHR ''#''" "hd nm \<noteq> CHR ''[''"
    and nm2: "hd nm \<notin> set trim_dflt" "last nm \<notin> set trim_dflt"
    using nm trimstring_endsD [of nm trim_dflt] by (simp_all add: name_ok_def)
  have v1: "newline \<notin> set v" "cret \<notin> set v" "trimstring v trim_dflt = v" "v = [] \<or> last v \<noteq> backslash"
    using v by (auto simp: value_ok_def line_breaks_def)
  let ?y = "nm @ '' = ''"
  let ?l = "nm @ '' ='' @ (if v = [] then [] else blank # v)"
  have tl: "trimstring (?y @ v) trim_dflt = ?l"
  proof (cases "v = []")
    case True
    have "rtrimstring (nm @ '' = '') trim_dflt = nm @ '' =''"
      by (simp add: rtrimstring_dropWhile trim_dflt_def)
    moreover have "ltrimstring (nm @ '' ='') trim_dflt = nm @ '' =''"
      using nm1(1) nm2(1) by (subst ltrimstring_dropWhile, subst ltrim_id) auto
    ultimately show ?thesis
      using True by (simp add: trimstring_def)
  next
    case False
    then have "last v \<notin> set trim_dflt"
      using trimstring_endsD(2) [OF v1(3)] by simp
    with False nm1(1) nm2(1) have "trimstring (?y @ v) trim_dflt = ?y @ v"
      by (intro trimstring_ends) simp
    with False show ?thesis by simp
  qed
  define r where "r = (if v = [] then [] else blank # v)"
  have "trimstring r trim_dflt = v"
  proof (cases "v = []")
    case True
    then show ?thesis by (simp add: trimstring_ends r_def)
  next
    case False
    then have "rtrimstring (blank # v) trim_dflt = blank # v"
      using trimstring_endsD(2) [OF v1(3)] by (subst rtrimstring_dropWhile, intro rtrim_id) simp
    moreover have "ltrimstring (blank # v) trim_dflt = v"
      using trimstring_endsD(1) [OF v1(3)] False
      by (simp add: ltrimstring_dropWhile trim_dflt_def ltrim_id [of v "[blank, tab]", simplified])
    ultimately show ?thesis
      using False by (simp add: trimstring_def r_def)
  qed
  moreover have "find_char (nm @ '' ='' @ r) (CHR ''='') 0 = Some (length (nm @ '' ''))"
    using find_char_first [of "CHR ''=''" "nm @ '' ''" r] nm1(3) by simp
  moreover have "trimstring (nm @ '' '') trim_dflt = nm"
  proof -
    have "rtrimstring (nm @ '' '') trim_dflt = rtrimstring nm trim_dflt"
      by (simp add: rtrimstring_dropWhile trim_dflt_def)
    then show ?thesis
      using nm by (simp add: trimstring_def name_ok_def)
  qed
  ultimately have "assignment p (nm @ '' ='' @ r) = Some (nm, v)"
    using assms(3) nm1(1) by (simp add: assignment_def Let_def)
  then have a: "assignment p (trimstring (?y @ v) trim_dflt) = Some (nm, v)"
    by (simp only: tl r_def)
  have lastl: "last ?l \<noteq> backslash"
    using v1(4) by auto
  have lastt: "last (trimstring (?y @ v) trim_dflt) \<noteq> backslash"
    unfolding tl by (rule lastl)
  have hd: "hd ?y \<notin> {blank, tab, CHR ''#'', CHR ''[''}"
    using nm1 nm2(1) by (auto simp: trim_dflt_def)
  have last: "last (?y @ v) \<notin> {cret, backslash}"
    using v1 by (cases "v = []") (auto dest: last_in_set)
  have broken: "parse_loop tilde (?y @ t @ newline # rest) psk [] False p = set_line tilde rest psk nm v p"
    if "t = v \<or> t = break_value 0 v" for t
  proof (rule parse_broken_value [where v = v and ll = 0 and a = "[]" and y = ?y])
    show "newline \<notin> set (?y @ v)"
      using nm1(2) v1(1) by simp
    show "hd ([] @ ?y) \<notin> {blank, tab, CHR ''#'', CHR ''[''}" "last ([] @ ?y @ v) \<notin> {cret, backslash}"
      "assignment p (trimstring ([] @ ?y @ v) trim_dflt) = Some (nm, v)"
      "last (trimstring ([] @ ?y @ v) trim_dflt) \<noteq> backslash"
      using hd last a lastt by (simp_all only: append_Nil not_False_eq_True)
  qed (simp_all add: that v1(2) assms(3))
  define t where "t = (if length nm + length v < 75 then v else break_value 0 v)"
  have "varprinter nm v @ rest = ?y @ t @ newline # rest"
    using nm1(1) by (simp add: varprinter_def t_def)
  moreover have "t = v \<or> t = break_value 0 v"
    by (simp add: t_def)
  ultimately show ?thesis
    using broken [of t] parse_loop_line_irrelevant [of tilde "?y @ t @ newline # rest" psk line p "[]"] by metis
qed

section \<open>The whole text\<close>

definition conf_static :: "ConfSimple \<Rightarrow> 32 word \<times> bool \<times> bool \<times> StatusCode \<times> string" where
  "conf_static c = (m_flags c, dotildexpand c, trimvalues c, status c, m_filename c)"

lemma conf_static_eq:
  "conf_static p = conf_static c \<longleftrightarrow> m_flags p = m_flags c \<and> dotildexpand p = dotildexpand c \<and>
    trimvalues p = trimvalues c \<and> status p = status c \<and> m_filename p = m_filename c"
  by (simp add: conf_static_def)

lemma conf_static_update [simp]:
  "conf_static (put_var nm v sk c) = conf_static c" "conf_static (c\<lparr>m_order := ls\<rparr>) = conf_static c"
  "conf_static (push_order l c) = conf_static c" "conf_static (c\<lparr>m_subkeys_unsorted := x\<rparr>) = conf_static c"
  "conf_static (c\<lparr>m_submaps := m\<rparr>) = conf_static c" "conf_static (c\<lparr>m_holdWrites := h\<rparr>) = conf_static c"
  by (simp_all add: conf_static_def push_order_def)

lemma conf_raw_same: "same_var c nm sk nm' sk' \<Longrightarrow> conf_raw c nm' sk' = conf_raw c nm sk"
  unfolding conf_raw_def by (metis cmap.find_cong ext)

lemma conf_raw_push [simp]:
  "conf_raw (push_order l c) = conf_raw c" "conf_raw (c\<lparr>m_subkeys_unsorted := x\<rparr>) = conf_raw c"
  by (intro ext, simp add: conf_raw_def push_order_def)+

definition merged :: "ConfSimple \<Rightarrow> (string \<times> string) list \<Rightarrow> ConfSimple \<Rightarrow> string \<Rightarrow> string \<Rightarrow> string option" where
  "merged c vars p nm sk =
     (if conf_raw c nm sk \<noteq> None \<and> (\<exists>(sk', nm') \<in> set vars. same_var c nm' sk' nm sk)
      then conf_raw c nm sk else conf_raw p nm sk)"

lemma merged_push [simp]:
  "merged c vars (push_order l p) = merged c vars p" "merged c vars (p\<lparr>m_subkeys_unsorted := x\<rparr>) = merged c vars p"
  by (simp_all add: merged_def [abs_def] cong: if_cong)

lemma parse_written:
  assumes "conf_inv p" and "conf_static p = conf_static c" and "cur_after [] (m_order p) = psk"
    and "psk = wsk \<or> \<not> conf_hasSubKey c wsk" and "order_writable tilde c wsk ls" and "conf_ok c" and "trimvalues c"
  shows "\<exists>p1. parse_loop tilde (write_order c wsk ls) psk line False p = Inr p1 \<and> conf_inv p1 \<and>
    conf_static p1 = conf_static c \<and> conf_raw p1 = merged c (order_vars wsk ls) p"
  using assms
proof (induction ls arbitrary: wsk psk line p)
  case Nil
  have "parse_loop tilde [] psk line False p = Inr p"
    by (subst parse_loop.simps) (simp add: clean_line_def trimstring_ends ltrimstring_dropWhile)
  then show ?case
    using Nil by (intro exI [of _ p]) (auto simp: merged_def)
next
  case (Cons l ls)
  note pr = Cons.prems
  have st: "m_flags p = m_flags c" "dotildexpand p = dotildexpand c" "trimvalues p = trimvalues c"
    using pr(2) by (simp_all add: conf_static_eq)
  have trim: "trimvalues p" using st(3) pr(7) by simp
  show ?case
  proof (cases "m_kind l = CFL_COMMENT \<or> m_kind l = CFL_VARCOMMENT")
    case True
    then have w: "write_order c wsk (l # ls) = m_data l @ newline # write_order c wsk ls"
      and ow: "comment_ok c (m_data l)" "order_writable tilde c wsk ls"
      and ov: "order_vars wsk (l # ls) = order_vars wsk ls"
      using pr(5) by (elim disjE; simp)+
    have ok: "comment_ok p (m_data l)"
      using ow(1) by (simp only: comment_ok_static [OF st(3)])
    obtain l' ln where e: "parse_loop tilde (m_data l @ newline # write_order c wsk ls) psk line False p =
        parse_loop tilde (write_order c wsk ls) psk ln False (push_order l' p)"
      and k: "m_kind l' \<noteq> CFL_VAR" "m_kind l' \<noteq> CFL_SK"
      using parse_comment [OF ok] by blast
    have "\<exists>p1. parse_loop tilde (write_order c wsk ls) psk ln False (push_order l' p) = Inr p1 \<and> conf_inv p1 \<and>
        conf_static p1 = conf_static c \<and> conf_raw p1 = merged c (order_vars wsk ls) (push_order l' p)"
      using pr k ow by (intro Cons.IH conf_inv_push) (simp_all add: push_order_def)
    then show ?thesis
      unfolding w e ov by simp
  next
    case nocomment: False
    show ?thesis
    proof (cases "m_kind l = CFL_SK")
      case True
      let ?sk = "m_data l"
      have ow: "order_writable tilde c ?sk ls" and ov: "order_vars wsk (l # ls) = order_vars ?sk ls"
        using pr(5) True by auto
      show ?thesis
      proof (cases "conf_hasSubKey c ?sk")
        case sub: True
        then have "omap_find (sub_lt c) ?sk (m_submaps c) \<noteq> None"
          by (simp add: conf_hasSubKey_def)
        then have w: "write_order c wsk (l # ls) = CHR ''['' # ?sk @ CHR '']'' # newline # write_order c ?sk ls"
          using True by simp
        have "section_ok tilde p ?sk"
          using pr(5) True sub st(2) by (simp add: section_ok_def)
        then obtain ln where e: "parse_loop tilde (CHR ''['' # ?sk @ CHR '']'' # newline # write_order c ?sk ls) psk line False p =
            parse_loop tilde (write_order c ?sk ls) ?sk ln False
              (push_order (conf_line CFL_SK ?sk) (p\<lparr>m_subkeys_unsorted := m_subkeys_unsorted p @ [?sk]\<rparr>))"
          using parse_section [OF _ trim] by blast
        let ?p = "push_order (conf_line CFL_SK ?sk) (p\<lparr>m_subkeys_unsorted := m_subkeys_unsorted p @ [?sk]\<rparr>)"
        have "\<exists>p1. parse_loop tilde (write_order c ?sk ls) ?sk ln False ?p = Inr p1 \<and> conf_inv p1 \<and>
            conf_static p1 = conf_static c \<and> conf_raw p1 = merged c (order_vars ?sk ls) ?p"
          using pr ow by (intro Cons.IH conf_inv_push) (simp_all add: push_order_def conf_line_def conf_inv_more)
        then show ?thesis
          unfolding w e ov by simp
      next
        case nosub: False
        then have "write_order c wsk (l # ls) = write_order c ?sk ls"
          using True by (simp add: conf_hasSubKey_def)
        with Cons.IH [OF pr(1-3) _ ow pr(6,7)] nosub ov show ?thesis
          by simp
      qed
    next
      case False
      then have var: "m_kind l = CFL_VAR"
        using nocomment by (cases "m_kind l") auto
      let ?nm = "m_data l"
      have ow: "order_writable tilde c wsk ls" and ov: "order_vars wsk (l # ls) = (wsk, ?nm) # order_vars wsk ls"
        using pr(5) var by auto
      show ?thesis
      proof (cases "conf_raw c ?nm wsk")
        case None
        then have "write_order c wsk (l # ls) = write_order c wsk ls"
          using var pr(6) by (simp add: conf_get_raw)
        moreover have "merged c (order_vars wsk (l # ls)) p = merged c (order_vars wsk ls) p"
        proof (intro ext)
          fix nm sk
          have "conf_raw c nm sk = None" if "same_var c ?nm wsk nm sk"
            using conf_raw_same [OF that] None by simp
          then show "merged c (order_vars wsk (l # ls)) p nm sk = merged c (order_vars wsk ls) p nm sk"
            unfolding merged_def ov by auto
        qed
        ultimately show ?thesis
          using Cons.IH [OF pr(1-4) ow pr(6,7)] by simp
      next
        case (Some v)
        then have w: "write_order c wsk (l # ls) = varprinter ?nm v @ write_order c wsk ls"
          using var pr(6) by (simp add: conf_get_raw)
        have ok: "name_ok ?nm" "value_ok v"
          using pr(5) var Some by auto
        have "conf_hasSubKey c wsk"
          using Some by (auto simp: conf_raw_def conf_hasSubKey_def split: Option.bind_splits)
        with pr(4) have psk: "psk = wsk" by simp
        have "find_first_of v [newline, cret] 0 = None"
          using ok(2) by (simp add: find_breaks value_ok_def)
        from i_set_inv [OF pr(1) this, of True psk ?nm] pr(3)
        obtain os where i: "i_set ?nm v psk True p = Inr (True, (put_var ?nm v psk p)\<lparr>m_order := os\<rparr>)"
          "conf_inv ((put_var ?nm v psk p)\<lparr>m_order := os\<rparr>)" "cur_after [] os = psk"
          by auto
        let ?p = "(put_var ?nm v psk p)\<lparr>m_order := os\<rparr>"
        have e: "parse_loop tilde (varprinter ?nm v @ write_order c wsk ls) psk line False p =
            parse_loop tilde (write_order c wsk ls) psk [] False ?p"
          using parse_var [OF ok trim] by (simp add: set_line_def i(1))
        have maps: "maps_ok p" using pr(1) by (simp add: conf_inv_def)
        have "merged c (order_vars wsk ls) ?p = merged c (order_vars wsk (l # ls)) p"
        proof (intro ext)
          fix nm sk
          have raw: "conf_raw ?p nm sk = (if same_var c ?nm wsk nm sk then Some v else conf_raw p nm sk)"
            using psk st(1) by (simp add: put_var_raw [OF maps])
          show "merged c (order_vars wsk ls) ?p nm sk = merged c (order_vars wsk (l # ls)) p nm sk"
          proof (cases "same_var c ?nm wsk nm sk")
            case True
            then have "conf_raw c nm sk = Some v"
              using conf_raw_same [OF True] Some by simp
            with True raw show ?thesis
              unfolding merged_def ov by auto
          next
            case False
            with raw show ?thesis
              unfolding merged_def ov by auto
          qed
        qed
        moreover have "\<exists>p1. parse_loop tilde (write_order c wsk ls) psk [] False ?p = Inr p1 \<and> conf_inv p1 \<and>
            conf_static p1 = conf_static c \<and> conf_raw p1 = merged c (order_vars wsk ls) ?p"
          using pr i ow psk by (intro Cons.IH) simp_all
        ultimately show ?thesis
          unfolding w e by simp
      qed
    qed
  qed
qed

section \<open>The object and its flags\<close>

lemma i_set_static: "i_set nm v sk init c = Inr (b, c1) \<Longrightarrow> conf_static c1 = conf_static c"
  by (auto simp: i_set_def i_set_order_def Let_def split: if_splits option.splits)

lemma parse_loop_static:
  "parse_loop tilde rest submapkey line appending c = Inr c1 \<Longrightarrow> conf_static c1 = conf_static c"
proof (induction tilde rest submapkey line appending c arbitrary: c1 rule: parse_loop.induct)
  case (1 tilde rest submapkey line appending c)
  obtain cline rest' good where g: "get_line rest = (cline, rest', good)"
    by (cases "get_line rest")
  define l where "l = clean_line c (if appending then line @ chomp cline else chomp cline)"
  note IH = 1(1-5) [OF g [symmetric] refl l_def]
  have e: "(if l = [] \<or> hd l = CHR ''#'' then
          if \<not> good then Inr c
          else parse_loop tilde rest' submapkey l appending (push_order (comment_line l) c)
        else if last l = backslash then parse_loop tilde rest' submapkey (butlast l) True c
        else if hd l = CHR ''['' then
          parse_loop tilde rest' (section_name tilde c l) l False
            (push_order (conf_line CFL_SK (section_name tilde c l))
              (c\<lparr>m_subkeys_unsorted := m_subkeys_unsorted c @ [section_name tilde c l]\<rparr>))
        else
          case assignment c l of
            None \<Rightarrow> parse_loop tilde rest' submapkey l False (push_order (conf_line CFL_COMMENT l) c)
          | Some (nm, v) \<Rightarrow>
              (case i_set nm v submapkey True c of
                 Inl e \<Rightarrow> Inl e
               | Inr (b, c1) \<Rightarrow>
                   if \<not> good then Inr c1 else parse_loop tilde rest' submapkey l False c1)) = Inr c1"
    using 1(6) by (subst (asm) parse_loop.simps) (simp only: g prod.case l_def [symmetric] Let_def)
  show ?case
  proof (cases "l = [] \<or> hd l = CHR ''#''")
    case True
    then show ?thesis
      using e IH(1) by (auto split: if_splits)
  next
    case c1: False
    show ?thesis
    proof (cases "last l = backslash")
      case True
      then show ?thesis
        using e c1 IH(2) by simp
    next
      case c2: False
      show ?thesis
      proof (cases "hd l = CHR ''[''")
        case True
        then show ?thesis
          using e c1 c2 IH(3) [OF c1 c2 True refl] by simp
      next
        case c3: False
        show ?thesis
        proof (cases "assignment c l")
          case None
          then show ?thesis
            using e c1 c2 c3 IH(4) [OF c1 c2 c3 None] by simp
        next
          case (Some a)
          obtain nm v where a: "a = (nm, v)" by force
          obtain b c2' where i: "i_set nm v submapkey True c = Inr (b, c2')"
            using e c1 c2 c3 Some a by (auto split: sum.splits)
          show ?thesis
            using e c1 c2 c3 Some a i IH(5) [OF c1 c2 c3 Some a [symmetric] i refl] i_set_static [OF i]
            by (cases good) simp_all
        qed
      qed
    qed
  qed
qed

definition flags_ok :: "ConfSimple \<Rightarrow> bool" where
  "flags_ok c \<longleftrightarrow> dotildexpand c = (m_flags c AND CFSF_TILDEXP \<noteq> 0) \<and> trimvalues c = (m_flags c AND CFSF_NOTRIMVALUES = 0) \<and>
     (status c = STATUS_RW \<longrightarrow> m_flags c AND CFSF_RO = 0) \<and>
     (m_filename c \<noteq> [] \<longrightarrow> m_flags c AND CFSF_FROMSTRING = 0)"

lemma flags_ok_static: "conf_static c1 = conf_static c \<Longrightarrow> flags_ok c1 = flags_ok c"
  by (simp add: conf_static_eq flags_ok_def)

lemma conf_erase_static: "conf_erase nm sk c d = (b, c1, d1) \<Longrightarrow> conf_static c1 = conf_static c"
  by (auto simp: conf_erase_def erase_mem_def Let_def split: if_splits option.splits prod.splits)

lemma erase_all_static: "erase_all sk nms c d = (c1, d1) \<Longrightarrow> conf_static c1 = conf_static c"
  by (induction nms arbitrary: c d) (auto split: prod.splits dest: conf_erase_static)

lemma conf_set_static: "conf_set nm v sk c d = Inr (b, c1, d1) \<Longrightarrow> conf_static c1 = conf_static c"
  by (auto simp: conf_set_def split: if_splits sum.splits prod.splits dest: i_set_static)

lemma conf_new_flags: "conf_new tilde flags s d = Inr (c, d1) \<Longrightarrow> flags_ok c"
proof -
  assume n: "conf_new tilde flags s d = Inr (c, d1)"
  have i: "flags_ok (conf_init flags)"
    by (simp add: flags_ok_def conf_init_def)
  have f: "flags_ok c2" if "parseinput tilde t c0 = Inr c2" "flags_ok c0" for t c0 c2
    using that parse_loop_static flags_ok_static unfolding parseinput_def by blast
  show ?thesis
  proof (cases "flags AND CFSF_FROMSTRING = 0")
    case False
    with n i f show ?thesis
      by (cases "parseinput tilde s (conf_init flags)") (auto simp: conf_new_def Let_def split: if_splits)
  next
    case True
    let ?c = "(conf_init flags)\<lparr>m_filename := s\<rparr>"
    obtain st t d2 where o': "conf_openfile (flags AND CFSF_RO \<noteq> 0) ?c d = (st, t, d2)"
      by (cases "conf_openfile (flags AND CFSF_RO \<noteq> 0) ?c d") auto
    then have "flags_ok (?c\<lparr>status := st\<rparr>)"
      using True by (auto simp: flags_ok_def conf_init_def conf_openfile_def Let_def split: if_splits)
    with n o' f show ?thesis
      by (cases "parseinput tilde t (?c\<lparr>status := st\<rparr>)") (auto simp: conf_new_def True Let_def split: if_splits)
  qed
qed

lemma conf_made_flags: "conf_made tilde c \<Longrightarrow> flags_ok c"
proof (induction rule: conf_made.induct)
  case (made_new flags s d c d1)
  then show ?case by (rule conf_new_flags)
next
  case (made_set c nm v sk d b c1 d1)
  then show ?case using conf_set_static flags_ok_static by blast
next
  case (made_erase c nm sk d b c1 d1)
  then show ?case using conf_erase_static flags_ok_static by blast
next
  case (made_eraseKey c sk d b c1 d1)
  then have "conf_static c1 = conf_static c"
    by (auto simp: conf_eraseKey_def split: prod.splits dest: erase_all_static)
  with made_eraseKey show ?case using flags_ok_static by blast
next
  case (made_clear c d b c1 d1)
  then have "conf_static c1 = conf_static c"
    by (auto simp: conf_clear_def Let_def split: prod.splits)
  with made_clear show ?case using flags_ok_static by blast
next
  case (made_hold c h d b c1 d1)
  then have "conf_static c1 = conf_static c"
    by (auto simp: conf_holdWrites_def Let_def split: prod.splits if_splits)
  with made_hold show ?case using flags_ok_static by blast
next
  case (made_reparse c t d c1 d1)
  then have "parseinput tilde t (c\<lparr>m_submaps := [], m_order := []\<rparr>) = Inr c1"
    by (cases "parseinput tilde t (c\<lparr>m_submaps := [], m_order := []\<rparr>)")
      (auto simp: conf_reparse_def conf_clear_def Let_def split: prod.splits)
  then have "conf_static c1 = conf_static c"
    using parse_loop_static by (fastforce simp: parseinput_def)
  with made_reparse show ?case using flags_ok_static by blast
qed

section \<open>The file is read back\<close>

lemma conf_inv_no_order: "conf_inv c \<Longrightarrow> m_order c = [] \<Longrightarrow> m_submaps c = []"
proof (rule ccontr)
  assume inv: "conf_inv c" and no: "m_order c = []" and "m_submaps c \<noteq> []"
  then obtain sk sub m where m: "m_submaps c = (sk, sub) # m"
    by (cases "m_submaps c") auto
  have "maps_ok c"
    using inv by (simp add: conf_inv_def)
  moreover from this have "omap_find (sub_lt c) sk (m_submaps c) = Some sub"
    by (intro cmap.find_mem) (simp_all add: m maps_ok_def)
  ultimately obtain nm where "conf_raw c nm sk \<noteq> None"
    using conf_raw_None_find by blast
  then show False
    using inv no by (auto simp: conf_inv_def order_has_def)
qed

lemma conf_write_read:
  assumes inv: "conf_inv c" and ok: "conf_ok c" and writable: "conf_writable tilde c"
    and p: "conf_static p = conf_static c" "m_submaps p = []" "m_order p = []"
  shows "\<exists>p1. parseinput tilde (snd (conf_write c)) p = Inr p1 \<and> conf_static p1 = conf_static c \<and> conf_raw p1 = conf_raw c"
proof -
  have wr: "snd (conf_write c) = write_order c [] (m_order c)"
    using ok conf_inv_no_order [OF inv] by (simp add: conf_write_def content_write_def)
  have raw: "conf_raw p nm sk = None" for nm sk
    by (simp add: conf_raw_def p(2))
  have "conf_inv p"
    using raw p(2) by (simp add: conf_inv_def maps_ok_def)
  then obtain p1 where r: "parse_loop tilde (write_order c [] (m_order c)) [] [] False p = Inr p1"
    "conf_static p1 = conf_static c" "conf_raw p1 = merged c (order_vars [] (m_order c)) p"
    using parse_written [of p c "[]" "[]" tilde "m_order c" "[]"] p(1,3) ok writable
    by (auto simp: conf_writable_def)
  have "merged c (order_vars [] (m_order c)) p nm sk = conf_raw c nm sk" for nm sk
  proof (cases "conf_raw c nm sk")
    case (Some v)
    then have "order_has c nm sk"
      using inv by (simp add: conf_inv_def)
    then have "\<exists>(sk', nm') \<in> set (order_vars [] (m_order c)). same_var c nm' sk' nm sk"
      unfolding order_has_def by (metis (mono_tags, lifting) case_prod_unfold)
    with Some show ?thesis
      by (simp add: merged_def)
  qed (simp add: merged_def raw)
  then have "conf_raw p1 = conf_raw c"
    unfolding r(3) by blast
  with r wr show ?thesis
    by (auto simp: parseinput_def)
qed

text \<open>
  C27. When a writable object with a backing file rewrites it, and its names, values, subsections and comments are of the kind the format
  can hold, a new object that is made from the file with the same flags finds the same values for all names in all sections.
\<close>

theorem conf_file_roundtrip:
  assumes "conf_made tilde c" and "status c = STATUS_RW" and "conf_writable tilde c" and "m_filename c \<noteq> []"
    and "conf_flush c d = (True, d1)" and "\<not> m_holdWrites c" and "d_readable d (m_filename c)"
  shows "\<exists>p d2. conf_new tilde (m_flags c) (m_filename c) d1 = Inr (p, d2) \<and> conf_get p = conf_get c"
proof -
  let ?fn = "m_filename c" and ?text = "snd (conf_write c)"
  have ok: "conf_ok c" using assms(2) by (simp add: conf_ok_def)
  have flags: "m_flags c AND CFSF_RO = 0" "m_flags c AND CFSF_FROMSTRING = 0"
    "dotildexpand c = (m_flags c AND CFSF_TILDEXP \<noteq> 0)" "trimvalues c = (m_flags c AND CFSF_NOTRIMVALUES = 0)"
    using conf_made_flags [OF assms(1)] assms(2,4) by (auto simp: flags_ok_def)
  have w: "d_writable d ?fn" and d1: "d1 = d\<lparr>d_files := (d_files d)(?fn \<mapsto> ?text)\<rparr>"
    using assms(4-6) ok by (auto simp: conf_flush_def split: if_splits)
  let ?p = "(conf_init (m_flags c))\<lparr>m_filename := ?fn, status := STATUS_RW\<rparr>"
  have op: "conf_openfile False ((conf_init (m_flags c))\<lparr>m_filename := ?fn\<rparr>) d1 = (STATUS_RW, ?text, d1)"
    using w assms(7) flags(1) by (simp add: conf_openfile_def d1 conf_init_def)
  have "conf_static ?p = conf_static c"
    using assms(2) flags by (simp add: conf_static_def conf_init_def)
  then obtain p1 where p1: "parseinput tilde ?text ?p = Inr p1" "conf_static p1 = conf_static c" "conf_raw p1 = conf_raw c"
    using conf_write_read [OF conf_made_inv [OF assms(1)] ok assms(3), of ?p] by (auto simp: conf_init_def)
  have "conf_new tilde (m_flags c) ?fn d1 = Inr (p1, d1)"
    using op p1(1) flags by (simp add: conf_new_def)
  moreover have "conf_get p1 = conf_get c"
    using p1(2,3) by (intro ext) (simp add: conf_get_raw conf_ok_def conf_static_eq)
  ultimately show ?thesis by blast
qed

definition one_file :: "string \<Rightarrow> string \<Rightarrow> Disk" where
  "one_file fn text = \<lparr>d_files = [fn \<mapsto> text], d_readable = (\<lambda>_. True), d_writable = (\<lambda>_. True)\<rparr>"

lemma conf_new_empty_file:
  "flags AND CFSF_FROMSTRING = 0 \<Longrightarrow> flags AND CFSF_RO = 0 \<Longrightarrow>
    conf_new tilde flags fn (one_file fn []) = Inr ((conf_init flags)\<lparr>m_filename := fn\<rparr>, one_file fn [])"
  by (simp add: conf_new_def conf_openfile_def one_file_def parseinput_def parse_loop.simps [of _ "[]"] conf_init_def
      clean_line_def trimstring_ends ltrimstring_dropWhile)

theorem conf_file_roundtrip_witness:
  "\<exists>c d1 p d2. conf_set ''a'' ''1'' [] ((conf_init 0)\<lparr>m_filename := ''f''\<rparr>) (one_file ''f'' []) = Inr (True, c, d1) \<and>
    conf_new id 0 ''f'' d1 = Inr (p, d2) \<and> conf_get p = conf_get c"
proof -
  let ?c0 = "(conf_init 0)\<lparr>m_filename := ''f''\<rparr>" and ?d = "one_file ''f'' []"
  define c where "c = ?c0\<lparr>m_submaps := [([], [(''a'', ''1'')])], m_order := [conf_line CFL_VAR ''a'']\<rparr>"
  have made0: "conf_made id ?c0"
    by (rule made_new [OF conf_new_empty_file]) simp_all
  have i: "i_set ''a'' ''1'' [] False ?c0 = Inr (True, c)"
    by (simp add: i_set_def i_set_order_def c_def conf_init_def find_first_of_def insert_at_def)
  have w: "conf_write c = (True, varprinter ''a'' ''1'')"
    by (simp add: conf_write_def conf_ok_def c_def conf_init_def conf_line_def conf_get_def CaseComparator_def)
  define d1 where "d1 = snd (conf_flush c ?d)"
  have fl: "conf_flush c ?d = (True, d1)"
    unfolding conf_flush_def w d1_def by (simp add: c_def conf_init_def conf_ok_def one_file_def)
  have s: "conf_set ''a'' ''1'' [] ?c0 ?d = Inr (True, c, d1)"
    by (simp add: conf_set_def i fl) (simp add: conf_init_def)
  have "conf_writable id c"
    by (simp add: conf_writable_def c_def conf_init_def conf_line_def conf_raw_def CaseComparator_def name_ok_def
        value_ok_def line_breaks_def trimstring_ends trim_dflt_def)
  then have "\<exists>p d2. conf_new id (m_flags c) (m_filename c) d1 = Inr (p, d2) \<and> conf_get p = conf_get c"
    by (intro conf_file_roundtrip [OF made_set [OF made0 s] _ _ _ fl])
      (simp_all add: c_def conf_init_def one_file_def)
  then show ?thesis
    using s by (auto simp: c_def conf_init_def)
qed

section \<open>What the writer does not protect\<close>

text \<open>
  A value that ends with a backslash is accepted and written as it is, and joins the next line when the file is read: the next
  variable is lost and its text is part of the value.
\<close>

theorem conf_backslash_joins:
  "(case conf_set ''a'' (''x'' @ [backslash]) [] ((conf_init 0)\<lparr>m_filename := ''f''\<rparr>) (one_file ''f'' []) of
      Inl e \<Rightarrow> False
    | Inr (b1, c1, d1) \<Rightarrow>
        (case conf_set ''b'' ''1'' [] c1 d1 of
           Inl e \<Rightarrow> False
         | Inr (b2, c2, d2) \<Rightarrow> b1 \<and> b2 \<and> conf_get c2 ''b'' [] = Some ''1'' \<and>
             (case conf_new id 0 ''f'' d2 of
                Inl e \<Rightarrow> False
              | Inr (p, d3) \<Rightarrow> conf_get p ''b'' [] = None \<and> conf_get p ''a'' [] = Some ''xb = 1'')))"
  by code_simp

text \<open>
  A line that holds a backslash alone, followed by a comment: the reader stays in the state that joins lines, so the rest of the text is
  part of the comment.
\<close>

lemma conf_comment_swallows:
  "(case parseinput id ([backslash, newline] @ ''# note'' @ [newline] @ ''a = 1'' @ [newline] @ ''b = 2'' @ [newline]) (conf_init 0) of
      Inl e \<Rightarrow> False
    | Inr p \<Rightarrow> conf_getNames p [] None = [])"
  by code_simp

text \<open>Without the trimming of values, the blank that the writer puts behind the equal sign becomes part of the value.\<close>

lemma conf_notrim_blank:
  "(case conf_set ''a'' ''x'' [] ((conf_init CFSF_NOTRIMVALUES)\<lparr>m_filename := ''f''\<rparr>) (one_file ''f'' []) of
      Inl e \<Rightarrow> False
    | Inr (b1, c1, d1) \<Rightarrow>
        (case conf_new id CFSF_NOTRIMVALUES ''f'' d1 of
           Inl e \<Rightarrow> False
         | Inr (p, d2) \<Rightarrow> conf_get c1 ''a'' [] = Some ''x'' \<and> conf_get p ''a'' [] = Some '' x''))"
  by code_simp

end
