(* ===== verification/Path_Util.thy ===== *)
theory Path_Util
  imports Str_Basic Str_Tokens
begin

text \<open>
  Paths (\<open>utils/pathut.cpp\<close>, the branches that are not for Windows): joining and splitting, canonical paths, descendants, home
  directories and the creation of directories. The environment is an argument: the current directory, the variables and user records of
  \<open>Env\<close>, and the directories of the disk.
\<close>

section \<open>Joining and splitting\<close>

abbreviation slash :: char where
  "slash \<equiv> CHR ''/''"

definition path_isabsolute :: "string \<Rightarrow> bool" where
  "path_isabsolute path \<longleftrightarrow> path \<noteq> [] \<and> hd path = slash"

definition path_catslash :: "string \<Rightarrow> string" where
  "path_catslash s = (if s = [] \<or> last s \<noteq> slash then s @ ''/'' else s)"

definition path_cat :: "string \<Rightarrow> string \<Rightarrow> string" where
  "path_cat s1 s2 =
     (let res = (if s1 = [] then ''./'' else s1) in if s2 \<noteq> [] then path_catslash res @ s2 else res)"

fun path_cat_elts :: "string \<Rightarrow> string list \<Rightarrow> string" where
  "path_cat_elts res [] = res"
| "path_cat_elts res (p # ps) = path_cat_elts (if p \<noteq> [] then path_cat res p else res) ps"

definition path_cat_all :: "string \<Rightarrow> string list \<Rightarrow> string" where
  "path_cat_all s1 pathelts = path_cat_elts (if s1 = [] then ''./'' else s1) pathelts"

definition path_isroot :: "string \<Rightarrow> bool" where
  "path_isroot path \<longleftrightarrow> length path = 1 \<and> path ! 0 = slash"

definition path_getfather :: "string \<Rightarrow> string" where
  "path_getfather s =
     (if s = [] then ''./''
      else if path_isroot s then s
      else
        let father = (if last s = slash then butlast s else s) in
        case rfind_char father slash of
          None \<Rightarrow> ''./''
        | Some slp \<Rightarrow> path_catslash (take slp father))"

definition path_getsimple :: "string \<Rightarrow> string" where
  "path_getsimple s =
     (case rfind_char s slash of None \<Rightarrow> s | Some slp \<Rightarrow> drop (slp + 1) s)"

text \<open>The suffix is looked for with \<open>rfind\<close>, its last occurrence, and removed when it ends the name and is not the whole name.\<close>

fun rfind_str :: "string \<Rightarrow> string \<Rightarrow> nat option" where
  "rfind_str [] sub = (if sub = [] then Some 0 else None)"
| "rfind_str (c # s) sub =
     (case rfind_str s sub of Some i \<Rightarrow> Some (Suc i) | None \<Rightarrow> if prefix sub (c # s) then Some 0 else None)"

definition path_basename :: "string \<Rightarrow> string \<Rightarrow> string" where
  "path_basename s suff =
     (if path_isroot s then s
      else
        let simple = path_getsimple (rtrimstring s ''/'') in
        if suff \<noteq> [] \<and> length suff < length simple then
          (case rfind_str simple suff of
             None \<Rightarrow> simple
           | Some pos \<Rightarrow> if pos + length suff = length simple then take pos simple else simple)
        else simple)"

definition path_suffix :: "string \<Rightarrow> string" where
  "path_suffix s = (case rfind_char s CHR ''.'' of None \<Rightarrow> [] | Some dotp \<Rightarrow> drop (dotp + 1) s)"

text \<open>A slashized UNC path and its volume.\<close>

definition path_isunc :: "string \<Rightarrow> string option" where
  "path_isunc s =
     (if length s < 5 \<or> s ! 0 \<noteq> slash \<or> s ! 1 \<noteq> slash then None
      else case find_char s slash 2 of
          None \<Rightarrow> None
        | Some slash2 \<Rightarrow>
            if slash2 = length s - 1 \<or> slash2 = 2 then None
            else case find_char s slash (slash2 + 1) of
                None \<Rightarrow> Some s
              | Some slash3 \<Rightarrow> if slash3 = slash2 + 1 then None else Some (take slash3 s))"

section \<open>Canonical paths\<close>

fun clean_elems :: "string list \<Rightarrow> string list \<Rightarrow> string list" where
  "clean_elems cleaned [] = cleaned"
| "clean_elems cleaned (elem # elems) =
     (if elem = ''..'' then clean_elems (if cleaned \<noteq> [] then butlast cleaned else cleaned) elems
      else if elem = [] \<or> elem = ''.'' then clean_elems cleaned elems
      else clean_elems (cleaned @ [elem]) elems)"

definition path_of_elems :: "string list \<Rightarrow> string" where
  "path_of_elems cleaned = (if cleaned \<noteq> [] then concat (map (\<lambda>e. ''/'' @ e) cleaned) else ''/'')"

text \<open>\<open>cwd\<close> is the argument of the call when there is one and the current directory otherwise.\<close>

definition path_absolute :: "string \<Rightarrow> string \<Rightarrow> string" where
  "path_absolute cwd is =
     (if is = [] then is else if \<not> path_isabsolute is then path_cat cwd is else is)"

definition path_canon :: "string \<Rightarrow> string \<Rightarrow> string" where
  "path_canon cwd is =
     (let s = (if \<not> path_isabsolute is then path_cat cwd is else is) in
      path_of_elems (clean_elems [] (stringToTokens s [] ''/'' True False)))"

text \<open>The father is shorter, but for a root and for very short relative paths.\<close>

lemma path_getfather_cases:
  obtains (dot) "path_getfather s = ''./''"
  | (root) "path_isroot s" "path_getfather s = s"
  | (cut) t where "path_getfather s = t @ ''/''" "length t < length s"
proof (cases "s = [] \<or> path_isroot s")
  case True
  then show ?thesis
  proof
    assume "s = []"
    then show ?thesis by (intro dot) (simp add: path_getfather_def)
  next
    assume r: "path_isroot s"
    then have "s \<noteq> []" by (auto simp: path_isroot_def)
    then show ?thesis using r by (intro root) (simp_all add: path_getfather_def)
  qed
next
  case False
  let ?f = "if last s = slash then butlast s else s"
  show ?thesis
  proof (cases "rfind_char ?f slash")
    case None
    then show ?thesis using False dot by (simp add: path_getfather_def Let_def)
  next
    case (Some slp)
    then have slp: "slp < length ?f" by (auto simp: rfind_char_def find_last_idx_Some)
    have f: "path_getfather s = path_catslash (take slp ?f)" using Some False by (simp add: path_getfather_def Let_def)
    have "length ?f \<le> length s" by simp
    then have slp_s: "slp < length s" using slp by linarith
    show ?thesis
    proof (cases "take slp ?f = [] \<or> last (take slp ?f) \<noteq> slash")
      case True
      then have "path_getfather s = take slp ?f @ ''/''" using f by (simp add: path_catslash_def)
      moreover have "length (take slp ?f) < length s" using slp_s by simp
      ultimately show ?thesis by (rule cut)
    next
      case ends: False
      then have "path_getfather s = butlast (take slp ?f) @ ''/''"
        using f by (metis append_butlast_last_id path_catslash_def)
      moreover have "length (butlast (take slp ?f)) < length s" using slp_s by simp
      ultimately show ?thesis by (rule cut)
    qed
  qed
qed

definition isdesc_size :: "string \<Rightarrow> nat" where
  "isdesc_size s = (if length s < 2 \<and> \<not> path_isroot s then 3 else length s)"

lemma isdesc_size_father:
  assumes "length (path_getfather s) \<noteq> length s"
  shows "isdesc_size (path_getfather s) < isdesc_size s"
proof (cases s rule: path_getfather_cases)
  case dot
  have "\<not> path_isroot s"
  proof
    assume "path_isroot s"
    then have "path_getfather s = s" by (auto simp: path_getfather_def path_isroot_def)
    then show False using assms by simp
  qed
  then show ?thesis using dot assms by (auto simp: isdesc_size_def path_isroot_def)
next
  case root
  then show ?thesis using assms by simp
next
  case (cut t)
  then show ?thesis using assms by (cases t) (auto simp: isdesc_size_def path_isroot_def)
qed

function isdesc_loop :: "string \<Rightarrow> string \<Rightarrow> bool" where
  "isdesc_loop topd sub =
     (if sub = topd then True
      else
        let father = path_getfather sub in
        if length father = length sub \<or> length father < length topd then father = topd
        else isdesc_loop topd father)"
  by pat_completeness auto
termination
  by (relation "measure (\<lambda>(topd, sub). isdesc_size sub)") (auto intro: isdesc_size_father)

declare isdesc_loop.simps [simp del]

definition path_isdesc :: "string \<Rightarrow> string \<Rightarrow> string \<Rightarrow> bool" where
  "path_isdesc cwd topd sub =
     (if topd = [] \<or> sub = [] then False
      else isdesc_loop (path_catslash (path_canon cwd topd)) (path_catslash (path_canon cwd sub)))"

section \<open>The environment\<close>

text \<open>The variables, the home directory of the user's record when there is one, and that of other users.\<close>

record Env =
  env_var :: "string \<Rightarrow> string option"
  env_pw_dir :: "string option"
  env_pw_of :: "string \<Rightarrow> string option"

definition path_home :: "Env \<Rightarrow> string" where
  "path_home env =
     (case env_var env ''HOME'' of
        Some cp \<Rightarrow> path_catslash cp
      | None \<Rightarrow> (case env_pw_dir env of None \<Rightarrow> ''/'' | Some dir \<Rightarrow> path_catslash dir))"

text \<open>\<open>xdgcache\<close> is the static string, empty at first.\<close>

definition path_cachedir :: "Env \<Rightarrow> string \<Rightarrow> string" where
  "path_cachedir env xdgcache =
     (if xdgcache \<noteq> [] then xdgcache
      else path_catslash
        (case env_var env ''XDG_CACHE_HOME'' of None \<Rightarrow> path_cat (path_home env) ''.cache'' | Some cp \<Rightarrow> cp))"

text \<open>The data directory with its static string; \<open>isdir\<close> and \<open>exists_path\<close> are tests on the disk, \<open>execdir\<close> is the directory of the program.\<close>

definition path_pkgdatadir ::
  "Env \<Rightarrow> (string \<Rightarrow> bool) \<Rightarrow> (string \<Rightarrow> bool) \<Rightarrow> string \<Rightarrow> string \<Rightarrow> string \<Rightarrow> string \<Rightarrow> string \<Rightarrow> string" where
  "path_pkgdatadir env isdir exists_path execdir datadir progname envname compiled =
     (if datadir \<noteq> [] then datadir
      else case (if envname \<noteq> [] then env_var env envname else None) of
          Some cdatadir \<Rightarrow> cdatadir
        | None \<Rightarrow>
            if compiled = [] \<or> \<not> isdir compiled then
              (case filter exists_path
                  (map (\<lambda>p. path_cat_all (path_getfather execdir) [p, progname]) [''share'', ''usr/share'']) of
                 [] \<Rightarrow> compiled
               | d # _ \<Rightarrow> d)
            else compiled)"

definition path_tildexpand :: "Env \<Rightarrow> string \<Rightarrow> string" where
  "path_tildexpand env s =
     (if s = [] \<or> hd s \<noteq> CHR ''~'' then s
      else if length s = 1 then path_home env
      else if s ! 1 = slash then path_home env @ drop 2 s
      else
        let l = (case find_char s slash 0 of None \<Rightarrow> length s - 1 | Some pos \<Rightarrow> pos - 1) in
        case env_pw_of env (substr s 1 l) of
          None \<Rightarrow> s
        | Some dir \<Rightarrow> dir @ drop (l + 1) s)"

section \<open>Creating directories\<close>

text \<open>The loop of \<open>path_makepath\<close> over a set of existing paths; \<open>can\<close> tells where \<open>mkdir\<close> succeeds.\<close>

fun makepath_loop :: "(string set \<Rightarrow> string \<Rightarrow> bool) \<Rightarrow> string set \<Rightarrow> string \<Rightarrow> string list \<Rightarrow> bool \<times> string set" where
  "makepath_loop can fs path [] = (True, fs)"
| "makepath_loop can fs path (elem # elems) =
     (let p = path @ elem in
      if p \<in> fs then makepath_loop can fs (p @ ''/'') elems
      else if can fs p then makepath_loop can (insert p fs) (p @ ''/'') elems
      else (False, fs))"

definition path_makepath :: "(string set \<Rightarrow> string \<Rightarrow> bool) \<Rightarrow> string \<Rightarrow> string set \<Rightarrow> string \<Rightarrow> bool \<times> string set" where
  "path_makepath can cwd fs ipath =
     makepath_loop can fs ''/'' (stringToTokens (path_canon cwd ipath) [] ''/'' True False)"

section \<open>The canonical form\<close>

definition normal_elems :: "string list \<Rightarrow> bool" where
  "normal_elems es \<longleftrightarrow> (\<forall>e \<in> set es. e \<noteq> [] \<and> slash \<notin> set e \<and> e \<noteq> ''.'' \<and> e \<noteq> ''..'')"

definition path_elems :: "string \<Rightarrow> string list" where
  "path_elems s = words_by (\<lambda>c. c = slash) s"

text \<open>The components of the canonical path.\<close>

definition canon_elems :: "string \<Rightarrow> string \<Rightarrow> string list" where
  "canon_elems cwd s = clean_elems [] (path_elems (path_absolute cwd s))"

lemma append_single [simp]: "(@) [c] = (#) c"
  by (rule ext) simp

lemma tokens_elems: "stringToTokens s [] ''/'' True False = path_elems s"
  by (simp add: stringToTokens_words_by path_elems_def)

lemma path_canon_elems: "s \<noteq> [] \<Longrightarrow> path_canon cwd s = path_of_elems (canon_elems cwd s)"
  by (simp add: path_canon_def tokens_elems canon_elems_def path_absolute_def)

lemma normal_elems_simps [simp]:
  "normal_elems []" "normal_elems (es @ [e]) \<longleftrightarrow> normal_elems es \<and> e \<noteq> [] \<and> slash \<notin> set e \<and> e \<noteq> ''.'' \<and> e \<noteq> ''..''"
  by (auto simp: normal_elems_def)

lemma normal_elems_butlast: "normal_elems es \<Longrightarrow> normal_elems (butlast es)"
  unfolding normal_elems_def by (blast dest: in_set_butlastD)

lemma clean_elems_normal:
  "normal_elems cleaned \<Longrightarrow> \<forall>e \<in> set es. slash \<notin> set e \<Longrightarrow> normal_elems (clean_elems cleaned es)"
  by (induction cleaned es rule: clean_elems.induct) (simp_all add: normal_elems_butlast)

lemma canon_elems_normal: "normal_elems (canon_elems cwd s)"
  unfolding canon_elems_def path_elems_def
  by (rule clean_elems_normal) (auto dest: words_no_delim)

lemma clean_elems_id: "normal_elems es \<Longrightarrow> clean_elems cleaned es = cleaned @ es"
  by (induction es arbitrary: cleaned) (auto simp: normal_elems_def)

lemma path_elems_slashed:
  "normal_elems es \<Longrightarrow> path_elems (concat (map (\<lambda>e. ''/'' @ e) es) @ ''/'') = es"
proof (induction es)
  case Nil
  then show ?case by (simp add: path_elems_def words_by_delim)
next
  case (Cons e es)
  then have e: "e \<noteq> []" "\<forall>c \<in> set e. c \<noteq> slash" by (auto simp: normal_elems_def)
  let ?rest = "concat (map (\<lambda>e. ''/'' @ e) es) @ ''/''"
  have ih: "words_by (\<lambda>c. c = slash) ?rest = es" using Cons by (simp add: normal_elems_def path_elems_def)
  obtain r where r: "?rest = slash # r" by (cases es) auto
  have shape: "concat (map (\<lambda>e. ''/'' @ e) (e # es)) @ ''/'' = slash # e @ slash # r" using r by simp
  have "words_by (\<lambda>c. c = slash) (slash # e @ slash # r) = e # words_by (\<lambda>c. c = slash) r"
    using words_by_cons[of e "\<lambda>c. c = slash" slash r] e by (simp add: words_by_delim)
  moreover have "words_by (\<lambda>c. c = slash) r = es" using ih unfolding r by (simp add: words_by_delim)
  ultimately show ?case unfolding path_elems_def shape by simp
qed

lemma words_by_split: "d c \<Longrightarrow> words_by d (s @ c # t) = words_by d s @ words_by d t"
proof (induction "length s" arbitrary: s rule: less_induct)
  case less
  show ?case
  proof (cases s)
    case (Cons x r)
    show ?thesis
    proof (cases "d x")
      case True
      then show ?thesis using less Cons by (simp add: words_by_delim)
    next
      case False
      let ?n = "\<lambda>x. \<not> d x"
      have l: "length (dropWhile ?n s) < length s"
        using False Cons length_dropWhile_le[of ?n r] by (simp add: le_imp_less_Suc)
      have t: "takeWhile ?n (s @ c # t) = takeWhile ?n s" "dropWhile ?n (s @ c # t) = dropWhile ?n s @ c # t"
        using less.prems by (auto simp: takeWhile_append dropWhile_append takeWhile_eq_all_conv[THEN iffD2])
      show ?thesis
        using words_by_word[of d x r] words_by_word[of d x "r @ c # t"] False less.hyps[OF l less.prems] t Cons by simp
    qed
  qed (use less in \<open>simp add: words_by_delim\<close>)
qed

lemma words_by_end: "d c \<Longrightarrow> words_by d (s @ [c]) = words_by d s"
  using words_by_split[of d c s "[]"] by simp

lemma path_elems_of_elems: "normal_elems es \<Longrightarrow> path_elems (path_of_elems es) = es"
  using path_elems_slashed[of es] words_by_end[of "\<lambda>c. c = slash" slash "path_of_elems es"]
  by (cases "es = []") (simp_all add: path_of_elems_def path_elems_def words_by_delim)

lemma path_of_elems_absolute: "path_isabsolute (path_of_elems es)"
  by (cases es) (simp_all add: path_of_elems_def path_isabsolute_def)

text \<open>
  What the components of a path mean, read from the right: the number of levels by which the path climbs above the place where it
  starts, and the names that it goes down from there. A name is undone by the nearest two dots behind it that undo no other one.
\<close>

fun resolve :: "string list \<Rightarrow> nat \<times> string list" where
  "resolve [] = (0, [])"
| "resolve (e # es) =
     (case resolve es of (up, names) \<Rightarrow>
        if e = ''..'' then (up + 1, names)
        else if e = ''.'' then (up, names)
        else if up = 0 then (0, e # names)
        else (up - 1, names))"

definition resolved :: "string \<Rightarrow> string \<Rightarrow> string list" where
  "resolved cwd s = snd (resolve (if path_isabsolute s then path_elems s else path_elems cwd @ path_elems s))"

lemma clean_elems_resolve:
  "[] \<notin> set es \<Longrightarrow> clean_elems cleaned es = take (length cleaned - fst (resolve es)) cleaned @ snd (resolve es)"
proof (induction es arbitrary: cleaned)
  case (Cons e es)
  obtain up names where r: "resolve es = (up, names)" by force
  show ?case
    using Cons by (cases up; cases cleaned rule: rev_cases) (auto simp: r Suc_diff_le take_Cons')
qed simp

lemma path_elems_no_empty: "[] \<notin> set (path_elems s)"
  unfolding path_elems_def using words_no_delim by blast

lemma path_elems_no_slash: "e \<in> set (path_elems s) \<Longrightarrow> slash \<notin> set e"
  unfolding path_elems_def using words_no_delim by blast

lemma path_elems_split: "path_elems (p @ slash # s) = path_elems p @ path_elems s"
  unfolding path_elems_def by (rule words_by_split) simp

lemma path_elems_simps [simp]: "path_elems [] = []" "path_elems ''.'' = [''.'']"
  by (simp_all add: path_elems_def words_by_all_words)

lemma path_elems_cat: "path_elems (path_cat cwd s) = (if cwd = [] then [''.''] else path_elems cwd) @ path_elems s"
proof -
  consider "cwd = []" | p where "cwd = p @ [slash]" | "cwd \<noteq> []" "last cwd \<noteq> slash"
    by (metis append_butlast_last_id)
  then show ?thesis
    by cases (use path_elems_split[of "''.''"] path_elems_split[of _ "[]"] path_elems_split[of cwd] path_elems_split in
      \<open>auto simp: path_cat_def path_catslash_def Let_def\<close>)
qed

lemma resolve_dot: "resolve (''.'' # es) = resolve es"
  by (simp split: prod.splits)

lemma canon_elems_resolve:
  "path_canon cwd s = path_of_elems (snd (resolve (if path_isabsolute s then path_elems s else path_elems cwd @ path_elems s)))"
proof -
  have "snd (resolve (path_elems (path_cat cwd s))) = snd (resolve (path_elems cwd @ path_elems s))"
    by (simp add: path_elems_cat resolve_dot del: resolve.simps)
  then show ?thesis
    by (simp add: path_canon_def tokens_elems clean_elems_resolve path_elems_no_empty)
qed

fun slash_joined :: "string list \<Rightarrow> string" where
  "slash_joined [] = []"
| "slash_joined [e] = e"
| "slash_joined (e # es) = e @ slash # slash_joined es"

lemma path_of_elems_joined: "path_of_elems es = slash # slash_joined es"
  by (induction es rule: slash_joined.induct) (simp_all add: path_of_elems_def)

text \<open>
  C40. The canonical path is a slash and, joined by slashes, the names that are left when the components of the path, behind those of the
  current directory when the path is relative, are resolved: each two dots undo the name before them or, at the root, nothing, and dots
  and repeated or final slashes disappear. No component of the result is empty, a dot or two dots, and it is its own canonical path, from any directory.
\<close>

theorem path_canon_canonical:
  "path_canon cwd s = slash # slash_joined (resolved cwd s) \<and> normal_elems (resolved cwd s) \<and>
   path_canon cwd2 (path_canon cwd s) = path_canon cwd s"
proof -
  obtain names where names: "names = resolved cwd s" by simp
  have eq: "path_canon cwd s = path_of_elems names"
    unfolding names resolved_def by (rule canon_elems_resolve)
  have "names = clean_elems [] (if path_isabsolute s then path_elems s else path_elems cwd @ path_elems s)"
    unfolding names resolved_def by (subst clean_elems_resolve) (auto simp: path_elems_no_empty)
  then have n: "normal_elems names"
    by (auto intro!: clean_elems_normal dest: path_elems_no_slash)
  have "path_canon cwd2 (path_of_elems names) = path_of_elems (clean_elems [] names)"
    using path_of_elems_absolute[of names]
    by (simp add: path_canon_def tokens_elems path_elems_of_elems[OF n])
  then show ?thesis
    using n by (simp add: names[symmetric] eq clean_elems_id[OF n] path_of_elems_joined)
qed

theorem path_canon_canonical_witness:
  "path_canon ''/home/me'' ''../x//./y/'' = ''/home/x/y'' \<and> path_canon ''/tmp'' ''/home/x/y'' = ''/home/x/y''"
proof -
  have "slash # slash_joined (resolved ''/home/me'' ''../x//./y/'') = ''/home/x/y''"
    by code_simp
  then show ?thesis
    using path_canon_canonical[of "''/home/me''" "''../x//./y/''" "''/tmp''"] by metis
qed

section \<open>Descendants\<close>

definition slashed :: "string list \<Rightarrow> string" where
  "slashed es = concat (map (\<lambda>e. ''/'' @ e) es) @ ''/''"

lemma slashed_inject: "normal_elems es \<Longrightarrow> normal_elems fs \<Longrightarrow> slashed es = slashed fs \<longleftrightarrow> es = fs"
  using path_elems_slashed[of es] path_elems_slashed[of fs] unfolding slashed_def by metis

lemma catslash_of_elems: "normal_elems es \<Longrightarrow> path_catslash (path_of_elems es) = slashed es"
proof (cases es rule: rev_cases)
  case (snoc fs f)
  moreover assume "normal_elems es"
  ultimately have "f \<noteq> []" "slash \<notin> set f" by simp_all
  then have "last f \<noteq> slash" using last_in_set[of f] by metis
  then show ?thesis using snoc \<open>f \<noteq> []\<close> by (simp add: path_of_elems_def slashed_def path_catslash_def)
qed (simp add: path_of_elems_def slashed_def path_catslash_def)

lemma getfather_slashed: "normal_elems (es @ [e]) \<Longrightarrow> path_getfather (slashed (es @ [e])) = slashed es"
proof -
  assume n: "normal_elems (es @ [e])"
  let ?pre = "concat (map (\<lambda>e. ''/'' @ e) es)"
  have s: "slashed (es @ [e]) = ?pre @ slash # e @ ''/''" by (simp add: slashed_def)
  have "rfind_char (?pre @ slash # e) slash = Some (length ?pre)"
    using n by (auto simp: rfind_char_def find_last_idx_Some nth_append nth_Cons split: nat.splits)
  moreover have "path_catslash ?pre = slashed es"
    using catslash_of_elems[of es] n by (cases "es = []") (simp_all add: path_of_elems_def slashed_def path_catslash_def)
  moreover have "\<not> path_isroot (slashed (es @ [e]))" using n by (auto simp: s path_isroot_def)
  moreover have "butlast (slashed (es @ [e])) = ?pre @ slash # e" "last (slashed (es @ [e])) = slash" "slashed (es @ [e]) \<noteq> []"
    by (simp_all add: s butlast_append)
  ultimately show ?thesis by (simp add: path_getfather_def Let_def)
qed

lemma length_slashed_prefix: "prefix es fs \<Longrightarrow> length (slashed es) \<le> length (slashed fs)"
  by (auto simp: slashed_def prefix_def)

lemma isdesc_loop_prefix:
  "normal_elems ts \<Longrightarrow> normal_elems es \<Longrightarrow> isdesc_loop (slashed ts) (slashed es) \<longleftrightarrow> prefix ts es"
proof (induction es rule: rev_induct)
  case Nil
  have "path_getfather (slashed []) = slashed []" by (simp add: slashed_def path_getfather_def path_isroot_def)
  then show ?case
    using Nil slashed_inject[of ts "[]"] slashed_inject[of "[]" ts]
    by (subst isdesc_loop.simps) (auto simp: Let_def)
next
  case (snoc e es)
  show ?case
  proof (cases "ts = es @ [e]")
    case True
    then show ?thesis by (subst isdesc_loop.simps) simp
  next
    case False
    have es: "normal_elems es" "e \<noteq> []" using snoc.prems by simp_all
    have ne: "slashed (es @ [e]) \<noteq> slashed ts" using slashed_inject snoc.prems False by metis
    have len: "length (slashed es) < length (slashed (es @ [e]))" using es by (simp add: slashed_def)
    have pre: "prefix ts (es @ [e]) \<longleftrightarrow> prefix ts es" using False by simp
    have "isdesc_loop (slashed ts) (slashed (es @ [e])) \<longleftrightarrow>
        (if length (slashed es) < length (slashed ts) then slashed es = slashed ts else isdesc_loop (slashed ts) (slashed es))"
      using ne len by (subst isdesc_loop.simps) (simp add: getfather_slashed[OF snoc.prems(2)] Let_def)
    then show ?thesis
      using snoc.IH[OF snoc.prems(1) es(1)] length_slashed_prefix[of ts es] pre by auto
  qed
qed

lemma canon_elems_resolved: "s \<noteq> [] \<Longrightarrow> canon_elems cwd s = resolved cwd s"
  by (simp add: canon_elems_def resolved_def path_absolute_def clean_elems_resolve path_elems_no_empty path_elems_cat resolve_dot
      del: resolve.simps)

text \<open>
  C33. \<open>path_isdesc\<close> decides what it is named for: the second path is below the first or equal to it exactly when neither is empty and the
  names that the first path resolves to, from the current directory when it is relative, are a prefix of those of the second. The walk up the
  parents ends for all strings.
\<close>

theorem path_isdesc_prefix:
  "path_isdesc cwd topd sub \<longleftrightarrow> topd \<noteq> [] \<and> sub \<noteq> [] \<and> prefix (resolved cwd topd) (resolved cwd sub)"
proof -
  have "path_isdesc cwd topd sub \<longleftrightarrow>
      topd \<noteq> [] \<and> sub \<noteq> [] \<and> prefix (canon_elems cwd topd) (canon_elems cwd sub)"
    using isdesc_loop_prefix[OF canon_elems_normal canon_elems_normal, of cwd topd cwd sub]
    by (simp add: path_isdesc_def path_canon_elems catslash_of_elems[OF canon_elems_normal])
  then show ?thesis
    by (auto simp: canon_elems_resolved)
qed

section \<open>Parents\<close>

text \<open>The paths with the components \<open>ds\<close> and one or more of \<open>es\<close>.\<close>

fun parents_from :: "string list \<Rightarrow> string list \<Rightarrow> string set" where
  "parents_from ds [] = {}"
| "parents_from ds (e # es) = insert (path_of_elems (ds @ [e])) (parents_from (ds @ [e]) es)"

lemma makepath_loop_creates:
  "case makepath_loop can fs (slashed ds) es of (ok, fs1) \<Rightarrow>
     fs \<subseteq> fs1 \<and> fs1 \<subseteq> fs \<union> parents_from ds es \<and> (ok \<longrightarrow> fs1 = fs \<union> parents_from ds es)"
proof (induction es arbitrary: ds fs)
  case (Cons e es)
  have p: "slashed ds @ e = path_of_elems (ds @ [e])" by (simp add: slashed_def path_of_elems_def)
  have q: "path_of_elems (ds @ [e]) @ ''/'' = slashed (ds @ [e])" by (simp add: slashed_def path_of_elems_def)
  show ?case
    using Cons.IH[where ds = "ds @ [e]" and fs = fs] Cons.IH[where ds = "ds @ [e]" and fs = "insert (path_of_elems (ds @ [e])) fs"]
    by (auto simp: Let_def p q split: prod.splits)
qed simp

text \<open>
  When the creation of a directory with its parents succeeds, the directory and all the parents exist, nothing that existed is
  gone, and nothing else was created; a failure too only creates parents of the path.
\<close>

theorem path_makepath_creates:
  assumes "ipath \<noteq> []"
  shows "case path_makepath can cwd fs ipath of (ok, fs1) \<Rightarrow>
     fs \<subseteq> fs1 \<and> fs1 \<subseteq> fs \<union> parents_from [] (canon_elems cwd ipath) \<and>
     (ok \<longrightarrow> fs1 = fs \<union> parents_from [] (canon_elems cwd ipath))"
  using makepath_loop_creates[where can = can and fs = fs and ds = "[]" and es = "canon_elems cwd ipath"] assms
  by (simp add: path_makepath_def tokens_elems path_canon_elems path_elems_of_elems[OF canon_elems_normal] slashed_def)

theorem path_makepath_creates_witness:
  "path_makepath (\<lambda>fs p. True) ''/'' {''/home''} ''/home/me/x'' = (True, {''/home'', ''/home/me'', ''/home/me/x''})"
proof -
  have e: "canon_elems ''/'' ''/home/me/x'' = [''home'', ''me'', ''x'']" by code_simp
  obtain ok fs1 where r: "path_makepath (\<lambda>fs p. True) ''/'' {''/home''} ''/home/me/x'' = (ok, fs1)" by force
  have "fst (path_makepath (\<lambda>fs p. True) ''/'' {''/home''} ''/home/me/x'')" by code_simp
  then have ok using r by simp
  then show ?thesis
    using path_makepath_creates[where ipath = "''/home/me/x''" and can = "\<lambda>fs p. True" and cwd = "''/''" and fs = "{''/home''}"] r
    by (auto simp: e path_of_elems_def)
qed

end
