(* ===== verification/Conf_Tree.thy ===== *)
theory Conf_Tree
  imports Conf_Simple Path_Util
begin

text \<open>
  Configurations whose subsections are paths (\<open>ConfTree\<close> of \<open>utils/conftree.cpp\<close>) and stacks of
  configurations (\<open>ConfStack\<close> of \<open>utils/conftree.h\<close>). A stack is the list of its objects, the first
  on top; its template parameter is the lookup of its elements, \<open>conf_get\<close> or \<open>conf_tree_get\<close>.
  What the stack needs of that lookup is a locale.
\<close>

section \<open>Lookup through the parents\<close>

lemma rfind_char_less: "rfind_char s c = Some pos \<Longrightarrow> pos < length s"
  by (auto simp: rfind_char_def find_last_idx_Some)

function tree_get_loop :: "ConfSimple \<Rightarrow> string \<Rightarrow> string \<Rightarrow> string option" where
  "tree_get_loop c nm msk =
     (case conf_get c nm msk of
        Some v \<Rightarrow> Some v
      | None \<Rightarrow>
          (case rfind_char msk (CHR ''/'') of
             None \<Rightarrow> None
           | Some pos \<Rightarrow> tree_get_loop c nm (take pos msk)))"
  by pat_completeness auto
termination
  by (relation "measure (\<lambda>(c, nm, msk). length msk)") (auto dest: rfind_char_less)

declare tree_get_loop.simps [simp del]

definition conf_tree_get :: "ConfSimple \<Rightarrow> string \<Rightarrow> string \<Rightarrow> string option" where
  "conf_tree_get c nm sk =
     (if sk = [] \<or> \<not> path_isabsolute sk then conf_get c nm sk
      else tree_get_loop c nm (path_catslash sk))"

text \<open>The path with the given components.\<close>

definition path_of :: "string list \<Rightarrow> string" where
  "path_of cs = concat (map ((#) (CHR ''/'')) cs)"

fun first_some :: "'a option list \<Rightarrow> 'a option" where
  "first_some [] = None"
| "first_some (x # xs) = (case x of Some v \<Rightarrow> Some v | None \<Rightarrow> first_some xs)"

lemma rfind_char_last: "c \<notin> set t \<Longrightarrow> rfind_char (s @ c # t) c = Some (length s)"
  by (auto simp: rfind_char_def find_last_idx_Some nth_append nth_Cons split: nat.splits)

lemma rfind_char_None: "c \<notin> set s \<Longrightarrow> rfind_char s c = None"
  by (auto simp: rfind_char_def find_last_idx_None)

lemma tree_get_loop_path:
  "\<forall>x \<in> set cs. CHR ''/'' \<notin> set x \<Longrightarrow>
    tree_get_loop c nm (path_of cs) =
      first_some (map (\<lambda>k. conf_get c nm (path_of (take k cs))) (rev [0..<Suc (length cs)]))"
proof (induction cs rule: rev_induct)
  case Nil
  show ?case
    by (subst tree_get_loop.simps) (simp add: path_of_def rfind_char_None split: option.splits)
next
  case (snoc x cs)
  have p: "path_of (cs @ [x]) = path_of cs @ CHR ''/'' # x"
    by (simp add: path_of_def)
  have step: "tree_get_loop c nm (path_of (cs @ [x])) =
      (case conf_get c nm (path_of (cs @ [x])) of Some v \<Rightarrow> Some v | None \<Rightarrow> tree_get_loop c nm (path_of cs))"
    using snoc.prems by (subst tree_get_loop.simps) (simp add: p rfind_char_last split: option.splits)
  have "map (\<lambda>k. conf_get c nm (path_of (take k (cs @ [x])))) (rev [0..<Suc (length cs)]) =
      map (\<lambda>k. conf_get c nm (path_of (take k cs))) (rev [0..<Suc (length cs)])"
    by (intro map_cong) auto
  moreover have "rev [0..<Suc (length (cs @ [x]))] = Suc (length cs) # rev [0..<Suc (length cs)]"
    by simp
  ultimately have "first_some (map (\<lambda>k. conf_get c nm (path_of (take k (cs @ [x])))) (rev [0..<Suc (length (cs @ [x]))])) =
      first_some (conf_get c nm (path_of (cs @ [x])) # map (\<lambda>k. conf_get c nm (path_of (take k cs))) (rev [0..<Suc (length cs)]))"
    by (simp only: list.map) simp
  also have "\<dots> = tree_get_loop c nm (path_of (cs @ [x]))"
    using snoc step by (simp del: upt_Suc split: option.splits)
  finally show ?case ..
qed

text \<open>
  C29. Looking a name up in the section of an absolute path gives the value of the nearest enclosing section that has one: the section
  itself with a slash behind it, then the section, then each of its parents up to the global section.
\<close>

theorem conf_tree_get_nearest:
  assumes "cs \<noteq> []" and "list_all (\<lambda>x. x \<noteq> [] \<and> CHR ''/'' \<notin> set x) cs"
  shows "conf_tree_get c nm (path_of cs) =
    first_some (conf_get c nm (path_of cs @ ''/'') #
      map (\<lambda>k. conf_get c nm (path_of (take k cs))) (rev [0..<Suc (length cs)]))"
proof -
  have abs: "path_isabsolute (path_of cs)" "path_of cs \<noteq> []"
    using assms(1) by (cases cs; simp add: path_isabsolute_def path_of_def)+
  have "last (path_of cs) \<noteq> CHR ''/''"
  proof -
    obtain ds x where cs: "cs = ds @ [x]" using assms(1) by (cases cs rule: rev_cases) auto
    with assms(2) have "x \<noteq> []" "CHR ''/'' \<notin> set x" by simp_all
    then have "last (path_of cs) = last x"
      by (simp add: cs path_of_def)
    with \<open>x \<noteq> []\<close> \<open>CHR ''/'' \<notin> set x\<close> show ?thesis
      by (metis last_in_set)
  qed
  then have cat: "path_catslash (path_of cs) = path_of cs @ ''/''"
    by (simp add: path_catslash_def)
  have "tree_get_loop c nm (path_of cs @ ''/'') =
      (case conf_get c nm (path_of cs @ ''/'') of Some v \<Rightarrow> Some v | None \<Rightarrow> tree_get_loop c nm (path_of cs))"
    by (subst tree_get_loop.simps) (simp add: rfind_char_last [of _ "[]", simplified] split: option.splits)
  then show ?thesis
    using abs tree_get_loop_path [of cs c nm] assms(2)
    by (cases "conf_get c nm (path_of cs @ ''/'')")
      (simp_all add: conf_tree_get_def cat list_all_iff del: upt_Suc)
qed

theorem conf_tree_get_nearest_witness:
  "conf_tree_get (put_var ''k'' ''v'' ''/a'' (conf_init 0)) ''k'' (path_of [''a'', ''b'']) =
    first_some (conf_get (put_var ''k'' ''v'' ''/a'' (conf_init 0)) ''k'' ''/a/b/'' #
      map (\<lambda>k. conf_get (put_var ''k'' ''v'' ''/a'' (conf_init 0)) ''k'' (path_of (take k [''a'', ''b'']))) [2, 1, 0])"
proof -
  have "rev [0..<Suc (length [''a'', ''b''])] = [2, 1, 0]" "path_of [''a'', ''b''] @ ''/'' = ''/a/b/''"
    by (simp_all add: path_of_def upt_rec)
  then show ?thesis
    using conf_tree_get_nearest [of "[''a'', ''b'']" "put_var ''k'' ''v'' ''/a'' (conf_init 0)" "''k''"] by simp
qed

section \<open>Stacks of configurations\<close>

type_synonym conf_lookup = "ConfSimple \<Rightarrow> string \<Rightarrow> string \<Rightarrow> string option"

record ConfStack =
  cs_ok :: bool
  m_confs :: "ConfSimple list"

fun stack_get_loop :: "conf_lookup \<Rightarrow> string \<Rightarrow> string \<Rightarrow> bool \<Rightarrow> ConfSimple list \<Rightarrow> string option" where
  "stack_get_loop tget nm sk shallow [] = None"
| "stack_get_loop tget nm sk shallow (c # cs) =
     (case tget c nm sk of
        Some v \<Rightarrow> Some v
      | None \<Rightarrow> if shallow then None else stack_get_loop tget nm sk shallow cs)"

definition stack_get :: "conf_lookup \<Rightarrow> ConfStack \<Rightarrow> string \<Rightarrow> string \<Rightarrow> bool \<Rightarrow> string option" where
  "stack_get tget st nm sk shallow = stack_get_loop tget nm sk shallow (m_confs st)"

text \<open>\<open>hasNameAnywhere\<close> of an element calls its own (virtual) lookup on each of its subsections.\<close>

definition has_name_anywhere :: "conf_lookup \<Rightarrow> ConfSimple \<Rightarrow> string \<Rightarrow> bool" where
  "has_name_anywhere tget c nm \<longleftrightarrow> list_ex (\<lambda>sk. tget c nm sk \<noteq> None) (conf_getSubKeys c)"

definition stack_hasNameAnywhere :: "conf_lookup \<Rightarrow> ConfStack \<Rightarrow> string \<Rightarrow> bool" where
  "stack_hasNameAnywhere tget st nm \<longleftrightarrow> list_ex (\<lambda>c. has_name_anywhere tget c nm) (m_confs st)"

text \<open>The deeper configurations already give this value.\<close>

fun deeper_gives :: "conf_lookup \<Rightarrow> string \<Rightarrow> string \<Rightarrow> string \<Rightarrow> ConfSimple list \<Rightarrow> bool" where
  "deeper_gives tget nm v sk [] = False"
| "deeper_gives tget nm v sk (c # cs) =
     (case tget c nm sk of
        Some w \<Rightarrow> w = v
      | None \<Rightarrow> deeper_gives tget nm v sk cs)"

text \<open>\<open>front()\<close> of an empty vector is an access outside it.\<close>

definition stack_set ::
  "conf_lookup \<Rightarrow> string \<Rightarrow> string \<Rightarrow> string \<Rightarrow> ConfStack \<Rightarrow> Disk \<Rightarrow> (bool \<times> ConfStack \<times> Disk) run" where
  "stack_set tget nm v sk st d =
     (if \<not> cs_ok st then Inr (False, st, d)
      else case m_confs st of
          [] \<Rightarrow> Inl BadAccess
        | c # cs \<Rightarrow>
            if deeper_gives tget nm v sk cs then
              (case conf_erase nm sk c d of (b, c1, d1) \<Rightarrow> Inr (True, st\<lparr>m_confs := c1 # cs\<rparr>, d1))
            else
              (case conf_set nm v sk c d of
                 Inl e \<Rightarrow> Inl e
               | Inr (b, c1, d1) \<Rightarrow> Inr (b, st\<lparr>m_confs := c1 # cs\<rparr>, d1)))"

definition stack_erase :: "string \<Rightarrow> string \<Rightarrow> ConfStack \<Rightarrow> Disk \<Rightarrow> (bool \<times> ConfStack \<times> Disk) run" where
  "stack_erase nm sk st d =
     (case m_confs st of
        [] \<Rightarrow> Inl BadAccess
      | c # cs \<Rightarrow> (case conf_erase nm sk c d of (b, c1, d1) \<Rightarrow> Inr (b, st\<lparr>m_confs := c1 # cs\<rparr>, d1)))"

definition stack_eraseKey :: "string \<Rightarrow> ConfStack \<Rightarrow> Disk \<Rightarrow> (bool \<times> ConfStack \<times> Disk) run" where
  "stack_eraseKey sk st d =
     (case m_confs st of
        [] \<Rightarrow> Inl BadAccess
      | c # cs \<Rightarrow> (case conf_eraseKey sk c d of (b, c1, d1) \<Rightarrow> Inr (b, st\<lparr>m_confs := c1 # cs\<rparr>, d1)))"

definition stack_holdWrites :: "bool \<Rightarrow> ConfStack \<Rightarrow> Disk \<Rightarrow> (bool \<times> ConfStack \<times> Disk) run" where
  "stack_holdWrites on st d =
     (case m_confs st of
        [] \<Rightarrow> Inl BadAccess
      | c # cs \<Rightarrow> (case conf_holdWrites on c d of (b, c1, d1) \<Rightarrow> Inr (b, st\<lparr>m_confs := c1 # cs\<rparr>, d1)))"

text \<open>\<open>sort\<close> and \<open>unique\<close> on strings, which are ordered as lists of byte values.\<close>

definition sort_unique :: "string list \<Rightarrow> string list" where
  "sort_unique xs = remdups_adj (sort_key (map (of_char :: char \<Rightarrow> int)) xs)"

fun stack_names_loop :: "string \<Rightarrow> (string \<Rightarrow> bool) option \<Rightarrow> bool \<Rightarrow> ConfSimple list \<Rightarrow> string list" where
  "stack_names_loop sk pat shallow [] = []"
| "stack_names_loop sk pat shallow (c # cs) =
     (if conf_hasSubKey c sk
      then conf_getNames c sk pat @ (if shallow then [] else stack_names_loop sk pat shallow cs)
      else stack_names_loop sk pat shallow cs)"

definition stack_getNames1 :: "ConfStack \<Rightarrow> string \<Rightarrow> (string \<Rightarrow> bool) option \<Rightarrow> bool \<Rightarrow> string list" where
  "stack_getNames1 st sk pat shallow = sort_unique (stack_names_loop sk pat shallow (m_confs st))"

definition stack_getSubKeys :: "ConfStack \<Rightarrow> bool \<Rightarrow> string list" where
  "stack_getSubKeys st shallow =
     sort_unique (concat (map conf_getSubKeys (if shallow then take 1 (m_confs st) else m_confs st)))"

definition stack_copy :: "ConfStack \<Rightarrow> ConfStack" where
  "stack_copy rhs =
     \<lparr>cs_ok = cs_ok rhs, m_confs = (if cs_ok rhs then map conf_copy (m_confs rhs) else [])\<rparr>"

text \<open>\<open>construct\<close>: the arguments count the names left; only the first file may be opened for writing.\<close>

fun stack_construct ::
  "(string \<Rightarrow> string) \<Rightarrow> 32 word \<Rightarrow> string list \<Rightarrow> ConfSimple list \<Rightarrow> Disk \<Rightarrow> (ConfStack \<times> Disk) run" where
  "stack_construct tilde flags [] confs d = Inr (\<lparr>cs_ok = True, m_confs = confs\<rparr>, d)"
| "stack_construct tilde flags (fn # fns) confs d =
     (case conf_new tilde flags fn d of
        Inl e \<Rightarrow> Inl e
      | Inr (p, d1) \<Rightarrow>
          if conf_ok p then stack_construct tilde (flags OR CFSF_RO) fns (confs @ [p]) d1
          else if d_files d1 fn = None \<and> (flags AND CFSF_RO = 0 \<or> fns = []) then
            Inr (\<lparr>cs_ok = False, m_confs = confs\<rparr>, d1)
          else stack_construct tilde (flags OR CFSF_RO) fns confs d1)"

section \<open>Setting a value through a stack\<close>

text \<open>What the stack relies on: lookup in an element follows its changes.\<close>

locale conf_element =
  fixes tget :: conf_lookup
  assumes get_set: "conf_made tilde c \<Longrightarrow> status c = STATUS_RW \<Longrightarrow> conf_set nm v sk c d = Inr (b, c1, d1) \<Longrightarrow>
      \<not> line_breaks v \<Longrightarrow> tget c1 nm sk = Some v"
    and get_erase: "conf_made tilde c \<Longrightarrow> status c = STATUS_RW \<Longrightarrow> conf_erase nm sk c d = (b, c1, d1) \<Longrightarrow>
      tget c1 nm sk = None"
begin

lemma deeper_gives_get: "deeper_gives tget nm v sk cs \<Longrightarrow> stack_get_loop tget nm sk False cs = Some v"
  by (induction cs) (auto split: option.splits)

lemma set_get:
  assumes "conf_made tilde c" and "status c = STATUS_RW" and "\<not> line_breaks v" and "cs_ok st" and "m_confs st = c # cs"
    and s: "stack_set tget nm v sk st d = Inr (b, st1, d1)"
  shows "stack_get tget st1 nm sk False = Some v" and "\<exists>c1. m_confs st1 = c1 # cs"
proof -
  have "stack_get tget st1 nm sk False = Some v \<and> (\<exists>c1. m_confs st1 = c1 # cs)"
  proof (cases "deeper_gives tget nm v sk cs")
    case True
    obtain b' c1 where e: "conf_erase nm sk c d = (b', c1, d1)" "st1 = st\<lparr>m_confs := c1 # cs\<rparr>"
      using s assms(4,5) True by (auto simp: stack_set_def split: prod.splits)
    show ?thesis
      using get_erase [OF assms(1,2) e(1)] deeper_gives_get [OF True] by (simp add: stack_get_def e(2))
  next
    case False
    obtain c1 where e: "conf_set nm v sk c d = Inr (b, c1, d1)" "st1 = st\<lparr>m_confs := c1 # cs\<rparr>"
      using s assms(4,5) False by (auto simp: stack_set_def split: sum.splits prod.splits)
    show ?thesis
      using get_set [OF assms(1,2) e(1) assms(3)] by (simp add: stack_get_def e(2))
  qed
  then show "stack_get tget st1 nm sk False = Some v" and "\<exists>c1. m_confs st1 = c1 # cs"
    by blast+
qed

end

interpretation simple: conf_element conf_get
proof unfold_locales
  fix tilde c nm v sk d b c1 d1
  assume "conf_made tilde c" "status c = STATUS_RW" "conf_set nm v sk c d = Inr (b, c1, d1)" "\<not> line_breaks v"
  then show "conf_get c1 nm sk = Some v"
    using conf_set_get_same by blast
next
  fix tilde c nm sk d b c1 d1
  assume "conf_made tilde c" "status c = STATUS_RW" "conf_erase nm sk c d = (b, c1, d1)"
  then show "conf_get c1 nm sk = None"
    using conf_erase_get(1) [OF conf_made_inv, of tilde c nm sk d b c1 d1 nm sk] by simp
qed

text \<open>
  A value without line breaks that is set through a stack of plain configurations, whose top can be written, is what the stack
  gives afterwards, whether it went into the top or was left to a deeper configuration; only the top changes.
\<close>

theorem stack_set_get:
  assumes "conf_made tilde c" and "status c = STATUS_RW" and "\<not> line_breaks v"
    and "stack_set conf_get nm v sk \<lparr>cs_ok = True, m_confs = c # cs\<rparr> d = Inr (b, st1, d1)"
  shows "stack_get conf_get st1 nm sk False = Some v \<and> (\<exists>c1. m_confs st1 = c1 # cs)"
  using simple.set_get [OF assms(1-3) _ _ assms(4)] by simp

theorem stack_set_get_witness:
  "\<exists>b st1 d1. stack_set conf_get ''a'' ''1'' [] \<lparr>cs_ok = True, m_confs = [conf_init CFSF_FROMSTRING]\<rparr> no_disk = Inr (b, st1, d1) \<and>
    stack_get conf_get st1 ''a'' [] False = Some ''1''"
proof -
  let ?c = "conf_init CFSF_FROMSTRING"
  have "conf_new id CFSF_FROMSTRING [] no_disk = Inr (?c, no_disk)"
    by (simp add: conf_new_def cfsf_defs)
  then have made: "conf_made id ?c"
    by (rule made_new)
  obtain b c1 d1 where "conf_set ''a'' ''1'' [] ?c no_disk = Inr (b, c1, d1)"
    using conf_set_inv [OF conf_made_inv [OF made]] by blast
  then have s: "stack_set conf_get ''a'' ''1'' [] \<lparr>cs_ok = True, m_confs = [?c]\<rparr> no_disk =
      Inr (b, \<lparr>cs_ok = True, m_confs = [c1]\<rparr>, d1)"
    by (simp add: stack_set_def)
  have "status ?c = STATUS_RW"
    by (simp add: conf_init_def cfsf_defs)
  with stack_set_get [OF made _ _ s] s show ?thesis
    by (simp add: line_breaks_def)
qed

text \<open>
  In a stack of path configurations the same call can report success without effect: the top has a value for a parent of the section,
  a deeper configuration already gives the new value, so no entry is made in the top, and the top's value for the parent still hides
  the deeper one.
\<close>

theorem stack_tree_set_lost:
  "(case stack_set conf_tree_get ''k'' ''new'' ''/a/b''
      \<lparr>cs_ok = True, m_confs = [put_var ''k'' ''old'' ''/a'' (conf_init 0), put_var ''k'' ''new'' [] (conf_init CFSF_RO)]\<rparr> no_disk of
      Inl e \<Rightarrow> False
    | Inr (b, st1, d1) \<Rightarrow> b \<and> stack_get conf_tree_get st1 ''k'' ''/a/b'' False = Some ''old'')"
  by code_simp

end
