(* ===== verification/Work_Queue.thy ===== *)
theory Work_Queue
  imports Prelude
begin

text \<open>
  The work queue between the stages of the indexer (\<open>WorkQueue\<close> of \<open>utils/workqueue.h\<close>). Client threads put tasks,
  wait for the queue to be idle or terminate it, worker threads take tasks and exit. All members run under the mutex,
  which a thread gives up only where it waits on a condition variable, so a step of the system is one stretch of a
  call, from its start or from a wake-up to its next wait or its return. Condition variables keep the set of the
  threads that sleep and have not been notified; which of them \<open>notify_one\<close> wakes is a choice, and a sleeping thread may wake
  without a notification, as C++ allows. The counters have the 32 bits of \<open>unsigned int\<close>.
\<close>

section \<open>The object and its threads\<close>

datatype 'a cpc = CIdle | CPut 'a bool | CWaitIdle | CTerm

datatype wpc = WNone | WRun | WTake bool | WMin nat | WExited

record 'a WorkQueue =
  m_high :: nat
  m_low :: nat
  m_queue :: "'a list"
  m_ok :: bool
  m_openforbusiness :: bool
  m_workers_exited :: "32 word"
  m_worker_threads :: "nat list"
  m_clients_waiting :: "32 word"
  m_workers_waiting :: "32 word"
  m_tottasks :: "32 word"
  m_nowake :: "32 word"
  m_workersleeps :: "32 word"
  m_clientsleeps :: "32 word"
  client_pc :: "nat \<Rightarrow> 'a cpc"
  worker_pc :: "nat \<Rightarrow> wpc"
  ccond :: "nat set"
  wcond :: "nat set"

definition wq_new :: "nat \<Rightarrow> nat \<Rightarrow> 'a WorkQueue" where
  "wq_new hi lo =
     \<lparr>m_high = hi, m_low = lo, m_queue = [], m_ok = True, m_openforbusiness = True, m_workers_exited = 0,
      m_worker_threads = [], m_clients_waiting = 0, m_workers_waiting = 0, m_tottasks = 0, m_nowake = 0,
      m_workersleeps = 0, m_clientsleeps = 0, client_pc = (\<lambda>_. CIdle), worker_pc = (\<lambda>_. WNone),
      ccond = {}, wcond = {}\<rparr>"

definition wq_ok :: "'a WorkQueue \<Rightarrow> bool" where
  "wq_ok s \<longleftrightarrow> m_ok s \<and> m_workers_exited s = 0 \<and> m_worker_threads s \<noteq> []"

text \<open>What a step shows: a task accepted (with the flush flag), a refusal, a task taken, a read past the queue's end, and so on.\<close>

datatype 'a wq_event =
    Accepted 'a bool | Refused | Asleep | Took 'a | Fault | NoTask | Enough | IdleReturn bool | Terminated | Other

section \<open>The clients' calls\<close>

definition put_full :: "'a WorkQueue \<Rightarrow> bool" where
  "put_full s \<longleftrightarrow> wq_ok s \<and> m_high s > 0 \<and> length (m_queue s) \<ge> m_high s"

text \<open>The loop and the end of \<open>put\<close>; \<open>w\<close> is the worker that \<open>notify_one\<close> would wake.\<close>

definition put_loop :: "nat \<Rightarrow> 'a \<Rightarrow> bool \<Rightarrow> nat \<Rightarrow> 'a WorkQueue \<Rightarrow> 'a wq_event \<times> 'a WorkQueue" where
  "put_loop c t flush w s =
     (if put_full s then
        (Asleep, s\<lparr>m_clientsleeps := m_clientsleeps s + 1, m_clients_waiting := m_clients_waiting s + 1,
           client_pc := (client_pc s)(c := CPut t flush), ccond := insert c (ccond s)\<rparr>)
      else
        let s1 = s\<lparr>m_queue := (if flush then [] else m_queue s) @ [t], client_pc := (client_pc s)(c := CIdle)\<rparr> in
        (Accepted t flush,
         if m_workers_waiting s > 0 then s1\<lparr>wcond := wcond s - {w}\<rparr> else s1\<lparr>m_nowake := m_nowake s + 1\<rparr>))"

definition put_enter :: "nat \<Rightarrow> 'a \<Rightarrow> bool \<Rightarrow> nat \<Rightarrow> 'a WorkQueue \<Rightarrow> 'a wq_event \<times> 'a WorkQueue" where
  "put_enter c t flush w s =
     (if \<not> wq_ok s \<or> \<not> m_openforbusiness s then (Refused, s) else put_loop c t flush w s)"

definition client_wake :: "'a WorkQueue \<Rightarrow> 'a WorkQueue" where
  "client_wake s = s\<lparr>m_clients_waiting := m_clients_waiting s - 1\<rparr>"

definition put_resume :: "nat \<Rightarrow> 'a \<Rightarrow> bool \<Rightarrow> nat \<Rightarrow> 'a WorkQueue \<Rightarrow> 'a wq_event \<times> 'a WorkQueue" where
  "put_resume c t flush w s =
     (if \<not> wq_ok s then (Refused, (client_wake s)\<lparr>client_pc := (client_pc s)(c := CIdle)\<rparr>)
      else put_loop c t flush w (client_wake s))"

definition not_idle :: "'a WorkQueue \<Rightarrow> bool" where
  "not_idle s \<longleftrightarrow>
     length (m_queue s) > 0 \<and> unat (m_workers_exited s) < length (m_worker_threads s) \<or>
     unat (m_workers_waiting s + m_workers_exited s) < length (m_worker_threads s)"

definition waitIdle_loop :: "nat \<Rightarrow> 'a WorkQueue \<Rightarrow> 'a wq_event \<times> 'a WorkQueue" where
  "waitIdle_loop c s =
     (if not_idle s then
        (Asleep, s\<lparr>m_clients_waiting := m_clients_waiting s + 1,
           client_pc := (client_pc s)(c := CWaitIdle), ccond := insert c (ccond s)\<rparr>)
      else (IdleReturn (wq_ok s), s\<lparr>client_pc := (client_pc s)(c := CIdle)\<rparr>))"

definition waitIdle_resume :: "nat \<Rightarrow> 'a WorkQueue \<Rightarrow> 'a wq_event \<times> 'a WorkQueue" where
  "waitIdle_resume c s = waitIdle_loop c (client_wake s)"

text \<open>The loop of \<open>setTerminateAndWait\<close>, then the joins and the reset to the start state.\<close>

definition term_loop :: "nat \<Rightarrow> 'a WorkQueue \<Rightarrow> 'a wq_event \<times> 'a WorkQueue" where
  "term_loop c s =
     (if unat (m_workers_exited s) < length (m_worker_threads s) then
        (Asleep, s\<lparr>wcond := {}, m_clients_waiting := m_clients_waiting s + 1,
           client_pc := (client_pc s)(c := CTerm), ccond := insert c (ccond s)\<rparr>)
      else
        (Terminated, s\<lparr>m_worker_threads := [], worker_pc := (\<lambda>_. WNone), wcond := {},
           m_workers_exited := 0, m_clients_waiting := 0, m_workers_waiting := 0, m_tottasks := 0, m_nowake := 0,
           m_workersleeps := 0, m_clientsleeps := 0, m_ok := True, client_pc := (client_pc s)(c := CIdle)\<rparr>))"

definition term_enter :: "nat \<Rightarrow> 'a WorkQueue \<Rightarrow> 'a wq_event \<times> 'a WorkQueue" where
  "term_enter c s =
     (if m_worker_threads s = [] then (Other, s) else term_loop c (s\<lparr>m_ok := False\<rparr>))"

definition term_resume :: "nat \<Rightarrow> 'a WorkQueue \<Rightarrow> 'a wq_event \<times> 'a WorkQueue" where
  "term_resume c s = term_loop c (client_wake s)"

definition wq_start :: "nat \<Rightarrow> 'a WorkQueue \<Rightarrow> 'a WorkQueue" where
  "wq_start n s =
     (let k = length (m_worker_threads s) in
      s\<lparr>m_worker_threads := m_worker_threads s @ [k..<k + n],
        worker_pc := (\<lambda>w. if k \<le> w \<and> w < k + n then WRun else worker_pc s w)\<rparr>)"

definition closeShop :: "'a WorkQueue \<Rightarrow> 'a WorkQueue" where
  "closeShop s = s\<lparr>m_openforbusiness := False\<rparr>"

section \<open>The workers' calls\<close>

text \<open>The sleep of \<open>take\<close> and of \<open>waitminsz\<close>: on an empty queue the clients are all notified first.\<close>

definition worker_sleep :: "nat \<Rightarrow> wpc \<Rightarrow> 'a WorkQueue \<Rightarrow> 'a WorkQueue" where
  "worker_sleep w pc s =
     s\<lparr>m_workersleeps := m_workersleeps s + 1, m_workers_waiting := m_workers_waiting s + 1,
       ccond := (if m_queue s = [] then {} else ccond s),
       worker_pc := (worker_pc s)(w := pc), wcond := insert w (wcond s)\<rparr>"

text \<open>\<open>c\<close> is the client that \<open>notify_one\<close> would wake.\<close>

definition take_loop :: "nat \<Rightarrow> bool \<Rightarrow> nat \<Rightarrow> 'a WorkQueue \<Rightarrow> 'a wq_event \<times> 'a WorkQueue" where
  "take_loop w timed c s =
     (if wq_ok s \<and> length (m_queue s) < m_low s then (Asleep, worker_sleep w (WTake timed) s)
      else
        let s1 = s\<lparr>m_tottasks := m_tottasks s + 1, worker_pc := (worker_pc s)(w := WRun)\<rparr> in
        case m_queue s of
          [] \<Rightarrow> (Fault, s1)
        | t # ts \<Rightarrow>
            (Took t,
             if m_clients_waiting s > 0 then s1\<lparr>m_queue := ts, ccond := ccond s - {c}\<rparr>
             else s1\<lparr>m_queue := ts, m_nowake := m_nowake s + 1\<rparr>))"

definition take_enter :: "nat \<Rightarrow> bool \<Rightarrow> nat \<Rightarrow> 'a WorkQueue \<Rightarrow> 'a wq_event \<times> 'a WorkQueue" where
  "take_enter w timed c s = (if \<not> wq_ok s then (Refused, s) else take_loop w timed c s)"

definition worker_wake :: "nat \<Rightarrow> 'a WorkQueue \<Rightarrow> 'a WorkQueue" where
  "worker_wake w s =
     s\<lparr>m_workers_waiting := m_workers_waiting s - 1, worker_pc := (worker_pc s)(w := WRun), wcond := wcond s - {w}\<rparr>"

definition take_resume :: "nat \<Rightarrow> bool \<Rightarrow> nat \<Rightarrow> 'a WorkQueue \<Rightarrow> 'a wq_event \<times> 'a WorkQueue" where
  "take_resume w timed c s =
     (if \<not> wq_ok s then (Refused, worker_wake w s) else take_loop w timed c (worker_wake w s))"

definition take_timeout :: "nat \<Rightarrow> 'a WorkQueue \<Rightarrow> 'a wq_event \<times> 'a WorkQueue" where
  "take_timeout w s = (NoTask, worker_wake w s)"

definition minsz_loop :: "nat \<Rightarrow> nat \<Rightarrow> 'a WorkQueue \<Rightarrow> 'a wq_event \<times> 'a WorkQueue" where
  "minsz_loop w sz s =
     (if wq_ok s \<and> length (m_queue s) < sz then (Asleep, worker_sleep w (WMin sz) s) else (Enough, s))"

definition minsz_enter :: "nat \<Rightarrow> nat \<Rightarrow> 'a WorkQueue \<Rightarrow> 'a wq_event \<times> 'a WorkQueue" where
  "minsz_enter w sz s = (if \<not> wq_ok s then (Refused, s) else minsz_loop w sz s)"

definition minsz_resume :: "nat \<Rightarrow> nat \<Rightarrow> 'a WorkQueue \<Rightarrow> 'a wq_event \<times> 'a WorkQueue" where
  "minsz_resume w sz s =
     (if \<not> wq_ok s then (Refused, worker_wake w s) else minsz_loop w sz (worker_wake w s))"

definition workerExit :: "nat \<Rightarrow> 'a WorkQueue \<Rightarrow> 'a WorkQueue" where
  "workerExit w s =
     s\<lparr>m_workers_exited := m_workers_exited s + 1, m_ok := False, ccond := {},
       worker_pc := (worker_pc s)(w := WExited)\<rparr>"

section \<open>The system\<close>

text \<open>The thread that a single notification wakes is one of those asleep, if there is one.\<close>

definition wakes :: "nat set \<Rightarrow> nat \<Rightarrow> bool" where
  "wakes A x \<longleftrightarrow> A = {} \<or> x \<in> A"

inductive wq_step :: "'a WorkQueue \<Rightarrow> 'a wq_event \<Rightarrow> 'a WorkQueue \<Rightarrow> bool" where
  put: "client_pc s c = CIdle \<Longrightarrow> wakes (wcond s) w \<Longrightarrow> put_enter c t flush w s = (e, s1) \<Longrightarrow> wq_step s e s1"
| put_again: "client_pc s c = CPut t flush \<Longrightarrow> c \<notin> ccond s \<Longrightarrow> wakes (wcond s) w \<Longrightarrow>
    put_resume c t flush w s = (e, s1) \<Longrightarrow> wq_step s e s1"
| waitIdle: "client_pc s c = CIdle \<Longrightarrow> waitIdle_loop c s = (e, s1) \<Longrightarrow> wq_step s e s1"
| waitIdle_again: "client_pc s c = CWaitIdle \<Longrightarrow> c \<notin> ccond s \<Longrightarrow> waitIdle_resume c s = (e, s1) \<Longrightarrow> wq_step s e s1"
| terminate: "client_pc s c = CIdle \<Longrightarrow> term_enter c s = (e, s1) \<Longrightarrow> wq_step s e s1"
| terminate_again: "client_pc s c = CTerm \<Longrightarrow> c \<notin> ccond s \<Longrightarrow> term_resume c s = (e, s1) \<Longrightarrow> wq_step s e s1"
| start: "length (m_worker_threads s) + n < 2 ^ 32 \<Longrightarrow> wq_step s Other (wq_start n s)"
| close: "wq_step s Other (closeShop s)"
| client_spurious: "wq_step s Other (s\<lparr>ccond := ccond s - {c}\<rparr>)"
| take: "worker_pc s w = WRun \<Longrightarrow> wakes (ccond s) c \<Longrightarrow> take_enter w timed c s = (e, s1) \<Longrightarrow> wq_step s e s1"
| take_again: "worker_pc s w = WTake timed \<Longrightarrow> w \<notin> wcond s \<Longrightarrow> wakes (ccond s) c \<Longrightarrow>
    take_resume w timed c s = (e, s1) \<Longrightarrow> wq_step s e s1"
| timeout: "worker_pc s w = WTake True \<Longrightarrow> take_timeout w s = (e, s1) \<Longrightarrow> wq_step s e s1"
| minsz: "worker_pc s w = WRun \<Longrightarrow> minsz_enter w sz s = (e, s1) \<Longrightarrow> wq_step s e s1"
| minsz_again: "worker_pc s w = WMin sz \<Longrightarrow> w \<notin> wcond s \<Longrightarrow> minsz_resume w sz s = (e, s1) \<Longrightarrow> wq_step s e s1"
| exit: "worker_pc s w = WRun \<Longrightarrow> wq_step s Other (workerExit w s)"
| worker_spurious: "wq_step s Other (s\<lparr>wcond := wcond s - {w}\<rparr>)"

inductive wq_run :: "'a WorkQueue \<Rightarrow> 'a wq_event list \<Rightarrow> 'a WorkQueue \<Rightarrow> bool" for s0 where
  run_none: "wq_run s0 [] s0"
| run_step: "wq_run s0 tr s \<Longrightarrow> wq_step s e s1 \<Longrightarrow> wq_run s0 (tr @ [e]) s1"

inductive_cases run_snocE: "wq_run s0 (tr @ [e]) s"

lemma client_wake_sel [simp]:
  "m_high (client_wake s) = m_high s"
  "m_low (client_wake s) = m_low s"
  "m_queue (client_wake s) = m_queue s"
  "m_ok (client_wake s) = m_ok s"
  "m_openforbusiness (client_wake s) = m_openforbusiness s"
  "m_workers_exited (client_wake s) = m_workers_exited s"
  "m_worker_threads (client_wake s) = m_worker_threads s"
  "m_clients_waiting (client_wake s) = m_clients_waiting s - 1"
  "m_workers_waiting (client_wake s) = m_workers_waiting s"
  "client_pc (client_wake s) = client_pc s"
  "worker_pc (client_wake s) = worker_pc s"
  "ccond (client_wake s) = ccond s"
  "wcond (client_wake s) = wcond s"
  by (simp_all add: client_wake_def)

lemma worker_wake_sel [simp]:
  "m_high (worker_wake w s) = m_high s"
  "m_low (worker_wake w s) = m_low s"
  "m_queue (worker_wake w s) = m_queue s"
  "m_ok (worker_wake w s) = m_ok s"
  "m_openforbusiness (worker_wake w s) = m_openforbusiness s"
  "m_workers_exited (worker_wake w s) = m_workers_exited s"
  "m_worker_threads (worker_wake w s) = m_worker_threads s"
  "m_clients_waiting (worker_wake w s) = m_clients_waiting s"
  "m_workers_waiting (worker_wake w s) = m_workers_waiting s - 1"
  "client_pc (worker_wake w s) = client_pc s"
  "worker_pc (worker_wake w s) = (worker_pc s)(w := WRun)"
  "ccond (worker_wake w s) = ccond s"
  "wcond (worker_wake w s) = wcond s - {w}"
  by (simp_all add: worker_wake_def)

lemma worker_sleep_sel [simp]:
  "m_high (worker_sleep w pc s) = m_high s"
  "m_low (worker_sleep w pc s) = m_low s"
  "m_queue (worker_sleep w pc s) = m_queue s"
  "m_ok (worker_sleep w pc s) = m_ok s"
  "m_openforbusiness (worker_sleep w pc s) = m_openforbusiness s"
  "m_workers_exited (worker_sleep w pc s) = m_workers_exited s"
  "m_worker_threads (worker_sleep w pc s) = m_worker_threads s"
  "m_clients_waiting (worker_sleep w pc s) = m_clients_waiting s"
  "m_workers_waiting (worker_sleep w pc s) = m_workers_waiting s + 1"
  "client_pc (worker_sleep w pc s) = client_pc s"
  "worker_pc (worker_sleep w pc s) = (worker_pc s)(w := pc)"
  "ccond (worker_sleep w pc s) = (if m_queue s = [] then {} else ccond s)"
  "wcond (worker_sleep w pc s) = insert w (wcond s)"
  by (simp_all add: worker_sleep_def)

lemma wq_ok_wake [simp]: "wq_ok (client_wake s) = wq_ok s" "wq_ok (worker_wake w s) = wq_ok s"
  by (simp_all add: wq_ok_def)

lemmas client_defs = put_enter_def put_resume_def put_loop_def waitIdle_loop_def waitIdle_resume_def
  term_enter_def term_resume_def term_loop_def wq_start_def closeShop_def
lemmas worker_defs = take_enter_def take_resume_def take_loop_def take_timeout_def
  minsz_enter_def minsz_resume_def minsz_loop_def workerExit_def
lemmas step_splits = if_splits list.splits

section \<open>The limits and the order of the queue\<close>

lemma step_limits: "wq_step s e s1 \<Longrightarrow> m_high s1 = m_high s \<and> m_low s1 = m_low s"
  by (cases rule: wq_step.cases)
    (auto simp: client_defs worker_defs Let_def split: step_splits)

lemma run_limits: "wq_run s0 tr s \<Longrightarrow> m_high s = m_high s0 \<and> m_low s = m_low s0"
  by (induction rule: wq_run.induct) (auto dest: step_limits)

text \<open>The queue that the calls promise: what the events do to a list of tasks.\<close>

fun fifo_step :: "'a list \<Rightarrow> 'a wq_event \<Rightarrow> 'a list option" where
  "fifo_step q (Accepted t True) = Some [t]"
| "fifo_step q (Accepted t False) = Some (q @ [t])"
| "fifo_step (x # q) (Took t) = (if x = t then Some q else None)"
| "fifo_step [] (Took t) = None"
| "fifo_step q _ = Some q"

fun fifo_run :: "'a list \<Rightarrow> 'a wq_event list \<Rightarrow> 'a list option" where
  "fifo_run q [] = Some q"
| "fifo_run q (e # es) = (case fifo_step q e of None \<Rightarrow> None | Some q1 \<Rightarrow> fifo_run q1 es)"

lemma fifo_run_append: "fifo_run q (es @ fs) = (case fifo_run q es of None \<Rightarrow> None | Some q1 \<Rightarrow> fifo_run q1 fs)"
  by (induction es arbitrary: q) (auto split: option.splits)

lemma fifo_step_Accepted [simp]: "fifo_step q (Accepted t f) = Some ((if f then [] else q) @ [t])"
  by (cases f) auto

lemma step_fifo: "wq_step s e s1 \<Longrightarrow> fifo_step (m_queue s) e = Some (m_queue s1)"
  by (cases rule: wq_step.cases)
    (auto simp: client_defs worker_defs Let_def split: step_splits)

lemma run_fifo: "wq_run s0 tr s \<Longrightarrow> fifo_run (m_queue s0) tr = Some (m_queue s)"
  by (induction rule: wq_run.induct) (auto simp: fifo_run_append step_fifo)

lemma step_bounded:
  "wq_step s e s1 \<Longrightarrow> 0 < m_high s \<Longrightarrow> length (m_queue s) \<le> m_high s \<Longrightarrow> length (m_queue s1) \<le> m_high s"
  apply (cases rule: wq_step.cases)
  apply (auto simp: client_defs worker_defs Let_def put_full_def split: step_splits)
  done

section \<open>The counters of the workers\<close>

fun is_waiting :: "wpc \<Rightarrow> bool" where
  "is_waiting (WTake _) = True"
| "is_waiting (WMin _) = True"
| "is_waiting _ = False"

definition waiting :: "(nat \<Rightarrow> wpc) \<Rightarrow> nat set" where
  "waiting pc = {w. is_waiting (pc w)}"

definition exited :: "(nat \<Rightarrow> wpc) \<Rightarrow> nat set" where
  "exited pc = {w. pc w = WExited}"

text \<open>The counters of waiting and of exited workers are the numbers of such threads.\<close>

definition wq_inv :: "'a WorkQueue \<Rightarrow> bool" where
  "wq_inv s \<longleftrightarrow>
     m_worker_threads s = [0..<length (m_worker_threads s)] \<and> length (m_worker_threads s) < 2 ^ 32 \<and>
     (\<forall>w. worker_pc s w = WNone \<longleftrightarrow> length (m_worker_threads s) \<le> w) \<and>
     m_workers_waiting s = of_nat (card (waiting (worker_pc s))) \<and>
     m_workers_exited s = of_nat (card (exited (worker_pc s))) \<and>
     wcond s \<subseteq> waiting (worker_pc s)"

lemma waiting_upd [simp]:
  "waiting (pc(w := p)) = (if is_waiting p then insert w (waiting pc) else waiting pc - {w})"
  by (auto simp: waiting_def)

lemma exited_upd [simp]:
  "exited (pc(w := p)) = (if p = WExited then insert w (exited pc) else exited pc - {w})"
  by (auto simp: exited_def)

lemma waiting_fresh [simp]:
  "waiting (\<lambda>w. if k \<le> w \<and> w < k + n then WRun else pc w) = waiting pc - {k..<k + n}"
  by (auto simp: waiting_def)

lemma exited_fresh [simp]:
  "exited (\<lambda>w. if k \<le> w \<and> w < k + n then WRun else pc w) = exited pc - {k..<k + n}"
  by (auto simp: exited_def)

lemma none_waiting [simp]: "waiting (\<lambda>_. WNone) = {}" "exited (\<lambda>_. WNone) = {}"
  by (simp_all add: waiting_def exited_def)

lemma in_waiting_iff: "w \<in> waiting pc \<longleftrightarrow> is_waiting (pc w)"
  by (simp add: waiting_def)

lemma in_exited_iff: "w \<in> exited pc \<longleftrightarrow> pc w = WExited"
  by (simp add: exited_def)

lemma wq_inv_pc: "wq_inv s \<Longrightarrow> worker_pc s w = WNone \<longleftrightarrow> length (m_worker_threads s) \<le> w"
  by (simp add: wq_inv_def)

lemma wq_inv_in_range: "wq_inv s \<Longrightarrow> worker_pc s w \<noteq> WNone \<Longrightarrow> w < length (m_worker_threads s)"
  using wq_inv_pc[of s w] by simp

lemma waiting_bound:
  assumes inv: "wq_inv s" shows "waiting (worker_pc s) \<subseteq> {..<length (m_worker_threads s)}"
proof
  fix w assume "w \<in> waiting (worker_pc s)"
  then have "worker_pc s w \<noteq> WNone" by (auto simp: in_waiting_iff)
  then show "w \<in> {..<length (m_worker_threads s)}" using wq_inv_in_range[OF inv] by simp
qed

lemma exited_bound:
  assumes inv: "wq_inv s" shows "exited (worker_pc s) \<subseteq> {..<length (m_worker_threads s)}"
proof
  fix w assume "w \<in> exited (worker_pc s)"
  then have "worker_pc s w \<noteq> WNone" by (auto simp: in_exited_iff)
  then show "w \<in> {..<length (m_worker_threads s)}" using wq_inv_in_range[OF inv] by simp
qed

lemma wq_inv_finite:
  assumes "wq_inv s" shows "finite (waiting (worker_pc s))" and "finite (exited (worker_pc s))"
  using waiting_bound[OF assms] exited_bound[OF assms] by (auto intro: finite_subset)

lemma word_of_pred: "0 < n \<Longrightarrow> (of_nat (n - Suc 0) :: 32 word) = of_nat n - 1"
  by (cases n) simp_all

lemma card_pos: "finite A \<Longrightarrow> w \<in> A \<Longrightarrow> 0 < card A"
  by (auto simp: card_gt_0_iff)

lemma unat_card:
  assumes "A \<subseteq> {..<n}" and n: "(n::nat) < 2 ^ 32" shows "unat (of_nat (card A) :: 32 word) = card A"
proof -
  have "card A \<le> n" using card_mono[OF _ assms(1)] by simp
  then show ?thesis using n by (simp add: unat_of_nat take_bit_nat_eq_self)
qed

text \<open>Moves of one worker between running and waiting keep the invariant.\<close>

lemma wq_inv_other:
  "wq_inv s \<Longrightarrow> m_worker_threads s1 = m_worker_threads s \<Longrightarrow> worker_pc s1 = worker_pc s \<Longrightarrow>
   m_workers_waiting s1 = m_workers_waiting s \<Longrightarrow> m_workers_exited s1 = m_workers_exited s \<Longrightarrow>
   wcond s1 \<subseteq> wcond s \<Longrightarrow> wq_inv s1"
  unfolding wq_inv_def by auto

lemma wq_inv_move:
  assumes inv: "wq_inv s" and w: "worker_pc s w \<noteq> WNone" "worker_pc s w \<noteq> WExited" "p \<noteq> WNone"
    and s1: "m_worker_threads s1 = m_worker_threads s" "worker_pc s1 = (worker_pc s)(w := p)"
    and wcount: "m_workers_waiting s1 =
      m_workers_waiting s - (if is_waiting (worker_pc s w) then 1 else 0) + (if is_waiting p then 1 else 0)"
    and xcount: "m_workers_exited s1 = m_workers_exited s + (if p = WExited then 1 else 0)"
    and cond: "wcond s1 \<subseteq> (if is_waiting p then insert w (wcond s) else wcond s - {w})"
  shows "wq_inv s1"
proof -
  let ?W = "waiting (worker_pc s)" and ?X = "exited (worker_pc s)"
  note fin = wq_inv_finite[OF inv]
  have "w \<notin> ?X" using w by (simp add: in_exited_iff)
  have W: "w \<in> ?W \<longleftrightarrow> is_waiting (worker_pc s w)" by (simp add: in_waiting_iff)
  have "m_workers_waiting s = of_nat (card ?W)" "m_workers_exited s = of_nat (card ?X)"
    using inv by (simp_all add: wq_inv_def)
  then have "m_workers_waiting s1 = of_nat (card (waiting (worker_pc s1)))"
    using fin(1) W by (auto simp: wcount s1 insert_absorb word_of_pred card_pos)
  moreover have "m_workers_exited s1 = of_nat (card (exited (worker_pc s1)))"
    using fin(2) \<open>w \<notin> ?X\<close> \<open>m_workers_exited s = _\<close> by (simp add: xcount s1)
  moreover have "wcond s1 \<subseteq> waiting (worker_pc s1)"
    using cond inv by (auto simp: s1 wq_inv_def split: if_splits)
  moreover have "worker_pc s1 v = WNone \<longleftrightarrow> length (m_worker_threads s1) \<le> v" for v
    using wq_inv_pc[OF inv, of v] w by (auto simp: s1)
  ultimately show ?thesis using inv by (simp add: wq_inv_def s1)
qed

lemma wq_inv_start:
  assumes inv: "wq_inv s" and n: "length (m_worker_threads s) + n < 2 ^ 32" shows "wq_inv (wq_start n s)"
proof -
  let ?k = "length (m_worker_threads s)"
  have "waiting (worker_pc s) - {?k..<?k + n} = waiting (worker_pc s)"
    and "exited (worker_pc s) - {?k..<?k + n} = exited (worker_pc s)"
    using waiting_bound[OF inv] exited_bound[OF inv] by auto
  moreover have "m_worker_threads s @ [?k..<?k + n] = [0..<?k + n]"
    using inv by (metis upt_add_eq_append wq_inv_def zero_le)
  ultimately show ?thesis
    using inv n wq_inv_pc[OF inv] by (auto simp: wq_inv_def wq_start_def Let_def)
qed

lemma wq_inv_sleep:
  assumes "wq_inv s" "worker_pc s w = WRun" "is_waiting p" shows "wq_inv (worker_sleep w p s)"
  using assms by (auto intro!: wq_inv_move[where w = w and p = p and s = s])

lemma wq_inv_wake:
  assumes "wq_inv s" "is_waiting (worker_pc s w)" shows "wq_inv (worker_wake w s)"
  using assms by (auto intro!: wq_inv_move[where w = w and p = WRun and s = s])

lemma wq_inv_exit:
  assumes "wq_inv s" "worker_pc s w = WRun" shows "wq_inv (workerExit w s)"
proof -
  have "w \<notin> waiting (worker_pc s)" using assms(2) by (simp add: in_waiting_iff)
  then have cond: "w \<notin> wcond s" using assms(1) by (auto simp: wq_inv_def)
  show ?thesis
    by (rule wq_inv_move[where w = w and p = WExited and s = s]) (auto simp: assms workerExit_def cond)
qed

lemma take_loop_inv:
  "wq_inv s \<Longrightarrow> worker_pc s w = WRun \<Longrightarrow> take_loop w timed c s = (e, s1) \<Longrightarrow> wq_inv s1"
  by (auto simp: take_loop_def Let_def fun_upd_idem wq_inv_sleep split: step_splits elim: wq_inv_other)

lemma minsz_loop_inv:
  "wq_inv s \<Longrightarrow> worker_pc s w = WRun \<Longrightarrow> minsz_loop w sz s = (e, s1) \<Longrightarrow> wq_inv s1"
  by (auto simp: minsz_loop_def wq_inv_sleep split: step_splits)

lemma step_inv: "wq_step s e s1 \<Longrightarrow> wq_inv s \<Longrightarrow> wq_inv s1"
proof (induction rule: wq_step.induct)
  case (put s c w t flush e s1)
  then show ?case
    by (auto simp: client_defs Let_def split: step_splits elim!: wq_inv_other)
next
  case (put_again s c t flush w e s1)
  then show ?case
    by (auto simp: client_defs Let_def split: step_splits elim!: wq_inv_other)
next
  case (waitIdle s c e s1)
  then show ?case
    by (auto simp: client_defs Let_def split: step_splits elim!: wq_inv_other)
next
  case (waitIdle_again s c e s1)
  then show ?case
    by (auto simp: client_defs Let_def split: step_splits elim!: wq_inv_other)
next
  case (terminate s c e s1)
  then show ?case
    by (auto simp: client_defs Let_def wq_inv_def split: step_splits)
next
  case (terminate_again s c e s1)
  then show ?case
    by (auto simp: client_defs Let_def wq_inv_def split: step_splits)
next
  case (start s n)
  then show ?case by (simp add: wq_inv_start)
next
  case (close s)
  then show ?case by (auto simp: client_defs elim!: wq_inv_other)
next
  case (client_spurious s c)
  then show ?case by (auto elim!: wq_inv_other)
next
  case (take s w c timed e s1)
  then show ?case by (auto simp: take_enter_def split: if_splits intro: take_loop_inv)
next
  case (take_again s w timed c e s1)
  then show ?case
    using take_loop_inv[of "worker_wake w s" w timed c e s1]
    by (auto simp: take_resume_def wq_inv_wake split: if_splits)
next
  case (timeout s w e s1)
  then show ?case by (auto simp: take_timeout_def wq_inv_wake)
next
  case (minsz s w sz e s1)
  then show ?case by (auto simp: minsz_enter_def split: if_splits intro: minsz_loop_inv)
next
  case (minsz_again s w sz e s1)
  then show ?case
    using minsz_loop_inv[of "worker_wake w s" w sz e s1]
    by (auto simp: minsz_resume_def wq_inv_wake split: if_splits)
next
  case (exit s w)
  then show ?case by (simp add: wq_inv_exit)
next
  case (worker_spurious s w)
  then show ?case by (auto elim!: wq_inv_other)
qed

lemma new_inv: "wq_inv (wq_new hi lo)"
  by (simp add: wq_new_def wq_inv_def)

lemma run_inv: "wq_run (wq_new hi lo) tr s \<Longrightarrow> wq_inv s"
  by (induction rule: wq_run.induct) (auto intro: step_inv new_inv)

lemma waiting_counter: "wq_inv s \<Longrightarrow> unat (m_workers_waiting s) = card (waiting (worker_pc s))"
  using unat_card[OF waiting_bound, of s] by (simp add: wq_inv_def)

lemma idle_all_waiting:
  assumes inv: "wq_inv s" and ok: "wq_ok s" and idle: "\<not> not_idle s"
  shows "m_queue s = []" and "waiting (worker_pc s) = {..<length (m_worker_threads s)}"
proof -
  have 0: "m_workers_exited s = 0" "m_worker_threads s \<noteq> []" using ok by (simp_all add: wq_ok_def)
  then show "m_queue s = []" using idle by (auto simp: not_idle_def)
  have "length (m_worker_threads s) \<le> card (waiting (worker_pc s))"
    using idle 0 waiting_counter[OF inv] by (simp add: not_idle_def)
  then show "waiting (worker_pc s) = {..<length (m_worker_threads s)}"
    using card_subset_eq[OF _ waiting_bound[OF inv]] card_mono[OF _ waiting_bound[OF inv]] by simp
qed

section \<open>A task never sleeps with every worker\<close>

text \<open>
  The number of tasks that a sleeping worker waits for. While the queue runs some worker is awake, or one sleeps that
  waits for more tasks than the queue holds.
\<close>

fun wanted :: "nat \<Rightarrow> wpc \<Rightarrow> nat" where
  "wanted lo (WTake timed) = lo"
| "wanted lo (WMin sz) = sz"
| "wanted lo _ = 0"

definition someone_awake :: "'a WorkQueue \<Rightarrow> bool" where
  "someone_awake s \<longleftrightarrow>
     (\<exists>w < length (m_worker_threads s). w \<notin> wcond s \<or> length (m_queue s) < wanted (m_low s) (worker_pc s w))"

definition attended :: "'a WorkQueue \<Rightarrow> bool" where
  "attended s \<longleftrightarrow> (wq_ok s \<longrightarrow> someone_awake s)"

lemma step_inv_range: "wq_inv s \<Longrightarrow> wcond s \<subseteq> {..<length (m_worker_threads s)}"
  using waiting_bound[of s] by (auto simp: wq_inv_def)

lemma attended_awake:
  "w < length (m_worker_threads s) \<Longrightarrow> w \<notin> wcond s \<Longrightarrow> attended s"
  by (auto simp: attended_def someone_awake_def)

lemma attended_empty_cond: "wcond s = {} \<Longrightarrow> attended s"
  by (auto simp: attended_def someone_awake_def wq_ok_def)

lemma attended_not_ok: "\<not> wq_ok s \<Longrightarrow> attended s"
  by (simp add: attended_def)

lemma attended_asleep:
  "w < length (m_worker_threads s) \<Longrightarrow> length (m_queue s) < wanted (m_low s) (worker_pc s w) \<Longrightarrow> attended s"
  by (auto simp: attended_def someone_awake_def)

lemma attended_other:
  "attended s \<Longrightarrow> m_worker_threads s1 = m_worker_threads s \<Longrightarrow> worker_pc s1 = worker_pc s \<Longrightarrow>
   m_queue s1 = m_queue s \<Longrightarrow> m_low s1 = m_low s \<Longrightarrow> m_ok s1 = m_ok s \<Longrightarrow>
   m_workers_exited s1 = m_workers_exited s \<Longrightarrow> wcond s1 \<subseteq> wcond s \<Longrightarrow> attended s1"
  unfolding attended_def someone_awake_def wq_ok_def by auto

lemma none_waiting_cond:
  assumes inv: "wq_inv s" and 0: "m_workers_waiting s = 0" shows "wcond s = {}"
  using waiting_counter[OF inv] wq_inv_finite(1)[OF inv] inv 0 by (auto simp: wq_inv_def)

text \<open>Whoever puts a task wakes a worker, or finds one that was awake.\<close>

lemma put_loop_attended:
  assumes inv: "wq_inv s" and att: "attended s" and w: "wakes (wcond s) w"
    and step: "put_loop c t flush w s = (e, s1)"
  shows "attended s1"
proof (cases "put_full s")
  case True
  then show ?thesis using step att by (auto simp: put_loop_def elim!: attended_other)
next
  case False
  show ?thesis
  proof (cases "w \<in> wcond s")
    case True
    then have "m_workers_waiting s > 0" using none_waiting_cond[OF inv] by (auto simp: word_gt_0)
    then have "w < length (m_worker_threads s1)" "w \<notin> wcond s1"
      using True False step step_inv_range[OF inv] by (auto simp: put_loop_def Let_def)
    then show ?thesis by (rule attended_awake)
  next
    case outside: False
    then have "wcond s = {}" using w by (simp add: wakes_def)
    then show ?thesis
      using False step by (auto simp: put_loop_def Let_def split: if_splits intro!: attended_empty_cond)
  qed
qed

text \<open>A worker that leaves a call or goes back to sleep for want of tasks leaves the queue attended.\<close>

lemma take_loop_attended:
  assumes inv: "wq_inv s" and w: "worker_pc s w = WRun" and step: "take_loop w timed c s = (e, s1)"
  shows "attended s1"
proof (cases "wq_ok s \<and> length (m_queue s) < m_low s")
  case True
  then show ?thesis
    using step wq_inv_in_range[OF inv, of w] w by (auto simp: take_loop_def intro!: attended_asleep[of w])
next
  case False
  have "w < length (m_worker_threads s)" using wq_inv_in_range[OF inv] w by simp
  moreover have "w \<notin> wcond s" using inv w by (fastforce simp: wq_inv_def waiting_def)
  ultimately show ?thesis
    using False step
    by (intro attended_awake[of w]) (auto simp: take_loop_def Let_def split: step_splits)
qed

lemma minsz_loop_attended:
  assumes inv: "wq_inv s" and w: "worker_pc s w = WRun" and step: "minsz_loop w sz s = (e, s1)"
  shows "attended s1"
proof (cases "wq_ok s \<and> length (m_queue s) < sz")
  case True
  then show ?thesis
    using step wq_inv_in_range[OF inv, of w] w by (auto simp: minsz_loop_def intro!: attended_asleep[of w])
next
  case False
  have "w < length (m_worker_threads s)" using wq_inv_in_range[OF inv] w by simp
  moreover have "w \<notin> wcond s" using inv w by (fastforce simp: wq_inv_def waiting_def)
  ultimately show ?thesis
    using False step by (auto simp: minsz_loop_def intro!: attended_awake[of w])
qed

lemma wake_attended: "wq_inv s \<Longrightarrow> worker_pc s w \<noteq> WNone \<Longrightarrow> attended (worker_wake w s)"
  using wq_inv_in_range[of s w] by (auto intro: attended_awake[of w])

lemma client_wake_same [simp]: "wq_inv (client_wake s) = wq_inv s" "attended (client_wake s) = attended s"
  by (simp_all add: wq_inv_def attended_def someone_awake_def)

lemma start_attended:
  assumes inv: "wq_inv s" and att: "attended s" shows "attended (wq_start n s)"
proof (cases "n = 0")
  case True
  then show ?thesis using att by (auto simp: wq_start_def Let_def fun_eq_iff elim!: attended_other)
next
  case False
  then show ?thesis
    using step_inv_range[OF inv]
    by (intro attended_awake[of "length (m_worker_threads s)"]) (auto simp: wq_start_def Let_def)
qed

lemma term_loop_attended: "term_loop c s = (e, s1) \<Longrightarrow> attended s1"
  by (auto simp: term_loop_def split: if_splits intro!: attended_empty_cond)

lemma step_attended: "wq_step s e s1 \<Longrightarrow> wq_inv s \<Longrightarrow> attended s \<Longrightarrow> attended s1"
proof (induction rule: wq_step.induct)
  case (put s c w t flush e s1)
  then show ?case by (auto simp: put_enter_def split: if_splits intro: put_loop_attended)
next
  case (put_again s c t flush w e s1)
  then show ?case
    using put_loop_attended[of "client_wake s" w c t flush e s1]
    by (auto simp: put_resume_def wq_ok_def split: if_splits intro!: attended_not_ok)
next
  case (waitIdle s c e s1)
  then show ?case by (auto simp: waitIdle_loop_def split: if_splits elim!: attended_other)
next
  case (waitIdle_again s c e s1)
  then show ?case
    by (auto simp: waitIdle_resume_def waitIdle_loop_def split: if_splits elim!: attended_other)
next
  case (terminate s c e s1)
  then show ?case by (auto simp: term_enter_def split: if_splits intro: term_loop_attended)
next
  case (terminate_again s c e s1)
  then show ?case by (auto simp: term_resume_def intro: term_loop_attended)
next
  case (start s n)
  then show ?case by (simp add: start_attended)
next
  case (close s)
  then show ?case by (auto simp: closeShop_def elim!: attended_other)
next
  case (client_spurious s c)
  then show ?case by (auto elim!: attended_other)
next
  case (take s w c timed e s1)
  then show ?case by (auto simp: take_enter_def split: if_splits intro: take_loop_attended)
next
  case (take_again s w timed c e s1)
  then show ?case
    using take_loop_attended[of "worker_wake w s" w timed c e s1] wq_inv_wake[of s w] wake_attended[of s w]
    by (auto simp: take_resume_def split: if_splits)
next
  case (timeout s w e s1)
  then show ?case using wake_attended[of s w] by (auto simp: take_timeout_def)
next
  case (minsz s w sz e s1)
  then show ?case by (auto simp: minsz_enter_def split: if_splits intro: minsz_loop_attended)
next
  case (minsz_again s w sz e s1)
  then show ?case
    using minsz_loop_attended[of "worker_wake w s" w sz e s1] wq_inv_wake[of s w] wake_attended[of s w]
    by (auto simp: minsz_resume_def split: if_splits)
next
  case (exit s w)
  then show ?case by (auto simp: workerExit_def wq_ok_def intro!: attended_not_ok)
next
  case (worker_spurious s w)
  then show ?case by (auto elim!: attended_other)
qed

lemma run_attended: "wq_run (wq_new hi lo) tr s \<Longrightarrow> attended s"
  by (induction rule: wq_run.induct)
    (auto simp: wq_new_def wq_ok_def intro: step_attended run_inv[unfolded wq_new_def] attended_not_ok)

lemma no_fault: "wq_step s Fault s1 \<Longrightarrow> m_low s = 0"
  by (cases rule: wq_step.cases)
    (auto simp: client_defs worker_defs Let_def split: step_splits)

lemma not_idle_wake [simp]: "not_idle (client_wake s) = not_idle s"
  by (simp add: not_idle_def)

lemma idle_return_step: "wq_step s (IdleReturn b) s1 \<Longrightarrow> \<not> not_idle s \<and> b = wq_ok s"
  by (cases rule: wq_step.cases)
    (auto simp: client_defs worker_defs Let_def split: step_splits)

section \<open>A run to look at\<close>

text \<open>One worker, a queue for one task: a task is put and a second client sleeps on the full queue; the queue is then terminated.\<close>

definition demo1 :: "nat WorkQueue" where
  "demo1 = wq_start 1 (wq_new 1 1)"

definition demo2 :: "nat WorkQueue" where
  "demo2 = snd (put_enter 0 7 False 0 demo1)"

definition demo3 :: "nat WorkQueue" where
  "demo3 = snd (put_enter 0 8 False 0 demo2)"

definition demo4 :: "nat WorkQueue" where
  "demo4 = snd (term_enter 1 demo3)"

definition demo5 :: "nat WorkQueue" where
  "demo5 = workerExit 0 demo4"

definition demo6 :: "nat WorkQueue" where
  "demo6 = snd (term_resume 1 demo5)"

definition demo7 :: "nat WorkQueue" where
  "demo7 = snd (put_resume 0 8 False 0 demo6)"

text \<open>The other branch: the worker takes the task, sleeps, and \<open>waitIdle\<close> returns.\<close>

definition idle3 :: "nat WorkQueue" where
  "idle3 = snd (take_enter 0 False 0 demo2)"

definition idle4 :: "nat WorkQueue" where
  "idle4 = snd (take_enter 0 False 0 idle3)"

lemmas demo_defs = wq_new_def wq_ok_def put_full_def wakes_def not_idle_def worker_sleep_def worker_wake_def client_wake_def
  client_defs worker_defs Let_def
lemmas demos = demo1_def demo2_def demo3_def demo4_def demo5_def demo6_def demo7_def idle3_def idle4_def

lemma demo_run2: "wq_run (wq_new 1 1) [Other, Accepted 7 False] demo2"
proof -
  have "wq_run (wq_new 1 1) [] (wq_new 1 1)" by (rule run_none)
  then have "wq_run (wq_new 1 1) ([] @ [Other]) demo1"
    by (rule run_step) (unfold demo1_def, rule wq_step.start, simp add: wq_new_def)
  moreover have "wq_step demo1 (Accepted 7 False) demo2"
    by (rule wq_step.put[of _ 0 0 7 False]) (simp_all add: demos demo_defs)
  ultimately show ?thesis using run_step by fastforce
qed

lemma run_more: "wq_run s0 tr s \<Longrightarrow> wq_step s e s1 \<Longrightarrow> tr1 = tr @ [e] \<Longrightarrow> wq_run s0 tr1 s1"
  by (simp add: run_step)

lemma demo_step2: "wq_step demo2 Asleep demo3"
  by (rule wq_step.put[of _ 0 0 8 False]) (simp_all add: demos demo_defs)

lemma demo_step3: "wq_step demo3 Asleep demo4"
  by (rule wq_step.terminate[of _ 1]) (simp_all add: demos demo_defs)

lemma demo_step4: "wq_step demo4 Other demo5"
  unfolding demo5_def by (rule wq_step.exit) (simp_all add: demos demo_defs)

lemma demo_step5: "wq_step demo5 Terminated demo6"
  by (rule wq_step.terminate_again[of _ 1]) (simp_all add: demos demo_defs)

lemma demo_step6: "wq_step demo6 Refused demo7"
  by (rule wq_step.put_again[of _ 0 8 False 0]) (simp_all add: demos demo_defs)

lemma idle_step2: "wq_step demo2 (Took 7) idle3"
  by (rule wq_step.take[of _ 0 0 False]) (simp_all add: demos demo_defs)

lemma idle_step3: "wq_step idle3 Asleep idle4"
  by (rule wq_step.take[of _ 0 0 False]) (simp_all add: idle4_def demos demo_defs)

lemma idle_step4: "wq_step idle4 (IdleReturn True) (snd (waitIdle_loop 0 idle4))"
  by (rule wq_step.waitIdle[of _ 0]) (simp_all add: idle4_def demos demo_defs)

lemma idle_run: "wq_run (wq_new 1 1) [Other, Accepted 7 False, Took 7, Asleep] idle4"
  by (rule run_more[OF run_more[OF demo_run2 idle_step2] idle_step3]) simp_all

lemma demo_run: "wq_run (wq_new 1 1) [Other, Accepted 7 False, Asleep, Asleep, Other, Terminated, Refused] demo7"
  by (rule run_more[OF run_more[OF run_more[OF run_more[OF run_more[OF demo_run2 demo_step2] demo_step3]
          demo_step4] demo_step5] demo_step6]) simp_all

section \<open>What every run of the queue keeps\<close>

text \<open>
  C31. In every state that the clients and the workers can reach, whatever the order of their calls and wake-ups, a queue
  with a limit holds no more tasks than that limit.
\<close>

theorem wq_bounded:
  assumes "wq_run (wq_new hi lo) tr s" and "0 < hi"
  shows "length (m_queue s) \<le> hi"
  using assms
proof (induction rule: wq_run.induct)
  case (run_step tr s e s1)
  then show ?case using step_bounded[of s e s1] run_limits[of _ tr s] by (simp add: wq_new_def)
qed (simp add: wq_new_def)

theorem wq_bounded_witness: "length (m_queue demo7) \<le> 1"
  using wq_bounded[OF demo_run] by simp

text \<open>
  C30. The queue refines a plain first-in first-out list: replaying the tasks that put accepted (a flush drops what was queued) and
  the tasks that take returned on an empty list never fails, that is every task taken is the oldest one, and ends in the
  queue's content. No task is lost, taken twice or out of order.
\<close>

theorem wq_fifo:
  assumes "wq_run (wq_new hi lo) tr s"
  shows "fifo_run [] tr = Some (m_queue s)"
  using run_fifo[OF assms] by (simp add: wq_new_def)

theorem wq_fifo_witness: "fifo_run [] [Other, Accepted 7 False, Took 7, Asleep] = Some (m_queue idle4)"
  by (rule wq_fifo[OF idle_run])

text \<open>
  waitIdle tells the truth: when it returns true, the queue is empty and every worker thread is waiting for a task, at
  32-bit counters and for any interleaving with the other clients and with timed-out and spurious wake-ups.
\<close>

theorem wq_idle_return:
  assumes run: "wq_run (wq_new hi lo) tr s" and ret: "wq_step s (IdleReturn True) s1"
  shows "m_queue s = [] \<and> (\<forall>w < length (m_worker_threads s). is_waiting (worker_pc s w))"
  using idle_all_waiting[OF run_inv[OF run]] idle_return_step[OF ret] by (auto simp: set_eq_iff in_waiting_iff)

theorem wq_idle_return_witness: "m_queue idle4 = [] \<and> is_waiting (worker_pc idle4 0)"
  using wq_idle_return[OF idle_run idle_step4] by (auto simp: idle4_def demos demo_defs)

text \<open>
  C32. No wake-up of a worker is lost: in every reachable state where the queue runs, some worker thread is not asleep on the condition
  variable (it runs, or was notified and will look at the queue again), or a worker sleeps that waits for more tasks
  than the queue holds: the low limit in take, its own number in waitminsz. So when the queue holds the low limit and no worker
  waits in waitminsz for more than it holds, a worker is awake: one notify_one per put is enough. (A worker of waitminsz that
  wants more can take the notification of a put and sleep again, beside workers in take that had enough.)
\<close>

theorem wq_no_lost_wakeup:
  assumes "wq_run (wq_new hi lo) tr s" and "wq_ok s"
  shows "(\<exists>w < length (m_worker_threads s). w \<notin> wcond s) \<or>
    (\<exists>w < length (m_worker_threads s). w \<in> wcond s \<and> length (m_queue s) < wanted lo (worker_pc s w))"
  using run_attended[OF assms(1)] run_limits[OF assms(1)] assms(2)
  by (auto simp: attended_def someone_awake_def wq_new_def)

theorem wq_no_lost_wakeup_witness:
  "0 \<notin> wcond demo2 \<and> 0 \<in> wcond idle4 \<and> length (m_queue idle4) < wanted 1 (worker_pc idle4 0)"
  using wq_no_lost_wakeup[OF demo_run2] wq_no_lost_wakeup[OF idle_run]
  by (simp add: idle4_def demos demo_defs)

text \<open>
  A take never reads the front of an empty queue when the low limit is at least one, as the constructor's default
  is: no run has that event.
\<close>

theorem wq_take_safe:
  assumes "wq_run (wq_new hi lo) tr s" and "0 < lo"
  shows "Fault \<notin> set tr"
  using assms
proof (induction rule: wq_run.induct)
  case (run_step tr s e s1)
  then show ?case using no_fault[of s s1] run_limits[of _ tr s] by (auto simp: wq_new_def)
qed simp

theorem wq_take_safe_witness: "Fault \<notin> set [Other, Accepted 7 False, Took (7 :: nat), Asleep]"
  by (rule wq_take_safe[OF idle_run]) simp

text \<open>
  Terminating the queue while a client sleeps in put breaks the count of waiting clients: setTerminateAndWait
  resets the count to zero, and the client, which wakes up after that, takes it below zero. A run leads to a state where no
  client is in a call and the counter is 2 ^ 32 - 1, so every later take notifies a client that is not there.
\<close>

theorem wq_terminate_wraps_clients:
  "\<exists>tr s. wq_run (wq_new 1 1) tr (s :: nat WorkQueue) \<and> (\<forall>c. client_pc s c = CIdle) \<and>
     m_clients_waiting s = 2 ^ 32 - 1"
  by (rule exI, rule exI[of _ demo7]) (use demo_run in \<open>auto simp: demos demo_defs\<close>)

end
