(* ===== verification/Md5.thy ===== *)
theory Md5
  imports Prelude Str_Escape
begin

text \<open>
  The MD5 digest of \<open>utils/md5.cpp\<close>: the context with its 64 byte buffer and bit count, the transform of a block, the
  update by pieces, the padding, and the hexadecimal forms. The reference is the digest of RFC 1321 as a fold of the transform over the
  blocks of the padded message.
\<close>

section \<open>The transform\<close>

definition F1 :: "32 word \<Rightarrow> 32 word \<Rightarrow> 32 word \<Rightarrow> 32 word" where
  "F1 x y z = z XOR (x AND (y XOR z))"

definition F2 :: "32 word \<Rightarrow> 32 word \<Rightarrow> 32 word \<Rightarrow> 32 word" where
  "F2 x y z = F1 z x y"

definition F3 :: "32 word \<Rightarrow> 32 word \<Rightarrow> 32 word \<Rightarrow> 32 word" where
  "F3 x y z = x XOR y XOR z"

definition F4 :: "32 word \<Rightarrow> 32 word \<Rightarrow> 32 word \<Rightarrow> 32 word" where
  "F4 x y z = y XOR (x OR NOT z)"

definition MD5STEP ::
  "(32 word \<Rightarrow> 32 word \<Rightarrow> 32 word \<Rightarrow> 32 word) \<Rightarrow> 32 word \<Rightarrow> 32 word \<Rightarrow> 32 word \<Rightarrow> 32 word \<Rightarrow> 32 word \<Rightarrow> nat \<Rightarrow> 32 word" where
  "MD5STEP f w x y z data s =
     (let w1 = w + (f x y z + data); w2 = push_bit s w1 OR drop_bit (32 - s) w1 in w2 + x)"

text \<open>The steps of the four rounds: the input word, the constant and the shift. Each step changes the first of the four variables, and
  the next step has them rotated by one place.\<close>

definition md5_round1 :: "(nat \<times> 32 word \<times> nat) list" where
  "md5_round1 =
    [(0, 0xd76aa478, 7), (1, 0xe8c7b756, 12), (2, 0x242070db, 17), (3, 0xc1bdceee, 22),
     (4, 0xf57c0faf, 7), (5, 0x4787c62a, 12), (6, 0xa8304613, 17), (7, 0xfd469501, 22),
     (8, 0x698098d8, 7), (9, 0x8b44f7af, 12), (10, 0xffff5bb1, 17), (11, 0x895cd7be, 22),
     (12, 0x6b901122, 7), (13, 0xfd987193, 12), (14, 0xa679438e, 17), (15, 0x49b40821, 22)]"

definition md5_round2 :: "(nat \<times> 32 word \<times> nat) list" where
  "md5_round2 =
    [(1, 0xf61e2562, 5), (6, 0xc040b340, 9), (11, 0x265e5a51, 14), (0, 0xe9b6c7aa, 20),
     (5, 0xd62f105d, 5), (10, 0x02441453, 9), (15, 0xd8a1e681, 14), (4, 0xe7d3fbc8, 20),
     (9, 0x21e1cde6, 5), (14, 0xc33707d6, 9), (3, 0xf4d50d87, 14), (8, 0x455a14ed, 20),
     (13, 0xa9e3e905, 5), (2, 0xfcefa3f8, 9), (7, 0x676f02d9, 14), (12, 0x8d2a4c8a, 20)]"

definition md5_round3 :: "(nat \<times> 32 word \<times> nat) list" where
  "md5_round3 =
    [(5, 0xfffa3942, 4), (8, 0x8771f681, 11), (11, 0x6d9d6122, 16), (14, 0xfde5380c, 23),
     (1, 0xa4beea44, 4), (4, 0x4bdecfa9, 11), (7, 0xf6bb4b60, 16), (10, 0xbebfbc70, 23),
     (13, 0x289b7ec6, 4), (0, 0xeaa127fa, 11), (3, 0xd4ef3085, 16), (6, 0x04881d05, 23),
     (9, 0xd9d4d039, 4), (12, 0xe6db99e5, 11), (15, 0x1fa27cf8, 16), (2, 0xc4ac5665, 23)]"

definition md5_round4 :: "(nat \<times> 32 word \<times> nat) list" where
  "md5_round4 =
    [(0, 0xf4292244, 6), (7, 0x432aff97, 10), (14, 0xab9423a7, 15), (5, 0xfc93a039, 21),
     (12, 0x655b59c3, 6), (3, 0x8f0ccc92, 10), (10, 0xffeff47d, 15), (1, 0x85845dd1, 21),
     (8, 0x6fa87e4f, 6), (15, 0xfe2ce6e0, 10), (6, 0xa3014314, 15), (13, 0x4e0811a1, 21),
     (4, 0xf7537e82, 6), (11, 0xbd3af235, 10), (2, 0x2ad7d2bb, 15), (9, 0xeb86d391, 21)]"

type_synonym md5_state = "32 word \<times> 32 word \<times> 32 word \<times> 32 word"

fun md5_step :: "(32 word \<Rightarrow> 32 word \<Rightarrow> 32 word \<Rightarrow> 32 word) \<Rightarrow> 32 word list \<Rightarrow> md5_state \<Rightarrow> nat \<times> 32 word \<times> nat \<Rightarrow> md5_state" where
  "md5_step f inp (w, x, y, z) (i, k, s) = (z, MD5STEP f w x y z (inp ! i + k) s, x, y)"

definition le_word :: "byte list \<Rightarrow> 32 word" where
  "le_word bs = ucast (bs ! 0) OR push_bit 8 (ucast (bs ! 1)) OR push_bit 16 (ucast (bs ! 2)) OR push_bit 24 (ucast (bs ! 3))"

definition block_words :: "byte list \<Rightarrow> 32 word list" where
  "block_words block = map (\<lambda>a. le_word (drop (4 * a) block)) [0..<16]"

definition MD5Transform :: "md5_state \<Rightarrow> byte list \<Rightarrow> md5_state" where
  "MD5Transform st block =
     (let inp = block_words block;
          r1 = foldl (md5_step F1 inp) st md5_round1;
          r2 = foldl (md5_step F2 inp) r1 md5_round2;
          r3 = foldl (md5_step F3 inp) r2 md5_round3;
          r4 = foldl (md5_step F4 inp) r3 md5_round4
      in case st of (s0, s1, s2, s3) \<Rightarrow> case r4 of (a, b, c, d) \<Rightarrow> (s0 + a, s1 + b, s2 + c, s3 + d))"

section \<open>The context\<close>

record MD5_CTX =
  md5_st :: md5_state
  md5_count :: "64 word"
  md5_buffer :: "byte list"

definition md5_start :: md5_state where
  "md5_start = (0x67452301, 0xefcdab89, 0x98badcfe, 0x10325476)"

definition MD5Init :: "MD5_CTX \<Rightarrow> MD5_CTX" where
  "MD5Init ctx = ctx\<lparr>md5_count := 0, md5_st := md5_start\<rparr>"

definition md5_have :: "64 word \<Rightarrow> nat" where
  "md5_have count = unat (drop_bit 3 count AND 63)"

definition memcpy_at :: "'b list \<Rightarrow> nat \<Rightarrow> 'b list \<Rightarrow> 'b list" where
  "memcpy_at dst pos xs = take pos dst @ xs @ drop (pos + length xs) dst"

text \<open>The blocks of the input itself; the rest is shorter than a block.\<close>

function md5_blocks :: "md5_state \<Rightarrow> byte list \<Rightarrow> md5_state \<times> byte list" where
  "md5_blocks st inp =
     (if 64 \<le> length inp then md5_blocks (MD5Transform st (take 64 inp)) (drop 64 inp) else (st, inp))"
  by pat_completeness auto
termination
  by (relation "measure (\<lambda>(st, inp). length inp)") auto

declare md5_blocks.simps [simp del]

text \<open>First the block begun in the buffer is filled, when the input is long enough.\<close>

definition md5_fill :: "nat \<Rightarrow> byte list \<Rightarrow> MD5_CTX \<Rightarrow> byte list \<times> nat \<times> MD5_CTX" where
  "md5_fill have inp ctx =
     (if have \<noteq> 0 then
        let buf = memcpy_at (md5_buffer ctx) have (take (64 - have) inp) in
        (drop (64 - have) inp, 0, ctx\<lparr>md5_buffer := buf, md5_st := MD5Transform (md5_st ctx) buf\<rparr>)
      else (inp, have, ctx))"

definition MD5Update :: "byte list \<Rightarrow> MD5_CTX \<Rightarrow> MD5_CTX" where
  "MD5Update inp ctx =
     (let have = md5_have (md5_count ctx);
          ctx1 = ctx\<lparr>md5_count := md5_count ctx + push_bit 3 (of_nat (length inp))\<rparr>;
          (rest, have2, ctx2) =
            (if 64 - have \<le> length inp then
               case md5_fill have inp ctx1 of
                 (rest, have2, ctx2) \<Rightarrow>
                   (case md5_blocks (md5_st ctx2) rest of (st, rest2) \<Rightarrow> (rest2, have2, ctx2\<lparr>md5_st := st\<rparr>))
             else (inp, have, ctx1))
      in if rest \<noteq> [] then ctx2\<lparr>md5_buffer := memcpy_at (md5_buffer ctx2) have2 rest\<rparr> else ctx2)"

definition PADDING :: "byte list" where
  "PADDING = 0x80 # replicate 63 0"

definition put_64bit_le :: "64 word \<Rightarrow> byte list" where
  "put_64bit_le v = map (\<lambda>i. ucast (drop_bit (8 * i) v)) [0..<8]"

definition put_32bit_le :: "32 word \<Rightarrow> byte list" where
  "put_32bit_le v = map (\<lambda>i. ucast (drop_bit (8 * i) v)) [0..<4]"

definition md5_padlen :: "64 word \<Rightarrow> nat" where
  "md5_padlen count =
     (let padlen = 64 - md5_have count in if padlen < 1 + 8 then padlen + 64 else padlen)"

fun state_bytes :: "md5_state \<Rightarrow> byte list" where
  "state_bytes (s0, s1, s2, s3) = put_32bit_le s0 @ put_32bit_le s1 @ put_32bit_le s2 @ put_32bit_le s3"

text \<open>The digest; the context is then cleared.\<close>

definition MD5Final :: "MD5_CTX \<Rightarrow> byte list \<times> MD5_CTX" where
  "MD5Final ctx =
     (let count = put_64bit_le (md5_count ctx);
          ctx1 = MD5Update (take (md5_padlen (md5_count ctx) - 8) PADDING) ctx;
          ctx2 = MD5Update count ctx1
      in (state_bytes (md5_st ctx2), \<lparr>md5_st = (0, 0, 0, 0), md5_count = 0, md5_buffer = replicate 64 0\<rparr>))"

section \<open>Strings\<close>

text \<open>\<open>ctx\<close> is the uninitialised context on the stack.\<close>

definition MD5String :: "MD5_CTX \<Rightarrow> string \<Rightarrow> string" where
  "MD5String ctx data = map char_of_byte (fst (MD5Final (MD5Update (map byte_of data) (MD5Init ctx))))"

text \<open>The 16 bytes are read from \<open>c_str()\<close>, which has one null byte after the string.\<close>

definition MD5HexPrint :: "string \<Rightarrow> string run" where
  "MD5HexPrint digest =
     (if length digest < 15 then Inl BadAccess
      else Inr (concat (map hex_byte (take 16 (digest @ [CHR 0x00])))))"

definition MD5Hex :: "MD5_CTX \<Rightarrow> string \<Rightarrow> string run" where
  "MD5Hex ctx data = MD5HexPrint (MD5String ctx data)"

text \<open>
  \<open>sscanf\<close> with \<open>%2x\<close>, at most two characters after white space: a sign and a digit, or one or two digits; \<open>0x\<close> alone is a prefix without
  digits, which does not match. The value goes through \<open>unsigned int\<close> to a byte.
\<close>

definition is_xdigit :: "char \<Rightarrow> bool" where
  "is_xdigit c \<longleftrightarrow> h2d c \<noteq> -1"

definition hex_value :: "string \<Rightarrow> int" where
  "hex_value ds = foldl (\<lambda>v c. 16 * v + h2d c) 0 ds"

definition scan_2x :: "string \<Rightarrow> byte option" where
  "scan_2x s =
     (case take 2 (dropWhile is_space (takeWhile (\<lambda>c. c \<noteq> CHR 0x00) s)) of
        [] \<Rightarrow> None
      | c # u \<Rightarrow>
          if c = CHR ''-'' \<or> c = CHR ''+'' then
            (let ds = takeWhile is_xdigit u in
             if ds = [] then None else Some (of_int (if c = CHR ''-'' then - hex_value ds else hex_value ds)))
          else if c = CHR ''0'' \<and> (u = ''x'' \<or> u = ''X'') then None
          else
            (let ds = takeWhile is_xdigit (c # u) in
             if ds = [] then None else Some (of_int (hex_value ds))))"

fun hexscan_loop :: "string \<Rightarrow> nat \<Rightarrow> string \<Rightarrow> string" where
  "hexscan_loop xs 0 digest = digest"
| "hexscan_loop xs (Suc n) digest =
     (case scan_2x xs of
        None \<Rightarrow> []
      | Some b \<Rightarrow> hexscan_loop (drop 2 xs) n (digest @ [char_of_byte b]))"

definition MD5HexScan :: "string \<Rightarrow> string" where
  "MD5HexScan xdigest = (if length xdigest \<noteq> 32 then [] else hexscan_loop xdigest 16 [])"

section \<open>The count and the blocks\<close>

lemma md5_have_bits: "md5_have w = unat w div 8 mod 64"
proof -
  have "drop_bit 3 w AND 63 = take_bit 6 (drop_bit 3 w)"
    by (simp add: take_bit_eq_mask mask_eq_exp_minus_1)
  then show ?thesis
    by (simp add: md5_have_def take_bit_eq_mod drop_bit_eq_div unat_mod_distrib unat_div_distrib)
qed

lemma md5_have_less [simp]: "md5_have w < 64"
  by (simp add: md5_have_bits)

lemma mod_mult_div: "n mod (8 * k) div 8 = n div 8 mod (k :: nat)"
  by (simp add: mod_mult2_eq)

lemma md5_have_count: "md5_have (push_bit 3 (of_nat n)) = n mod 64"
proof -
  have "push_bit 3 (of_nat n) = (of_nat (8 * n) :: 64 word)"
    by (simp add: push_bit_eq_mult)
  then have "unat (push_bit 3 (of_nat n) :: 64 word) = 8 * n mod (8 * 2 ^ 61)"
    by (simp only: unat_of_nat) simp
  then have "md5_have (push_bit 3 (of_nat n)) = 8 * n mod (8 * 2 ^ 61) div 8 mod 64"
    by (simp only: md5_have_bits)
  also have "\<dots> = n mod 2 ^ 61 mod 64" by (simp only: mod_mult_div) simp
  also have "\<dots> = n mod 64" by (rule mod_mod_cancel) simp
  finally show ?thesis .
qed

lemma length_memcpy_at [simp]: "pos + length xs \<le> length dst \<Longrightarrow> length (memcpy_at dst pos xs) = length dst"
  by (simp add: memcpy_at_def)

lemma md5_blocks_short: "length inp < 64 \<Longrightarrow> md5_blocks st inp = (st, inp)"
  by (subst md5_blocks.simps) simp

lemma md5_blocks_rest: "length (snd (md5_blocks st inp)) = length inp mod 64"
proof (induction st inp rule: md5_blocks.induct)
  case (1 st inp)
  then show ?case by (subst md5_blocks.simps) (auto simp: le_mod_geq)
qed

lemma md5_blocks_append: "md5_blocks st (xs @ ys) = (case md5_blocks st xs of (st1, r) \<Rightarrow> md5_blocks st1 (r @ ys))"
proof (induction st xs rule: md5_blocks.induct)
  case (1 st xs)
  show ?case
  proof (cases "64 \<le> length xs")
    case True
    have "md5_blocks st (xs @ ys) = md5_blocks (MD5Transform st (take 64 xs)) (drop 64 xs @ ys)"
      using True by (subst md5_blocks.simps) simp
    moreover have "md5_blocks st xs = md5_blocks (MD5Transform st (take 64 xs)) (drop 64 xs)"
      using True by (subst md5_blocks.simps) simp
    ultimately show ?thesis using 1 True by simp
  next
    case False
    then show ?thesis by (simp add: md5_blocks_short)
  qed
qed

lemma md5_blocks_first: "length b = 64 \<Longrightarrow> md5_blocks st (b @ r) = md5_blocks (MD5Transform st b) r"
  by (subst md5_blocks.simps) simp

text \<open>What a context stands for: the state after the full blocks and the bytes of the block begun.\<close>

definition md5_pending :: "MD5_CTX \<Rightarrow> byte list" where
  "md5_pending ctx = take (md5_have (md5_count ctx)) (md5_buffer ctx)"

definition md5_ok :: "MD5_CTX \<Rightarrow> byte list \<Rightarrow> bool" where
  "md5_ok ctx m \<longleftrightarrow>
     length (md5_buffer ctx) = 64 \<and> md5_count ctx = push_bit 3 (of_nat (length m)) \<and>
     md5_blocks md5_start m = (md5_st ctx, md5_pending ctx)"

lemma md5_ok_length: "md5_ok ctx m \<Longrightarrow> md5_have (md5_count ctx) = length m mod 64"
  by (simp add: md5_ok_def md5_have_count)

lemma md5_count_add: "push_bit 3 (of_nat m) + push_bit 3 (of_nat n) = (push_bit 3 (of_nat (m + n)) :: 64 word)"
  by (simp add: push_bit_eq_mult algebra_simps)

lemma MD5Init_ok: "length (md5_buffer ctx) = 64 \<Longrightarrow> md5_ok (MD5Init ctx) []"
  by (simp add: md5_ok_def MD5Init_def md5_pending_def md5_have_def md5_blocks_short)

text \<open>What an update does to the state and the block begun, in the three branches of the code.\<close>

lemma memcpy_prefix: "pos + length xs \<le> length dst \<Longrightarrow> take (pos + length xs) (memcpy_at dst pos xs) = take pos dst @ xs"
  by (simp add: memcpy_at_def)

lemma memcpy_full: "pos + length xs = length dst \<Longrightarrow> memcpy_at dst pos xs = take pos dst @ xs"
  by (simp add: memcpy_at_def)

lemma MD5Update_short:
  assumes "length (md5_buffer ctx) = 64" "h = md5_have (md5_count ctx)" "length inp < 64 - h"
  defines "ctx1 \<equiv> MD5Update inp ctx"
  shows "md5_count ctx1 = md5_count ctx + push_bit 3 (of_nat (length inp))"
    and "length (md5_buffer ctx1) = 64"
    and "md5_st ctx1 = md5_st ctx"
    and "take (h + length inp) (md5_buffer ctx1) = take h (md5_buffer ctx) @ inp"
  using assms by (simp_all add: MD5Update_def memcpy_prefix Let_def)

lemma md5_fill_blocks:
  assumes buf: "length (md5_buffer ctx) = 64" and h: "h < 64" and len: "64 - h \<le> length inp"
    and fill: "md5_fill h inp ctx = (rest, h2, ctx2)"
  shows "h2 = 0" and "md5_count ctx2 = md5_count ctx" and "length (md5_buffer ctx2) = 64"
    and "md5_blocks (md5_st ctx2) rest = md5_blocks (md5_st ctx) (take h (md5_buffer ctx) @ inp)"
proof -
  let ?b = "take h (md5_buffer ctx) @ take (64 - h) inp"
  have b: "memcpy_at (md5_buffer ctx) h (take (64 - h) inp) = ?b"
    using buf h len by (intro memcpy_full) simp
  have "length ?b = 64" using buf h len by simp
  note first = md5_blocks_first[OF this, of "md5_st ctx" "drop (64 - h) inp"]
  have split: "?b @ drop (64 - h) inp = take h (md5_buffer ctx) @ inp" by simp
  show "h2 = 0" and "md5_count ctx2 = md5_count ctx" and "length (md5_buffer ctx2) = 64"
    and "md5_blocks (md5_st ctx2) rest = md5_blocks (md5_st ctx) (take h (md5_buffer ctx) @ inp)"
    using fill buf b first[unfolded split] \<open>length ?b = 64\<close> by (auto simp: md5_fill_def Let_def split: if_splits)
qed

lemma MD5Update_long:
  assumes buf: "length (md5_buffer ctx) = 64" and h: "h = md5_have (md5_count ctx)" and len: "64 - h \<le> length inp"
  shows "md5_count (MD5Update inp ctx) = md5_count ctx + push_bit 3 (of_nat (length inp))"
    and "length (md5_buffer (MD5Update inp ctx)) = 64"
    and "md5_blocks (md5_st ctx) (take h (md5_buffer ctx) @ inp) =
      (md5_st (MD5Update inp ctx), take ((h + length inp) mod 64) (md5_buffer (MD5Update inp ctx)))"
proof -
  let ?ctx1 = "ctx\<lparr>md5_count := md5_count ctx + push_bit 3 (of_nat (length inp))\<rparr>"
  obtain rest h2 ctx2 where fill: "md5_fill h inp ?ctx1 = (rest, h2, ctx2)" by (metis prod_cases3)
  note f = md5_fill_blocks[OF _ _ len fill]
  have f: "h2 = 0" "md5_count ctx2 = md5_count ?ctx1" "length (md5_buffer ctx2) = 64"
    "md5_blocks (md5_st ctx2) rest = md5_blocks (md5_st ctx) (take h (md5_buffer ctx) @ inp)"
    using f buf h by simp_all
  obtain st r where b: "md5_blocks (md5_st ctx2) rest = (st, r)" by fastforce
  have r: "length r = (h + length inp) mod 64"
    using md5_blocks_rest[of "md5_st ctx2" rest] md5_blocks_rest[of "md5_st ctx" "take h (md5_buffer ctx) @ inp"] b f(4) buf md5_have_less[of "md5_count ctx"]
    by (simp add: h)
  have u: "MD5Update inp ctx =
      (if r \<noteq> [] then ctx2\<lparr>md5_st := st, md5_buffer := memcpy_at (md5_buffer ctx2) 0 r\<rparr> else ctx2\<lparr>md5_st := st\<rparr>)"
    using len fill b f(1) by (simp add: MD5Update_def h[symmetric] Let_def)
  have "length r < 64" using r by simp
  then show "md5_count (MD5Update inp ctx) = md5_count ctx + push_bit 3 (of_nat (length inp))"
    and "length (md5_buffer (MD5Update inp ctx)) = 64"
    using f by (simp_all add: u)
  have md5_st_u: "md5_st (MD5Update inp ctx) = st" by (simp add: u)
  have "take (length r) (md5_buffer (MD5Update inp ctx)) = r"
    using memcpy_prefix[of 0 r "md5_buffer ctx2"] f(3) \<open>length r < 64\<close> by (simp add: u)
  then show "md5_blocks (md5_st ctx) (take h (md5_buffer ctx) @ inp) =
      (md5_st (MD5Update inp ctx), take ((h + length inp) mod 64) (md5_buffer (MD5Update inp ctx)))"
    using f(4) b r md5_st_u by (simp only:)
qed

text \<open>The central fact: an update appends its input to the message.\<close>

lemma MD5Update_ok:
  assumes ok: "md5_ok ctx m"
  shows "md5_ok (MD5Update inp ctx) (m @ inp)"
proof -
  define h where "h = md5_have (md5_count ctx)"
  have h: "h = length m mod 64" "h < 64" using md5_ok_length[OF ok] by (simp_all add: h_def)
  have buf: "length (md5_buffer ctx) = 64" using ok unfolding md5_ok_def by blast
  have blocks: "md5_blocks md5_start (m @ inp) = md5_blocks (md5_st ctx) (take h (md5_buffer ctx) @ inp)"
  proof -
    have "md5_blocks md5_start m = (md5_st ctx, take h (md5_buffer ctx))"
      using ok unfolding md5_ok_def md5_pending_def h_def by blast
    then show ?thesis by (subst md5_blocks_append) (simp only: prod.case)
  qed
  have count: "md5_count ctx + push_bit 3 (of_nat (length inp)) = push_bit 3 (of_nat (length (m @ inp)))"
    using ok unfolding md5_ok_def by (metis md5_count_add length_append)
  have have2: "md5_have (push_bit 3 (of_nat (length (m @ inp)))) = (h + length inp) mod 64"
    by (simp only: md5_have_count h(1)) (simp add: mod_simps)
  show ?thesis
  proof (cases "64 - h \<le> length inp")
    case False
    then have short: "length inp < 64 - h" by simp
    note u = MD5Update_short[OF buf h_def]
    have "(h + length inp) mod 64 = h + length inp" using False h by simp
    moreover have "md5_blocks md5_start (m @ inp) = (md5_st ctx, take h (md5_buffer ctx) @ inp)"
      using blocks buf h False by (simp add: md5_blocks_short)
    ultimately show ?thesis
      unfolding md5_ok_def md5_pending_def u(1)[OF short] u(2)[OF short] u(3)[OF short] count have2
      by (simp only: u(4)[OF short])
  next
    case True
    note u = MD5Update_long[OF buf h_def True]
    show ?thesis
      unfolding md5_ok_def md5_pending_def u(1) count have2 by (simp only: u(2) blocks u(3))
  qed
qed

section \<open>The digest of the padded message\<close>

text \<open>The message of RFC 1321: a one bit, zeros up to 56 bytes modulo 64, the count of bits in 64 bits; and its blocks.\<close>

definition md5_message :: "byte list \<Rightarrow> byte list" where
  "md5_message m =
     m @ 0x80 # replicate ((119 - length m mod 64) mod 64) 0 @ put_64bit_le (push_bit 3 (of_nat (length m)))"

function blocks64 :: "'b list \<Rightarrow> 'b list list" where
  "blocks64 xs = (if xs = [] then [] else take 64 xs # blocks64 (drop 64 xs))"
  by pat_completeness auto
termination
  by (relation "measure length") auto

declare blocks64.simps [simp del]

definition md5_digest :: "byte list \<Rightarrow> byte list" where
  "md5_digest m = state_bytes (foldl MD5Transform md5_start (blocks64 (md5_message m)))"

lemma md5_blocks_fold: "length m mod 64 = 0 \<Longrightarrow> md5_blocks st m = (foldl MD5Transform st (blocks64 m), [])"
proof (induction st m rule: md5_blocks.induct)
  case (1 st m)
  show ?case
  proof (cases "64 \<le> length m")
    case True
    then have "md5_blocks st m = md5_blocks (MD5Transform st (take 64 m)) (drop 64 m)"
      by (subst md5_blocks.simps) simp
    moreover have "blocks64 m = take 64 m # blocks64 (drop 64 m)"
      using True by (subst blocks64.simps) auto
    moreover have "length (drop 64 m) mod 64 = 0"
      using 1(2) True by (simp add: le_mod_geq)
    ultimately show ?thesis using 1(1)[OF True] by simp
  next
    case False
    then have "m = []" using 1(2) by simp
    then show ?thesis by (simp add: md5_blocks_short blocks64.simps)
  qed
qed

lemma padlen_zeros:
  assumes "h = md5_have count"
  shows "take (md5_padlen count - 8) PADDING = 0x80 # replicate ((119 - h) mod 64) 0"
    and "(h + 1 + (119 - h) mod 64) mod 64 = 56"
proof -
  have h: "h < 64" using assms by simp
  show "take (md5_padlen count - 8) PADDING = 0x80 # replicate ((119 - h) mod 64) 0"
  proof (cases "h \<le> 55")
    case True
    then have "(119 - h) mod 64 = 55 - h" "md5_padlen count - 8 = Suc (55 - h)"
      using h by (auto simp: md5_padlen_def Let_def assms[symmetric] le_mod_geq)
    then show ?thesis by (simp add: PADDING_def)
  next
    case False
    then have "(119 - h) mod 64 = 119 - h" "md5_padlen count - 8 = Suc (119 - h)"
      using h by (auto simp: md5_padlen_def Let_def assms[symmetric])
    then show ?thesis using False h by (simp add: PADDING_def)
  qed
  show "(h + 1 + (119 - h) mod 64) mod 64 = 56"
  proof (cases "h \<le> 55")
    case True
    then show ?thesis by (simp add: le_mod_geq)
  next
    case False
    then show ?thesis using h by (simp add: le_mod_geq)
  qed
qed

lemma length_put_64bit_le [simp]: "length (put_64bit_le v) = 8"
  by (simp add: put_64bit_le_def)

lemma MD5Final_digest:
  assumes ok: "md5_ok ctx m"
  shows "fst (MD5Final ctx) = md5_digest m"
proof -
  let ?h = "length m mod 64"
  let ?pad = "take (md5_padlen (md5_count ctx) - 8) PADDING" and ?cnt = "put_64bit_le (md5_count ctx)"
  define ctx2 where "ctx2 = MD5Update ?cnt (MD5Update ?pad ctx)"
  have pad: "?pad = 0x80 # replicate ((119 - ?h) mod 64) 0" and len: "(?h + 1 + (119 - ?h) mod 64) mod 64 = 56"
    using padlen_zeros[of ?h "md5_count ctx"] md5_ok_length[OF ok] by simp_all
  have "md5_count ctx = push_bit 3 (of_nat (length m))" using ok unfolding md5_ok_def by blast
  then have cnt: "?cnt = put_64bit_le (push_bit 3 (of_nat (length m)))" by (rule arg_cong)
  have msg: "(m @ ?pad) @ ?cnt = md5_message m" unfolding md5_message_def pad cnt by simp
  have "md5_ok ctx2 (md5_message m)"
    unfolding ctx2_def msg[symmetric] by (intro MD5Update_ok ok)
  then have "fst (md5_blocks md5_start (md5_message m)) = md5_st ctx2" unfolding md5_ok_def by simp
  moreover have "length (md5_message m) mod 64 = 0"
  proof -
    have "length (md5_message m) mod 64 = (length m + (1 + (119 - ?h) mod 64) + 8) mod 64"
      by (simp add: md5_message_def algebra_simps)
    also have "\<dots> = ((?h + (1 + (119 - ?h) mod 64)) mod 64 + 8) mod 64"
      by (metis mod_add_left_eq)
    finally show ?thesis using len by (simp add: add.assoc)
  qed
  ultimately have "md5_st ctx2 = foldl MD5Transform md5_start (blocks64 (md5_message m))"
    using md5_blocks_fold by simp
  then show ?thesis by (simp only: MD5Final_def Let_def ctx2_def md5_digest_def fst_conv)
qed

lemma MD5Update_all_ok:
  "md5_ok ctx m \<Longrightarrow> md5_ok (foldl (\<lambda>c x. MD5Update x c) ctx pieces) (m @ concat pieces)"
proof (induction pieces arbitrary: ctx m)
  case (Cons x pieces)
  then show ?case using Cons.IH[OF MD5Update_ok[OF Cons.prems, of x]] by simp
qed simp

lemma md5_pieces:
  assumes "length (md5_buffer ctx) = 64"
  shows "fst (MD5Final (foldl (\<lambda>c x. MD5Update x c) (MD5Init ctx) pieces)) = md5_digest (concat pieces)"
  using MD5Final_digest[OF MD5Update_all_ok[OF MD5Init_ok[OF assms], of pieces]] by simp

text \<open>
  However a message is cut into pieces for the updates, at any length (the count of bits wraps at 64 bits), the digest is the one of
  RFC 1321: the transform folded over the blocks of the padded message, whatever the memory of the context held.
\<close>

theorem md5_update_pieces:
  assumes "length (md5_buffer ctx) = 64"
  shows "fst (MD5Final (foldl (\<lambda>c x. MD5Update x c) (MD5Init ctx) pieces)) = md5_digest (concat pieces)"
  using assms by (rule md5_pieces)

lemma MD5String_digest:
  "length (md5_buffer ctx) = 64 \<Longrightarrow> MD5String ctx data = map char_of_byte (md5_digest (map byte_of data))"
  using md5_pieces[of ctx "[map byte_of data]"] by (simp add: MD5String_def)

text \<open>Test vectors of RFC 1321.\<close>

definition fresh_ctx :: MD5_CTX where
  "fresh_ctx = \<lparr>md5_st = (0, 0, 0, 0), md5_count = 0, md5_buffer = replicate 64 0\<rparr>"

lemma md5_vectors:
  "MD5Hex fresh_ctx '''' = Inr ''d41d8cd98f00b204e9800998ecf8427e''"
  "MD5Hex fresh_ctx ''abc'' = Inr ''900150983cd24fb0d6963f7d28e17f72''"
  by code_simp+

theorem md5_update_pieces_witness:
  "fst (MD5Final (MD5Update [3] (MD5Update [1, 2] (MD5Init fresh_ctx)))) = md5_digest [1, 2, 3]"
  using md5_update_pieces[of fresh_ctx "[[1, 2], [3]]"] by (simp add: fresh_ctx_def)

text \<open>The macro \<open>F1\<close> is the selection that its comment gives.\<close>

lemma F1_selects: "F1 x y z = (x AND y) OR (NOT x AND z)"
  by (rule bit_eqI) (auto simp: F1_def bit_simps)

section \<open>The hexadecimal form\<close>

lemma hex_digit_facts:
  "list_all (\<lambda>n. let c = hex_digits ! n in c \<noteq> CHR 0x00 \<and> \<not> is_space c \<and> c \<noteq> CHR ''-'' \<and> c \<noteq> CHR ''+'' \<and>
     c \<noteq> CHR ''x'' \<and> c \<noteq> CHR ''X'' \<and> is_xdigit c) [0..<16]"
  by code_simp

lemma hex_digit_plain:
  assumes "n < 16"
  shows "hex_digits ! n \<noteq> CHR 0x00" "\<not> is_space (hex_digits ! n)" "hex_digits ! n \<noteq> CHR ''-''" "hex_digits ! n \<noteq> CHR ''+''"
    "hex_digits ! n \<noteq> CHR ''x''" "hex_digits ! n \<noteq> CHR ''X''" "is_xdigit (hex_digits ! n)"
  using hex_digit_facts assms unfolding list_all_iff Let_def by auto

lemma scan_2x_hex_byte: "scan_2x (hex_byte c @ s) = Some (byte_of c)"
proof -
  let ?n = "of_char c :: nat"
  have n: "?n div 16 < 16" "?n mod 16 < 16" using of_char_nat_less[of c] by (simp_all add: less_mult_imp_div_less)
  have e: "16 * int (?n div 16) + int (?n mod 16) = int ?n" by presburger
  have "hex_value [hex_digits ! (?n div 16), hex_digits ! (?n mod 16)] = int ?n"
    using n e by (simp add: hex_value_def h2d_hex_digit)
  moreover have byte: "(of_int (int ?n) :: byte) = byte_of c"
    unfolding byte_of_def of_int_of_nat_eq by (rule of_nat_of_char)
  ultimately show ?thesis
    using hex_digit_plain[OF n(1)] hex_digit_plain[OF n(2)]
    by (simp add: hex_byte_split scan_2x_def)
qed

lemma hexscan_loop_print:
  "hexscan_loop (concat (map hex_byte s)) (length s) d = d @ s"
proof (induction s arbitrary: d)
  case (Cons c s)
  have "drop 2 (hex_byte c @ xs) = xs" for xs by (simp add: hex_byte_def)
  then show ?case using Cons by (simp add: scan_2x_hex_byte)
qed simp

text \<open>
  The hexadecimal form of a digest of 16 bytes has 32 characters and is read back as that digest.
\<close>

theorem md5_hex_roundtrip:
  assumes "length digest = 16"
  shows "\<exists>x. MD5HexPrint digest = Inr x \<and> length x = 32 \<and> MD5HexScan x = digest"
proof -
  have "length (concat (map hex_byte s)) = 2 * length s" for s :: string
    by (induction s) (auto simp: hex_byte_def)
  then show ?thesis
    using assms hexscan_loop_print[of digest "[]"] by (simp add: MD5HexPrint_def MD5HexScan_def)
qed

theorem md5_hex_roundtrip_witness:
  "\<exists>x. MD5HexPrint ''0123456789abcdef'' = Inr x \<and> length x = 32 \<and> MD5HexScan x = ''0123456789abcdef''"
  by (rule md5_hex_roundtrip) simp

end
