(* ===== verification/File_Udi.thy ===== *)
theory File_Udi
  imports Md5 Base64
begin

text \<open>
  The unique identifiers of documents (\<open>utils/fileudi.cpp\<close>): the path of the file and the internal path, cut to 150 bytes
  with the digest of what was cut.
\<close>

definition HASHLEN :: nat where
  "HASHLEN = 22"

definition PATHHASHLEN :: nat where
  "PATHHASHLEN = 150"

text \<open>The first branch is the \<open>abort()\<close> for a limit shorter than the digest. \<open>ctx\<close> is the uninitialised context on the stack.\<close>

definition path_digest :: "MD5_CTX \<Rightarrow> string \<Rightarrow> string" where
  "path_digest ctx s =
     (let hash = base64_encode (map char_of_byte (fst (MD5Final (MD5Update (map byte_of s) (MD5Init ctx)))))
      in take (length hash - 2) hash)"

definition pathHash :: "MD5_CTX \<Rightarrow> string \<Rightarrow> nat \<Rightarrow> string run" where
  "pathHash ctx path maxlen =
     (if maxlen < HASHLEN then Inl AbortCalled
      else if length path \<le> maxlen then Inr path
      else Inr (take (maxlen - HASHLEN) path @ path_digest ctx (drop (maxlen - HASHLEN) path)))"

definition hashed_udi_size :: nat where
  "hashed_udi_size = PATHHASHLEN"

definition hashed_udi_path_size :: nat where
  "hashed_udi_path_size = PATHHASHLEN - HASHLEN"

definition make_udi :: "MD5_CTX \<Rightarrow> string \<Rightarrow> string \<Rightarrow> string run" where
  "make_udi ctx f ipath = pathHash ctx (f @ ''|'' @ ipath) PATHHASHLEN"

lemma length_base64_encode: "length (base64_encode s) = 4 * ((length s + 2) div 3)"
proof (induction s rule: base64_encode.induct)
  case (1 x y z s)
  have "(length (x # y # z # s) + 2) div 3 = (length s + 2) div 3 + 1" by simp
  then show ?case using 1 by (simp add: Let_def)
qed (simp_all add: Let_def)

lemma length_md5_digest [simp]: "length (md5_digest m) = 16"
  by (cases "foldl MD5Transform md5_start (blocks64 (md5_message m))")
    (simp add: md5_digest_def put_32bit_le_def)

text \<open>The digest as a function of the string alone.\<close>

definition udi_hash :: "string \<Rightarrow> string" where
  "udi_hash s = take 22 (base64_encode (map char_of_byte (md5_digest (map byte_of s))))"

lemma path_digest_hash: "length (md5_buffer ctx) = 64 \<Longrightarrow> path_digest ctx s = udi_hash s"
  using MD5String_digest[of ctx s] by (simp add: path_digest_def udi_hash_def MD5String_def length_base64_encode)

lemma length_udi_hash [simp]: "length (udi_hash s) = 22"
  by (simp add: udi_hash_def length_base64_encode)

text \<open>
  An identifier has at most 150 bytes, whatever the file name and the internal path; a short path is kept as it is, a long one
  keeps its first 128 bytes and ends with the digest of all the rest.
\<close>

theorem make_udi_shape:
  assumes "length (md5_buffer ctx) = 64"
  shows "\<exists>u. make_udi ctx f ip = Inr u \<and> length u \<le> hashed_udi_size \<and>
     u = (let s = f @ ''|'' @ ip in
          if length s \<le> hashed_udi_size then s
          else take hashed_udi_path_size s @ udi_hash (drop hashed_udi_path_size s))"
  using assms
  by (auto simp: make_udi_def pathHash_def Let_def path_digest_hash hashed_udi_size_def hashed_udi_path_size_def
      PATHHASHLEN_def HASHLEN_def)

theorem make_udi_shape_witness:
  "\<exists>u. make_udi fresh_ctx (replicate 160 CHR ''a'') ''2'' = Inr u \<and> length u \<le> 150 \<and>
     u = replicate 128 CHR ''a'' @ udi_hash (replicate 32 CHR ''a'' @ ''|2'')"
  using make_udi_shape[of fresh_ctx "replicate 160 CHR ''a''" "''2''"]
  by (simp add: fresh_ctx_def hashed_udi_size_def hashed_udi_path_size_def PATHHASHLEN_def HASHLEN_def Let_def)

text \<open>The base64 form of a digest determines it: the two characters cut off are padding.\<close>

lemma base64_encode_pad:
  "length s mod 3 = 1 \<Longrightarrow> \<exists>h. base64_encode s = h @ [Pad64, Pad64]"
proof (induction s rule: base64_encode.induct)
  case (1 x y z s)
  then have "length s mod 3 = 1" by simp
  with 1(1)[OF refl refl refl] obtain h where "base64_encode s = h @ [Pad64, Pad64]" by blast
  then show ?case by (auto simp: Let_def intro: exI[of _ "_ # _ # _ # _ # h"])
qed (simp_all add: Let_def)

lemma udi_hash_inject: "udi_hash s = udi_hash t \<longleftrightarrow> md5_digest (map byte_of s) = md5_digest (map byte_of t)"
proof
  let ?d = "\<lambda>s. map char_of_byte (md5_digest (map byte_of s))"
  have all: "base64_encode (?d s) = udi_hash s @ [Pad64, Pad64]" for s
  proof -
    obtain h where h: "base64_encode (?d s) = h @ [Pad64, Pad64]"
      using base64_encode_pad[of "?d s"] by auto
    then have "length h = 22" using length_base64_encode[of "?d s"] by simp
    then show ?thesis using h by (simp add: udi_hash_def)
  qed
  assume "udi_hash s = udi_hash t"
  then have "base64_decode (base64_encode (?d s)) = base64_decode (base64_encode (?d t))" by (simp only: all)
  then have "map byte_of (?d s) = map byte_of (?d t)" by (simp add: base64_decode_encode)
  then show "md5_digest (map byte_of s) = md5_digest (map byte_of t)" by (simp add: o_def)
qed (simp add: udi_hash_def)

text \<open>What stands for the part of the path after the first 128 bytes.\<close>

definition udi_tail :: "string \<Rightarrow> string" where
  "udi_tail s = (if length s \<le> 150 then drop 128 s else udi_hash (drop 128 s))"

lemma pathHash_tail:
  "length (md5_buffer ctx) = 64 \<Longrightarrow> pathHash ctx s PATHHASHLEN = Inr (take 128 s @ udi_tail s)"
  by (cases "length s \<le> 150") (simp_all add: pathHash_def path_digest_hash udi_tail_def PATHHASHLEN_def HASHLEN_def)

lemma udi_tail_eq:
  assumes eq: "take 128 s @ udi_tail s = take 128 t @ udi_tail t"
  shows "take 128 s = take 128 t \<and> udi_tail s = udi_tail t"
proof -
  have "length (take 128 s @ udi_tail s) < 128 \<longleftrightarrow> length s < 128"
    and "length (take 128 t @ udi_tail t) < 128 \<longleftrightarrow> length t < 128"
    by (auto simp: udi_tail_def)
  moreover have "length s < 128 \<Longrightarrow> udi_tail s = []" "length t < 128 \<Longrightarrow> udi_tail t = []"
    by (simp_all add: udi_tail_def)
  ultimately show ?thesis
    using eq by (cases "length s < 128") (auto simp: append_eq_append_conv)
qed

lemma udi_tail_cases:
  assumes tail: "udi_tail s = udi_tail t" and head: "take 128 s = take 128 t"
  shows "s = t \<or> length (drop 128 s) \<ge> 22 \<and> length (drop 128 t) \<ge> 22 \<and>
     (md5_digest (map byte_of (drop 128 s)) = md5_digest (map byte_of (drop 128 t)) \<or>
      drop 128 s = udi_hash (drop 128 t) \<or> udi_hash (drop 128 s) = drop 128 t)"
proof (cases "length s \<le> 150 \<and> length t \<le> 150")
  case True
  then have "drop 128 s = drop 128 t" using tail by (simp add: udi_tail_def)
  then have "s = t" using head by (metis append_take_drop_id)
  then show ?thesis ..
next
  case False
  have len: "udi_hash u = drop 128 v \<Longrightarrow> 22 \<le> length (drop 128 v)" for u v
    by (metis length_udi_hash order_refl)
  then show ?thesis
    using tail False len[of "drop 128 s" t] len[of "drop 128 t" s]
    by (auto simp: udi_tail_def udi_hash_inject split: if_splits)
qed

text \<open>
  C34. Two documents get the same identifier only when the file name, the separator and the internal path are the same string, or
  the first 128 bytes are the same and the rests collide: both are digested and have the same MD5 digest, or one is
  itself the 22 characters that are the digest of the other.
\<close>

theorem make_udi_unique:
  assumes "length (md5_buffer ctx) = 64" and "make_udi ctx f1 ip1 = make_udi ctx f2 ip2"
  shows "let s = f1 @ ''|'' @ ip1; t = f2 @ ''|'' @ ip2; s2 = drop 128 s; t2 = drop 128 t in
     s = t \<or>
     take 128 s = take 128 t \<and> length s2 \<ge> 22 \<and> length t2 \<ge> 22 \<and>
     (md5_digest (map byte_of s2) = md5_digest (map byte_of t2) \<or> s2 = udi_hash t2 \<or> udi_hash s2 = t2)"
proof -
  let ?s = "f1 @ ''|'' @ ip1" and ?t = "f2 @ ''|'' @ ip2"
  have "take 128 ?s @ udi_tail ?s = take 128 ?t @ udi_tail ?t"
    using assms pathHash_tail[of ctx ?s] pathHash_tail[of ctx ?t] unfolding make_udi_def by simp
  then show ?thesis
    using udi_tail_eq[of ?s ?t] udi_tail_cases[of ?s ?t] unfolding Let_def by blast
qed

theorem make_udi_unique_witness:
  "make_udi fresh_ctx ''a|b'' ''c'' = make_udi fresh_ctx ''a'' ''b|c'' \<and>
   ''a|b'' @ ''|'' @ ''c'' = ''a'' @ ''|'' @ ''b|c''"
  using make_udi_unique[of fresh_ctx "''a|b''" "''c''" "''a''" "''b|c''"] by (simp add: fresh_ctx_def make_udi_def)

text \<open>The separator may be part of a file name: two documents with the same identifier.\<close>

lemma make_udi_ambiguous: "make_udi ctx ''a|b'' ''c'' = make_udi ctx ''a'' ''b|c''"
  by (simp add: make_udi_def)

end
