(* ===== verification/Transcode.thy ===== *)
theory Transcode
  imports Prelude "HOL-Library.Monad_Syntax"
begin

text \<open>
  Character set conversion (\<open>utils/transcode.cpp\<close>): the loop around \<open>iconv\<close> and the cached conversion descriptor. \<open>iconv\<close> is a
  parameter: \<open>opn to from\<close> gives a descriptor when the pair of names is known, \<open>conv d s\<close> is one call on the input \<open>s\<close> with an output
  buffer of 8192 bytes, and gives the result with the input that is left, what was put in the buffer and the descriptor;
  \<open>rst\<close> is the call that resets a descriptor. The test of \<open>simdutf\<close>, when it is compiled in, is a parameter too.
\<close>

datatype iconv_result = IDone | IE2BIG | IEILSEQ | IEINVAL | IOther

type_synonym 'd iconv = "'d \<Rightarrow> string \<Rightarrow> iconv_result \<times> string \<times> string \<times> 'd"

section \<open>The loop\<close>

text \<open>
  The result: success, the output, the count of errors, the descriptor. An error at the end of the input would step over it.
  The loop may not end when \<open>iconv\<close> makes no progress.
\<close>

partial_function (option) transcode_loop ::
  "'d iconv \<Rightarrow> 'd \<Rightarrow> string \<Rightarrow> string \<Rightarrow> nat \<Rightarrow> (bool \<times> string \<times> nat \<times> 'd) run option" where
  "transcode_loop conv d inp out ecnt =
     (if inp = [] then Some (Inr (True, out, ecnt, d))
      else case conv d inp of (r, rest, obuf, d1) \<Rightarrow>
        (case r of
           IDone \<Rightarrow> transcode_loop conv d1 rest (out @ obuf) ecnt
         | IE2BIG \<Rightarrow> transcode_loop conv d1 rest (out @ obuf) ecnt
         | IEILSEQ \<Rightarrow>
             if rest = [] then Some (Inl BadAccess)
             else transcode_loop conv d1 (tl rest) (out @ obuf @ ''?'') (ecnt + 1)
         | IEINVAL \<Rightarrow> Some (Inr (True, out, ecnt, d1))
         | IOther \<Rightarrow> Some (Inr (False, out, ecnt, d1))))"

section \<open>The cached descriptor\<close>

record 'd tc_static =
  tc_ic :: "'d option"
  tc_icode :: string
  tc_ocode :: string

definition tc_start :: "'d tc_static" where
  "tc_start = \<lparr>tc_ic = None, tc_icode = [], tc_ocode = []\<rparr>"

definition tc_cached :: "string \<Rightarrow> string \<Rightarrow> 'd tc_static \<Rightarrow> bool" where
  "tc_cached icode ocode st \<longleftrightarrow> tc_icode st = icode \<and> tc_ocode st = ocode"

definition transcode_convert ::
  "'d iconv \<Rightarrow> ('d \<Rightarrow> 'd) \<Rightarrow> 'd tc_static \<Rightarrow> string \<Rightarrow> (bool \<times> string \<times> nat \<times> 'd tc_static) run option" where
  "transcode_convert conv rst st inp =
     (case tc_ic st of
        None \<Rightarrow> Some (Inl BadAccess)
      | Some d \<Rightarrow>
          (case transcode_loop conv d inp [] 0 of
             None \<Rightarrow> None
           | Some (Inl e) \<Rightarrow> Some (Inl e)
           | Some (Inr (ret, out, ecnt, d1)) \<Rightarrow> Some (Inr (ret, out, ecnt, st\<lparr>tc_ic := Some (rst d1)\<rparr>))))"

definition transcode ::
  "(string \<Rightarrow> bool) option \<Rightarrow> (string \<Rightarrow> string \<Rightarrow> 'd option) \<Rightarrow> 'd iconv \<Rightarrow> ('d \<Rightarrow> 'd) \<Rightarrow> 'd tc_static \<Rightarrow>
   string \<Rightarrow> string \<Rightarrow> string \<Rightarrow> (bool \<times> string \<times> nat \<times> 'd tc_static) run option" where
  "transcode simd opn conv rst st inp icode ocode =
     (if (case simd of None \<Rightarrow> False | Some valid \<Rightarrow> valid inp) \<and> icode = ''UTF-8'' \<and> ocode = ''UTF-8'' then Some (Inr (True, inp, 0, st))
      else if tc_cached icode ocode st then transcode_convert conv rst st inp
      else case opn ocode icode of
          None \<Rightarrow> Some (Inr (False, ''iconv_open failed for '' @ icode @ '' -> '' @ ocode, 0, tc_start))
        | Some d \<Rightarrow> transcode_convert conv rst \<lparr>tc_ic = Some d, tc_icode = icode, tc_ocode = ocode\<rparr> inp)"

section \<open>What the conversion should give\<close>

text \<open>
  A character set as a function on the front of the input: the first \<open>n\<close> bytes (at least one) convert to a piece of output, or are not
  valid, or are the beginning of a character. The conversion of a whole string replaces the first byte of each invalid
  sequence by a question mark and stops at an incomplete character.
\<close>

datatype piece = Conv string nat | Bad | Incomplete

function decode_all :: "(string \<Rightarrow> piece) \<Rightarrow> string \<Rightarrow> string \<times> nat \<times> string" where
  "decode_all dec inp =
     (if inp = [] then ([], 0, [])
      else case dec inp of
          Incomplete \<Rightarrow> ([], 0, inp)
        | Bad \<Rightarrow> (case decode_all dec (tl inp) of (out, k, left) \<Rightarrow> (''?'' @ out, Suc k, left))
        | Conv p n \<Rightarrow> (case decode_all dec (drop (max 1 n) inp) of (out, k, left) \<Rightarrow> (p @ out, k, left)))"
  by pat_completeness auto
termination
  by (relation "measure (\<lambda>(dec, inp). length inp)") auto

declare decode_all.simps [simp del]

lemma decode_all_Nil [simp]: "decode_all dec [] = ([], 0, [])"
  by (subst decode_all.simps) simp

text \<open>Some pieces in a row.\<close>

inductive conv_to :: "(string \<Rightarrow> piece) \<Rightarrow> string \<Rightarrow> string \<Rightarrow> string \<Rightarrow> bool" for dec where
  none: "conv_to dec inp [] inp"
| piece: "inp \<noteq> [] \<Longrightarrow> dec inp = Conv p n \<Longrightarrow> conv_to dec (drop (max 1 n) inp) out rest \<Longrightarrow> conv_to dec inp (p @ out) rest"

text \<open>
  What \<open>iconv\<close> documents: it converts characters until the input ends, the next piece does not fit in the buffer, or the next bytes are
  invalid or an incomplete character; a full buffer means that it made progress.
\<close>

definition iconv_follows :: "(string \<Rightarrow> piece) \<Rightarrow> 'd iconv \<Rightarrow> bool" where
  "iconv_follows dec conv \<longleftrightarrow>
     (\<forall>d inp r rest obuf d1. inp \<noteq> [] \<longrightarrow> conv d inp = (r, rest, obuf, d1) \<longrightarrow>
        conv_to dec inp obuf rest \<and>
        (r = IDone \<and> rest = [] \<or>
         r = IE2BIG \<and> rest \<noteq> [] \<and> rest \<noteq> inp \<and> (\<exists>p n. dec rest = Conv p n \<and> 8192 < length obuf + length p) \<or>
         r = IEILSEQ \<and> rest \<noteq> [] \<and> dec rest = Bad \<or>
         r = IEINVAL \<and> rest \<noteq> [] \<and> dec rest = Incomplete))"

lemma conv_to_decode:
  "conv_to dec inp obuf rest \<Longrightarrow> decode_all dec rest = (out, k, left) \<Longrightarrow> decode_all dec inp = (obuf @ out, k, left)"
  by (induction rule: conv_to.induct) (simp_all add: decode_all.simps[of dec inp for inp])

lemma conv_to_shorter: "conv_to dec inp obuf rest \<Longrightarrow> rest = inp \<or> length rest < length inp"
  by (induction rule: conv_to.induct) auto

lemma decode_Bad:
  "inp \<noteq> [] \<Longrightarrow> dec inp = Bad \<Longrightarrow> decode_all dec (tl inp) = (out, k, left) \<Longrightarrow> decode_all dec inp = (''?'' @ out, Suc k, left)"
  by (simp add: decode_all.simps[of dec inp])

lemma decode_Incomplete: "inp \<noteq> [] \<Longrightarrow> dec inp = Incomplete \<Longrightarrow> decode_all dec inp = ([], 0, inp)"
  by (simp add: decode_all.simps[of dec inp])

lemma decode_Conv:
  "inp \<noteq> [] \<Longrightarrow> dec inp = Conv p n \<Longrightarrow> decode_all dec inp = (out, k, left) \<Longrightarrow> \<exists>out2. out = p @ out2"
  by (auto simp: decode_all.simps[of dec inp] split: prod.splits)

lemma loop_Nil [simp]: "transcode_loop conv d [] out n = Some (Inr (True, out, n, d))"
  by (subst transcode_loop.simps) simp

lemma loop_step:
  "inp \<noteq> [] \<Longrightarrow> conv d inp = (r, rest, obuf, d1) \<Longrightarrow> transcode_loop conv d inp out n =
     (case r of
        IDone \<Rightarrow> transcode_loop conv d1 rest (out @ obuf) n
      | IE2BIG \<Rightarrow> transcode_loop conv d1 rest (out @ obuf) n
      | IEILSEQ \<Rightarrow> if rest = [] then Some (Inl BadAccess) else transcode_loop conv d1 (tl rest) (out @ obuf @ ''?'') (n + 1)
      | IEINVAL \<Rightarrow> Some (Inr (True, out, n, d1))
      | IOther \<Rightarrow> Some (Inr (False, out, n, d1)))"
  by (subst transcode_loop.simps) simp

text \<open>One call, by its four results.\<close>

lemma iconv_cases:
  assumes "iconv_follows dec conv" and "inp \<noteq> []"
  obtains
    (all) obuf d1 where "conv d inp = (IDone, [], obuf, d1)" "conv_to dec inp obuf []"
  | (full) rest obuf d1 p n where "conv d inp = (IE2BIG, rest, obuf, d1)" "conv_to dec inp obuf rest" "rest \<noteq> []"
      "length rest < length inp" "dec rest = Conv p n" "8192 < length obuf + length p"
  | (bad) rest obuf d1 where "conv d inp = (IEILSEQ, rest, obuf, d1)" "conv_to dec inp obuf rest" "rest \<noteq> []"
      "length (tl rest) < length inp" "dec rest = Bad"
  | (incomplete) rest obuf d1 where "conv d inp = (IEINVAL, rest, obuf, d1)" "conv_to dec inp obuf rest" "rest \<noteq> []"
      "dec rest = Incomplete"
proof -
  obtain r rest obuf d1 where c: "conv d inp = (r, rest, obuf, d1)" by (metis prod_cases4)
  have to: "conv_to dec inp obuf rest" using assms c unfolding iconv_follows_def by blast
  have cases: "r = IDone \<and> rest = [] \<or>
         r = IE2BIG \<and> rest \<noteq> [] \<and> rest \<noteq> inp \<and> (\<exists>p n. dec rest = Conv p n \<and> 8192 < length obuf + length p) \<or>
         r = IEILSEQ \<and> rest \<noteq> [] \<and> dec rest = Bad \<or>
         r = IEINVAL \<and> rest \<noteq> [] \<and> dec rest = Incomplete"
    using assms c unfolding iconv_follows_def by blast
  have "rest \<noteq> [] \<Longrightarrow> length (tl rest) < length inp"
    using conv_to_shorter[OF to] by (cases rest) auto
  then show thesis
    using cases c to conv_to_shorter[OF to] all full bad incomplete by metis
qed

lemma transcode_loop_total:
  assumes law: "iconv_follows dec conv" and dec: "decode_all dec inp = (out, k, left)"
  shows "\<exists>out1 k1 d1. transcode_loop conv d inp acc n = Some (Inr (True, acc @ out1, n + k1, d1)) \<and>
     prefix out1 out \<and> k1 \<le> k \<and> (left = [] \<longrightarrow> out1 = out \<and> k1 = k)"
  using dec
proof (induction "length inp" arbitrary: inp d acc n out k left rule: less_induct)
  case less
  show ?case
  proof (cases "inp = []")
    case True
    then show ?thesis using less.prems by simp
  next
    case False
    show ?thesis
      using law False
    proof (cases rule: iconv_cases[where d = d])
      case (all obuf d1)
      have "decode_all dec inp = (obuf @ [], 0, [])" by (rule conv_to_decode[OF all(2) decode_all_Nil])
      then show ?thesis using all False less.prems by (simp add: loop_step)
    next
      case (full rest obuf d1 p m)
      obtain out2 k2 left2 where r: "decode_all dec rest = (out2, k2, left2)" by (metis prod_cases3)
      then have "out = obuf @ out2" "k2 = k" "left2 = left" using conv_to_decode[OF full(2) r] less.prems by simp_all
      then show ?thesis
        using less.hyps[OF full(4) r, of d1 "acc @ obuf" n] full False by (auto simp: loop_step)
    next
      case (bad rest obuf d1)
      obtain out2 k2 left2 where r: "decode_all dec (tl rest) = (out2, k2, left2)" by (metis prod_cases3)
      have "out = obuf @ ''?'' @ out2" "k = Suc k2" "left = left2"
        using conv_to_decode[OF bad(2) decode_Bad[where dec = dec, OF bad(3,5) r]] less.prems by simp_all
      then show ?thesis
        using less.hyps[OF bad(4) r, of d1 "acc @ obuf @ ''?''" "n + 1"] bad False by (auto simp: loop_step)
    next
      case (incomplete rest obuf d1)
      then have "left = rest"
        using conv_to_decode[OF incomplete(2) decode_Incomplete[where dec = dec, OF incomplete(3,4)]] less.prems by simp
      then show ?thesis using incomplete False by (auto simp: loop_step)
    qed
  qed
qed

text \<open>When the input ends within a character, the output of the last call is dropped: all of it, when one call was enough.\<close>

lemma transcode_loop_incomplete:
  assumes law: "iconv_follows dec conv" and dec: "decode_all dec inp = (out, 0, left)" and left: "left \<noteq> []"
    and fits: "length out \<le> 8192"
  shows "\<exists>d1. transcode_loop conv d inp acc n = Some (Inr (True, acc, n, d1))"
proof -
  have ne: "inp \<noteq> []" using dec left by auto
  show ?thesis
    using law ne
  proof (cases rule: iconv_cases[where d = d])
    case (all obuf d1)
    have "decode_all dec inp = (obuf @ [], 0, [])" by (rule conv_to_decode[OF all(2) decode_all_Nil])
    then show ?thesis using dec left by simp
  next
    case (full rest obuf d1 p m)
    obtain out2 k2 left2 where r: "decode_all dec rest = (out2, k2, left2)" by (metis prod_cases3)
    obtain out3 where "out2 = p @ out3" using decode_Conv[where dec = dec, OF full(3,5) r] by blast
    then have "out = obuf @ p @ out3" using conv_to_decode[OF full(2) r] dec by simp
    then show ?thesis using fits full(6) by simp
  next
    case (bad rest obuf d1)
    obtain out2 k2 left2 where r: "decode_all dec (tl rest) = (out2, k2, left2)" by (metis prod_cases3)
    show ?thesis using conv_to_decode[OF bad(2) decode_Bad[where dec = dec, OF bad(3,5) r]] dec by simp
  next
    case (incomplete rest obuf d1)
    then show ?thesis using ne by (simp add: loop_step)
  qed
qed

section \<open>A converter that follows the law\<close>

text \<open>The greedy loop over the pieces: an instance of the parameter for the witnesses.\<close>

function greedy :: "(string \<Rightarrow> piece) \<Rightarrow> nat \<Rightarrow> string \<Rightarrow> iconv_result \<times> string \<times> string" where
  "greedy dec room inp =
     (if inp = [] then (IDone, [], [])
      else case dec inp of
          Bad \<Rightarrow> (IEILSEQ, inp, [])
        | Incomplete \<Rightarrow> (IEINVAL, inp, [])
        | Conv p n \<Rightarrow>
            if room < length p then (IE2BIG, inp, [])
            else case greedy dec (room - length p) (drop (max 1 n) inp) of (r, rest, out) \<Rightarrow> (r, rest, p @ out))"
  by pat_completeness auto
termination
  by (relation "measure (\<lambda>(dec, room, inp). length inp)") auto

declare greedy.simps [simp del]

lemma greedy_Conv:
  "inp \<noteq> [] \<Longrightarrow> dec inp = Conv p n \<Longrightarrow> \<not> room < length p \<Longrightarrow>
   greedy dec room inp = (case greedy dec (room - length p) (drop (max 1 n) inp) of (r, rest, out) \<Rightarrow> (r, rest, p @ out))"
  by (subst greedy.simps) simp

lemma greedy_stop:
  "inp = [] \<Longrightarrow> greedy dec room inp = (IDone, [], [])"
  "inp \<noteq> [] \<Longrightarrow> dec inp = Bad \<Longrightarrow> greedy dec room inp = (IEILSEQ, inp, [])"
  "inp \<noteq> [] \<Longrightarrow> dec inp = Incomplete \<Longrightarrow> greedy dec room inp = (IEINVAL, inp, [])"
  "inp \<noteq> [] \<Longrightarrow> dec inp = Conv p n \<Longrightarrow> room < length p \<Longrightarrow> greedy dec room inp = (IE2BIG, inp, [])"
  by (subst greedy.simps; simp)+

definition greedy_result :: "(string \<Rightarrow> piece) \<Rightarrow> nat \<Rightarrow> iconv_result \<Rightarrow> string \<Rightarrow> string \<Rightarrow> bool" where
  "greedy_result dec room r rest out \<longleftrightarrow>
     r = IDone \<and> rest = [] \<or>
     r = IE2BIG \<and> rest \<noteq> [] \<and> (\<exists>p n. dec rest = Conv p n \<and> room < length out + length p) \<or>
     r = IEILSEQ \<and> rest \<noteq> [] \<and> dec rest = Bad \<or>
     r = IEINVAL \<and> rest \<noteq> [] \<and> dec rest = Incomplete"

lemma greedy_conv_to:
  "greedy dec room inp = (r, rest, out) \<Longrightarrow> conv_to dec inp out rest \<and> greedy_result dec room r rest out"
proof (induction dec room inp arbitrary: r rest out rule: greedy.induct)
  case (1 dec room inp)
  show ?case
  proof (cases "inp = []")
    case True
    then show ?thesis using 1(2) by (simp add: greedy_stop conv_to.none greedy_result_def)
  next
    case False
    show ?thesis
    proof (cases "dec inp")
      case (Conv p n)
      show ?thesis
      proof (cases "room < length p")
        case True
        then show ?thesis using 1(2) False Conv by (simp add: greedy_stop conv_to.none greedy_result_def)
      next
        case fits: False
        obtain out2 where g: "greedy dec (room - length p) (drop (max 1 n) inp) = (r, rest, out2)" "out = p @ out2"
          using 1(2) greedy_Conv[where dec = dec, OF False Conv fits] by (auto split: prod.splits)
        show ?thesis
          using 1(1)[OF False Conv fits g(1)] conv_to.piece[where dec = dec, OF False Conv] g(2) fits
          by (auto simp: greedy_result_def)
      qed
    qed (use 1(2) False in \<open>simp_all add: greedy_stop conv_to.none greedy_result_def\<close>)
  qed
qed

definition greedy_iconv :: "(string \<Rightarrow> piece) \<Rightarrow> unit iconv" where
  "greedy_iconv dec d inp = (case greedy dec 8192 inp of (r, rest, out) \<Rightarrow> (r, rest, out, ()))"

lemma greedy_progress:
  assumes fit: "\<And>p n. dec inp = Conv p n \<Longrightarrow> length p \<le> room" and ne: "inp \<noteq> []"
    and g: "greedy dec room inp = (IE2BIG, rest, out)"
  shows "rest \<noteq> inp"
proof (cases "dec inp")
  case (Conv p n)
  then have "\<not> room < length p" using fit by fastforce
  then obtain out2 where "greedy dec (room - length p) (drop (max 1 n) inp) = (IE2BIG, rest, out2)"
    using g greedy_Conv[where dec = dec, OF ne Conv] by (auto split: prod.splits)
  then have "length rest \<le> length (drop (max 1 n) inp)"
    using greedy_conv_to conv_to_shorter by (metis less_imp_le order_refl)
  then show ?thesis using ne by (cases inp) auto
qed (use g ne in \<open>simp_all add: greedy_stop\<close>)

lemma greedy_iconv_follows:
  assumes "\<And>s p n. dec s = Conv p n \<Longrightarrow> length p \<le> 8192"
  shows "iconv_follows dec (greedy_iconv dec)"
  unfolding iconv_follows_def
proof (intro allI impI)
  fix d :: unit and inp r rest obuf d1
  assume ne: "inp \<noteq> []" and c: "greedy_iconv dec d inp = (r, rest, obuf, d1)"
  have g: "greedy dec 8192 inp = (r, rest, obuf)" using c by (simp add: greedy_iconv_def split: prod.splits)
  have "r = IE2BIG \<Longrightarrow> rest \<noteq> inp" using greedy_progress[where dec = dec and room = 8192 and inp = inp] assms ne g by blast
  then show "conv_to dec inp obuf rest \<and>
        (r = IDone \<and> rest = [] \<or>
         r = IE2BIG \<and> rest \<noteq> [] \<and> rest \<noteq> inp \<and> (\<exists>p n. dec rest = Conv p n \<and> 8192 < length obuf + length p) \<or>
         r = IEILSEQ \<and> rest \<noteq> [] \<and> dec rest = Bad \<or>
         r = IEINVAL \<and> rest \<noteq> [] \<and> dec rest = Incomplete)"
    using greedy_conv_to[OF g] unfolding greedy_result_def by blast
qed

section \<open>The cache\<close>

text \<open>The descriptor that is cached is a fresh one for the cached names.\<close>

definition tc_inv :: "(string \<Rightarrow> string \<Rightarrow> 'd option) \<Rightarrow> 'd tc_static \<Rightarrow> bool" where
  "tc_inv opn st \<longleftrightarrow> st = tc_start \<or> (\<exists>d. tc_ic st = Some d \<and> opn (tc_ocode st) (tc_icode st) = Some d)"

text \<open>A reset brings a descriptor back to what \<open>iconv_open\<close> gave.\<close>

definition iconv_resets :: "(string \<Rightarrow> string \<Rightarrow> 'd option) \<Rightarrow> 'd iconv \<Rightarrow> ('d \<Rightarrow> 'd) \<Rightarrow> bool" where
  "iconv_resets opn conv rst \<longleftrightarrow>
     (\<forall>d inp r rest obuf d1. conv d inp = (r, rest, obuf, d1) \<longrightarrow> rst d1 = rst d) \<and>
     (\<forall>tocode fromcode d. opn tocode fromcode = Some d \<longrightarrow> rst d = d)"

lemma loop_reset:
  fixes conv :: "'d iconv"
  assumes law: "iconv_resets opn conv rst"
  shows "transcode_loop conv d inp out n = Some (Inr (ret, out1, n1, d1)) \<Longrightarrow> rst d1 = rst d"
proof -
  have step: "conv d inp = (r, rest, obuf, d2) \<Longrightarrow> rst d2 = rst d" for d inp r rest obuf d2
    using law unfolding iconv_resets_def by blast
  let ?P = "\<lambda>cv d inp out n y. cv = conv \<longrightarrow> (\<forall>x. y = Inr x \<longrightarrow> rst (snd (snd (snd x))) = rst d)"
  have "?P conv d inp out n y" if "transcode_loop conv d inp out n = Some y" for y
  proof (rule transcode_loop.raw_induct[where P = ?P, OF _ that])
    fix f :: "'d iconv \<Rightarrow> 'd \<Rightarrow> string \<Rightarrow> string \<Rightarrow> nat \<Rightarrow> (cxx_error + bool \<times> string \<times> nat \<times> 'd) option"
      and cv d inp out n y
    assume ih: "\<And>cv d inp out n y. f cv d inp out n = Some y \<Longrightarrow> ?P cv d inp out n y"
      and eq: "(if inp = [] then Some (Inr (True, out, n, d))
          else case cv d inp of (r, rest, obuf, d1) \<Rightarrow>
            (case r of
               IDone \<Rightarrow> f cv d1 rest (out @ obuf) n
             | IE2BIG \<Rightarrow> f cv d1 rest (out @ obuf) n
             | IEILSEQ \<Rightarrow>
                 if rest = [] then Some (Inl BadAccess)
                 else f cv d1 (tl rest) (out @ obuf @ ''?'') (n + 1)
             | IEINVAL \<Rightarrow> Some (Inr (True, out, n, d1))
             | IOther \<Rightarrow> Some (Inr (False, out, n, d1)))) = Some y"
    show "?P cv d inp out n y"
    proof (intro impI allI)
      fix x assume cv: "cv = conv" and y: "y = Inr x"
      obtain r rest obuf d1 where c: "conv d inp = (r, rest, obuf, d1)" by (metis prod_cases4)
      obtain xa xb xc xd where x: "x = (xa, xb, xc, xd)" by (metis prod_cases4)
      show "rst (snd (snd (snd x))) = rst d"
        using eq c ih[of conv d1] step[OF c] unfolding cv y x
        by (fastforce split: if_splits iconv_result.splits)
    qed
  qed
  then show "transcode_loop conv d inp out n = Some (Inr (ret, out1, n1, d1)) \<Longrightarrow> rst d1 = rst d" by fastforce
qed

text \<open>The result of a call without the static data.\<close>

definition tc_result :: "(bool \<times> string \<times> nat \<times> 'd tc_static) run option \<Rightarrow> (bool \<times> string \<times> nat) run option" where
  "tc_result x = map_option (map_sum id (\<lambda>(ret, out, ecnt, st). (ret, out, ecnt))) x"

lemma tc_result_simple [simp]: "tc_result (Some (Inr (ret, out, ecnt, st))) = Some (Inr (ret, out, ecnt))"
  by (simp add: tc_result_def)

lemma convert_inv:
  assumes law: "iconv_resets opn conv rst" and st: "tc_ic st = Some d" "opn (tc_ocode st) (tc_icode st) = Some d"
    and res: "transcode_convert conv rst st inp = Some (Inr (ret, out, ecnt, st1))"
  shows "st1 = st"
proof -
  obtain d1 where d1: "transcode_loop conv d inp [] 0 = Some (Inr (ret, out, ecnt, d1))" "st1 = st\<lparr>tc_ic := Some (rst d1)\<rparr>"
    using st res by (auto simp: transcode_convert_def split: option.splits sum.splits prod.splits)
  have "rst d1 = rst d" using loop_reset[OF law d1(1)] .
  also have "rst d = d" using law st(2) unfolding iconv_resets_def by blast
  finally show ?thesis using d1(2) st(1) by simp
qed

lemma convert_result:
  "tc_ic st = tc_ic st2 \<Longrightarrow> tc_result (transcode_convert conv rst st inp) = tc_result (transcode_convert conv rst st2 inp)"
  by (auto simp: transcode_convert_def tc_result_def split: option.splits sum.splits)

text \<open>
  The cached descriptor does not show: whatever was converted before, between whatever character sets and with whatever
  errors, a call gives the result that it gives with no descriptor open, and leaves the static data in the state this rests on. The
  descriptors must go back to their first state when they are reset; empty names are excluded because they
  match the empty cache.
\<close>

theorem transcode_cache_transparent:
  assumes law: "iconv_resets opn conv rst" and inv: "tc_inv opn st" and names: "icode \<noteq> [] \<or> ocode \<noteq> []"
  shows "tc_result (transcode simd opn conv rst st inp icode ocode) =
      tc_result (transcode simd opn conv rst tc_start inp icode ocode) \<and>
    (\<forall>ret out ecnt st1. transcode simd opn conv rst st inp icode ocode = Some (Inr (ret, out, ecnt, st1)) \<longrightarrow> tc_inv opn st1)"
proof -
  let ?fresh = "\<lambda>d. \<lparr>tc_ic = Some d, tc_icode = icode, tc_ocode = ocode\<rparr>"
  have start: "\<not> tc_cached icode ocode tc_start" using names by (auto simp: tc_cached_def tc_start_def)
  show ?thesis
  proof (cases "tc_cached icode ocode st")
    case False
    have "tc_inv opn st1" if "opn ocode icode = Some d" "transcode_convert conv rst (?fresh d) inp = Some (Inr (ret, out, ecnt, st1))"
      for d ret out ecnt st1
      using convert_inv[OF law _ _ that(2)] that(1) by (simp add: tc_inv_def)
    moreover have "tc_inv opn tc_start" by (simp add: tc_inv_def)
    ultimately show ?thesis
      using False start inv by (auto simp: transcode_def split: option.splits)
  next
    case True
    then have "st \<noteq> tc_start" using start by auto
    then obtain d where d: "tc_ic st = Some d" "opn (tc_ocode st) (tc_icode st) = Some d"
      using inv by (auto simp: tc_inv_def)
    have "tc_inv opn st1" if "transcode_convert conv rst st inp = Some (Inr (ret, out, ecnt, st1))" for ret out ecnt st1
      using convert_inv[OF law d that] inv by simp
    moreover have "opn ocode icode = Some d" using d True by (simp add: tc_cached_def)
    ultimately show ?thesis
      using True start inv convert_result[of st "?fresh d" conv rst inp] d by (auto simp: transcode_def)
  qed
qed

text \<open>
  C35. With an \<open>iconv\<close> that behaves as documented, and input that does not end inside a character, a conversion from a cold cache
  returns, with success, all the input converted, each invalid byte as a question mark and counted.
\<close>

theorem transcode_converts:
  assumes law: "iconv_follows dec conv" and opened: "opn ocode icode = Some d" and names: "icode \<noteq> [] \<or> ocode \<noteq> []"
    and dec: "decode_all dec inp = (out, k, [])"
  shows "\<exists>st. transcode None opn conv rst tc_start inp icode ocode = Some (Inr (True, out, k, st))"
proof -
  have "\<not> tc_cached icode ocode tc_start" using names by (auto simp: tc_cached_def tc_start_def)
  then show ?thesis
    using transcode_loop_total[OF law dec, of d "[]" 0] opened by (auto simp: transcode_def transcode_convert_def)
qed

text \<open>
  Input that ends inside a character loses much more than that character: when no byte before it is invalid and the rest converts to
  at most 8192 bytes, the call succeeds, counts no error and gives the empty string.
\<close>

theorem transcode_incomplete_lost:
  assumes law: "iconv_follows dec conv" and opened: "opn ocode icode = Some d" and names: "icode \<noteq> [] \<or> ocode \<noteq> []"
    and dec: "decode_all dec inp = (out, 0, left)" and left: "left \<noteq> []" and fits: "length out \<le> 8192"
  shows "\<exists>st. transcode None opn conv rst tc_start inp icode ocode = Some (Inr (True, [], 0, st))"
proof -
  have "\<not> tc_cached icode ocode tc_start" using names by (auto simp: tc_cached_def tc_start_def)
  then show ?thesis
    using transcode_loop_incomplete[OF law dec left fits, of d "[]" 0] opened
    by (auto simp: transcode_def transcode_convert_def)
qed

section \<open>Examples\<close>

text \<open>A character set with characters of one byte, and of two bytes after a byte \<open>@\<close>; a byte \<open>!\<close> is invalid.\<close>

fun demo_dec :: "string \<Rightarrow> piece" where
  "demo_dec [] = Incomplete"
| "demo_dec [c] = (if c = CHR ''@'' then Incomplete else if c = CHR ''!'' then Bad else Conv [c] 1)"
| "demo_dec (c # x # s) = (if c = CHR ''@'' then Conv [c, x] 2 else if c = CHR ''!'' then Bad else Conv [c] 1)"

lemma demo_follows: "iconv_follows demo_dec (greedy_iconv demo_dec)"
proof (rule greedy_iconv_follows)
  show "length p \<le> 8192" if "demo_dec s = Conv p n" for s p n
    using that by (cases s rule: demo_dec.cases) (auto split: if_splits)
qed

definition demo_open :: "string \<Rightarrow> string \<Rightarrow> unit option" where
  "demo_open tocode fromcode = (if fromcode = ''X'' then Some () else None)"

theorem transcode_converts_witness:
  "\<exists>st. transcode None demo_open (greedy_iconv demo_dec) id tc_start ''a!@bc'' ''X'' ''UTF-8'' = Some (Inr (True, ''a?@bc'', 1, st))"
  by (rule transcode_converts[OF demo_follows, of _ _ _ "()"]) (simp_all add: demo_open_def, code_simp)

theorem transcode_incomplete_lost_witness:
  "\<exists>st. transcode None demo_open (greedy_iconv demo_dec) id tc_start ''abc@'' ''X'' ''UTF-8'' = Some (Inr (True, [], 0, st))"
  by (rule transcode_incomplete_lost[OF demo_follows, of _ _ _ "()" _ "''abc''" "''@''"]) (simp_all add: demo_open_def, code_simp)

theorem transcode_cache_transparent_witness:
  "tc_result (transcode None demo_open (greedy_iconv demo_dec) id \<lparr>tc_ic = Some (), tc_icode = ''X'', tc_ocode = ''UTF-8''\<rparr>
      ''ab'' ''X'' ''UTF-8'') =
   tc_result (transcode None demo_open (greedy_iconv demo_dec) id tc_start ''ab'' ''X'' ''UTF-8'')"
  using transcode_cache_transparent[of demo_open "greedy_iconv demo_dec" id
      "\<lparr>tc_ic = Some (), tc_icode = ''X'', tc_ocode = ''UTF-8''\<rparr>" "''X''" "''UTF-8''" None "''ab''"]
  by (simp add: iconv_resets_def tc_inv_def demo_open_def)

end
