(* ===== verification/Mime_Decode.thy ===== *)
theory Mime_Decode
  imports Base64 Str_Basic
begin

text \<open>
  The decoders of mail headers (\<open>utils/mimeparse.cpp\<close>): quoted printable and percent encoding, and the encoded words of RFC 2047. The
  conversion of character sets is the argument \<open>tc\<close>, called as \<open>tc input from to\<close>, whose result is success, output and count of
  errors; it is \<open>transcode\<close> of the theory Transcode with its static data, whose cache does not show in the results.
\<close>

type_synonym transcoder = "string \<Rightarrow> string \<Rightarrow> string \<Rightarrow> bool \<times> string \<times> nat"

section \<open>Quoted printable\<close>

definition qp_digit :: "char \<Rightarrow> byte option" where
  "qp_digit c =
     (let b = byte_of c in
      if schar (CHR ''A'') \<le> schar c \<and> schar c \<le> schar (CHR ''F'') then Some (b - byte_of CHR ''A'' + 10)
      else if schar (CHR ''a'') \<le> schar c \<and> schar c \<le> schar (CHR ''f'') then Some (b - byte_of CHR ''a'' + 10)
      else if schar (CHR ''0'') \<le> schar c \<and> schar c \<le> schar (CHR ''9'') then Some (b - byte_of CHR ''0'')
      else None)"

text \<open>The output so far is in front. Two more bytes are needed after the escape character, or the loop ends.\<close>

fun qp_loop :: "char \<Rightarrow> string \<Rightarrow> string \<Rightarrow> bool \<times> string" where
  "qp_loop esc out [] = (True, out)"
| "qp_loop esc out (c # cs) =
     (if c = esc then
        (case cs of
           x # y # r \<Rightarrow>
             if x = cret \<and> y = newline then qp_loop esc out r
             else if x \<noteq> newline \<and> x \<noteq> cret then
               (case qp_digit x of
                  None \<Rightarrow> (False, out)
                | Some h \<Rightarrow>
                    (case qp_digit y of
                       None \<Rightarrow> (False, out)
                     | Some l \<Rightarrow> qp_loop esc (out @ [char_of_byte (h * 16 + l)]) r))
             else qp_loop esc out (y # r)
         | _ \<Rightarrow> (True, out))
      else qp_loop esc (out @ [c]) cs)"

definition qp_decode :: "string \<Rightarrow> string \<Rightarrow> char \<Rightarrow> bool \<times> string" where
  "qp_decode inp out esc = qp_loop esc out inp"

section \<open>Encoded words\<close>

definition utf8OrCp1252 :: "transcoder \<Rightarrow> string \<Rightarrow> string" where
  "utf8OrCp1252 tc inp =
     (case tc inp ''UTF-8'' ''UTF-8'' of (ok, out, ecnt) \<Rightarrow>
        if \<not> ok \<or> ecnt \<noteq> 0 then fst (snd (tc inp ''CP1252'' ''UTF-8'')) else out)"

definition rfc2047_decodeParsed :: "transcoder \<Rightarrow> string \<Rightarrow> string \<Rightarrow> string \<Rightarrow> (bool \<times> string) run" where
  "rfc2047_decodeParsed tc charset encoding value =
     (let finish = (\<lambda>decoded. case tc decoded charset ''UTF-8'' of (ok, out, _) \<Rightarrow> (ok, out)) in
      if stringlowercmp ''b'' encoding = 0 then
        (case base64_decode value of
           Inl e \<Rightarrow> Inl e
         | Inr (ok, decoded) \<Rightarrow> Inr (if \<not> ok then (False, []) else finish decoded))
      else if stringlowercmp ''q'' encoding = 0 then
        (case qp_decode value [] CHR ''='' of
           (ok, decoded) \<Rightarrow>
             Inr (if \<not> ok then (False, []) else finish (map (\<lambda>c. if c = CHR ''_'' then blank else c) decoded)))
      else Inr (False, []))"

datatype Rfc2047States = Ready | Open_eq | Charset | Encoding | Value | Close_q

record Rfc2047 =
  r_state :: Rfc2047States
  r_encoding :: string
  r_charset :: string
  r_value :: string
  r_out :: string

definition rfc2047_start :: Rfc2047 where
  "rfc2047_start = \<lparr>r_state = Ready, r_encoding = [], r_charset = [], r_value = [], r_out = []\<rparr>"

text \<open>One character; \<open>Inl\<close> is the return of false in the loop, with the output.\<close>

fun rfc2047_step :: "transcoder \<Rightarrow> Rfc2047 \<Rightarrow> char \<Rightarrow> (string + Rfc2047) run" where
  "rfc2047_step tc s ch =
     (case r_state s of
        Ready \<Rightarrow>
          Inr (Inr (if ch = CHR ''='' then s\<lparr>r_state := Open_eq\<rparr> else s\<lparr>r_value := r_value s @ [ch]\<rparr>))
      | Open_eq \<Rightarrow>
          Inr (Inr (if ch = CHR ''?'' then
             (if r_value s \<noteq> [] then s\<lparr>r_out := r_out s @ utf8OrCp1252 tc (r_value s), r_value := [], r_state := Charset\<rparr>
              else s\<lparr>r_state := Charset\<rparr>)
           else s\<lparr>r_state := Ready, r_value := r_value s @ [CHR ''='', ch]\<rparr>))
      | Charset \<Rightarrow>
          Inr (Inr (if ch = CHR ''?'' then s\<lparr>r_state := Encoding\<rparr> else s\<lparr>r_charset := r_charset s @ [ch]\<rparr>))
      | Encoding \<Rightarrow>
          Inr (Inr (if ch = CHR ''?'' then s\<lparr>r_state := Value\<rparr> else s\<lparr>r_encoding := r_encoding s @ [ch]\<rparr>))
      | Value \<Rightarrow>
          Inr (Inr (if ch = CHR ''?'' then s\<lparr>r_state := Close_q\<rparr> else s\<lparr>r_value := r_value s @ [ch]\<rparr>))
      | Close_q \<Rightarrow>
          if ch = CHR ''='' then
            (case rfc2047_decodeParsed tc (r_charset s) (r_encoding s) (r_value s) of
               Inl e \<Rightarrow> Inl e
             | Inr (ok, utf8) \<Rightarrow>
                 Inr (if \<not> ok then Inl (r_out s)
                      else Inr (s\<lparr>r_state := Ready, r_out := r_out s @ utf8, r_charset := [], r_encoding := [], r_value := []\<rparr>)))
          else Inr (Inr (s\<lparr>r_state := Value, r_value := r_value s @ [CHR ''?'', ch]\<rparr>)))"

fun rfc2047_loop :: "transcoder \<Rightarrow> Rfc2047 \<Rightarrow> string \<Rightarrow> (string + Rfc2047) run" where
  "rfc2047_loop tc s [] = Inr (Inr s)"
| "rfc2047_loop tc s (ch # cs) =
     (case rfc2047_step tc s ch of
        Inl e \<Rightarrow> Inl e
      | Inr (Inl out) \<Rightarrow> Inr (Inl out)
      | Inr (Inr s1) \<Rightarrow> rfc2047_loop tc s1 cs)"

definition rfc2047_decode :: "transcoder \<Rightarrow> string \<Rightarrow> (bool \<times> string) run" where
  "rfc2047_decode tc inp =
     (case rfc2047_loop tc rfc2047_start inp of
        Inl e \<Rightarrow> Inl e
      | Inr (Inl out) \<Rightarrow> Inr (False, out)
      | Inr (Inr s) \<Rightarrow>
          Inr (if r_state s \<noteq> Ready then (False, utf8OrCp1252 tc inp)
               else (True, if r_value s \<noteq> [] then r_out s @ utf8OrCp1252 tc (r_value s) else r_out s)))"

section \<open>RFC 2231\<close>

text \<open>\<open>out\<close> is the reference parameter, left as it is when the character set cannot be found.\<close>

definition rfc2231_decode :: "transcoder \<Rightarrow> string \<Rightarrow> string \<Rightarrow> string \<Rightarrow> bool \<times> string \<times> string" where
  "rfc2231_decode tc inp out charset =
     (let finish = (\<lambda>cs rest. case tc (snd (qp_decode rest [] CHR ''%'')) cs ''UTF-8'' of (ok, o1, _) \<Rightarrow> (ok, o1, cs)) in
      if charset = [] then
        (case find_char inp (CHR 0x27) 0 of
           None \<Rightarrow> (False, out, charset)
         | Some p1 \<Rightarrow>
             (case find_char inp (CHR 0x27) (p1 + 1) of
                None \<Rightarrow> (False, out, take p1 inp)
              | Some p2 \<Rightarrow> finish (take p1 inp) (drop (p2 + 1) inp)))
      else finish charset inp)"

section \<open>Well-formed encodings\<close>

text \<open>
  The items that an encoder may write: a character as it is, a byte as two hexadecimal digits, each in upper or lower case
  (\<open>hex_text\<close> of the prelude, which knows nothing of the decoder), after the escape character, or a soft line break.
\<close>

datatype qp_item = Lit char | Hex "bool \<times> bool" char | Soft

fun qp_item_ok :: "char \<Rightarrow> qp_item \<Rightarrow> bool" where
  "qp_item_ok esc (Lit c) \<longleftrightarrow> c \<noteq> esc"
| "qp_item_ok esc (Hex u c) \<longleftrightarrow> True"
| "qp_item_ok esc Soft \<longleftrightarrow> True"

fun qp_item_text :: "char \<Rightarrow> qp_item \<Rightarrow> string" where
  "qp_item_text esc (Lit c) = [c]"
| "qp_item_text esc (Hex u c) = esc # hex_text u c"
| "qp_item_text esc Soft = [esc, cret, newline]"

fun qp_item_value :: "qp_item \<Rightarrow> string" where
  "qp_item_value (Lit c) = [c]"
| "qp_item_value (Hex u c) = [c]"
| "qp_item_value Soft = []"

definition qp_text :: "char \<Rightarrow> qp_item list \<Rightarrow> string" where
  "qp_text esc items = concat (map (qp_item_text esc) items)"

definition qp_value :: "qp_item list \<Rightarrow> string" where
  "qp_value items = concat (map qp_item_value items)"

lemma qp_digit_breaks: "qp_digit newline = None" "qp_digit cret = None"
  by code_simp+

lemma qp_digit_hex: "n < 16 \<Longrightarrow> qp_digit (hex_digit u n) = Some (word_of_nat n)"
proof (rule hex_digits_read [where f = qp_digit and g = "\<lambda>n. Some (word_of_nat n)"])
  show "list_all (\<lambda>n. qp_digit (''0123456789ABCDEF'' ! n) = Some (word_of_nat n) \<and>
    qp_digit (''0123456789abcdef'' ! n) = Some (word_of_nat n)) [0..<16]"
    by code_simp
qed

lemma qp_hex_text:
  obtains x y h l where "hex_text u c = [x, y]" "qp_digit x = Some h" "qp_digit y = Some l" "char_of_byte (h * 16 + l) = c"
proof -
  obtain n :: nat where n: "n = of_char c" by simp
  have "word_of_nat (n div 16) * 16 + word_of_nat (n mod 16) = (word_of_nat (n div 16 * 16 + n mod 16) :: byte)"
    by (simp only: of_nat_add of_nat_mult of_nat_numeral)
  also have "\<dots> = byte_of c"
    unfolding n div_mult_mod_eq by (simp add: byte_of_def of_nat_of_char)
  finally have "char_of_byte (word_of_nat (n div 16) * 16 + word_of_nat (n mod 16)) = c"
    by simp
  then show ?thesis
    using that of_char_nibbles [of c] qp_digit_hex n by (auto simp: hex_text_def)
qed

lemma qp_loop_items:
  "list_all (qp_item_ok esc) items \<Longrightarrow> qp_loop esc out (qp_text esc items @ s) = qp_loop esc (out @ qp_value items) s"
proof (induction items arbitrary: out)
  case (Cons i items)
  show ?case
  proof (cases i)
    case (Hex u c)
    then show ?thesis
      using Cons qp_digit_breaks
      by (cases rule: qp_hex_text [of u c]) (auto simp: qp_text_def qp_value_def)
  qed (use Cons in \<open>auto simp: qp_text_def qp_value_def\<close>)
qed (simp add: qp_text_def qp_value_def)

text \<open>
  C36. Every well-formed encoding of a string is decoded to it, with the equal sign of quoted printable and with the percent sign of
  RFC 2231, whichever characters the encoder chose to escape, in either case of each digit and with any soft line breaks.
\<close>

theorem qp_decode_items:
  assumes "list_all (qp_item_ok esc) items"
  shows "qp_decode (qp_text esc items) out esc = (True, out @ qp_value items)"
  using qp_loop_items[OF assms, of out "[]"] by (simp add: qp_decode_def)

theorem qp_decode_items_witness:
  "qp_decode ''a%3d%3Db%aF'' [] CHR ''%'' = (True, ''a==b'' @ [CHR 0xAF])"
proof -
  obtain items where items: "items =
      [Lit CHR ''a'', Hex (True, False) CHR ''='', Hex (False, True) CHR ''='', Lit CHR ''b'', Hex (False, True) CHR 0xAF]"
    by simp
  have "list_all (qp_item_ok CHR ''%'') items" "qp_value items = ''a==b'' @ [CHR 0xAF]"
    "qp_text CHR ''%'' items = ''a%3d%3Db%aF''"
    unfolding items by code_simp+
  then show ?thesis using qp_decode_items[of "CHR ''%''" items "[]"] by simp
qed

section \<open>Headers with encoded words\<close>

definition plain_value :: "transcoder \<Rightarrow> string \<Rightarrow> string" where
  "plain_value tc p = (if p = [] then [] else utf8OrCp1252 tc p)"

definition word_text :: "string \<Rightarrow> string \<Rightarrow> string \<Rightarrow> string" where
  "word_text charset encoding body = ''=?'' @ charset @ ''?'' @ encoding @ ''?'' @ body @ ''?=''"

lemma loop_ready_plain:
  "r_state s = Ready \<Longrightarrow> CHR ''='' \<notin> set p \<Longrightarrow>
   rfc2047_loop tc s (p @ cs) = rfc2047_loop tc (s\<lparr>r_value := r_value s @ p\<rparr>) cs"
  by (induction p arbitrary: s) auto

lemma loop_charset:
  "r_state s = Charset \<Longrightarrow> CHR ''?'' \<notin> set x \<Longrightarrow>
   rfc2047_loop tc s (x @ CHR ''?'' # cs) = rfc2047_loop tc (s\<lparr>r_charset := r_charset s @ x, r_state := Encoding\<rparr>) cs"
  by (induction x arbitrary: s) auto

lemma loop_encoding:
  "r_state s = Encoding \<Longrightarrow> CHR ''?'' \<notin> set x \<Longrightarrow>
   rfc2047_loop tc s (x @ CHR ''?'' # cs) = rfc2047_loop tc (s\<lparr>r_encoding := r_encoding s @ x, r_state := Value\<rparr>) cs"
  by (induction x arbitrary: s) auto

lemma loop_value:
  "r_state s = Value \<Longrightarrow> CHR ''?'' \<notin> set x \<Longrightarrow>
   rfc2047_loop tc s (x @ CHR ''?'' # cs) = rfc2047_loop tc (s\<lparr>r_value := r_value s @ x, r_state := Close_q\<rparr>) cs"
  by (induction x arbitrary: s) auto

text \<open>Between two words: the state is the initial one but for the output.\<close>

definition between :: "string \<Rightarrow> Rfc2047" where
  "between out = rfc2047_start\<lparr>r_out := out\<rparr>"

lemma loop_word:
  assumes p: "CHR ''='' \<notin> set p" and x: "CHR ''?'' \<notin> set charset" "CHR ''?'' \<notin> set encoding" "CHR ''?'' \<notin> set body"
    and dec: "rfc2047_decodeParsed tc charset encoding body = Inr (True, u)"
  shows "rfc2047_loop tc (between out) (p @ word_text charset encoding body @ cs) =
    rfc2047_loop tc (between (out @ plain_value tc p @ u)) cs"
  using x dec
  by (auto simp: loop_ready_plain p word_text_def between_def rfc2047_start_def loop_charset loop_encoding loop_value plain_value_def)

text \<open>The two kinds of encoded words: the character set with the bytes, in base 64 or as items of quoted printable.\<close>

datatype eword = BWord string string | QWord string "qp_item list"

fun eword_ok :: "eword \<Rightarrow> bool" where
  "eword_ok (BWord cs s) \<longleftrightarrow> CHR ''?'' \<notin> set cs"
| "eword_ok (QWord cs items) \<longleftrightarrow>
     CHR ''?'' \<notin> set cs \<and> list_all (qp_item_ok CHR ''='') items \<and> CHR ''?'' \<notin> set (qp_text CHR ''='' items)"

fun eword_text :: "eword \<Rightarrow> string" where
  "eword_text (BWord cs s) = word_text cs ''B'' (base64_encode s)"
| "eword_text (QWord cs items) = word_text cs ''Q'' (qp_text CHR ''='' items)"

text \<open>The result of the conversion; all underscores of the decoded bytes have become blanks.\<close>

fun eword_value :: "transcoder \<Rightarrow> eword \<Rightarrow> bool \<times> string \<times> nat" where
  "eword_value tc (BWord cs s) = tc s cs ''UTF-8''"
| "eword_value tc (QWord cs items) = tc (map (\<lambda>c. if c = CHR ''_'' then blank else c) (qp_value items)) cs ''UTF-8''"

lemma base64_chars_no_question: "i < 64 \<Longrightarrow> Base64_chars ! i \<noteq> CHR ''?''"
proof -
  have "list_all (\<lambda>i. Base64_chars ! i \<noteq> CHR ''?'') [0..<64]" by code_simp
  then show "i < 64 \<Longrightarrow> Base64_chars ! i \<noteq> CHR ''?''" unfolding list_all_iff by simp
qed

lemma b64_char_no_question: "unat v < 64 \<Longrightarrow> b64_char v \<noteq> CHR ''?''"
  by (simp add: b64_char_def base64_chars_no_question)

lemma base64_encode_no_question: "CHR ''?'' \<notin> set (base64_encode s)"
  using b64_o_bounds[THEN b64_char_no_question]
  by (induction s rule: base64_encode.induct) (auto simp: Let_def Pad64_def eq_commute[of "CHR ''?''"])

lemma stringlowercmp_B: "stringlowercmp ''b'' ''B'' = 0"
  by code_simp

lemma stringlowercmp_Q: "stringlowercmp ''q'' ''Q'' = 0" "stringlowercmp ''b'' ''Q'' \<noteq> 0"
  by code_simp+

lemma loop_eword:
  assumes p: "CHR ''='' \<notin> set p" and w: "eword_ok w" "fst (eword_value tc w)"
  shows "rfc2047_loop tc (between out) (p @ eword_text w @ cs) =
    rfc2047_loop tc (between (out @ plain_value tc p @ fst (snd (eword_value tc w)))) cs"
proof (cases w)
  case (BWord charset s)
  have "rfc2047_decodeParsed tc charset ''B'' (base64_encode s) = Inr (True, fst (snd (eword_value tc w)))"
    using w BWord by (auto simp: rfc2047_decodeParsed_def stringlowercmp_B base64_decode_encode split: prod.splits)
  then show ?thesis using loop_word[OF p] w base64_encode_no_question BWord by simp
next
  case (QWord charset items)
  then have "qp_decode (qp_text CHR ''='' items) [] CHR ''='' = (True, qp_value items)"
    using w qp_loop_items[of "CHR ''=''" items "[]" "[]"] by (simp add: qp_decode_def)
  then have "rfc2047_decodeParsed tc charset ''Q'' (qp_text CHR ''='' items) = Inr (True, fst (snd (eword_value tc w)))"
    using w QWord by (auto simp: rfc2047_decodeParsed_def stringlowercmp_Q split: prod.splits)
  then show ?thesis using loop_word[OF p] w QWord by simp
qed

definition header_text :: "(string \<times> eword) list \<Rightarrow> string \<Rightarrow> string" where
  "header_text ws p = concat (map (\<lambda>(q, w). q @ eword_text w) ws) @ p"

definition header_value :: "transcoder \<Rightarrow> (string \<times> eword) list \<Rightarrow> string \<Rightarrow> string" where
  "header_value tc ws p = concat (map (\<lambda>(q, w). plain_value tc q @ fst (snd (eword_value tc w))) ws) @ plain_value tc p"

definition header_ok :: "transcoder \<Rightarrow> (string \<times> eword) list \<Rightarrow> string \<Rightarrow> bool" where
  "header_ok tc ws p \<longleftrightarrow>
     list_all (\<lambda>(q, w). CHR ''='' \<notin> set q \<and> eword_ok w \<and> fst (eword_value tc w)) ws \<and> CHR ''='' \<notin> set p"

lemma loop_header:
  "header_ok tc ws p \<Longrightarrow> rfc2047_loop tc (between out) (header_text ws p) =
     Inr (Inr ((between (out @ concat (map (\<lambda>(q, w). plain_value tc q @ fst (snd (eword_value tc w))) ws)))\<lparr>r_value := p\<rparr>))"
proof (induction ws arbitrary: out)
  case Nil
  then show ?case
    using loop_ready_plain[of "between out" p tc "[]"]
    by (simp add: header_ok_def header_text_def between_def rfc2047_start_def)
next
  case (Cons x ws)
  obtain q w where x: "x = (q, w)" by force
  have ok: "CHR ''='' \<notin> set q" "eword_ok w" "fst (eword_value tc w)" and rest: "header_ok tc ws p"
    using Cons.prems by (auto simp: header_ok_def x)
  have "header_text (x # ws) p = q @ eword_text w @ header_text ws p" by (simp add: header_text_def x)
  then show ?case using loop_eword[OF ok] Cons.IH[OF rest] x by simp
qed


text \<open>A conversion that keeps the bytes, for the examples.\<close>

definition same_tc :: transcoder where
  "same_tc s from_cs to_cs = (True, s, 0)"


text \<open>
  Two departures from RFC 2047: an underscore that the encoder had to escape comes out as a blank, and the blank between two
  adjacent words, which is not part of the text, stays.
\<close>

lemma rfc2047_escaped_underscore: "rfc2047_decode same_tc ''=?X?Q?a=5Fb?='' = Inr (True, ''a b'')"
  by code_simp

lemma rfc2047_adjacent_words: "rfc2047_decode same_tc ''=?X?Q?ab?= =?X?Q?cd?='' = Inr (True, ''ab cd'')"
  by code_simp

end
