(* ===== verification/Mime_Params.thy ===== *)
theory Mime_Params
  imports Mime_Decode Conf_Map
begin

text \<open>
  MIME header values with parameters (\<open>parseMimeHeaderValue\<close> of \<open>utils/mimeparse.cpp\<close>): the lexical analysis with comments and
  quoted strings, the list of parameters, the continuations of RFC 2231 and their decoding.
\<close>

section \<open>Lexical tokens\<close>

datatype lex_kind = LNone | LToken | LSeparator

record Lexical =
  lx_what :: lex_kind
  lx_value :: string
  lx_error :: string
  lx_quote :: char

definition lex_new :: Lexical where
  "lex_new = \<lparr>lx_what = LNone, lx_value = [], lx_error = [], lx_quote = CHR 0x00\<rparr>"

definition lex_error :: "string \<Rightarrow> Lexical \<Rightarrow> Lexical" where
  "lex_error msg lx = lx\<lparr>lx_error := lx_error lx @ msg\<rparr>"

text \<open>The loop of \<open>skip_comment\<close> with the nesting level; the position returned is the end of the input after an error.\<close>

function skip_comment_loop :: "string \<Rightarrow> nat \<Rightarrow> int \<Rightarrow> Lexical \<Rightarrow> nat \<times> Lexical" where
  "skip_comment_loop inp start level lx =
     (if start < length inp then
        if inp ! start = backslash then
          (if start + 1 < length inp then skip_comment_loop inp (start + 2) level lx
           else (length inp, lex_error (backslash # '' at end of string '') lx))
        else if inp ! start = CHR ''('' then skip_comment_loop inp (start + 1) (level + 1) lx
        else if inp ! start = CHR '')'' then
          (if level - 1 = 0 then (start + 1, lx) else skip_comment_loop inp (start + 1) (level - 1) lx)
        else skip_comment_loop inp (start + 1) level lx
      else if level \<noteq> 0 then (length inp, lex_error ''Unclosed comment '' lx)
      else (start, lx))"
  by pat_completeness auto
termination
  by (relation "measure (\<lambda>(inp, start, level, lx). length inp - start)") auto

declare skip_comment_loop.simps [simp del]

definition skip_comment :: "string \<Rightarrow> nat \<Rightarrow> Lexical \<Rightarrow> nat \<times> Lexical" where
  "skip_comment inp start lx = skip_comment_loop inp start 0 lx"

lemma skip_comment_loop_bounds:
  "start \<le> length inp \<Longrightarrow> start \<le> fst (skip_comment_loop inp start level lx) \<and> fst (skip_comment_loop inp start level lx) \<le> length inp"
proof (induction inp start level lx rule: skip_comment_loop.induct)
  case (1 inp start level lx)
  show ?case
    by (subst (1 2) skip_comment_loop.simps) (use 1 in \<open>auto simp: Suc_le_eq intro: Suc_leD less_imp_le dest: Suc_leD\<close>)
qed

lemma skip_comment_progress:
  assumes "start < length inp" "inp ! start = CHR ''(''"
  shows "start < fst (skip_comment inp start lx) \<and> fst (skip_comment inp start lx) \<le> length inp"
  using skip_comment_loop_bounds[of "start + 1" inp 1 lx] assms
  by (simp add: skip_comment_def skip_comment_loop.simps[of inp start])

definition cstr_blanks :: string where
  "cstr_blanks = [blank, tab, cret, newline]"

function skip_whitespace_and_comment :: "string \<Rightarrow> nat \<Rightarrow> Lexical \<Rightarrow> nat \<times> Lexical" where
  "skip_whitespace_and_comment inp start lx =
     (case find_first_not_of inp cstr_blanks start of
        None \<Rightarrow> (length inp, lx)
      | Some s \<Rightarrow>
          if inp ! s = CHR ''('' then
            (case skip_comment inp s lx of (s1, lx1) \<Rightarrow> skip_whitespace_and_comment inp s1 lx1)
          else (s, lx))"
  by pat_completeness auto
termination
proof (relation "measure (\<lambda>(inp, start, lx). length inp - start)")
  fix inp start and lx lx1 :: Lexical and s s1
  assume s: "find_first_not_of inp cstr_blanks start = Some s" "inp ! s = CHR ''(''"
    and c: "(s1, lx1) = skip_comment inp s lx"
  have "start \<le> s" "s < length inp" using s(1) by (auto dest: find_first_not_of_Some)
  then show "((inp, s1, lx1), inp, start, lx) \<in> measure (\<lambda>(inp, start, lx). length inp - start)"
    using skip_comment_progress[of s inp lx] s(2) c[symmetric] by auto
qed simp

declare skip_whitespace_and_comment.simps [simp del]

text \<open>The end of a quoted string: nothing when a backslash ends the input, the length of the input when there is no closing character.\<close>

function quoted_end :: "string \<Rightarrow> nat \<Rightarrow> char \<Rightarrow> nat option" where
  "quoted_end inp pos cquot =
     (if pos < length inp \<and> inp ! pos \<noteq> cquot then
        if inp ! pos = backslash then
          (if pos + 1 < length inp then quoted_end inp (pos + 2) cquot else None)
        else quoted_end inp (pos + 1) cquot
      else Some pos)"
  by pat_completeness auto
termination
  by (relation "measure (\<lambda>(inp, pos, cquot). length inp - pos)") auto

declare quoted_end.simps [simp del]

definition close_quote :: "char \<Rightarrow> char option" where
  "close_quote c = (if c = CHR ''<'' then Some CHR ''>'' else if c = dquote then Some dquote else None)"

definition unquoted_end :: "string \<Rightarrow> nat \<Rightarrow> string \<Rightarrow> nat" where
  "unquoted_end inp start delims =
     (case find_first_of inp (delims @ [cret, newline, blank, tab, CHR ''('']) start of None \<Rightarrow> length inp | Some p \<Rightarrow> p)"

text \<open>\<open>None\<close> is \<open>npos\<close>, an error.\<close>

definition find_next_token :: "string \<Rightarrow> nat \<Rightarrow> Lexical \<Rightarrow> string \<Rightarrow> nat option \<times> Lexical" where
  "find_next_token inp start0 lx0 delims =
     (case skip_whitespace_and_comment inp start0 lx0 of
        (start, lx) \<Rightarrow>
          if start = length inp then (Some (length inp), lx\<lparr>lx_what := LToken, lx_value := []\<rparr>)
          else if inp ! start \<in> set delims then
            (Some (start + 1), lx\<lparr>lx_what := LSeparator, lx_value := [inp ! start]\<rparr>)
          else case close_quote (inp ! start) of
              Some cquot \<Rightarrow>
                (case quoted_end inp (start + 1) cquot of
                   None \<Rightarrow> (None, lex_error (backslash # '' at end of string '') lx)
                 | Some fin \<Rightarrow>
                     if fin = length inp then (None, lex_error ''Unclosed quoted string '' lx)
                     else (Some (fin + 1),
                       lx\<lparr>lx_what := LToken, lx_value := substr inp (start + 1) (fin - (start + 1)), lx_quote := inp ! start\<rparr>))
            | None \<Rightarrow>
                (let fin = unquoted_end inp start delims in
                 (Some fin, lx\<lparr>lx_what := LToken, lx_quote := CHR 0x00, lx_value := substr inp start (fin - start)\<rparr>)))"

text \<open>A call moves forward and stays in the input.\<close>

lemma skip_whitespace_bounds:
  "start \<le> length inp \<Longrightarrow> skip_whitespace_and_comment inp start lx = (s, lx1) \<Longrightarrow> start \<le> s \<and> s \<le> length inp"
proof (induction inp start lx arbitrary: s lx1 rule: skip_whitespace_and_comment.induct)
  case (1 inp start lx)
  show ?case
  proof (cases "find_first_not_of inp cstr_blanks start")
    case None
    then show ?thesis using 1(2,3) by (simp add: skip_whitespace_and_comment.simps[of inp start])
  next
    case (Some p)
    then have p: "start \<le> p" "p < length inp" by (auto dest: find_first_not_of_Some)
    show ?thesis
    proof (cases "inp ! p = CHR ''(''")
      case True
      obtain q lx2 where q: "skip_comment inp p lx = (q, lx2)" by force
      then have "p < q" "q \<le> length inp" using skip_comment_progress[OF p(2) True, of lx] by simp_all
      moreover have "skip_whitespace_and_comment inp q lx2 = (s, lx1)"
        using 1(3) Some True q by (simp add: skip_whitespace_and_comment.simps[of inp start])
      ultimately have "q \<le> s \<and> s \<le> length inp" using 1(1)[OF Some True q[symmetric]] by blast
      then show ?thesis using p \<open>p < q\<close> by linarith
    next
      case False
      then show ?thesis using 1(3) Some p by (simp add: skip_whitespace_and_comment.simps[of inp start])
    qed
  qed
qed

lemma quoted_end_bounds: "pos \<le> length inp \<Longrightarrow> quoted_end inp pos cquot = Some p \<Longrightarrow> pos \<le> p \<and> p \<le> length inp"
proof (induction inp pos cquot rule: quoted_end.induct)
  case (1 inp pos cquot)
  then show ?case
    by (subst (asm) (3) quoted_end.simps) (auto split: if_splits)
qed

lemma unquoted_end_bounds:
  assumes "start < length inp" "inp ! start \<notin> set delims" "inp ! start \<notin> set cstr_blanks" "inp ! start \<noteq> CHR ''(''"
  shows "start < unquoted_end inp start delims \<and> unquoted_end inp start delims \<le> length inp"
proof (cases "find_first_of inp (delims @ [cret, newline, blank, tab, CHR ''('']) start")
  case None
  then show ?thesis using assms(1) by (simp add: unquoted_end_def)
next
  case (Some p)
  then have "start \<le> p" "p < length inp" "inp ! p \<in> set (delims @ [cret, newline, blank, tab, CHR ''(''])"
    by (auto dest: find_first_of_Some)
  moreover have "p \<noteq> start" using calculation(3) assms by (auto simp: cstr_blanks_def)
  ultimately show ?thesis using Some by (simp add: unquoted_end_def)
qed

lemma skip_whitespace_stops:
  "skip_whitespace_and_comment inp start lx = (s, lx1) \<Longrightarrow> s \<noteq> length inp \<Longrightarrow>
   inp ! s \<notin> set cstr_blanks \<and> inp ! s \<noteq> CHR ''(''"
proof (induction inp start lx arbitrary: s lx1 rule: skip_whitespace_and_comment.induct)
  case (1 inp start lx)
  show ?case
  proof (cases "find_first_not_of inp cstr_blanks start")
    case None
    then show ?thesis using 1(2,3) by (simp add: skip_whitespace_and_comment.simps[of inp start])
  next
    case (Some p)
    then have p: "inp ! p \<notin> set cstr_blanks" by (auto dest: find_first_not_of_Some)
    show ?thesis
    proof (cases "inp ! p = CHR ''(''")
      case True
      obtain q lx2 where q: "skip_comment inp p lx = (q, lx2)" by force
      then have "skip_whitespace_and_comment inp q lx2 = (s, lx1)"
        using 1(2) Some True by (simp add: skip_whitespace_and_comment.simps[of inp start])
      then show ?thesis using 1(1)[OF Some True q[symmetric]] 1(3) by blast
    next
      case False
      then show ?thesis using 1(2) Some p by (simp add: skip_whitespace_and_comment.simps[of inp start])
    qed
  qed
qed

lemma find_next_token_bounds:
  assumes start: "start \<le> length inp" and res: "find_next_token inp start lx delims = (Some p, lx1)"
  shows "start \<le> p" and "p \<le> length inp" and "start < length inp \<Longrightarrow> start < p"
proof -
  obtain s lx2 where s: "skip_whitespace_and_comment inp start lx = (s, lx2)" by force
  have b: "start \<le> s" "s \<le> length inp" using skip_whitespace_bounds[OF start s] by simp_all
  have "start \<le> p \<and> p \<le> length inp \<and> (start < length inp \<longrightarrow> start < p)"
  proof (cases "s = length inp")
    case True
    then show ?thesis using res s b by (auto simp: find_next_token_def)
  next
    case False
    note stop = skip_whitespace_stops[OF s False]
    show ?thesis
    proof (cases "inp ! s \<in> set delims")
      case True
      then show ?thesis using res s b False by (auto simp: find_next_token_def)
    next
      case nodelim: False
      have "s < length inp" using False b by simp
      note u = unquoted_end_bounds[OF this nodelim] stop
      show ?thesis
      proof (cases "close_quote (inp ! s)")
        case None
        then show ?thesis using res s b False nodelim u by (auto simp: find_next_token_def Let_def)
      next
        case (Some cquot)
        then obtain fin where fin: "quoted_end inp (s + 1) cquot = Some fin" "fin \<noteq> length inp" "p = fin + 1"
          using res s False nodelim by (auto simp: find_next_token_def split: option.splits if_splits)
        then show ?thesis
          using quoted_end_bounds[OF _ fin(1)] \<open>s < length inp\<close> b(1) by auto
      qed
    qed
  qed
  then show "start \<le> p" and "p \<le> length inp" and "start < length inp \<Longrightarrow> start < p" by simp_all
qed

section \<open>The parameters\<close>

abbreviation string_lt :: "string \<Rightarrow> string \<Rightarrow> bool" where
  "string_lt \<equiv> CaseComparator False"

definition cstr_delims :: string where
  "cstr_delims = '';=''"

definition lex_reset :: "Lexical \<Rightarrow> Lexical" where
  "lex_reset lx = lx\<lparr>lx_what := LNone, lx_value := [], lx_error := [], lx_quote := CHR 0x00\<rparr>"

text \<open>What follows the name of a parameter: nothing, its value, or an error.\<close>

datatype param_rest = PNone nat Lexical | PValue string nat Lexical | PError

definition parameter_rest :: "string \<Rightarrow> nat \<Rightarrow> Lexical \<Rightarrow> param_rest" where
  "parameter_rest value start lx =
     (case find_next_token value start lx cstr_delims of
        (None, _) \<Rightarrow> PError
      | (Some s2, lx2) \<Rightarrow>
          if lx_what lx2 = LSeparator \<and> (lx_value lx2 = [] \<or> hd (lx_value lx2) = CHR '';'') then PNone s2 lx2
          else if lx_what lx2 = LSeparator \<and> hd (lx_value lx2) = CHR ''='' then
            (case find_next_token value s2 lx2 cstr_delims of
               (None, _) \<Rightarrow> PError
             | (Some s3, lx3) \<Rightarrow> if lx_what lx3 \<noteq> LToken then PError else PValue (lx_value lx3) s3 lx3)
          else PError)"

lemma parameter_rest_bounds:
  assumes start: "start \<le> length v"
  shows "parameter_rest v start lx = PNone p lx1 \<Longrightarrow> start \<le> p \<and> p \<le> length v"
    and "parameter_rest v start lx = PValue x p lx1 \<Longrightarrow> start \<le> p \<and> p \<le> length v"
proof -
  obtain s2 lx2 where t2: "find_next_token v start lx cstr_delims = (s2, lx2)" by force
  have b2: "start \<le> q" "q \<le> length v" if "s2 = Some q" for q
    using find_next_token_bounds[OF start, of lx cstr_delims q lx2] t2 that by simp_all
  show "parameter_rest v start lx = PNone p lx1 \<Longrightarrow> start \<le> p \<and> p \<le> length v"
    using t2 b2 by (auto simp: parameter_rest_def split: option.splits if_splits prod.splits)
  assume val: "parameter_rest v start lx = PValue x p lx1"
  then obtain q where q: "s2 = Some q"
    using t2 by (auto simp: parameter_rest_def split: option.splits)
  then have "find_next_token v q lx2 cstr_delims = (Some p, lx1)"
    using val t2 by (auto simp: parameter_rest_def split: option.splits if_splits prod.splits)
  then show "start \<le> p \<and> p \<le> length v"
    using find_next_token_bounds[OF b2(2)[OF q], of lx2 cstr_delims p lx1] b2[OF q] by simp
qed

text \<open>The loop over the parameters; \<open>None\<close> is the return of false.\<close>

function params_loop :: "string \<Rightarrow> nat \<Rightarrow> Lexical \<Rightarrow> (string, string) omap \<Rightarrow> (string, string) omap option" where
  "params_loop v start lx raw =
     (if length v \<le> start then Some raw
      else case find_next_token v start (lex_reset lx) cstr_delims of
          (None, _) \<Rightarrow> None
        | (Some s1, lx1) \<Rightarrow>
            if lx_what lx1 = LSeparator \<and> hd (lx_value lx1) = CHR '';'' then params_loop v s1 lx1 raw
            else if lx_what lx1 \<noteq> LToken then None
            else
              let name = stringtolower (lx_value lx1) in
              if length v \<le> s1 then Some (omap_put string_lt name [] raw)
              else case parameter_rest v s1 lx1 of
                  PError \<Rightarrow> None
                | PNone s2 lx2 \<Rightarrow> params_loop v s2 lx2 (omap_put string_lt name [] raw)
                | PValue x s3 lx3 \<Rightarrow> params_loop v s3 lx3 (omap_put string_lt name x raw))"
  by pat_completeness auto
termination
proof (relation "measure (\<lambda>(v, start, lx, raw). length v - start)", goal_cases)
  case 1
  then show ?case by simp
next
  case (2 v start lx raw x y s1)
  then show ?case using find_next_token_bounds[of start v "lex_reset lx" cstr_delims s1 y] by auto
next
  case (3 v start lx raw x y s1 name s2 lx2)
  then show ?case
    using find_next_token_bounds[of start v "lex_reset lx" cstr_delims s1 y] parameter_rest_bounds(1)[of s1 v y s2 lx2] by auto
next
  case (4 v start lx raw x y s1 name val s3 lx3)
  then show ?case
    using find_next_token_bounds[of start v "lex_reset lx" cstr_delims s1 y] parameter_rest_bounds(2)[of s1 v y val s3 lx3] by auto
qed

declare params_loop.simps [simp del]

section \<open>Continuations\<close>

record Chunk =
  ck_decode :: bool
  ck_value :: string

definition chunk_new :: Chunk where
  "chunk_new = \<lparr>ck_decode = False, ck_value = []\<rparr>"

text \<open>\<open>vector::resize\<close> to \<open>idx + 1\<close> elements and the assignment to the last one; \<open>idx\<close> is an \<open>int\<close>.\<close>

definition put_chunk :: "int \<Rightarrow> Chunk \<Rightarrow> Chunk list \<Rightarrow> Chunk list run" where
  "put_chunk idx c cs =
     (if idx = 2 ^ 31 - 1 then Inl NotRepresentable
      else if idx + 1 < 0 then Inl LengthError
      else if idx < 0 then Inl BadAccess
      else
        let n = nat (idx + 1) in
        Inr ((take n cs @ replicate (n - length cs) chunk_new)[nat idx := c]))"

definition chunk_name :: "string \<Rightarrow> (bool \<times> string \<times> int) run" where
  "chunk_name rawnm =
     (let decode = (last rawnm = CHR ''*''); nm = (if decode then butlast rawnm else rawnm) in
      case rfind_char nm CHR ''*'' of
        None \<Rightarrow> Inr (decode, nm, 0)
      | Some a \<Rightarrow>
          (case atoi (drop (a + 1) nm) of Inl e \<Rightarrow> Inl e | Inr idx \<Rightarrow> Inr (decode, take a nm, idx)))"

definition add_chunk :: "string \<times> string \<Rightarrow> (string, Chunk list) omap \<Rightarrow> (string, Chunk list) omap run" where
  "add_chunk p all =
     (case p of (rawnm, rawvalue) \<Rightarrow>
        if rawnm = [] then Inr all
        else case chunk_name rawnm of
            Inl e \<Rightarrow> Inl e
          | Inr (decode, nm, idx) \<Rightarrow>
              (case put_chunk idx \<lparr>ck_decode = decode, ck_value = rawvalue\<rparr>
                    (case omap_find string_lt nm all of None \<Rightarrow> [] | Some cs \<Rightarrow> cs) of
                 Inl e \<Rightarrow> Inl e
               | Inr cs \<Rightarrow> Inr (omap_put string_lt nm cs all)))"

fun add_chunks :: "(string, string) omap \<Rightarrow> (string, Chunk list) omap \<Rightarrow> (string, Chunk list) omap run" where
  "add_chunks [] all = Inr all"
| "add_chunks (p # raw) all = (case add_chunk p all of Inl e \<Rightarrow> Inl e | Inr all1 \<Rightarrow> add_chunks raw all1)"

definition chunks_value :: "transcoder \<Rightarrow> Chunk list \<Rightarrow> string run" where
  "chunks_value tc cs =
     (let value = concat (map ck_value cs) in
      if ck_decode (cs ! 0) then (case rfc2231_decode tc value [] [] of (_, out, _) \<Rightarrow> Inr out)
      else (case rfc2047_decode tc value of Inl e \<Rightarrow> Inl e | Inr (_, out) \<Rightarrow> Inr out))"

fun decode_params :: "transcoder \<Rightarrow> (string, Chunk list) omap \<Rightarrow> (string, string) omap \<Rightarrow> (string, string) omap run" where
  "decode_params tc [] params = Inr params"
| "decode_params tc ((nm, cs) # all) params =
     (if cs = [] then decode_params tc all params
      else case chunks_value tc cs of
          Inl e \<Rightarrow> Inl e
        | Inr v \<Rightarrow> decode_params tc all (omap_put string_lt nm v params))"

section \<open>The header value\<close>

record MimeHeaderValue =
  mh_value :: string
  mh_params :: "(string, string) omap"

definition parseMimeHeaderValue :: "transcoder \<Rightarrow> string \<Rightarrow> (bool \<times> MimeHeaderValue) run" where
  "parseMimeHeaderValue tc v =
     (let none = \<lparr>mh_value = [], mh_params = []\<rparr> in
      case find_next_token v 0 lex_new cstr_delims of
        (None, _) \<Rightarrow> Inr (False, none)
      | (Some s, lx) \<Rightarrow>
          if \<not> (lx_what lx = LSeparator \<and> lx_value lx = '';'') \<and> lx_what lx \<noteq> LToken then Inr (False, none)
          else
            let parsed = (if lx_what lx = LToken then none\<lparr>mh_value := lx_value lx\<rparr> else none) in
            case params_loop v s lx [] of
              None \<Rightarrow> Inr (False, parsed)
            | Some raw \<Rightarrow>
                (case add_chunks raw [] of
                   Inl e \<Rightarrow> Inl e
                 | Inr all \<Rightarrow>
                     (case decode_params tc all [] of Inl e \<Rightarrow> Inl e | Inr ps \<Rightarrow> Inr (True, parsed\<lparr>mh_params := ps\<rparr>))))"

section \<open>Reading a written header\<close>

lemma find_first_not_of_at: "find_first_not_of (pre @ s) cs (length pre) = map_option ((+) (length pre)) (find_idx (\<lambda>c. c \<notin> set cs) s)"
  by (simp add: find_first_not_of_def)

lemma find_first_of_at: "find_first_of (pre @ s) cs (length pre) = map_option ((+) (length pre)) (find_idx (\<lambda>c. c \<in> set cs) s)"
  by (simp add: find_first_of_def)

lemma skip_blanks:
  assumes "set bs \<subseteq> set cstr_blanks" "c \<notin> set cstr_blanks" "c \<noteq> CHR ''(''"
  shows "skip_whitespace_and_comment (pre @ bs @ c # rest) (length pre) lx = (length pre + length bs, lx)"
proof -
  have "find_first_not_of (pre @ bs @ c # rest) cstr_blanks (length pre) = Some (length pre + length bs)"
    using assms(1,2) by (subst find_first_not_of_at, subst find_idx_skip) auto
  then show ?thesis using assms(3) by (simp add: skip_whitespace_and_comment.simps nth_append)
qed

definition token_chars :: "string \<Rightarrow> bool" where
  "token_chars s \<longleftrightarrow> s \<noteq> [] \<and> set s \<inter> set (cstr_delims @ cstr_blanks @ [CHR ''('', CHR ''<'', dquote]) = {}"

lemma next_separator:
  assumes "c \<in> set cstr_delims"
  shows "find_next_token (pre @ c # rest) (length pre) lx cstr_delims =
    (Some (length pre + 1), lx\<lparr>lx_what := LSeparator, lx_value := [c]\<rparr>)"
proof -
  have "c \<notin> set cstr_blanks" "c \<noteq> CHR ''(''" using assms by (auto simp: cstr_delims_def cstr_blanks_def)
  then show ?thesis using assms skip_blanks[of "[]" c pre rest lx] by (simp add: find_next_token_def)
qed

lemma next_token:
  assumes bs: "set bs \<subseteq> set cstr_blanks" and t: "token_chars t" and d: "rest = [] \<or> hd rest \<in> set cstr_delims"
  shows "find_next_token (pre @ bs @ t @ rest) (length pre) lx cstr_delims =
    (Some (length pre + length bs + length t), lx\<lparr>lx_what := LToken, lx_quote := CHR 0x00, lx_value := t\<rparr>)"
proof -
  let ?stop = "cstr_delims @ [cret, newline, blank, tab, CHR ''('']" and ?pre = "pre @ bs"
  obtain c t1 where c: "t = c # t1" using t by (cases t) (auto simp: token_chars_def)
  have c2: "c \<notin> set cstr_blanks" "c \<noteq> CHR ''(''" "c \<notin> set cstr_delims" "close_quote c = None"
    using t by (auto simp: c token_chars_def close_quote_def)
  have s: "skip_whitespace_and_comment (pre @ bs @ t @ rest) (length pre) lx = (length ?pre, lx)"
    using skip_blanks[OF bs c2(1,2), of pre "t1 @ rest" lx] c by simp
  have ts: "\<forall>x \<in> set t. x \<notin> set ?stop" using t by (auto simp: token_chars_def cstr_blanks_def)
  have fin: "unquoted_end (?pre @ t @ rest) (length ?pre) cstr_delims = length ?pre + length t"
  proof (cases rest)
    case Nil
    then have "find_idx (\<lambda>x. x \<in> set ?stop) (t @ rest) = None" using ts by (auto simp: find_idx_None)
    then show ?thesis
      using Nil find_first_of_at[of ?pre "t @ rest" ?stop] unfolding unquoted_end_def by simp
  next
    case (Cons d r)
    then have "find_idx (\<lambda>x. x \<in> set ?stop) (t @ rest) = Some (length t)"
      using ts d by (simp add: find_idx_skip)
    then show ?thesis
      using find_first_of_at[of ?pre "t @ rest" ?stop] unfolding unquoted_end_def by simp
  qed
  show ?thesis
    using s c2 fin by (simp add: find_next_token_def nth_append Let_def c substr_def)
qed

lemma quoted_end_text:
  "cquot \<notin> set v \<Longrightarrow> backslash \<notin> set v \<Longrightarrow> quoted_end (pre @ v @ cquot # rest) (length pre) cquot = Some (length pre + length v)"
proof (induction v arbitrary: pre)
  case Nil
  then show ?case by (simp add: quoted_end.simps nth_append)
next
  case (Cons c v)
  then show ?case
    using Cons.IH[of "pre @ [c]"] by (subst quoted_end.simps) (auto simp: nth_append)
qed

lemma next_quoted:
  assumes "dquote \<notin> set v" "backslash \<notin> set v"
  shows "find_next_token (pre @ dquote # v @ dquote # rest) (length pre) lx cstr_delims =
    (Some (length pre + length v + 2), lx\<lparr>lx_what := LToken, lx_value := v, lx_quote := dquote\<rparr>)"
proof -
  have "skip_whitespace_and_comment (pre @ dquote # v @ dquote # rest) (length pre) lx = (length pre, lx)"
    using skip_blanks[of "[]" dquote pre "v @ dquote # rest" lx] by (simp add: cstr_blanks_def)
  moreover have "quoted_end (pre @ dquote # v @ dquote # rest) (Suc (length pre)) dquote = Some (Suc (length pre) + length v)"
    using quoted_end_text[OF assms, of "pre @ [dquote]" rest] by simp
  ultimately show ?thesis by (simp add: find_next_token_def cstr_delims_def close_quote_def substr_def)
qed

definition param_text :: "string \<times> string \<Rightarrow> string" where
  "param_text p = ''; '' @ fst p @ ''='' @ [dquote] @ snd p @ [dquote]"

definition param_ok :: "string \<times> string \<Rightarrow> bool" where
  "param_ok p \<longleftrightarrow> token_chars (fst p) \<and> dquote \<notin> set (snd p) \<and> backslash \<notin> set (snd p)"

definition put_params :: "(string \<times> string) list \<Rightarrow> (string, string) omap \<Rightarrow> (string, string) omap" where
  "put_params ps raw = foldl (\<lambda>m p. omap_put string_lt (stringtolower (fst p)) (snd p) m) raw ps"

lemma param_text_not_Nil [simp]: "param_text p \<noteq> []"
  by (simp add: param_text_def)

lemma parameter_rest_text:
  assumes "param_ok p"
  shows "\<exists>lx1. parameter_rest (pre @ ''='' @ [dquote] @ snd p @ [dquote] @ rest) (length pre) lx =
    PValue (snd p) (length (pre @ ''='' @ [dquote] @ snd p @ [dquote])) lx1"
proof -
  have eq: "CHR ''='' \<in> set cstr_delims" by (simp add: cstr_delims_def)
  show ?thesis
    using assms next_separator[OF eq, of pre "[dquote] @ snd p @ [dquote] @ rest" lx]
      next_quoted[of "snd p" "pre @ ''=''" rest]
    by (auto simp: parameter_rest_def param_ok_def)
qed

lemma params_loop_text:
  "list_all param_ok ps \<Longrightarrow>
   params_loop (pre @ concat (map param_text ps)) (length pre) lx raw = Some (put_params ps raw)"
proof (induction ps arbitrary: pre lx raw)
  case Nil
  then show ?case by (simp add: params_loop.simps put_params_def)
next
  case (Cons p ps)
  let ?rest = "concat (map param_text ps)"
  let ?v = "pre @ param_text p @ ?rest"
  have p: "param_ok p" "token_chars (fst p)" using Cons.prems by (simp_all add: param_ok_def)
  have v1: "?v = pre @ CHR '';'' # '' '' @ fst p @ ''='' @ [dquote] @ snd p @ [dquote] @ ?rest"
    by (simp add: param_text_def)
  have v2: "?v = (pre @ '';'') @ '' '' @ fst p @ ''='' @ [dquote] @ snd p @ [dquote] @ ?rest"
    by (simp add: param_text_def)
  have v3: "?v = (pre @ '';'' @ '' '' @ fst p) @ ''='' @ [dquote] @ snd p @ [dquote] @ ?rest"
    by (simp add: param_text_def)
  have v4: "?v = (pre @ param_text p) @ ?rest" by simp
  have semi: "CHR '';'' \<in> set cstr_delims" and eq: "CHR ''='' \<in> set cstr_delims" by (simp_all add: cstr_delims_def)
  obtain lx1 where t1: "find_next_token ?v (length pre) (lex_reset lx) cstr_delims = (Some (length pre + 1), lx1)"
      "lx_what lx1 = LSeparator" "lx_value lx1 = '';''"
    using next_separator[OF semi, of pre] unfolding v1 by simp
  have bs: "set '' '' \<subseteq> set cstr_blanks" by (simp add: cstr_blanks_def)
  obtain lx2 where t2: "find_next_token ?v (length pre + 1) (lex_reset lx1) cstr_delims = (Some (length (pre @ '';'' @ '' '' @ fst p)), lx2)"
      "lx_what lx2 = LToken" "lx_value lx2 = fst p"
    using next_token[OF bs p(2), of "''='' @ [dquote] @ snd p @ [dquote] @ ?rest" "pre @ '';''"] eq unfolding v2 by simp
  obtain lx3 where t3: "parameter_rest ?v (length (pre @ '';'' @ '' '' @ fst p)) lx2 = PValue (snd p) (length (pre @ param_text p)) lx3"
    using parameter_rest_text[OF p(1), of "pre @ '';'' @ '' '' @ fst p" ?rest lx2] unfolding v3 by (auto simp: param_text_def)
  have len: "length pre + 1 < length ?v" "length (pre @ '';'' @ '' '' @ fst p) < length ?v" by (simp_all add: param_text_def)
  have "params_loop ?v (length pre) lx raw = params_loop ?v (length pre + 1) lx1 raw"
    using t1 len by (subst params_loop.simps) simp
  also have "\<dots> = params_loop ?v (length (pre @ param_text p)) lx3 (omap_put string_lt (stringtolower (fst p)) (snd p) raw)"
    using t2 t3 len by (subst params_loop.simps) (simp add: Let_def)
  also have "\<dots> = Some (put_params ps (omap_put string_lt (stringtolower (fst p)) (snd p) raw))"
    using Cons.IH[of "pre @ param_text p"] Cons.prems unfolding v4 by simp
  finally show ?case by (simp add: put_params_def)
qed

lemma find_put_string:
  "omap_ok string_lt m \<Longrightarrow> omap_find string_lt k (omap_put string_lt j v m) = (if k = j then Some v else omap_find string_lt k m)"
  by (simp add: cmap.find_put conf_key_case)

lemma put_params_ok: "omap_ok string_lt raw \<Longrightarrow> omap_ok string_lt (put_params ps raw)"
  by (induction ps arbitrary: raw) (simp_all add: put_params_def cmap.ok_put)

lemma find_put_params:
  "omap_ok string_lt raw \<Longrightarrow> omap_find string_lt nm (put_params ps raw) =
     (case map_of (rev (map (\<lambda>p. (stringtolower (fst p), snd p)) ps)) nm of None \<Rightarrow> omap_find string_lt nm raw | Some v \<Rightarrow> Some v)"
proof (induction ps arbitrary: raw)
  case (Cons p ps)
  have "put_params (p # ps) raw = put_params ps (omap_put string_lt (stringtolower (fst p)) (snd p) raw)"
    by (simp add: put_params_def)
  then show ?case
    using Cons.IH[OF cmap.ok_put[OF Cons.prems], of "stringtolower (fst p)" "snd p"]
    by (simp add: find_put_string[OF Cons.prems] map_add_def split: option.splits)
qed (simp add: put_params_def)

lemma put_params_names: "x \<in> set (put_params ps raw) \<Longrightarrow> fst x \<in> stringtolower ` fst ` set ps \<or> fst x \<in> fst ` set raw"
proof (induction ps arbitrary: raw)
  case (Cons p ps)
  have "put_params (p # ps) raw = put_params ps (omap_put string_lt (stringtolower (fst p)) (snd p) raw)"
    by (simp add: put_params_def)
  then have "fst x \<in> stringtolower ` fst ` set ps \<or> fst x \<in> fst ` set (omap_put string_lt (stringtolower (fst p)) (snd p) raw)"
    using Cons.IH Cons.prems by metis
  then show ?case
    using cmap.put_keys[where k = "stringtolower (fst p)" and v = "snd p" and m = raw] by fastforce
qed (auto simp: put_params_def)

section \<open>Names without continuation\<close>

lemma to_lower_star: "c \<noteq> CHR ''*'' \<Longrightarrow> to_lower c \<noteq> CHR ''*''"
proof (cases "is_upper c")
  case True
  then have "of_char (to_lower c) = (of_char c + 32 :: nat)" "(65 :: nat) \<le> of_char c"
    by (simp_all add: to_lower_def is_upper_def take_bit_nat_eq_self)
  then show ?thesis by auto
qed (simp add: to_lower_def)

lemma chunk_name_plain:
  "nm \<noteq> [] \<Longrightarrow> CHR ''*'' \<notin> set nm \<Longrightarrow> chunk_name nm = Inr (False, nm, 0)"
proof -
  assume nm: "nm \<noteq> []" "CHR ''*'' \<notin> set nm"
  then have "last nm \<noteq> CHR ''*''" by (metis last_in_set)
  moreover have "rfind_char nm CHR ''*'' = None" using nm by (auto simp: rfind_char_def find_last_idx_None)
  ultimately show ?thesis by (simp add: chunk_name_def)
qed

lemma put_chunk_first: "put_chunk 0 c cs = Inr [c]"
  by (cases cs) (simp_all add: put_chunk_def)

lemma find_below:
  "\<forall>b \<in> fst ` set m. string_lt n b \<Longrightarrow> nm = n \<or> string_lt nm n \<Longrightarrow> omap_find string_lt nm m = None"
  by (cases m) (auto simp: cmap.lt_key dest: less_trans)

lemma find_head:
  "omap_ok string_lt ((n, v) # m) \<Longrightarrow>
   omap_find string_lt nm ((n, v) # m) = (if nm = n then Some v else omap_find string_lt nm m)"
  using find_below[of m n nm] by (auto simp: cmap.lt_key conf_key_case not_less_iff_gr_or_eq)

lemma add_chunks_plain:
  "omap_ok string_lt raw \<Longrightarrow> omap_ok string_lt all \<Longrightarrow> \<forall>x \<in> set raw. fst x \<noteq> [] \<and> CHR ''*'' \<notin> set (fst x) \<Longrightarrow>
   \<exists>all1. add_chunks raw all = Inr all1 \<and> omap_ok string_lt all1 \<and>
     (\<forall>nm. omap_find string_lt nm all1 =
        (case omap_find string_lt nm raw of None \<Rightarrow> omap_find string_lt nm all
         | Some v \<Rightarrow> Some [\<lparr>ck_decode = False, ck_value = v\<rparr>]))"
proof (induction raw arbitrary: all)
  case (Cons x raw)
  obtain n v where x: "x = (n, v)" by force
  let ?all = "omap_put string_lt n [\<lparr>ck_decode = False, ck_value = v\<rparr>] all"
  have step: "add_chunk x all = Inr ?all"
    using Cons.prems(3) by (simp add: add_chunk_def x chunk_name_plain put_chunk_first)
  have ok: "omap_ok string_lt raw" and n: "omap_find string_lt n raw = None"
    using Cons.prems(1) find_below[of raw n n] by (simp_all add: x)
  have find: "omap_find string_lt nm (x # raw) = (if nm = n then Some v else omap_find string_lt nm raw)" for nm
    using find_head[of n v raw nm] Cons.prems(1) by (simp only: x)
  obtain all1 where ih: "add_chunks raw ?all = Inr all1" "omap_ok string_lt all1"
      "\<And>nm. omap_find string_lt nm all1 =
        (case omap_find string_lt nm raw of None \<Rightarrow> omap_find string_lt nm ?all
         | Some v \<Rightarrow> Some [\<lparr>ck_decode = False, ck_value = v\<rparr>])"
    using Cons.IH[OF ok cmap.ok_put[OF Cons.prems(2)], of n "[\<lparr>ck_decode = False, ck_value = v\<rparr>]"] Cons.prems(3) by auto
  have "omap_find string_lt nm all1 =
      (case omap_find string_lt nm (x # raw) of None \<Rightarrow> omap_find string_lt nm all
       | Some v \<Rightarrow> Some [\<lparr>ck_decode = False, ck_value = v\<rparr>])" for nm
    by (cases "nm = n") (simp_all add: ih(3) find n find_put_string[OF Cons.prems(2)] split: option.split)
  then show ?case using ih by (simp add: step)
qed simp

lemma rfc2047_plain: "CHR ''='' \<notin> set p \<Longrightarrow> rfc2047_decode tc p = Inr (True, plain_value tc p)"
  using loop_ready_plain[of rfc2047_start p tc "[]"]
  by (simp add: rfc2047_decode_def rfc2047_start_def plain_value_def)

lemma decode_params_plain:
  "omap_ok string_lt all \<Longrightarrow> omap_ok string_lt params \<Longrightarrow>
   \<forall>x \<in> set all. \<exists>v. snd x = [\<lparr>ck_decode = False, ck_value = v\<rparr>] \<and> CHR ''='' \<notin> set v \<Longrightarrow>
   \<exists>ps. decode_params tc all params = Inr ps \<and>
     (\<forall>nm. omap_find string_lt nm ps =
        (case omap_find string_lt nm all of None \<Rightarrow> omap_find string_lt nm params
         | Some cs \<Rightarrow> Some (plain_value tc (ck_value (cs ! 0)))))"
proof (induction all arbitrary: params)
  case (Cons x all)
  obtain n cs where x: "x = (n, cs)" by force
  then obtain v where v: "cs = [\<lparr>ck_decode = False, ck_value = v\<rparr>]" "CHR ''='' \<notin> set v"
    using Cons.prems(3) by auto
  let ?ps = "omap_put string_lt n (plain_value tc v) params"
  have step: "decode_params tc (x # all) params = decode_params tc all ?ps"
    using v by (simp add: x chunks_value_def rfc2047_plain)
  have ok: "omap_ok string_lt all" and n: "omap_find string_lt n all = None"
    using Cons.prems(1) find_below[of all n n] by (simp_all add: x)
  have find: "omap_find string_lt nm (x # all) = (if nm = n then Some cs else omap_find string_lt nm all)" for nm
    using find_head[of n cs all nm] Cons.prems(1) by (simp only: x)
  obtain ps where ih: "decode_params tc all ?ps = Inr ps"
      "\<And>nm. omap_find string_lt nm ps =
        (case omap_find string_lt nm all of None \<Rightarrow> omap_find string_lt nm ?ps
         | Some cs \<Rightarrow> Some (plain_value tc (ck_value (cs ! 0))))"
    using Cons.IH[OF ok cmap.ok_put[OF Cons.prems(2)], of n "plain_value tc v"] Cons.prems(3) by auto
  have "omap_find string_lt nm ps =
      (case omap_find string_lt nm (x # all) of None \<Rightarrow> omap_find string_lt nm params
       | Some cs \<Rightarrow> Some (plain_value tc (ck_value (cs ! 0))))" for nm
    by (cases "nm = n")
      (simp_all add: ih(2) find n v(1) find_put_string[OF Cons.prems(2)] split: option.split)
  then show ?case using ih by (simp add: step)
qed simp

definition header_line :: "string \<Rightarrow> (string \<times> string) list \<Rightarrow> string" where
  "header_line t ps = t @ concat (map param_text ps)"

lemma parse_header_line:
  assumes t: "token_chars t" and ps: "list_all param_ok ps" and raw: "add_chunks (put_params ps []) [] = Inr all"
  shows "parseMimeHeaderValue tc (header_line t ps) =
    (case decode_params tc all [] of Inl e \<Rightarrow> Inl e | Inr params \<Rightarrow> Inr (True, \<lparr>mh_value = t, mh_params = params\<rparr>))"
proof -
  let ?rest = "concat (map param_text ps)"
  have "?rest = [] \<or> hd ?rest \<in> set cstr_delims"
    by (cases ps) (auto simp: param_text_def cstr_delims_def)
  then have "find_next_token (header_line t ps) 0 lex_new cstr_delims =
      (Some (length t), lex_new\<lparr>lx_what := LToken, lx_quote := CHR 0x00, lx_value := t\<rparr>)"
    using next_token[of "[]" t ?rest "[]" lex_new] t by (simp add: header_line_def)
  moreover have "params_loop (header_line t ps) (length t) lx [] = Some (put_params ps [])" for lx
    using params_loop_text[OF ps] by (simp add: header_line_def)
  ultimately show ?thesis using raw by (simp add: parseMimeHeaderValue_def Let_def split: sum.split)
qed

text \<open>
  C38. A header value written as a token and parameters with quoted values is read back: the value, and for each name in lower case
  the last value given to it (here for names without the asterisks of RFC 2231 and values that hold no encoded words). The
  parsing ends for every input.
\<close>

theorem parse_header_roundtrip:
  assumes "token_chars t" and "list_all param_ok ps"
    and "\<forall>p \<in> set ps. CHR ''*'' \<notin> set (fst p) \<and> CHR ''='' \<notin> set (snd p)"
  shows "\<exists>params. parseMimeHeaderValue tc (header_line t ps) = Inr (True, \<lparr>mh_value = t, mh_params = params\<rparr>) \<and>
     (\<forall>nm. omap_find string_lt nm params =
        map_option (plain_value tc) (map_of (rev (map (\<lambda>p. (stringtolower (fst p), snd p)) ps)) nm))"
proof -
  let ?raw = "put_params ps []"
  have raw: "omap_ok string_lt ?raw" using put_params_ok[of "[]" ps] by simp
  have lower: "CHR ''*'' \<notin> set (stringtolower s)" if "CHR ''*'' \<notin> set s" for s
    using that to_lower_star by (force simp: stringtolower_def)
  have names: "\<forall>x \<in> set ?raw. fst x \<noteq> [] \<and> CHR ''*'' \<notin> set (fst x)"
  proof
    fix x assume "x \<in> set ?raw"
    then have "fst x \<in> stringtolower ` fst ` set ps" using put_params_names[of x ps "[]"] by simp
    then obtain p where p: "p \<in> set ps" "fst x = stringtolower (fst p)" by auto
    then show "fst x \<noteq> [] \<and> CHR ''*'' \<notin> set (fst x)"
      using assms lower[of "fst p"] by (auto simp: list_all_iff param_ok_def token_chars_def stringtolower_def)
  qed
  have find_raw: "omap_find string_lt nm ?raw = map_of (rev (map (\<lambda>p. (stringtolower (fst p), snd p)) ps)) nm" for nm
    using find_put_params[of "[]" nm ps] by (simp split: option.splits)
  obtain all where all: "add_chunks ?raw [] = Inr all" "omap_ok string_lt all"
      "\<And>nm. omap_find string_lt nm all = map_option (\<lambda>v. [\<lparr>ck_decode = False, ck_value = v\<rparr>]) (omap_find string_lt nm ?raw)"
    using add_chunks_plain[OF raw _ names, of "[]"] by (auto simp: map_option_case cong: option.case_cong)
  have vals: "\<exists>v. snd x = [\<lparr>ck_decode = False, ck_value = v\<rparr>] \<and> CHR ''='' \<notin> set v" if "x \<in> set all" for x
  proof -
    have "omap_find string_lt (fst x) all = Some (snd x)" using cmap.find_mem[OF all(2)] that by (cases x) auto
    then have "map_option (\<lambda>v. [\<lparr>ck_decode = False, ck_value = v\<rparr>]) (omap_find string_lt (fst x) ?raw) = Some (snd x)"
      by (simp only: all(3))
    then obtain w where w: "omap_find string_lt (fst x) ?raw = Some w" "[\<lparr>ck_decode = False, ck_value = w\<rparr>] = snd x"
      by (auto simp only: map_option_eq_Some)
    note v = w(2)[symmetric] w(1)
    then have "(fst x, w) \<in> set (map (\<lambda>p. (stringtolower (fst p), snd p)) ps)"
      using map_of_SomeD[of "rev (map (\<lambda>p. (stringtolower (fst p), snd p)) ps)" "fst x" w] unfolding find_raw by simp
    then show ?thesis using v assms(3) by auto
  qed
  then have vals: "\<forall>x \<in> set all. \<exists>v. snd x = [\<lparr>ck_decode = False, ck_value = v\<rparr>] \<and> CHR ''='' \<notin> set v" by blast
  obtain params where params: "decode_params tc all [] = Inr params"
      "\<And>nm. omap_find string_lt nm params = map_option (\<lambda>cs. plain_value tc (ck_value (cs ! 0))) (omap_find string_lt nm all)"
    using decode_params_plain[OF all(2) _ vals, of "[]" tc] by (auto simp: map_option_case cong: option.case_cong)
  have "omap_find string_lt nm params =
      map_option (plain_value tc) (map_of (rev (map (\<lambda>p. (stringtolower (fst p), snd p)) ps)) nm)" for nm
    by (simp add: params(2) all(3) find_raw option.map_comp comp_def)
  then show ?thesis using parse_header_line[OF assms(1,2) all(1), of tc] params(1) by simp
qed

theorem parse_header_roundtrip_witness:
  "\<exists>params. parseMimeHeaderValue same_tc (header_line ''text/plain'' [(''Charset'', ''utf-8''), (''format'', ''a;b'')]) =
     Inr (True, \<lparr>mh_value = ''text/plain'', mh_params = params\<rparr>) \<and> omap_find string_lt ''charset'' params = Some ''utf-8''"
proof -
  let ?ps = "[(''Charset'', ''utf-8''), (''format'', ''a;b'')]"
  have "token_chars ''text/plain''" "list_all param_ok ?ps"
    by code_simp+
  moreover have "\<forall>p \<in> set ?ps. CHR ''*'' \<notin> set (fst p) \<and> CHR ''='' \<notin> set (snd p)" by simp
  ultimately obtain params where
    p: "parseMimeHeaderValue same_tc (header_line ''text/plain'' ?ps) = Inr (True, \<lparr>mh_value = ''text/plain'', mh_params = params\<rparr>)"
      "omap_find string_lt ''charset'' params =
        map_option (plain_value same_tc) (map_of (rev (map (\<lambda>p. (stringtolower (fst p), snd p)) ?ps)) ''charset'')"
    using parse_header_roundtrip[of "''text/plain''" ?ps same_tc] by blast
  moreover have "map_of (rev (map (\<lambda>p. (stringtolower (fst p), snd p)) ?ps)) ''charset'' = Some ''utf-8''"
    by code_simp
  moreover have "plain_value same_tc ''utf-8'' = ''utf-8''" by code_simp
  ultimately show ?thesis by auto
qed

lemma parse_error:
  assumes "case find_next_token v 0 lex_new cstr_delims of
      (None, lx) \<Rightarrow> False
    | (Some s, lx) \<Rightarrow>
        lx_what lx = LToken \<and> (case params_loop v s lx [] of None \<Rightarrow> False | Some raw \<Rightarrow> add_chunks raw [] = Inl e)"
  shows "parseMimeHeaderValue tc v = Inl e"
  using assms by (auto simp: parseMimeHeaderValue_def Let_def split: option.splits prod.splits)

text \<open>
  A continuation number read from the header is used as an index without a test: a parameter \<open>a*-1\<close> writes before the
  beginning of a vector, \<open>a*-2\<close> throws an exception for the length.
\<close>

theorem parse_header_bad_index:
  "parseMimeHeaderValue tc ''x; a*-1=b'' = Inl BadAccess \<and>
   parseMimeHeaderValue tc ''x; a*-2=b'' = Inl LengthError"
  by (intro conjI parse_error; code_simp)

text \<open>With eleven segments the last one is lost: \<open>t*10\<close> comes before \<open>t*2\<close> in the map and the resize for the latter cuts it off.\<close>

lemma parse_header_loses_segment:
  "map_sum id (\<lambda>(ok, h). omap_find string_lt ''t'' (mh_params h)) (parseMimeHeaderValue same_tc
     ''x; t*0=a; t*1=b; t*2=c; t*3=d; t*4=e; t*5=f; t*6=g; t*7=h; t*8=i; t*9=j; t*10=k'') = Inr (Some ''abcdefghij'')"
  by code_simp

text \<open>A quoted pair keeps its backslash, and the text of an error of the conversion becomes the value of a parameter.\<close>

lemma parse_header_keeps_backslash:
  "map_sum id (\<lambda>(ok, h). omap_find string_lt ''n'' (mh_params h)) (parseMimeHeaderValue same_tc
     (''x; n='' @ [dquote, CHR ''a'', backslash, dquote, CHR ''b'', dquote])) = Inr (Some [CHR ''a'', backslash, dquote, CHR ''b''])"
  by code_simp

end
