(* ===== verification/Mime_Date.thy ===== *)
theory Mime_Date
  imports Str_Tokens
begin

text \<open>
  The dates of mail headers (\<open>rfc2822DateToUxTime\<close> of \<open>utils/mimeparse.cpp\<close>), with the C library's \<open>timegm\<close> as the
  proleptic Gregorian calendar over unbounded integers.
\<close>

section \<open>The calendar of the library\<close>

record tm =
  tm_sec :: int
  tm_min :: int
  tm_hour :: int
  tm_mday :: int
  tm_mon :: int
  tm_year :: int

definition leap_year :: "int \<Rightarrow> bool" where
  "leap_year y \<longleftrightarrow> y mod 4 = 0 \<and> (y mod 100 \<noteq> 0 \<or> y mod 400 = 0)"

definition days_in_months :: "int list" where
  "days_in_months = [31, 28, 31, 30, 31, 30, 31, 31, 30, 31, 30, 31]"

text \<open>The days from the first of January 1970 to the first day of the month, counted from 0.\<close>

definition days_to_month :: "int \<Rightarrow> int \<Rightarrow> int" where
  "days_to_month y m =
     365 * (y - 1970) + ((y - 1) div 4 - (y - 1) div 100 + (y - 1) div 400) - 477 +
     sum_list (take (nat m) days_in_months) + (if leap_year y \<and> 2 \<le> m then 1 else 0)"

definition timegm :: "tm \<Rightarrow> int" where
  "timegm tm =
     86400 * (days_to_month (tm_year tm + 1900) (tm_mon tm) + tm_mday tm - 1) + 3600 * tm_hour tm + 60 * tm_min tm + tm_sec tm"

section \<open>The tokens\<close>

definition cstr_date_delims :: string where
  "cstr_date_delims = [blank, tab, CHR '':'']"

text \<open>The tokens after the first comma, or those of the whole string with the year moved when there are seven and the first has three letters.\<close>

definition date_tokens :: "string \<Rightarrow> string list option" where
  "date_tokens dt =
     (case find_first_of dt '','' 0 of
        Some idx \<Rightarrow>
          if idx = length dt - 1 then None
          else Some (stringToTokens (drop (idx + 1) dt) [] cstr_date_delims True False)
      | None \<Rightarrow>
          Some (case stringToTokens dt [] cstr_date_delims True False of
              [a, b, c, d, e, f, g] \<Rightarrow>
                if length a = 3 \<and> find_first_of a ''0123456789'' 0 = None then [c, b, g, d, e, f] else [a, b, c, d, e, f, g]
            | toks \<Rightarrow> toks))"

definition month_names :: "(string \<times> string) list" where
  "month_names =
     [(''Jan'', ''January''), (''Feb'', ''February''), (''Mar'', ''March''), (''Apr'', ''April''), (''May'', ''May''),
      (''Jun'', ''June''), (''Jul'', ''July''), (''Aug'', ''August''), (''Sep'', ''September''), (''Oct'', ''October''),
      (''Nov'', ''November''), (''Dec'', ''December'')]"

definition month_number :: "string \<Rightarrow> int option" where
  "month_number s = map_option int (find_idx (\<lambda>(x, y). s = x \<or> s = y) month_names)"

definition year_1900 :: "string \<Rightarrow> int \<Rightarrow> int" where
  "year_1900 s y0 =
     (let y = (if length s = 2 then (if y0 < 10 then y0 + 2000 else y0 + 1900) else y0) in if 1900 < y then y - 1900 else y)"

definition zone_hours :: "(string \<times> int) list" where
  "zone_hours =
     [(''A'', 1), (''B'', 2), (''C'', 3), (''D'', 4), (''E'', 5), (''F'', 6), (''G'', 7), (''H'', 8), (''I'', 9), (''K'', 10),
      (''L'', 11), (''M'', 12), (''N'', -1), (''O'', -2), (''P'', -3), (''Q'', -4), (''R'', -5), (''S'', -6), (''T'', -7),
      (''U'', -8), (''V'', -9), (''W'', -10), (''X'', -11), (''Y'', -12), (''Z'', 0), (''UT'', 0), (''GMT'', 0), (''EST'', 5),
      (''EDT'', 4), (''CST'', 6), (''CDT'', 5), (''MST'', 7), (''MDT'', 6), (''PST'', 8), (''PDT'', 7), (''CET'', -1),
      (''JST'', -9), (''IST'', -5), (''WET'', 0), (''MET'', -1)]"

definition char_minus_0 :: "string \<Rightarrow> nat \<Rightarrow> int" where
  "char_minus_0 s i = schar (s ! i) - schar CHR ''0''"

text \<open>The correction in seconds; the expression for the numeric zone is the code's.\<close>

definition zone_secs :: "string \<Rightarrow> int" where
  "zone_secs z =
     (if z ! 0 = CHR ''-'' \<or> z ! 0 = CHR ''+'' then
        if length z < 5 then 0
        else
          let s = 3600 * (char_minus_0 z 1 * 10 + char_minus_0 z 2) + char_minus_0 z 3 * 10 + char_minus_0 z 4 in
          if z ! 0 = CHR ''+'' then - 1 * s else s
      else (case map_of zone_hours z of None \<Rightarrow> 0 | Some h \<Rightarrow> 3600 * h))"

text \<open>The fields are read by \<open>atoi\<close>, which is undefined when a number does not fit. A result of -1 is an error.\<close>

fun date_of_tokens :: "string list \<Rightarrow> int run" where
  "date_of_tokens (day # month # year # hour # minute # second # zone # _) =
     (case atoi day of Inl e \<Rightarrow> Inl e | Inr mday \<Rightarrow>
      (case month_number month of None \<Rightarrow> Inr (- 1) | Some mon \<Rightarrow>
       (case atoi year of Inl e \<Rightarrow> Inl e | Inr y \<Rightarrow>
        (case atoi hour of Inl e \<Rightarrow> Inl e | Inr h \<Rightarrow>
         (case atoi minute of Inl e \<Rightarrow> Inl e | Inr mi \<Rightarrow>
          (case atoi second of Inl e \<Rightarrow> Inl e | Inr s \<Rightarrow>
             if zone = [] then Inr (- 1)
             else Inr (timegm \<lparr>tm_sec = s, tm_min = mi, tm_hour = h, tm_mday = mday, tm_mon = mon, tm_year = year_1900 year y\<rparr> +
                   zone_secs zone)))))))"
| "date_of_tokens _ = Inr (- 1)"

definition rfc2822DateToUxTime :: "string \<Rightarrow> int run" where
  "rfc2822DateToUxTime dt =
     (case date_tokens dt of
        None \<Rightarrow> Inr (- 1)
      | Some toks \<Rightarrow>
          if length toks < 6 then Inr (- 1)
          else date_of_tokens (if length toks = 6 then toks @ [''+0000''] else toks))"

lemma date_examples:
  "rfc2822DateToUxTime ''Mon, 3 Jul 2006 09:51:58 +0200'' = Inr 1151913118"
  "rfc2822DateToUxTime ''Fri Nov  3 13:13:33 2006'' = Inr 1162559613"
  "rfc2822DateToUxTime ''Sun, 29 Feb 2004 00:00:00 GMT'' = Inr 1078012800"
  "rfc2822DateToUxTime ''Thu, 1 Jan 1970 00:00:00 +0000'' = Inr 0"
  by code_simp+

section \<open>Reading a written date\<close>

definition two_digits :: "nat \<Rightarrow> string" where
  "two_digits n = [char_of (48 + n div 10), char_of (48 + n mod 10)]"

definition date_text :: "string \<Rightarrow> nat \<Rightarrow> nat \<Rightarrow> nat \<Rightarrow> nat \<Rightarrow> nat \<Rightarrow> nat \<Rightarrow> string \<Rightarrow> string" where
  "date_text weekday d m y h mi s zone =
     weekday @ '', '' @ dec_string d @ [blank] @ fst (month_names ! m) @ [blank] @ dec_string y @ [blank] @
     two_digits h @ '':'' @ two_digits mi @ '':'' @ two_digits s @ [blank] @ zone"

lemma digits_are_words: "\<forall>c \<in> set (dec_string n). c \<notin> set cstr_date_delims"
  using dec_string_digits[of n] by (fastforce simp: cstr_date_delims_def is_digit_def)

lemma two_digits_small: "list_all (\<lambda>n. strtol10 (two_digits n) = int n) [0..<10]"
  by code_simp

lemma two_digits:
  assumes "n < 100"
  shows "atoi (two_digits n) = Inr (int n)" and "\<forall>c \<in> set (two_digits n). c \<notin> set cstr_date_delims"
    and "two_digits n \<noteq> []"
proof -
  have "strtol10 (two_digits n) = int n"
  proof (cases "n < 10")
    case True
    then show ?thesis using two_digits_small by (simp add: list_all_iff)
  next
    case False
    have "n div 10 < 10" using assms by simp
    then have "dec_string n = two_digits n"
      using False by (simp add: two_digits_def dec_string.simps[of n] dec_string.simps[of "n div 10"])
    then show ?thesis using strtol10_dec_string[of "[]" n] by simp
  qed
  then show "atoi (two_digits n) = Inr (int n)" using assms by (simp add: atoi_def)
  have "n div 10 < 10" "n mod 10 < 10" using assms by simp_all
  then have "\<forall>c \<in> set (two_digits n). is_digit c" by (simp add: two_digits_def)
  then show "\<forall>c \<in> set (two_digits n). c \<notin> set cstr_date_delims"
    by (fastforce simp: cstr_date_delims_def is_digit_def)
  show "two_digits n \<noteq> []" by (simp add: two_digits_def)
qed

lemma month_facts:
  "list_all (\<lambda>m. month_number (fst (month_names ! m)) = Some (int m) \<and> fst (month_names ! m) \<noteq> [] \<and>
     (\<forall>c \<in> set (fst (month_names ! m)). c \<notin> set cstr_date_delims)) [0..<12]"
  by code_simp

lemma atoi_dec_string: "n < 2 ^ 31 \<Longrightarrow> atoi (dec_string n) = Inr (int n)"
  using strtol10_dec_string[of "[]" n] by (simp add: atoi_def)

lemma length_dec_string: "100 \<le> n \<Longrightarrow> 2 < length (dec_string n)"
proof -
  assume n: "100 \<le> n"
  then have "dec_string n = dec_string (n div 10) @ [char_of (48 + n mod 10)]" by (subst dec_string.simps) simp
  moreover have "dec_string (n div 10) = dec_string (n div 10 div 10) @ [char_of (48 + n div 10 mod 10)]"
    using n by (subst dec_string.simps) simp
  moreover have "dec_string (n div 10 div 10) \<noteq> []" by simp
  ultimately show ?thesis by (cases "dec_string (n div 10 div 10)") auto
qed

lemma date_text_tokens:
  assumes wd: "CHR '','' \<notin> set weekday" and b: "m < 12" "h < 100" "mi < 100" "s < 100"
    and zone: "zone \<noteq> []" "\<forall>c \<in> set zone. c \<notin> set cstr_date_delims"
  shows "date_tokens (date_text weekday d m y h mi s zone) =
    Some [dec_string d, fst (month_names ! m), dec_string y, two_digits h, two_digits mi, two_digits s, zone]"
proof -
  let ?dt = "date_text weekday d m y h mi s zone" and ?D = "\<lambda>c. c \<in> set cstr_date_delims"
  let ?rest = "dec_string d @ blank # fst (month_names ! m) @ blank # dec_string y @ blank # two_digits h @ CHR '':'' #
    two_digits mi @ CHR '':'' # two_digits s @ blank # zone"
  have month: "fst (month_names ! m) \<noteq> []" "\<forall>c \<in> set (fst (month_names ! m)). \<not> ?D c"
    using month_facts b(1) by (simp_all add: list_all_iff)
  have D: "?D blank" "?D CHR '':''" by (simp_all add: cstr_date_delims_def)
  have comma: "find_first_of ?dt '','' 0 = Some (length weekday)"
    using wd find_idx_skip[of weekday "\<lambda>c. c \<in> set '',''" "CHR '',''"] by (auto simp: date_text_def find_first_of_def)
  have "drop (length weekday + 1) ?dt = blank # ?rest" by (simp add: date_text_def)
  then have "stringToTokens (drop (length weekday + 1) ?dt) [] cstr_date_delims True False = words_by ?D ?rest"
    by (simp add: stringToTokens_words_by words_by_delim[where d = ?D, OF D(1)])
  also have "\<dots> = [dec_string d, fst (month_names ! m), dec_string y, two_digits h, two_digits mi, two_digits s, zone]"
    using month digits_are_words two_digits(2,3)[OF b(2)] two_digits(2,3)[OF b(3)] two_digits(2,3)[OF b(4)] zone
    by (simp add: words_by_cons[where d = ?D] D words_by_all_words)
  finally show ?thesis using comma by (simp add: date_tokens_def date_text_def)
qed

definition zone_text :: "bool \<Rightarrow> nat \<Rightarrow> nat \<Rightarrow> string" where
  "zone_text east zh zm = (if east then CHR ''+'' else CHR ''-'') # two_digits zh @ two_digits zm"

lemma schar_digit: "k < 10 \<Longrightarrow> schar (char_of (48 + k)) = 48 + int k"
proof -
  assume k: "k < 10"
  have "(of_char (char_of (48 + k)) :: int) = of_nat (of_char (char_of (48 + k)) :: nat)"
    by (simp only: of_nat_of_char)
  also have "\<dots> = 48 + int k" using k by (simp add: take_bit_nat_eq_self)
  finally show ?thesis using k by (simp add: schar_def Let_def)
qed

lemma schar_0: "schar CHR ''0'' = 48"
  by code_simp

lemma zone_secs_text:
  assumes "zh < 100" "zm < 100"
  shows "zone_secs (zone_text east zh zm) = (if east then -1 else 1) * (3600 * int zh + int zm)"
proof -
  have "zh div 10 < 10" "zh mod 10 < 10" "zm div 10 < 10" "zm mod 10 < 10" using assms by simp_all
  then have "char_minus_0 (zone_text east zh zm) 1 = int (zh div 10)" "char_minus_0 (zone_text east zh zm) 2 = int (zh mod 10)"
    "char_minus_0 (zone_text east zh zm) 3 = int (zm div 10)" "char_minus_0 (zone_text east zh zm) 4 = int (zm mod 10)"
    by (simp_all add: char_minus_0_def zone_text_def two_digits_def schar_digit schar_0)
  moreover have "int (zh div 10) * 10 + int (zh mod 10) = int zh" "int (zm div 10) * 10 + int (zm mod 10) = int zm"
    by presburger+
  ultimately show ?thesis
    by (simp add: zone_secs_def zone_text_def two_digits_def Let_def)
qed

text \<open>The instant that a date with a numeric zone denotes.\<close>

definition utc_of :: "nat \<Rightarrow> nat \<Rightarrow> nat \<Rightarrow> nat \<Rightarrow> nat \<Rightarrow> nat \<Rightarrow> bool \<Rightarrow> nat \<Rightarrow> nat \<Rightarrow> int" where
  "utc_of d m y h mi s east zh zm =
     timegm \<lparr>tm_sec = int s, tm_min = int mi, tm_hour = int h, tm_mday = int d, tm_mon = int m, tm_year = int y - 1900\<rparr> -
     (if east then 1 else -1) * (3600 * int zh + 60 * int zm)"

text \<open>
  C39. A date written in the form of RFC 2822 with a numeric zone is read as the instant that it denotes, plus or minus 59 seconds for
  each minute of the zone: it is exact for zones of whole hours, and wrong by up to an hour for the others, because the minutes of
  the zone are added as if they were seconds.
\<close>

theorem rfc2822_date_written:
  assumes "CHR '','' \<notin> set weekday" and "m < 12" "h < 100" "mi < 100" "s < 100" "zh < 100" "zm < 100"
    and "d < 2 ^ 31" "1900 < y" "y < 2 ^ 31"
  shows "rfc2822DateToUxTime (date_text weekday d m y h mi s (zone_text east zh zm)) =
    Inr (utc_of d m y h mi s east zh zm + (if east then 59 else -59) * int zm)"
proof -
  let ?zone = "zone_text east zh zm"
  have zone: "?zone \<noteq> []" "\<forall>c \<in> set ?zone. c \<notin> set cstr_date_delims"
    using two_digits(2)[OF assms(6)] two_digits(2)[OF assms(7)] by (auto simp: zone_text_def cstr_date_delims_def)
  have "month_number (fst (month_names ! m)) = Some (int m)" using month_facts assms(2) by (simp add: list_all_iff)
  moreover have "year_1900 (dec_string y) (int y) = int y - 1900"
    using length_dec_string[of y] assms(9) by (auto simp: year_1900_def Let_def)
  ultimately have "rfc2822DateToUxTime (date_text weekday d m y h mi s ?zone) =
      Inr (timegm \<lparr>tm_sec = int s, tm_min = int mi, tm_hour = int h, tm_mday = int d, tm_mon = int m, tm_year = int y - 1900\<rparr> +
        zone_secs ?zone)"
    using date_text_tokens[OF assms(1-5) zone] zone(1) two_digits(1) atoi_dec_string assms
    by (simp add: rfc2822DateToUxTime_def)
  then show ?thesis
    using zone_secs_text[OF assms(6,7), of east] by (simp add: utc_of_def)
qed

theorem rfc2822_date_written_witness:
  "rfc2822DateToUxTime (date_text ''Mon'' 3 6 2006 9 51 58 (zone_text True 5 30)) =
     Inr (utc_of 3 6 2006 9 51 58 True 5 30 + 59 * 30)"
  using rfc2822_date_written[of "''Mon''" 6 9 51 58 5 30 3 2006 True] by simp

end
