(* ===== verification/Calendar.thy ===== *)
theory Calendar
  imports Mime_Date
begin

text \<open>
  The calendar of the C library in both directions: \<open>mktime\<close> on fields that may be out of range and \<open>localtime_r\<close>, as
  the proleptic Gregorian calendar over unbounded integers, for a time zone in which the days begin at midnight. The
  dates of queries (\<open>common/rclutil.cpp\<close>) and of documents (\<open>rcldb/rclndb.cpp\<close>) go through it.
\<close>

section \<open>Days and dates\<close>

text \<open>The number of a day, for a month counted from 0 that may be outside the year and any day of the month.\<close>

definition mktime_day :: "int \<Rightarrow> int \<Rightarrow> int \<Rightarrow> int" where
  "mktime_day year mon mday = days_to_month (year + mon div 12) (mon mod 12) + mday - 1"

text \<open>A first estimate of the year of a day is at most one year off.\<close>

definition year_of_day :: "int \<Rightarrow> int" where
  "year_of_day n =
     (let y = 1970 + n * 400 div 146097 in
      if n < days_to_month y 0 then y - 1 else if days_to_month (y + 1) 0 \<le> n then y + 1 else y)"

definition month_of_day :: "int \<Rightarrow> int \<Rightarrow> int" where
  "month_of_day y n = int (length (takeWhile (\<lambda>m. days_to_month y m \<le> n) [1..11]))"

text \<open>The year, the month from 1 and the day of the month.\<close>

definition civil :: "int \<Rightarrow> int \<times> int \<times> int" where
  "civil n = (let y = year_of_day n; m = month_of_day y n in (y, m + 1, n - days_to_month y m + 1))"

lemma civil_examples: "civil 0 = (1970, 1, 1)" "civil 19782 = (2024, 2, 29)" "civil (- 1) = (1969, 12, 31)"
  by code_simp+

definition month_days :: "int \<Rightarrow> int \<Rightarrow> int" where
  "month_days y m = days_in_months ! nat (m - 1) + (if leap_year y \<and> m = 2 then 1 else 0)"

definition date_ok :: "int \<Rightarrow> int \<Rightarrow> int \<Rightarrow> bool" where
  "date_ok y m d \<longleftrightarrow> 1 \<le> m \<and> m \<le> 12 \<and> 1 \<le> d \<and> d \<le> month_days y m"

definition date_le :: "int \<times> int \<times> int \<Rightarrow> int \<times> int \<times> int \<Rightarrow> bool" where
  "date_le a b \<longleftrightarrow> (case (a, b) of ((y1, m1, d1), (y2, m2, d2)) \<Rightarrow> y1 < y2 \<or> y1 = y2 \<and> (m1 < m2 \<or> m1 = m2 \<and> d1 \<le> d2))"

definition day_number :: "int \<Rightarrow> int \<Rightarrow> int \<Rightarrow> int" where
  "day_number y m d = days_to_month y (m - 1) + d - 1"

section \<open>The two directions agree\<close>

lemma year_start: "days_to_month y 0 = 365 * (y - 1970) + ((y - 1) div 4 - (y - 1) div 100 + (y - 1) div 400) - 477"
  by (simp add: days_to_month_def)

lemma div_bounds: "0 < k \<Longrightarrow> k * (a div k) \<le> a \<and> a < k * (a div k) + k" for a k :: int
  using mult_div_mod_eq [of k a] pos_mod_bound [of k a] pos_mod_sign [of k a] by linarith

lemma div_step: "0 < k \<Longrightarrow> y div k = (y - 1) div k + (if y mod k = 0 then 1 else 0)" for y k :: int
proof -
  assume k: "0 < k"
  show ?thesis
  proof (cases "y mod k = 0")
    case True
    then obtain q where y: "y = k * q" by auto
    have "(k * q - 1) div k = q - 1"
      using k by (intro int_div_pos_eq [of _ _ _ "k - 1"]) (simp_all add: algebra_simps)
    then show ?thesis using y k by simp
  next
    case False
    have "0 \<le> y mod k - 1" "y mod k - 1 < k" "y - 1 = k * (y div k) + (y mod k - 1)"
      using False pos_mod_bound [OF k, of y] pos_mod_sign [OF k, of y] mult_div_mod_eq [of k y] by linarith+
    then have "(y - 1) div k = y div k"
      by (metis int_div_pos_eq)
    then show ?thesis using False by simp
  qed
qed

lemma year_length: "days_to_month (y + 1) 0 = days_to_month y 0 + 365 + (if leap_year y then 1 else 0)"
proof -
  define P Q R where PQR: "P = (y mod 4 = 0)" "Q = (y mod 100 = 0)" "R = (y mod 400 = 0)"
  have multiples: "Q \<longrightarrow> P" "R \<longrightarrow> Q"
    unfolding PQR by presburger+
  define a b c a' b' c' where d: "a = y div 4" "b = y div 100" "c = y div 400"
    "a' = (y - 1) div 4" "b' = (y - 1) div 100" "c' = (y - 1) div 400"
  have steps: "a = a' + (if P then 1 else 0)" "b = b' + (if Q then 1 else 0)" "c = c' + (if R then 1 else 0)"
    unfolding d PQR by (rule div_step, simp)+
  have years: "days_to_month (y + 1) 0 = 365 * (y + 1 - 1970) + (a - b + c) - 477"
    "days_to_month y 0 = 365 * (y - 1970) + (a' - b' + c') - 477"
    by (simp_all only: year_start d add_diff_cancel_right')
  have "leap_year y \<longleftrightarrow> P \<and> (\<not> Q \<or> R)"
    by (simp only: leap_year_def PQR)
  with multiples show ?thesis
    unfolding years steps by (cases P; cases Q; cases R) simp_all
qed

lemma months_upto: "1 \<le> m \<Longrightarrow> m \<le> 12 \<Longrightarrow> m = 1 \<or> m = 2 \<or> m = 3 \<or> m = 4 \<or> m = 5 \<or> m = 6 \<or> m = 7 \<or> m = 8 \<or> m = 9 \<or>
    m = 10 \<or> m = 11 \<or> m = 12" for m :: int
  by presburger

lemma month_start:
  "days_to_month y 1 = days_to_month y 0 + 31"
  "2 \<le> m \<Longrightarrow> m \<le> 12 \<Longrightarrow> days_to_month y m = days_to_month y 0 + sum_list (take (nat m) days_in_months) + (if leap_year y then 1 else 0)"
  by (auto simp: days_to_month_def days_in_months_def)

lemma month_step:
  assumes "1 \<le> m" "m \<le> 12"
  shows "days_to_month y m = days_to_month y (m - 1) + month_days y m"
proof -
  have "days_to_month y (int i + 1) = days_to_month y (int i) + month_days y (int i + 1)" if "i < 12" for i
  proof -
    have "i < length days_in_months"
      using that by (simp add: days_in_months_def)
    then have "sum_list (take (nat (int i + 1)) days_in_months) = sum_list (take i days_in_months) + days_in_months ! i"
      by (simp add: nat_add_distrib take_Suc_conv_app_nth)
    then show ?thesis
      by (auto simp: days_to_month_def month_days_def)
  qed
  from this [of "nat (m - 1)"] assms show ?thesis
    by simp
qed

lemma month_days_bounds: "1 \<le> m \<Longrightarrow> m \<le> 12 \<Longrightarrow> 28 \<le> month_days y m \<and> month_days y m \<le> 31"
  using months_upto [of m] by (auto simp: month_days_def days_in_months_def)

lemma year_end: "days_to_month (y + 1) 0 = days_to_month y 12"
  unfolding year_length by (simp add: month_start(2) days_in_months_def)

lemma month_mono:
  assumes "0 \<le> a" "a \<le> b" "b \<le> 12"
  shows "days_to_month y a \<le> days_to_month y b"
  using assms(2,3)
proof (induction b rule: int_ge_induct)
  case (step b)
  then show ?case
    using month_step [of "b + 1" y] month_days_bounds [of "b + 1" y] assms(1) by simp
qed simp

lemma year_mono: "a \<le> b \<Longrightarrow> days_to_month a 0 \<le> days_to_month b 0"
proof (induction b rule: int_ge_induct)
  case (step b)
  then show ?case
    using year_length [of b] by simp
qed simp

lemma year_of_day_spec: "days_to_month (year_of_day n) 0 \<le> n \<and> n < days_to_month (year_of_day n + 1) 0"
proof -
  define q where "q = n * 400 div 146097"
  define y where "y = 1970 + q"
  have n: "146097 * q \<le> 400 * n" "400 * n < 146097 * q + 146097"
    using div_bounds [of 146097 "n * 400"] by (simp_all add: q_def algebra_simps)
  define a b c where abc: "a = (1969 + q) div 4" "b = (1969 + q) div 100" "c = (1969 + q) div 400"
  have abc_bounds: "4 * a \<le> 1969 + q" "1969 + q \<le> 4 * a + 3" "100 * b \<le> 1969 + q" "1969 + q \<le> 100 * b + 99"
    "400 * c \<le> 1969 + q" "1969 + q \<le> 400 * c + 399"
    using div_bounds [of 4 "1969 + q"] div_bounds [of 100 "1969 + q"] div_bounds [of 400 "1969 + q"] by (simp_all add: abc)
  have s: "days_to_month y 0 = 365 * q + (a - b + c) - 477"
    by (simp add: year_start y_def abc)
  have next1: "days_to_month (y + 1) 0 \<le> days_to_month y 0 + 366" "days_to_month y 0 + 365 \<le> days_to_month (y + 1) 0"
    using year_length [of y] by (auto split: if_splits)
  have next2: "days_to_month (y + 1) 0 + 365 \<le> days_to_month (y + 2) 0"
    using year_length [of "y + 1"] by (simp add: add.assoc split: if_splits)
  have prev: "days_to_month (y - 1) 0 + 365 \<le> days_to_month y 0"
    using year_length [of "y - 1"] by (simp split: if_splits)
  have "days_to_month y 0 - 365 \<le> n"
    using s n abc_bounds by linarith
  moreover have "n < days_to_month y 0 + 730"
    using s n abc_bounds by linarith
  ultimately show ?thesis
    using next1 next2 prev by (auto simp: year_of_day_def Let_def q_def [symmetric] y_def [symmetric] add.assoc)
qed

lemma takeWhile_length_nth:
  "m = length (takeWhile P xs) \<Longrightarrow> (\<forall>i < m. P (xs ! i)) \<and> (m < length xs \<longrightarrow> \<not> P (xs ! m)) \<and> m \<le> length xs"
proof -
  assume m: "m = length (takeWhile P xs)"
  have "P (xs ! i)" if "i < m" for i
    using that set_takeWhileD [of "takeWhile P xs ! i" P xs] nth_mem [of i "takeWhile P xs"] takeWhile_nth [of i P xs] m by simp
  then show ?thesis
    using nth_length_takeWhile [of P xs] length_takeWhile_le [of P xs] m by simp
qed

lemma nth_months: "i < 11 \<Longrightarrow> [1..11] ! i = int i + 1"
  by (subst nth_upto) auto

lemma month_of_day_spec:
  assumes "days_to_month y 0 \<le> n" "n < days_to_month y 12"
  shows "0 \<le> month_of_day y n \<and> month_of_day y n \<le> 11 \<and> days_to_month y (month_of_day y n) \<le> n \<and>
    n < days_to_month y (month_of_day y n + 1)"
proof -
  define m where "m = length (takeWhile (\<lambda>m. days_to_month y m \<le> n) [1..11])"
  have T: "\<forall>i < m. days_to_month y ([1..11] ! i) \<le> n" "m < 11 \<longrightarrow> \<not> days_to_month y ([1..11] ! m) \<le> n" "m \<le> 11"
    using takeWhile_length_nth [OF m_def] by auto
  have "days_to_month y (int m) \<le> n"
  proof (cases m)
    case (Suc k)
    then show ?thesis
      using T(1) [rule_format, of k] T(3) by (simp add: nth_months add.commute)
  qed (use assms in simp)
  moreover have "n < days_to_month y (int m + 1)"
    using T(2,3) assms(2) nth_months [of m] by (cases "m < 11") (auto simp: add.commute)
  moreover have "month_of_day y n = int m"
    by (simp add: month_of_day_def m_def)
  ultimately show ?thesis
    using T(3) by simp
qed

theorem civil_day_number: "civil n = (y, m, d) \<Longrightarrow> date_ok y m d \<and> day_number y m d = n"
proof -
  assume c: "civil n = (y, m, d)"
  have y: "y = year_of_day n" and m: "m = month_of_day y n + 1" and d: "d = n - days_to_month y (m - 1) + 1"
    using c by (auto simp: civil_def Let_def)
  have "days_to_month y 0 \<le> n" "n < days_to_month y 12"
    using year_of_day_spec [of n] by (simp_all add: y year_end)
  from month_of_day_spec [OF this] have M: "1 \<le> m" "m \<le> 12" "days_to_month y (m - 1) \<le> n" "n < days_to_month y m"
    by (simp_all add: m)
  then show ?thesis
    using month_step [OF M(1,2), of y] d by (simp add: date_ok_def day_number_def)
qed

lemma day_number_less:
  assumes "date_ok y m d" "date_ok y' m' d'" "y < y' \<or> y = y' \<and> (m < m' \<or> m = m' \<and> d < d')"
  shows "day_number y m d < day_number y' m' d'"
proof -
  have top: "day_number y m d < days_to_month y m"
    using assms(1) month_step [of m y] by (simp add: date_ok_def day_number_def)
  have bot: "days_to_month y' (m' - 1) \<le> day_number y' m' d'"
    using assms(2) by (simp add: date_ok_def day_number_def)
  consider "y < y'" | "y = y'" "m < m'" | "y = y'" "m = m'" "d < d'"
    using assms(3) by blast
  then show ?thesis
  proof cases
    case 1
    have "days_to_month y m \<le> days_to_month (y + 1) 0"
      using assms(1) month_mono [of m 12 y] by (simp add: year_end date_ok_def)
    also have "\<dots> \<le> days_to_month y' 0"
      using year_mono [of "y + 1" y'] 1 by simp
    also have "\<dots> \<le> days_to_month y' (m' - 1)"
      using assms(2) month_mono [of 0 "m' - 1" y'] by (simp add: date_ok_def)
    finally show ?thesis using top bot by simp
  next
    case 2
    have "days_to_month y m \<le> days_to_month y (m' - 1)"
      using 2 assms(1,2) month_mono [of m "m' - 1" y] by (simp add: date_ok_def)
    then show ?thesis using top bot 2 by simp
  next
    case 3
    then show ?thesis by (simp add: day_number_def)
  qed
qed

lemma day_number_le_iff:
  assumes "date_ok y m d" "date_ok y' m' d'"
  shows "day_number y m d \<le> day_number y' m' d' \<longleftrightarrow> date_le (y, m, d) (y', m', d')"
proof
  assume "date_le (y, m, d) (y', m', d')"
  then show "day_number y m d \<le> day_number y' m' d'"
    using day_number_less [OF assms] by (cases "(y, m, d) = (y', m', d')") (auto simp: date_le_def)
next
  assume le: "day_number y m d \<le> day_number y' m' d'"
  show "date_le (y, m, d) (y', m', d')"
  proof (rule ccontr)
    assume "\<not> ?thesis"
    then have "y' < y \<or> y' = y \<and> (m' < m \<or> m' = m \<and> d' < d)"
      by (auto simp: date_le_def)
    from day_number_less [OF assms(2,1) this] le show False by simp
  qed
qed

theorem civil_of_date: "date_ok y m d \<Longrightarrow> civil (day_number y m d) = (y, m, d)"
proof -
  assume ok: "date_ok y m d"
  obtain y' m' d' where c: "civil (day_number y m d) = (y', m', d')"
    by (metis surj_pair)
  from civil_day_number [OF this] have c': "date_ok y' m' d'" "day_number y' m' d' = day_number y m d"
    by simp_all
  have "date_le (y, m, d) (y', m', d')" "date_le (y', m', d') (y, m, d)"
    using day_number_le_iff [OF ok c'(1)] day_number_le_iff [OF c'(1) ok] c'(2) by simp_all
  then show ?thesis
    using c by (auto simp: date_le_def)
qed

lemma mktime_day_number: "1 \<le> m \<Longrightarrow> m \<le> 12 \<Longrightarrow> mktime_day y (m - 1) d = day_number y m d"
  by (simp add: mktime_day_def day_number_def)

lemma day_number_add: "day_number y m (d + k) = day_number y m d + k"
  by (simp add: day_number_def)

end
