(* ===== verification/Date_Interval.thy ===== *)
theory Date_Interval
  imports Calendar
begin

text \<open>
  The intervals of dates in queries (\<open>parsedateinterval\<close> of \<open>common/rclutil.cpp\<close>): dates with optional month and day,
  periods, and pairs of them around a slash. An iterator over the tokens is the list of the remaining ones. Sums that
  do not fit an \<open>int\<close> are not modelled apart.
\<close>

section \<open>Dates and periods\<close>

record DateInterval =
  di_y1 :: int
  di_m1 :: int
  di_d1 :: int
  di_y2 :: int
  di_m2 :: int
  di_d2 :: int

definition zero_interval :: DateInterval where
  "zero_interval = \<lparr>di_y1 = 0, di_m1 = 0, di_d1 = 0, di_y2 = 0, di_m2 = 0, di_d2 = 0\<rparr>"

definition monthdays :: "int \<Rightarrow> int \<Rightarrow> int" where
  "monthdays mon year =
     (if mon = 2 then (if year mod 4 = 0 then 29 else 28)
      else if mon \<in> {1, 3, 5, 7, 8, 10, 12} then 31 else 30)"

text \<open>A number of a date, of at most \<open>n\<close> digits. The token is looked at before the end of the list is tested.\<close>

definition date_field :: "nat \<Rightarrow> string list \<Rightarrow> (int \<times> string list) option run" where
  "date_field n it =
     (case it of
        [] \<Rightarrow> Inl BadAccess
      | t # it1 \<Rightarrow>
          if n < length t \<or> t = [] \<or> find_first_not_of t ''0123456789'' 0 \<noteq> None then Inr None
          else map_sum id (\<lambda>v. Some (v, it1)) (atoi t))"

text \<open>\<open>Y[-M[-D]]\<close>: the remaining tokens and the date, or \<open>None\<close> for false.\<close>

definition parsedate :: "string list \<Rightarrow> (string list \<times> DateInterval) option run" where
  "parsedate it0 =
     (case date_field 4 it0 of
        Inl e \<Rightarrow> Inl e
      | Inr None \<Rightarrow> Inr None
      | Inr (Some (y, it1)) \<Rightarrow>
          let dy = zero_interval\<lparr>di_y1 := y\<rparr> in
          if it1 = [] \<or> hd it1 = ''/'' then Inr (Some (it1, dy))
          else if hd it1 \<noteq> ''-'' then Inr None
          else case date_field 2 (tl it1) of
              Inl e \<Rightarrow> Inl e
            | Inr None \<Rightarrow> Inr None
            | Inr (Some (m, it2)) \<Rightarrow>
                let dm = dy\<lparr>di_m1 := m\<rparr> in
                if it2 = [] \<or> hd it2 = ''/'' then Inr (Some (it2, dm))
                else if hd it2 \<noteq> ''-'' then Inr None
                else case date_field 2 (tl it2) of
                    Inl e \<Rightarrow> Inl e
                  | Inr None \<Rightarrow> Inr None
                  | Inr (Some (d, it3)) \<Rightarrow> Inr (Some (it3, dm\<lparr>di_d1 := d\<rparr>)))"

definition period_unit :: "char \<Rightarrow> int \<Rightarrow> DateInterval \<Rightarrow> DateInterval option" where
  "period_unit u v p =
     (if u = CHR ''Y'' \<or> u = CHR ''y'' then Some (p\<lparr>di_y1 := v\<rparr>)
      else if u = CHR ''M'' \<or> u = CHR ''m'' then Some (p\<lparr>di_m1 := v\<rparr>)
      else if u = CHR ''D'' \<or> u = CHR ''d'' then Some (p\<lparr>di_d1 := v\<rparr>)
      else None)"

text \<open>The loop over the pairs of a number and a unit. An empty token is no number for \<open>sscanf\<close>.\<close>

fun parseperiod :: "DateInterval \<Rightarrow> string list \<Rightarrow> (string list \<times> DateInterval) option run" where
  "parseperiod p [] = Inr (Some ([], p))"
| "parseperiod p (t # it) =
     (if find_first_not_of t ''0123456789'' 0 \<noteq> None \<or> t = [] then Inr None
      else case atoi t of
          Inl e \<Rightarrow> Inl e
        | Inr v \<Rightarrow>
            (case it of
               [] \<Rightarrow> Inr None
             | u # it1 \<Rightarrow>
                 if u = [] then Inr None
                 else case period_unit (hd u) v p of
                     None \<Rightarrow> Inr None
                   | Some p1 \<Rightarrow>
                       if it1 = [] \<or> hd it1 = ''/'' then Inr (Some (it1, p1)) else parseperiod p1 it1))"

text \<open>\<open>mktime\<close> sorts out the fields of the sum.\<close>

definition addperiod :: "DateInterval \<Rightarrow> DateInterval \<Rightarrow> DateInterval" where
  "addperiod dp pp =
     (case civil (mktime_day (di_y1 dp + di_y1 pp) (di_m1 dp + di_m1 pp - 1) (di_d1 dp + di_d1 pp)) of
        (y, m, d) \<Rightarrow> dp\<lparr>di_y1 := y, di_m1 := m, di_d1 := d\<rparr>)"

section \<open>The interval\<close>

text \<open>What precedes the slash and what follows it: a period, a date or nothing.\<close>

datatype elt = is_EPeriod: EPeriod DateInterval | EDate DateInterval | ENothing

definition is_P :: "string \<Rightarrow> bool" where
  "is_P t \<longleftrightarrow> t = ''P'' \<or> t = ''p''"

definition negate_period :: "DateInterval \<Rightarrow> DateInterval" where
  "negate_period p = p\<lparr>di_y1 := - di_y1 p, di_m1 := - di_m1 p, di_d1 := - di_d1 p\<rparr>"

definition first_elt :: "string list \<Rightarrow> (string list \<times> elt) option run" where
  "first_elt it =
     (if is_P (hd it) then map_sum id (map_option (\<lambda>(it1, p). (it1, EPeriod (negate_period p)))) (parseperiod zero_interval (tl it))
      else if hd it = ''/'' then Inr (Some (it, ENothing))
      else map_sum id (map_option (\<lambda>(it1, d). (it1, EDate d))) (parsedate it))"

text \<open>The second element and whether there is a slash; what follows it is not looked at.\<close>

definition second_elt :: "string list \<Rightarrow> (bool \<times> elt) option run" where
  "second_elt it =
     (if it = [] then Inr (Some (False, ENothing))
      else if hd it \<noteq> ''/'' then Inr None
      else if tl it = [] then Inr (Some (True, ENothing))
      else if is_P (hd (tl it)) then
        map_sum id (map_option (\<lambda>(it1, p). (True, EPeriod p))) (parseperiod zero_interval (tl (tl it)))
      else map_sum id (map_option (\<lambda>(it1, d). (True, EDate d))) (parsedate (tl it)))"

text \<open>Today, where the other element is a period.\<close>

definition fill_today :: "DateInterval \<Rightarrow> elt \<times> elt \<Rightarrow> elt \<times> elt" where
  "fill_today today es =
     (case es of
        (ENothing, EPeriod p) \<Rightarrow> (EDate today, EPeriod p)
      | (EPeriod p, ENothing) \<Rightarrow> (EPeriod p, EDate today)
      | _ \<Rightarrow> es)"

text \<open>
  Incomplete dates: a first date without slash gets a period of the missing elements, other first dates begin with the
  missing elements and second dates end with them.
\<close>

definition complete_first :: "bool \<Rightarrow> DateInterval \<Rightarrow> elt \<Rightarrow> DateInterval \<times> elt" where
  "complete_first hasslash d e2 =
     (if \<not> (hasslash \<or> is_EPeriod e2) then
        (if di_m1 d = 0 then (d\<lparr>di_m1 := 1, di_d1 := 1\<rparr>, EPeriod (zero_interval\<lparr>di_m1 := 12\<rparr>))
         else if di_d1 d = 0 then (d\<lparr>di_d1 := 1\<rparr>, EPeriod (zero_interval\<lparr>di_d1 := monthdays (di_m1 d) (di_y1 d)\<rparr>))
         else (d, EPeriod zero_interval))
      else if di_m1 d = 0 then (d\<lparr>di_m1 := 1, di_d1 := 1\<rparr>, e2)
      else if di_d1 d = 0 then (d\<lparr>di_d1 := 1\<rparr>, e2)
      else (d, e2))"

definition complete_second :: "DateInterval \<Rightarrow> DateInterval" where
  "complete_second d =
     (if di_m1 d = 0 then d\<lparr>di_m1 := 12, di_d1 := 31\<rparr>
      else if di_d1 d = 0 then d\<lparr>di_d1 := monthdays (di_m1 d) (di_y1 d)\<rparr> else d)"

definition both_dates :: "DateInterval \<Rightarrow> DateInterval \<Rightarrow> DateInterval" where
  "both_dates d1 d2 = \<lparr>di_y1 = di_y1 d1, di_m1 = di_m1 d1, di_d1 = di_d1 d1, di_y2 = di_y1 d2, di_m2 = di_m1 d2, di_d2 = di_d1 d2\<rparr>"

definition elt_date :: "elt \<Rightarrow> DateInterval" where
  "elt_date e = (case e of EDate d \<Rightarrow> d | _ \<Rightarrow> zero_interval)"

text \<open>The end dates of two elements, today filled in.\<close>

definition interval_dates :: "bool \<Rightarrow> elt \<times> elt \<Rightarrow> DateInterval" where
  "interval_dates hasslash es =
     (case es of (e1, e2) \<Rightarrow>
        case (case e1 of
                EDate d \<Rightarrow> (case complete_first hasslash d e2 of (d', e2') \<Rightarrow> (EDate d', e2'))
              | _ \<Rightarrow> (e1, e2)) of
          (f1, f2) \<Rightarrow>
            let g2 = (case f2 of EDate d \<Rightarrow> EDate (complete_second d) | _ \<Rightarrow> f2) in
            case (f1, g2) of
              (EPeriod p, _) \<Rightarrow> both_dates (addperiod (elt_date g2) p) (elt_date g2)
            | (_, EPeriod p) \<Rightarrow> both_dates (elt_date f1) (addperiod (elt_date f1) p)
            | _ \<Rightarrow> both_dates (elt_date f1) (elt_date g2))"

text \<open>The result and the interval, which is zero when the result is false. \<open>today\<close> is the day of \<open>gmtime\<close>.\<close>

definition parsedateinterval :: "DateInterval \<Rightarrow> string \<Rightarrow> (bool \<times> DateInterval) run" where
  "parsedateinterval today s =
     (case stringToStrings s ''PYMDpymd-/'' of (ok, vs) \<Rightarrow>
        if \<not> ok \<or> vs = [] then Inr (False, zero_interval)
        else case first_elt vs of
            Inl e \<Rightarrow> Inl e
          | Inr None \<Rightarrow> Inr (False, zero_interval)
          | Inr (Some (it, e1)) \<Rightarrow>
              case second_elt it of
                Inl e \<Rightarrow> Inl e
              | Inr None \<Rightarrow> Inr (False, zero_interval)
              | Inr (Some (hasslash, e2)) \<Rightarrow>
                  if is_EPeriod e1 \<and> is_EPeriod e2 \<or> e1 = ENothing \<and> e2 = ENothing then Inr (False, zero_interval)
                  else Inr (True, interval_dates hasslash (fill_today today (e1, e2))))"

end
