(* ===== verification/Date_Range.thy ===== *)
theory Date_Range
  imports Date_Interval
begin

text \<open>
  The terms by which documents are found by date: those a document gets (\<open>addDateTerms\<close> of \<open>rcldb/rclndb.cpp\<close>) and those of the
  query for an interval (\<open>anydate_range_filter\<close> of \<open>rcldb/daterange.cpp\<close>, \<open>processdaterange\<close> of \<open>rcldb/searchdatatox.cpp\<close>).
  The character buffer is the string up to its null. A query is the list of the terms of an \<open>OP_OR\<close> query of Xapian,
  which finds the documents that have one of them.
\<close>

section \<open>Formatting\<close>

text \<open>\<open>printf\<close> with \<open>%0nd\<close>, and \<open>snprintf\<close> into the buffer at an offset; the buffer has room for all the terms.\<close>

definition fmt0 :: "nat \<Rightarrow> int \<Rightarrow> string" where
  "fmt0 n v =
     (let s = dec_string (nat \<bar>v\<bar>) in
      if v < 0 then CHR ''-'' # replicate (n - 1 - length s) CHR ''0'' @ s else replicate (n - length s) CHR ''0'' @ s)"

definition snprintf_at :: "nat \<Rightarrow> string \<Rightarrow> string \<Rightarrow> string" where
  "snprintf_at offs s buf = take offs buf @ s"

definition wrap_prefix :: "bool \<Rightarrow> string \<Rightarrow> string" where
  "wrap_prefix stripchars pfx = (if stripchars then pfx else '':'' @ pfx @ '':'')"

definition bufprefix :: "bool \<Rightarrow> string \<Rightarrow> string \<Rightarrow> string" where
  "bufprefix stripchars buf pre = (let p = (if stripchars then pre else '':'' @ pre @ '':'') in p @ drop (length p) buf)"

definition bpoffs :: "bool \<Rightarrow> string \<Rightarrow> nat" where
  "bpoffs stripchars pre = (if stripchars then length pre else length pre + 2)"

section \<open>The terms of a document\<close>

definition addDateTerms :: "bool \<Rightarrow> int \<Rightarrow> string \<Rightarrow> string \<Rightarrow> string \<Rightarrow> string list" where
  "addDateTerms stripchars day dayprefix monprefix yearprefix =
     (case civil day of (y, m, d) \<Rightarrow>
        let buf = fmt0 4 y @ fmt0 2 m @ fmt0 2 d in
        [wrap_prefix stripchars dayprefix @ buf, wrap_prefix stripchars monprefix @ take 6 buf,
         wrap_prefix stripchars yearprefix @ take 4 (take 6 buf)])"

section \<open>The terms of a query\<close>

text \<open>A loop that formats each value at the same offset: the terms and the buffer behind it.\<close>

fun fmt_loop :: "nat \<Rightarrow> nat \<Rightarrow> int list \<Rightarrow> string \<Rightarrow> string list \<times> string" where
  "fmt_loop offs n [] buf = ([], buf)"
| "fmt_loop offs n (v # vs) buf =
     (let b = snprintf_at offs (fmt0 n v) buf in case fmt_loop offs n vs b of (ts, b') \<Rightarrow> (b # ts, b'))"

definition first_month :: "bool \<Rightarrow> string \<Rightarrow> string \<Rightarrow> int \<Rightarrow> int \<Rightarrow> int \<Rightarrow> int \<Rightarrow> string list \<times> string" where
  "first_month st daypref monpref y1 m1 d1 d_end =
     (let buf = snprintf_at (bpoffs st daypref) (fmt0 4 y1 @ fmt0 2 m1) (bufprefix st [] daypref) in
      if 1 < d1 \<or> d_end < monthdays m1 y1 then fmt_loop (6 + bpoffs st daypref) 2 [d1..d_end] buf
      else let b = bufprefix st buf monpref in ([b], b))"

definition last_year :: "bool \<Rightarrow> string \<Rightarrow> string \<Rightarrow> int \<Rightarrow> int \<Rightarrow> int \<Rightarrow> string \<Rightarrow> string list \<times> string" where
  "last_year st monpref yearpref y1 y2 m2 buf =
     (if y1 < y2 then
        case fmt_loop (bpoffs st yearpref) 4 [y1 + 1..y2 - 1] (bufprefix st buf yearpref) of (ts1, b1) \<Rightarrow>
          case fmt_loop (4 + bpoffs st monpref) 2 [1..m2 - 1]
                 (snprintf_at (bpoffs st monpref) (fmt0 4 y2) (bufprefix st b1 monpref)) of (ts2, b2) \<Rightarrow>
            (ts1 @ ts2, b2)
      else ([], buf))"

definition last_month :: "bool \<Rightarrow> string \<Rightarrow> string \<Rightarrow> int \<Rightarrow> int \<Rightarrow> int \<Rightarrow> string \<Rightarrow> string list" where
  "last_month st daypref monpref y2 m2 d2 buf =
     (let b = snprintf_at (4 + bpoffs st monpref) (fmt0 2 m2) buf in
      if d2 < monthdays m2 y2 then fst (fmt_loop (6 + bpoffs st daypref) 2 [1..d2] (bufprefix st b daypref))
      else [bufprefix st b monpref])"

definition anydate_range_filter ::
  "bool \<Rightarrow> string \<Rightarrow> string \<Rightarrow> string \<Rightarrow> int \<Rightarrow> int \<Rightarrow> int \<Rightarrow> int \<Rightarrow> int \<Rightarrow> int \<Rightarrow> string list" where
  "anydate_range_filter st daypref monpref yearpref y1 m1 d1 y2 m2 d2 =
     (let same = (y1 = y2 \<and> m1 = m2);
          d_last = monthdays m1 y1;
          d_end = (if same \<and> d2 < d_last then d2 else d_last)
      in case first_month st daypref monpref y1 m1 d1 d_end of (ts1, b1) \<Rightarrow>
           if same then ts1
           else case fmt_loop (4 + bpoffs st monpref) 2 [m1 + 1..(if y1 < y2 then 12 else m2 - 1)] (bufprefix st b1 monpref) of
               (ts2, b2) \<Rightarrow>
                 case last_year st monpref yearpref y1 y2 m2 b2 of
                   (ts3, b3) \<Rightarrow> ts1 @ ts2 @ ts3 @ last_month st daypref monpref y2 m2 d2 b3)"

definition xapday_prefix :: string where "xapday_prefix = ''D''"
definition xapmonth_prefix :: string where "xapmonth_prefix = ''M''"
definition xapyear_prefix :: string where "xapyear_prefix = ''Y''"

definition date_range_filter :: "bool \<Rightarrow> int \<Rightarrow> int \<Rightarrow> int \<Rightarrow> int \<Rightarrow> int \<Rightarrow> int \<Rightarrow> string list" where
  "date_range_filter st = anydate_range_filter st xapday_prefix xapmonth_prefix xapyear_prefix"

text \<open>Open ends get the years of the index, \<open>maxYearSpan\<close>; they stay 1970 and 2100 when these cannot be read.\<close>

definition fill_years :: "(int \<times> int) option \<Rightarrow> DateInterval \<Rightarrow> DateInterval" where
  "fill_years span dates =
     (if di_y1 dates = 0 \<or> di_y2 dates = 0 then
        let (minyear, maxyear) = (case span of None \<Rightarrow> (1970, 2100) | Some s \<Rightarrow> s);
            dates1 = (if di_y1 dates = 0 then dates\<lparr>di_y1 := minyear, di_m1 := 1, di_d1 := 1\<rparr> else dates)
        in if di_y2 dates1 = 0 then dates1\<lparr>di_y2 := maxyear, di_m2 := 12, di_d2 := 31\<rparr> else dates1
      else dates)"

definition processdaterange :: "bool \<Rightarrow> (int \<times> int) option \<Rightarrow> DateInterval \<Rightarrow> string list" where
  "processdaterange st span dates =
     (let di = fill_years span dates in
      date_range_filter st (di_y1 di) (di_m1 di) (di_d1 di) (di_y2 di) (di_m2 di) (di_d2 di))"

section \<open>What the terms are\<close>

lemma length_fmt0: "0 \<le> v \<Longrightarrow> v < 10 ^ n \<Longrightarrow> 0 < n \<Longrightarrow> length (fmt0 n v) = n"
  using length_dec_string_le [of "nat v" n] by (simp add: fmt0_def Let_def nat_less_iff)

lemma dec_value_zeros: "dec_value_from 0 (replicate k CHR ''0'' @ s) = dec_value_from 0 s"
  by (induction k) simp_all

lemma fmt0_inject:
  assumes "0 \<le> v" "0 \<le> w" "fmt0 n v = fmt0 n w"
  shows "v = w"
proof -
  have "dec_value_from 0 (fmt0 n u) = nat u" if "0 \<le> u" for u
    using that by (simp add: fmt0_def Let_def dec_value_zeros dec_value_from_dec_string)
  then show ?thesis
    using assms by (metis nat_eq_iff2)
qed

lemma bufprefix_wrap: "length buf \<ge> bpoffs st pre \<Longrightarrow> take (bpoffs st pre) (bufprefix st buf pre) = wrap_prefix st pre"
  by (simp add: bufprefix_def wrap_prefix_def bpoffs_def Let_def)

text \<open>The prefixes have the same length. A buffer behind a prefix and a year, and the loops that complete it.\<close>

lemma length_wrap_prefix [simp]: "length (wrap_prefix st p) = bpoffs st p"
  by (simp add: wrap_prefix_def bpoffs_def)

lemma bpoffs_length: "length p = length q \<Longrightarrow> bpoffs st p = bpoffs st q"
  by (simp add: bpoffs_def)

lemma bufprefix_eq: "bufprefix st buf p = wrap_prefix st p @ drop (bpoffs st p) buf"
  by (simp add: bufprefix_def wrap_prefix_def bpoffs_def Let_def)

lemma length_two [simp]: "0 \<le> v \<Longrightarrow> v < 100 \<Longrightarrow> length (fmt0 2 v) = 2"
  by (simp add: length_fmt0)

lemma length_four [simp]: "0 \<le> v \<Longrightarrow> v < 10000 \<Longrightarrow> length (fmt0 4 v) = 4"
  by (simp add: length_fmt0)

lemma fmt_loop_terms:
  assumes "offs \<le> length buf"
  shows "fst (fmt_loop offs n vs buf) = map (\<lambda>v. take offs buf @ fmt0 n v) vs"
    and "\<exists>s. snd (fmt_loop offs n vs buf) = take offs buf @ s"
proof -
  have "fst (fmt_loop offs n vs buf) = map (\<lambda>v. take offs buf @ fmt0 n v) vs \<and>
      (\<exists>s. snd (fmt_loop offs n vs buf) = take offs buf @ s)"
    using assms
  proof (induction vs arbitrary: buf)
    case Nil
    then show ?case
      by (metis append_take_drop_id fst_conv list.map(1) snd_conv fmt_loop.simps(1))
  next
    case (Cons v vs)
    let ?b = "snprintf_at offs (fmt0 n v) buf"
    have "take offs ?b = take offs buf" "offs \<le> length ?b"
      using Cons.prems by (simp_all add: snprintf_at_def)
    then show ?case
      using Cons.IH [of ?b] by (auto simp: Let_def snprintf_at_def split: prod.split)
  qed
  then show "fst (fmt_loop offs n vs buf) = map (\<lambda>v. take offs buf @ fmt0 n v) vs"
    "\<exists>s. snd (fmt_loop offs n vs buf) = take offs buf @ s"
    by simp_all
qed

lemma fmt_loop_at:
  assumes "offs = length pre"
  obtains s where "fmt_loop offs n vs (pre @ t) = (map (\<lambda>v. pre @ fmt0 n v) vs, pre @ s)"
proof -
  have "offs \<le> length (pre @ t)" "take offs (pre @ t) = pre"
    using assms by simp_all
  with fmt_loop_terms [OF this(1), of n vs] that show ?thesis
    by (metis prod.collapse)
qed

definition d_term :: "bool \<Rightarrow> string \<Rightarrow> int \<Rightarrow> int \<Rightarrow> int \<Rightarrow> string" where
  "d_term st p y m d = wrap_prefix st p @ fmt0 4 y @ fmt0 2 m @ fmt0 2 d"

definition m_term :: "bool \<Rightarrow> string \<Rightarrow> int \<Rightarrow> int \<Rightarrow> string" where
  "m_term st p y m = wrap_prefix st p @ fmt0 4 y @ fmt0 2 m"

definition y_term :: "bool \<Rightarrow> string \<Rightarrow> int \<Rightarrow> string" where
  "y_term st p y = wrap_prefix st p @ fmt0 4 y"

lemmas date_terms = d_term_def m_term_def y_term_def

lemma first_month_terms:
  assumes "0 \<le> y1" "y1 < 10000" "0 \<le> m1" "m1 < 100" "length dp = length mp"
  obtains q s where "length q = bpoffs st dp" "first_month st dp mp y1 m1 d1 d_end =
    (if 1 < d1 \<or> d_end < monthdays m1 y1 then map (d_term st dp y1 m1) [d1..d_end] else [m_term st mp y1 m1], q @ fmt0 4 y1 @ s)"
proof -
  let ?buf = "wrap_prefix st dp @ fmt0 4 y1 @ fmt0 2 m1"
  have b: "snprintf_at (bpoffs st dp) (fmt0 4 y1 @ fmt0 2 m1) (bufprefix st [] dp) = ?buf"
    by (simp add: snprintf_at_def bufprefix_eq)
  have "6 + bpoffs st dp = length ?buf"
    using assms by simp
  from fmt_loop_at [OF this, of 2 "[d1..d_end]" "[]"] obtain s where
    "fmt_loop (6 + bpoffs st dp) 2 [d1..d_end] ?buf = (map (\<lambda>v. ?buf @ fmt0 2 v) [d1..d_end], ?buf @ s)"
    by auto
  note loop = this
  have "bufprefix st ?buf mp = m_term st mp y1 m1"
    using bpoffs_length [OF assms(5), of st] by (simp add: bufprefix_eq m_term_def)
  then show ?thesis
    using loop b that [of "wrap_prefix st dp" "fmt0 2 m1 @ s"] that [of "wrap_prefix st mp" "fmt0 2 m1"]
      bpoffs_length [OF assms(5), of st]
    by (cases "1 < d1 \<or> d_end < monthdays m1 y1") (auto simp: first_month_def Let_def d_term_def m_term_def)
qed

lemma last_year_terms:
  assumes "0 \<le> y1" "y1 < y2" "y2 < 10000" "length mp = length yp" "length q = bpoffs st mp"
  obtains s where "last_year st mp yp y1 y2 m2 (q @ fmt0 4 y1 @ r) =
    (map (y_term st yp) [y1 + 1..y2 - 1] @ map (m_term st mp y2) [1..m2 - 1], wrap_prefix st mp @ fmt0 4 y2 @ s)"
proof -
  have L: "bpoffs st yp = bpoffs st mp"
    using bpoffs_length assms(4) by metis
  have "bufprefix st (q @ fmt0 4 y1 @ r) yp = wrap_prefix st yp @ fmt0 4 y1 @ r"
    using assms(5) L by (simp add: bufprefix_eq)
  then obtain s1 where 1: "fmt_loop (bpoffs st yp) 4 [y1 + 1..y2 - 1] (bufprefix st (q @ fmt0 4 y1 @ r) yp) =
      (map (y_term st yp) [y1 + 1..y2 - 1], wrap_prefix st yp @ s1)"
    using fmt_loop_at [of "bpoffs st yp" "wrap_prefix st yp" 4 "[y1 + 1..y2 - 1]" "fmt0 4 y1 @ r"]
    by (auto simp: y_term_def [abs_def])
  let ?p = "wrap_prefix st mp @ fmt0 4 y2"
  have "snprintf_at (bpoffs st mp) (fmt0 4 y2) (bufprefix st (wrap_prefix st yp @ s1) mp) = ?p"
    by (simp add: snprintf_at_def bufprefix_eq)
  moreover obtain s2 where "fmt_loop (4 + bpoffs st mp) 2 [1..m2 - 1] ?p = (map (m_term st mp y2) [1..m2 - 1], ?p @ s2)"
    using fmt_loop_at [of "4 + bpoffs st mp" ?p 2 "[1..m2 - 1]" "[]"] assms by (auto simp: m_term_def [abs_def])
  ultimately show ?thesis
    using 1 assms(2) that [of s2] by (simp add: last_year_def)
qed

lemma last_month_terms:
  assumes "0 \<le> y2" "y2 < 10000" "0 \<le> m2" "m2 < 100" "length dp = length mp"
  shows "last_month st dp mp y2 m2 d2 (wrap_prefix st mp @ fmt0 4 y2 @ s) =
    (if d2 < monthdays m2 y2 then map (d_term st dp y2 m2) [1..d2] else [m_term st mp y2 m2])"
proof -
  have L: "bpoffs st dp = bpoffs st mp"
    using bpoffs_length assms(5) by metis
  have b: "snprintf_at (4 + bpoffs st mp) (fmt0 2 m2) (wrap_prefix st mp @ fmt0 4 y2 @ s) = m_term st mp y2 m2"
    using assms by (simp add: snprintf_at_def m_term_def)
  let ?p = "wrap_prefix st dp @ fmt0 4 y2 @ fmt0 2 m2"
  have "bufprefix st (m_term st mp y2 m2) dp = ?p" "bufprefix st (m_term st mp y2 m2) mp = m_term st mp y2 m2"
    using L by (simp_all add: bufprefix_eq m_term_def)
  moreover obtain s2 where "fmt_loop (6 + bpoffs st dp) 2 [1..d2] ?p = (map (d_term st dp y2 m2) [1..d2], ?p @ s2)"
    using fmt_loop_at [of "6 + bpoffs st dp" ?p 2 "[1..d2]" "[]"] assms by (auto simp: d_term_def [abs_def])
  ultimately show ?thesis
    by (simp add: last_month_def b Let_def)
qed

text \<open>All the terms of the filter.\<close>

definition filter_terms :: "bool \<Rightarrow> string \<Rightarrow> string \<Rightarrow> string \<Rightarrow> int \<Rightarrow> int \<Rightarrow> int \<Rightarrow> int \<Rightarrow> int \<Rightarrow> int \<Rightarrow> string list" where
  "filter_terms st dp mp yp y1 m1 d1 y2 m2 d2 =
     (let same = (y1 = y2 \<and> m1 = m2); d_end = (if same then min d2 (monthdays m1 y1) else monthdays m1 y1) in
      (if 1 < d1 \<or> d_end < monthdays m1 y1 then map (d_term st dp y1 m1) [d1..d_end] else [m_term st mp y1 m1]) @
      (if same then [] else
         map (m_term st mp y1) [m1 + 1..(if y1 < y2 then 12 else m2 - 1)] @
         (if y1 < y2 then map (y_term st yp) [y1 + 1..y2 - 1] @ map (m_term st mp y2) [1..m2 - 1] else []) @
         (if d2 < monthdays m2 y2 then map (d_term st dp y2 m2) [1..d2] else [m_term st mp y2 m2])))"

lemma anydate_range_filter_terms:
  assumes "0 \<le> y1" "y1 \<le> y2" "y2 < 10000" "0 \<le> m1" "m1 < 100" "0 \<le> m2" "m2 < 100"
    and "length dp = length mp" "length mp = length yp"
  shows "anydate_range_filter st dp mp yp y1 m1 d1 y2 m2 d2 = filter_terms st dp mp yp y1 m1 d1 y2 m2 d2"
proof -
  define same where "same = (y1 = y2 \<and> m1 = m2)"
  define d_end where "d_end = (if same \<and> d2 < monthdays m1 y1 then d2 else monthdays m1 y1)"
  have d_end: "d_end = (if same then min d2 (monthdays m1 y1) else monthdays m1 y1)"
    by (auto simp: d_end_def)
  have y1: "y1 < 10000"
    using assms by simp
  obtain q s where q: "length q = bpoffs st dp" and F: "first_month st dp mp y1 m1 d1 d_end =
      (if 1 < d1 \<or> d_end < monthdays m1 y1 then map (d_term st dp y1 m1) [d1..d_end] else [m_term st mp y1 m1], q @ fmt0 4 y1 @ s)"
    using first_month_terms [OF assms(1) y1 assms(4,5,8)] by metis
  have L: "bpoffs st dp = bpoffs st mp"
    using bpoffs_length assms(8) by metis
  let ?p = "wrap_prefix st mp @ fmt0 4 y1" and ?ml = "[m1 + 1..(if y1 < y2 then 12 else m2 - 1)]"
  have "bufprefix st (q @ fmt0 4 y1 @ s) mp = ?p @ s"
    using q L by (simp add: bufprefix_eq)
  then obtain s2 where M: "fmt_loop (4 + bpoffs st mp) 2 ?ml (bufprefix st (q @ fmt0 4 y1 @ s) mp) =
      (map (m_term st mp y1) ?ml, ?p @ s2)"
    using fmt_loop_at [of "4 + bpoffs st mp" ?p 2 ?ml s] assms(1) y1 by (auto simp: m_term_def [abs_def])
  have "0 \<le> y2"
    using assms by simp
  note last = last_month_terms [OF this assms(3,6,7,8)]
  let ?L = "if y1 < y2 then map (y_term st yp) [y1 + 1..y2 - 1] @ map (m_term st mp y2) [1..m2 - 1] else []"
  obtain s3 where Y: "last_year st mp yp y1 y2 m2 (?p @ s2) = (?L, wrap_prefix st mp @ fmt0 4 y2 @ s3)"
  proof (cases "y1 < y2")
    case True
    then show ?thesis
      using last_year_terms [OF assms(1) True assms(3,9), of "wrap_prefix st mp" st m2 s2] that by auto
  next
    case False
    then show ?thesis
      using assms(2) that [of s2] by (simp add: last_year_def)
  qed
  have "anydate_range_filter st dp mp yp y1 m1 d1 y2 m2 d2 =
      (case first_month st dp mp y1 m1 d1 d_end of (ts1, b1) \<Rightarrow>
         if same then ts1
         else case fmt_loop (4 + bpoffs st mp) 2 ?ml (bufprefix st b1 mp) of
             (ts2, b2) \<Rightarrow>
               case last_year st mp yp y1 y2 m2 b2 of
                 (ts3, b3) \<Rightarrow> ts1 @ ts2 @ ts3 @ last_month st dp mp y2 m2 d2 b3)"
    by (simp only: anydate_range_filter_def Let_def same_def d_end_def)
  then show ?thesis
    by (simp only: F M Y last prod.case filter_terms_def Let_def same_def [symmetric] d_end [symmetric]) simp
qed

section \<open>The filter finds the documents of the interval\<close>

text \<open>Terms of documents and of filters are equal only when they are of the same kind and date.\<close>

definition fits :: "int \<Rightarrow> int \<Rightarrow> bool" where
  "fits y m \<longleftrightarrow> 0 \<le> y \<and> y < 10000 \<and> 0 \<le> m \<and> m < 100"

lemma fits_lengths: "fits y m \<Longrightarrow> length (fmt0 4 y) = 4 \<and> length (fmt0 2 m) = 2"
  by (simp add: fits_def)

lemma d_term_eq:
  "fits y m \<Longrightarrow> fits y' m' \<Longrightarrow> 0 \<le> d \<Longrightarrow> 0 \<le> d' \<Longrightarrow> d_term st p y m d = d_term st p y' m' d' \<longleftrightarrow> y = y' \<and> m = m' \<and> d = d'"
  using fmt0_inject [of y y' 4] fmt0_inject [of m m' 2] fmt0_inject [of d d' 2] fits_lengths [of y m] fits_lengths [of y' m']
  by (auto simp: d_term_def fits_def)

lemma m_term_eq: "fits y m \<Longrightarrow> fits y' m' \<Longrightarrow> m_term st p y m = m_term st p y' m' \<longleftrightarrow> y = y' \<and> m = m'"
  using fmt0_inject [of y y' 4] fmt0_inject [of m m' 2] fits_lengths [of y m] fits_lengths [of y' m']
  by (auto simp: m_term_def fits_def)

lemma y_term_eq: "fits y m \<Longrightarrow> fits y' m \<Longrightarrow> y_term st p y = y_term st p y' \<longleftrightarrow> y = y'"
  using fmt0_inject [of y y' 4] by (auto simp: y_term_def fits_def)

lemma term_lengths:
  assumes "fits y m"
  shows "0 \<le> d \<Longrightarrow> d < 100 \<Longrightarrow> length (d_term st p y m d) = bpoffs st p + 8" "length (m_term st p y m) = bpoffs st p + 6"
    "length (y_term st p y) = bpoffs st p + 4"
  using fits_lengths [OF assms] by (simp_all add: date_terms)

lemma terms_differ:
  assumes "fits y m" "fits y' m'" "0 \<le> d" "d < 100" "length dp = length mp" "length mp = length yp"
  shows "d_term st dp y m d \<noteq> m_term st mp y' m'" "d_term st dp y m d \<noteq> y_term st yp y'" "m_term st mp y m \<noteq> y_term st yp y'"
proof -
  have L: "bpoffs st mp = bpoffs st dp" "bpoffs st yp = bpoffs st dp"
    using assms(5,6) by (auto simp: bpoffs_def)
  note 1 = term_lengths [OF assms(1)] and 2 = term_lengths [OF assms(2)]
  have n: "length (d_term st dp y m d) = bpoffs st dp + 8" "length (m_term st mp y' m') = bpoffs st dp + 6"
    "length (y_term st yp y') = bpoffs st dp + 4" "length (m_term st mp y m) = bpoffs st dp + 6"
    using 1(1) [OF assms(3,4)] 1(2) 2(2,3) L by metis+
  show "d_term st dp y m d \<noteq> m_term st mp y' m'"
  proof
    assume "d_term st dp y m d = m_term st mp y' m'"
    then have "length (d_term st dp y m d) = length (m_term st mp y' m')" by simp
    with n show False by simp
  qed
  show "d_term st dp y m d \<noteq> y_term st yp y'"
  proof
    assume "d_term st dp y m d = y_term st yp y'"
    then have "length (d_term st dp y m d) = length (y_term st yp y')" by simp
    with n show False by simp
  qed
  show "m_term st mp y m \<noteq> y_term st yp y'"
  proof
    assume "m_term st mp y m = y_term st yp y'"
    then have "length (m_term st mp y m) = length (y_term st yp y')" by simp
    with n show False by simp
  qed
qed

lemma monthdays_bounds: "28 \<le> monthdays m y \<and> monthdays m y \<le> 31"
  by (simp add: monthdays_def)

lemma month_days_le: "1 \<le> m \<Longrightarrow> m \<le> 12 \<Longrightarrow> month_days y m \<le> monthdays m y"
  using months_upto [of m] by (auto simp: month_days_def monthdays_def days_in_months_def leap_year_def)

definition range_hits :: "int \<Rightarrow> int \<Rightarrow> int \<Rightarrow> int \<Rightarrow> int \<Rightarrow> int \<Rightarrow> int \<Rightarrow> int \<Rightarrow> int \<Rightarrow> bool" where
  "range_hits y1 m1 d1 y2 m2 d2 y m d \<longleftrightarrow>
     (let same = (y1 = y2 \<and> m1 = m2); d_end = (if same then min d2 (monthdays m1 y1) else monthdays m1 y1) in
      (y = y1 \<and> m = m1 \<and> (1 < d1 \<or> d_end < monthdays m1 y1 \<longrightarrow> d1 \<le> d \<and> d \<le> d_end)) \<or>
      \<not> same \<and> (y = y1 \<and> m1 < m \<and> m \<le> (if y1 < y2 then 12 else m2 - 1) \<or>
        y1 < y2 \<and> (y1 < y \<and> y < y2 \<or> y = y2 \<and> 1 \<le> m \<and> m < m2) \<or>
        y = y2 \<and> m = m2 \<and> (d2 < monthdays m2 y2 \<longrightarrow> 1 \<le> d \<and> d \<le> d2)))"

lemma hit_cases:
  "(c1 \<and> A \<and> p \<or> n \<and> c2 \<and> B \<and> q) \<or> (\<not> c1 \<and> A \<or> n \<and> (X \<or> Y \<or> \<not> c2 \<and> B)) \<or> n \<and> Z \<longleftrightarrow>
    A \<and> (c1 \<longrightarrow> p) \<or> n \<and> (X \<or> (Z \<or> Y) \<or> B \<and> (c2 \<longrightarrow> q))"
  by blast

lemma filter_terms_hit:
  assumes f: "fits y1 m1" "fits y2 m2" "fits y m" "y1 \<le> y2" and d: "0 \<le> d1" "1 \<le> d" "d \<le> 31" and m: "1 \<le> m" "m \<le> 12"
    and l: "length dp = length mp" "length mp = length yp"
  shows "(\<exists>t \<in> {d_term st dp y m d, m_term st mp y m, y_term st yp y}. t \<in> set (filter_terms st dp mp yp y1 m1 d1 y2 m2 d2)) \<longleftrightarrow>
    range_hits y1 m1 d1 y2 m2 d2 y m d"
proof -
  define d_end where "d_end = (if y1 = y2 \<and> m1 = m2 then min d2 (monthdays m1 y1) else monthdays m1 y1)"
  have end31: "d_end \<le> 31" "\<And>x. x < monthdays m2 y2 \<Longrightarrow> x \<le> 31"
    using monthdays_bounds [of m1 y1] monthdays_bounds [of m2 y2] by (auto simp: d_end_def)
  have fits1: "fits y1 x" "fits y2 x" if "0 \<le> x" "x < 100" for x
    using that f by (auto simp: fits_def)
  have fity: "fits x m" if "y1 \<le> x" "x \<le> y2" for x
    using that f by (auto simp: fits_def)
  have small: "m1 < 100" "m2 < 100" "0 \<le> m1" "0 \<le> m2"
    using f by (simp_all add: fits_def)
  define c1 c2 same ml where c: "c1 = (1 < d1 \<or> d_end < monthdays m1 y1)" "c2 = (d2 < monthdays m2 y2)"
    "same = (y1 = y2 \<and> m1 = m2)" "ml = (if y1 < y2 then 12 else m2 - 1)"
  have ml: "ml < 100"
    using small by (simp add: c)
  have mem: "t \<in> set (filter_terms st dp mp yp y1 m1 d1 y2 m2 d2) \<longleftrightarrow>
      (if c1 then t \<in> d_term st dp y1 m1 ` {d1..d_end} else t = m_term st mp y1 m1) \<or>
      \<not> same \<and> (t \<in> m_term st mp y1 ` {m1 + 1..ml} \<or>
        y1 < y2 \<and> (t \<in> y_term st yp ` {y1 + 1..y2 - 1} \<or> t \<in> m_term st mp y2 ` {1..m2 - 1}) \<or>
        (if c2 then t \<in> d_term st dp y2 m2 ` {1..d2} else t = m_term st mp y2 m2))" for t
    by (auto simp: filter_terms_def d_end_def c Let_def)
  have dm: "d_term st dp y m d \<noteq> m_term st mp y' m'" "d_term st dp y m d \<noteq> y_term st yp y'" if "fits y' m'" for y' m'
    using terms_differ [OF f(3) that _ _ l, of d] d by simp_all
  have dd: "d_term st dp y m d = d_term st dp y' m' x \<longleftrightarrow> y = y' \<and> m = m' \<and> d = x" if "fits y' m'" "0 \<le> x" for y' m' x
    using d_term_eq [OF f(3) that(1) _ that(2), of d] d by simp
  have mm: "m_term st mp y m = m_term st mp y' m' \<longleftrightarrow> y = y' \<and> m = m'" if "fits y' m'" for y' m'
    using m_term_eq [OF f(3) that] .
  have md: "m_term st mp y m \<noteq> d_term st dp y' m' x" "y_term st yp y \<noteq> d_term st dp y' m' x" if "fits y' m'" "0 \<le> x" "x \<le> 31" for y' m' x
    using terms_differ(1,2) [OF that(1) f(3) that(2) _ l] that(3) by (simp_all add: eq_commute [of _ "d_term st dp y' m' x"])
  have my: "m_term st mp y m \<noteq> y_term st yp y'" "y_term st yp y \<noteq> m_term st mp y' m'" if "fits y' m'" for y' m'
    using terms_differ(3) [OF f(3) that _ _ l, of 1] terms_differ(3) [OF that f(3) _ _ l, of 1] by (simp_all add: eq_commute [of "y_term st yp y"])
  have yy: "y_term st yp y = y_term st yp x \<longleftrightarrow> y = x" if "y1 \<le> x" "x \<le> y2" for x
    using y_term_eq [OF f(3) fity [OF that]] .
  have ny: "d_term st dp y m d \<noteq> y_term st yp x" "m_term st mp y m \<noteq> y_term st yp x" if "y1 \<le> x" "x \<le> y2" for x
    using dm(2) [OF fity [OF that]] my(1) [OF fity [OF that]] by simp_all
  have D: "d_term st dp y m d \<in> set (filter_terms st dp mp yp y1 m1 d1 y2 m2 d2) \<longleftrightarrow>
      c1 \<and> y = y1 \<and> m = m1 \<and> d1 \<le> d \<and> d \<le> d_end \<or> \<not> same \<and> c2 \<and> y = y2 \<and> m = m2 \<and> d \<le> d2"
    unfolding mem using f d ml small fits1 fity by (auto simp: image_iff dm(1) ny(1) dd)
  have M: "m_term st mp y m \<in> set (filter_terms st dp mp yp y1 m1 d1 y2 m2 d2) \<longleftrightarrow>
      \<not> c1 \<and> y = y1 \<and> m = m1 \<or> \<not> same \<and> (y = y1 \<and> m1 < m \<and> m \<le> ml \<or> y1 < y2 \<and> y = y2 \<and> m < m2 \<or>
        \<not> c2 \<and> y = y2 \<and> m = m2)"
    unfolding mem using f d m ml small fits1 fity end31 by (auto simp: image_iff mm md(1) ny(2) c)
  have Y: "y_term st yp y \<in> set (filter_terms st dp mp yp y1 m1 d1 y2 m2 d2) \<longleftrightarrow> \<not> same \<and> y1 < y2 \<and> y1 < y \<and> y < y2"
    unfolding mem using f d m ml small fits1 fity end31 by (auto simp: image_iff yy md(2) my(2) c)
  have "range_hits y1 m1 d1 y2 m2 d2 y m d \<longleftrightarrow>
      (y = y1 \<and> m = m1 \<and> (c1 \<longrightarrow> d1 \<le> d \<and> d \<le> d_end)) \<or>
      \<not> same \<and> (y = y1 \<and> m1 < m \<and> m \<le> ml \<or> y1 < y2 \<and> (y1 < y \<and> y < y2 \<or> y = y2 \<and> m < m2) \<or>
        y = y2 \<and> m = m2 \<and> (c2 \<longrightarrow> d \<le> d2))"
    using m(1) d(2) by (simp add: range_hits_def Let_def d_end_def c)
  then show ?thesis
    using hit_cases [of c1 "y = y1 \<and> m = m1" "d1 \<le> d \<and> d \<le> d_end" "\<not> same" c2 "y = y2 \<and> m = m2" "d \<le> d2"
        "y = y1 \<and> m1 < m \<and> m \<le> ml" "y1 < y2 \<and> y = y2 \<and> m < m2" "y1 < y2 \<and> y1 < y \<and> y < y2"]
    by (simp only: D M Y bex_simps conj_assoc conj_disj_distribL simp_thms)
qed

text \<open>An interval whose ends are in order, and dates that exist.\<close>

lemma range_hits_iff:
  assumes "date_ok y m d" "date_le (y1, m1, d1) (y2, m2, d2)"
  shows "range_hits y1 m1 d1 y2 m2 d2 y m d \<longleftrightarrow> date_le (y1, m1, d1) (y, m, d) \<and> date_le (y, m, d) (y2, m2, d2)"
proof -
  have d: "1 \<le> m" "m \<le> 12" "1 \<le> d" "d \<le> monthdays m y"
    using assms(1) month_days_le [of m y] by (auto simp: date_ok_def)
  show ?thesis
  proof (cases "y1 = y2 \<and> m1 = m2")
    case True
    then show ?thesis
      using d assms(2) by (auto simp: range_hits_def date_le_def Let_def)
  next
    case False
    show ?thesis
    proof (cases "y1 < y2")
      case True
      then show ?thesis
        using d False by (auto simp: range_hits_def date_le_def Let_def)
    next
      case y: False
      then have "y1 = y2" "m1 < m2"
        using assms(2) False by (auto simp: date_le_def)
      then show ?thesis
        using d by (auto simp: range_hits_def date_le_def Let_def)
    qed
  qed
qed

lemma addDateTerms_civil:
  assumes "civil day = (y, m, d)" "0 \<le> y" "y < 10000"
  shows "set (addDateTerms st day dp mp yp) = {d_term st dp y m d, m_term st mp y m, y_term st yp y}"
proof -
  have "1 \<le> m" "m \<le> 12"
    using civil_day_number [OF assms(1)] by (simp_all add: date_ok_def)
  then have "length (fmt0 4 y) = 4" "length (fmt0 2 m) = 2"
    using assms(2,3) by simp_all
  then show ?thesis
    using assms(1) by (simp add: addDateTerms_def Let_def date_terms)
qed

lemma date_filter_finds:
  assumes "civil day = (y, m, d)" "0 \<le> y" "y < 10000" "0 \<le> y1" "y2 < 10000" "0 \<le> m1" "m1 < 100" "0 \<le> m2" "m2 < 100" "0 \<le> d1"
    and "date_le (y1, m1, d1) (y2, m2, d2)"
  shows "(\<exists>t \<in> set (date_range_filter st y1 m1 d1 y2 m2 d2). t \<in> set (addDateTerms st day xapday_prefix xapmonth_prefix xapyear_prefix))
    \<longleftrightarrow> date_le (y1, m1, d1) (y, m, d) \<and> date_le (y, m, d) (y2, m2, d2)"
proof -
  have ok: "date_ok y m d"
    using civil_day_number [OF assms(1)] by simp
  then have m: "1 \<le> m" "m \<le> 12" "1 \<le> d" "d \<le> 31"
    using month_days_bounds [of m y] by (simp_all add: date_ok_def)
  have yy: "y1 \<le> y2"
    using assms(11) by (auto simp: date_le_def)
  have l: "length xapday_prefix = length xapmonth_prefix" "length xapmonth_prefix = length xapyear_prefix"
    by (simp_all add: xapday_prefix_def xapmonth_prefix_def xapyear_prefix_def)
  have f: "fits y1 m1" "fits y2 m2" "fits y m"
    using assms m yy by (simp_all add: fits_def)
  have "date_range_filter st y1 m1 d1 y2 m2 d2 = filter_terms st xapday_prefix xapmonth_prefix xapyear_prefix y1 m1 d1 y2 m2 d2"
    unfolding date_range_filter_def by (rule anydate_range_filter_terms) (use assms yy l in simp_all)
  then show ?thesis
    using filter_terms_hit [OF f yy assms(10) m(3,4,1,2) l, of st d2] range_hits_iff [OF ok assms(11)]
      addDateTerms_civil [OF assms(1-3), of st xapday_prefix xapmonth_prefix xapyear_prefix]
    by (metis (no_types, lifting))
qed

end
