(* ===== verification/Date_Search.thy ===== *)
theory Date_Search
  imports Date_Range
begin

text \<open>
  The date clause of a query as a whole: an interval written in any of its forms, parsed and turned into terms, finds the
  documents of its days. The forms and their meaning in days are defined here apart from the code; the cases in which the
  code departs from what the forms mean follow.
\<close>

section \<open>Written intervals\<close>

datatype date_spec = DY nat | DYM nat nat | DYMD nat nat nat

datatype elt_spec = SDate date_spec | is_SPeriod: SPeriod "(nat \<times> char) list" | SNothing

fun date_toks :: "date_spec \<Rightarrow> string list" where
  "date_toks (DY y) = [dec_string y]"
| "date_toks (DYM y m) = [dec_string y, ''-'', dec_string m]"
| "date_toks (DYMD y m d) = [dec_string y, ''-'', dec_string m, ''-'', dec_string d]"

fun elt_toks :: "elt_spec \<Rightarrow> string list" where
  "elt_toks (SDate d) = date_toks d"
| "elt_toks (SPeriod ps) = ''P'' # concat (map (\<lambda>(n, u). [dec_string n, [u]]) ps)"
| "elt_toks SNothing = []"

text \<open>The second element is \<open>None\<close> when there is no slash.\<close>

fun interval_toks :: "elt_spec \<times> elt_spec option \<Rightarrow> string list" where
  "interval_toks (e, None) = elt_toks e"
| "interval_toks (e, Some e') = elt_toks e @ ''/'' # elt_toks e'"

definition interval_text :: "elt_spec \<times> elt_spec option \<Rightarrow> string" where
  "interval_text i = concat (interval_toks i)"

text \<open>Dates that exist, for months on whose length the approximation of the code agrees with the calendar.\<close>

fun spec_ok :: "date_spec \<Rightarrow> bool" where
  "spec_ok (DY y) \<longleftrightarrow> 1 \<le> y \<and> y < 10000"
| "spec_ok (DYM y m) \<longleftrightarrow> 1 \<le> y \<and> y < 10000 \<and> 1 \<le> m \<and> m \<le> 12 \<and> monthdays (int m) (int y) = month_days (int y) (int m)"
| "spec_ok (DYMD y m d) \<longleftrightarrow> 1 \<le> y \<and> y < 10000 \<and> date_ok (int y) (int m) (int d)"

definition unit_ok :: "char \<Rightarrow> bool" where
  "unit_ok u \<longleftrightarrow> u \<in> set ''YMDymd''"

fun elt_ok :: "elt_spec \<Rightarrow> bool" where
  "elt_ok (SDate d) \<longleftrightarrow> spec_ok d"
| "elt_ok (SPeriod ps) \<longleftrightarrow> ps \<noteq> [] \<and> (\<forall>(n, u) \<in> set ps. n < 2 ^ 31 \<and> unit_ok u)"
| "elt_ok SNothing \<longleftrightarrow> True"

fun interval_ok :: "elt_spec \<times> elt_spec option \<Rightarrow> bool" where
  "interval_ok (e, e2) \<longleftrightarrow> elt_ok e \<and> (case e2 of None \<Rightarrow> e \<noteq> SNothing | Some e' \<Rightarrow> elt_ok e' \<and>
     \<not> (e = SNothing \<and> e' = SNothing) \<and> \<not> (is_SPeriod e \<and> is_SPeriod e'))"

section \<open>The days of an interval\<close>

fun spec_lo :: "date_spec \<Rightarrow> int" where
  "spec_lo (DY y) = day_number (int y) 1 1"
| "spec_lo (DYM y m) = day_number (int y) (int m) 1"
| "spec_lo (DYMD y m d) = day_number (int y) (int m) (int d)"

fun spec_hi :: "date_spec \<Rightarrow> int" where
  "spec_hi (DY y) = day_number (int y) 12 31"
| "spec_hi (DYM y m) = day_number (int y) (int m) (month_days (int y) (int m))"
| "spec_hi (DYMD y m d) = day_number (int y) (int m) (int d)"

text \<open>The last number given for each unit counts.\<close>

definition unit_amount :: "string \<Rightarrow> (nat \<times> char) list \<Rightarrow> int" where
  "unit_amount us ps = (let qs = filter (\<lambda>p. snd p \<in> set us) ps in if qs = [] then 0 else int (fst (last qs)))"

definition shift_day :: "int \<Rightarrow> (nat \<times> char) list \<Rightarrow> int \<Rightarrow> int" where
  "shift_day sg ps n =
     (case civil n of (y, m, d) \<Rightarrow>
        mktime_day (y + sg * unit_amount ''Yy'' ps) (m - 1 + sg * unit_amount ''Mm'' ps) (d + sg * unit_amount ''Dd'' ps))"

text \<open>The first and the last day of what a clause means, \<open>None\<close> where the interval is open.\<close>

fun interval_days :: "int \<Rightarrow> elt_spec \<times> elt_spec option \<Rightarrow> int option \<times> int option" where
  "interval_days today (SDate a, None) = (Some (spec_lo a), Some (spec_hi a))"
| "interval_days today (SDate a, Some (SDate b)) = (Some (spec_lo a), Some (spec_hi b))"
| "interval_days today (SDate a, Some (SPeriod p)) = (Some (spec_lo a), Some (shift_day 1 p (spec_lo a)))"
| "interval_days today (SDate a, Some SNothing) = (Some (spec_lo a), None)"
| "interval_days today (SPeriod p, Some (SDate b)) = (Some (shift_day (- 1) p (spec_hi b)), Some (spec_hi b))"
| "interval_days today (SPeriod p, _) = (Some (shift_day (- 1) p today), Some today)"
| "interval_days today (SNothing, Some (SDate b)) = (None, Some (spec_hi b))"
| "interval_days today (SNothing, Some (SPeriod p)) = (Some today, Some (shift_day 1 p today))"
| "interval_days today (SNothing, _) = (None, None)"

text \<open>
  What the code makes of it: a year or a month without slash gets one day more, the first of the next one, because the end of
  the period that stands for it is included.
\<close>

fun extra_day :: "elt_spec \<times> elt_spec option \<Rightarrow> int" where
  "extra_day (SDate (DY y), None) = 1"
| "extra_day (SDate (DYM y m), None) = 1"
| "extra_day i = 0"

definition found_days :: "int \<Rightarrow> elt_spec \<times> elt_spec option \<Rightarrow> int option \<times> int option" where
  "found_days today i = map_prod id (map_option (\<lambda>n. n + extra_day i)) (interval_days today i)"

definition day_after :: "date_spec \<Rightarrow> int" where
  "day_after d = spec_hi d + extra_day (SDate d, None)"

lemma found_days_simps [simp]:
  "found_days today (SDate a, None) = (Some (spec_lo a), Some (day_after a))"
  "e2 \<noteq> None \<Longrightarrow> found_days today (e, e2) = interval_days today (e, e2)"
  "found_days today (SPeriod p, e2) = interval_days today (SPeriod p, e2)"
  "found_days today (SNothing, e2) = interval_days today (SNothing, e2)"
proof -
  have "extra_day i = 0 \<Longrightarrow> found_days today i = interval_days today i" for i
    by (cases "interval_days today i") (simp add: found_days_def option.map_ident)
  moreover have "e2 \<noteq> None \<Longrightarrow> extra_day (e, e2) = 0" "extra_day (SPeriod p, e2) = 0" "extra_day (SNothing, e2) = 0"
    by (cases "(e, e2)" rule: extra_day.cases; simp)+
  ultimately show "e2 \<noteq> None \<Longrightarrow> found_days today (e, e2) = interval_days today (e, e2)"
    "found_days today (SPeriod p, e2) = interval_days today (SPeriod p, e2)"
    "found_days today (SNothing, e2) = interval_days today (SNothing, e2)"
    by blast+
qed (simp add: found_days_def day_after_def)

definition date_of_day :: "int option \<Rightarrow> DateInterval" where
  "date_of_day n =
     (case n of None \<Rightarrow> zero_interval
      | Some k \<Rightarrow> (case civil k of (y, m, d) \<Rightarrow> zero_interval\<lparr>di_y1 := y, di_m1 := m, di_d1 := d\<rparr>))"

definition interval_of_days :: "int option \<times> int option \<Rightarrow> DateInterval" where
  "interval_of_days b = both_dates (date_of_day (fst b)) (date_of_day (snd b))"

section \<open>The tokens are read back\<close>

abbreviation (input) date_seps :: string where "date_seps \<equiv> ''PYMDpymd-/''"

definition is_num :: "string \<Rightarrow> bool" where
  "is_num t \<longleftrightarrow> t \<noteq> [] \<and> (\<forall>c \<in> set t. is_digit c)"

definition is_sep :: "string \<Rightarrow> bool" where
  "is_sep t \<longleftrightarrow> (\<exists>c \<in> set date_seps. t = [c])"

fun alternate :: "string list \<Rightarrow> bool" where
  "alternate [] \<longleftrightarrow> True"
| "alternate (t # ts) \<longleftrightarrow> (is_sep t \<or> is_num t \<and> (ts = [] \<or> is_sep (hd ts))) \<and> alternate ts"

lemma sts_plain:
  assumes "c \<notin> {dquote, backslash, blank, tab, newline, cret}" "c \<notin> set seps"
  shows "sts_step seps c (toks, cur, TOKEN) = (toks, cur @ [c], TOKEN)"
    and "sts_step seps c (toks, cur, SPACE) = (toks, cur @ [c], TOKEN)"
  using assms by (simp_all add: sts_step_def)

lemma sts_separator:
  assumes "c \<notin> {dquote, backslash, blank, tab, newline, cret}" "c \<in> set seps"
  shows "sts_step seps c (toks, cur, TOKEN) = (toks @ [cur, [c]], [], SPACE)"
    and "sts_step seps c (toks, cur, SPACE) = (toks @ [[c]], cur, SPACE)"
proof -
  have "seps \<noteq> []"
    using assms(2) by auto
  then show "sts_step seps c (toks, cur, TOKEN) = (toks @ [cur, [c]], [], SPACE)"
    "sts_step seps c (toks, cur, SPACE) = (toks @ [[c]], cur, SPACE)"
    using assms by (simp_all add: sts_step_def)
qed

lemma digit_plain: "is_digit c \<Longrightarrow> c \<notin> {dquote, backslash, blank, tab, newline, cret}" "is_digit c \<Longrightarrow> c \<notin> set date_seps"
  by (auto simp: is_digit_def)

lemma sep_plain: "list_all (\<lambda>c. c \<notin> {dquote, backslash, blank, tab, newline, cret}) date_seps"
  by code_simp

lemma sts_digits:
  assumes "\<forall>c \<in> set s. is_digit c"
  shows "fold (sts_step date_seps) s (toks, cur, TOKEN) = (toks, cur @ s, TOKEN)"
  using assms
proof (induction s arbitrary: cur)
  case (Cons c s)
  have c: "is_digit c"
    using Cons.prems by simp
  have "fold (sts_step date_seps) (c # s) (toks, cur, TOKEN) = fold (sts_step date_seps) s (sts_step date_seps c (toks, cur, TOKEN))"
    by simp
  also have "\<dots> = fold (sts_step date_seps) s (toks, cur @ [c], TOKEN)"
    by (simp only: sts_plain(1) [OF digit_plain [OF c]])
  finally show ?case
    using Cons by simp
qed simp

lemma sts_num: "is_num t \<Longrightarrow> fold (sts_step date_seps) t (toks, [], SPACE) = (toks, t, TOKEN)"
proof (cases t)
  case (Cons c s)
  assume t: "is_num t"
  then have c: "is_digit c" "\<forall>x \<in> set s. is_digit x"
    by (simp_all add: Cons is_num_def)
  have "fold (sts_step date_seps) t (toks, [], SPACE) = fold (sts_step date_seps) s (sts_step date_seps c (toks, [], SPACE))"
    by (simp add: Cons)
  also have "\<dots> = (toks, t, TOKEN)"
    using sts_digits [OF c(2), of toks "[c]"] by (simp only: sts_plain(2) [OF digit_plain [OF c(1)]] Cons append_Nil append_Cons)
  finally show ?thesis .
qed (simp add: is_num_def)

lemma sts_sep:
  assumes "is_sep t"
  shows "fold (sts_step date_seps) t (toks, [], SPACE) = (toks @ [t], [], SPACE)"
    and "fold (sts_step date_seps) t (toks, cur, TOKEN) = (toks @ [cur, t], [], SPACE)"
proof -
  obtain c where t: "t = [c]" "c \<in> set date_seps"
    using assms unfolding is_sep_def by blast
  have c: "c \<notin> {dquote, backslash, blank, tab, newline, cret}"
    using sep_plain t(2) unfolding list_all_iff by blast
  show "fold (sts_step date_seps) t (toks, [], SPACE) = (toks @ [t], [], SPACE)"
    "fold (sts_step date_seps) t (toks, cur, TOKEN) = (toks @ [cur, t], [], SPACE)"
    using sts_separator [OF c t(2)] by (simp_all only: t fold_simps)
qed

lemma num_not_sep: "is_num t \<Longrightarrow> \<not> is_sep t"
  using digit_plain(2) unfolding is_num_def is_sep_def by (metis list.set_intros(1))

lemma sts_tokens:
  "alternate ts \<Longrightarrow> fold (sts_step date_seps) (concat ts) (toks, [], SPACE) =
    (if ts \<noteq> [] \<and> is_num (last ts) then (toks @ butlast ts, last ts, TOKEN) else (toks @ ts, [], SPACE))"
proof (induction ts arbitrary: toks rule: length_induct)
  case (1 ts)
  note IH = "1.IH" and alt = "1.prems"
  show ?case
  proof (cases ts)
    case (Cons t us)
    show ?thesis
    proof (cases "is_sep t")
      case True
      then show ?thesis
        using IH [rule_format, of us "toks @ [t]"] alt Cons sts_sep(1) [OF True] num_not_sep [of t] by auto
    next
      case False
      then have t: "is_num t" "us = [] \<or> is_sep (hd us)"
        using alt Cons by auto
      show ?thesis
      proof (cases us)
        case Nil
        then show ?thesis
          using sts_num [OF t(1)] t(1) Cons by simp
      next
        case (Cons u vs)
        then have u: "is_sep u" "alternate vs"
          using t(2) alt \<open>ts = t # us\<close> by auto
        have "fold (sts_step date_seps) (concat ts) (toks, [], SPACE) = fold (sts_step date_seps) (concat vs) (toks @ [t, u], [], SPACE)"
          using sts_num [OF t(1)] sts_sep(2) [OF u(1)] by (simp add: \<open>ts = t # us\<close> Cons)
        then show ?thesis
          using IH [rule_format, of vs "toks @ [t, u]"] u num_not_sep [of u] by (auto simp: \<open>ts = t # us\<close> Cons)
      qed
    qed
  qed simp
qed

lemma stringToStrings_tokens: "alternate ts \<Longrightarrow> stringToStrings (concat ts) date_seps = (True, ts)"
  using sts_tokens [of ts "[]"] by (auto simp: stringToStrings_def)

lemma is_num_dec [simp]: "is_num (dec_string n)"
  using dec_string_digits [of n] by (simp add: is_num_def)

lemma is_sep_char [simp]: "c \<in> set date_seps \<Longrightarrow> is_sep [c]"
  unfolding is_sep_def by blast

lemma is_sep_signs [simp]: "is_sep ''-''" "is_sep ''/''" "is_sep ''P''"
  by (rule is_sep_char; simp)+

lemma alternate_append:
  "alternate ts \<Longrightarrow> alternate us \<Longrightarrow> us = [] \<or> is_sep (hd us) \<Longrightarrow> alternate (ts @ us)"
  by (induction ts) (auto simp: hd_append)

lemma alternate_period:
  "\<forall>(n, u) \<in> set ps. u \<in> set date_seps \<Longrightarrow> alternate (concat (map (\<lambda>(n, u). [dec_string n, [u]]) ps))"
  by (induction ps) auto

lemma alternate_elt: "elt_ok e \<Longrightarrow> alternate (elt_toks e)"
proof (cases e)
  case (SDate d)
  then show ?thesis by (cases d) simp_all
next
  case (SPeriod ps)
  assume "elt_ok e"
  moreover have "set ''YMDymd'' \<subseteq> set date_seps"
    by simp
  then have "u \<in> set date_seps" if "unit_ok u" for u
    using that unfolding unit_ok_def by blast
  ultimately have "\<forall>(n, u) \<in> set ps. u \<in> set date_seps"
    by (auto simp only: SPeriod elt_ok.simps)
  from alternate_period [OF this] show ?thesis
    by (simp add: SPeriod)
qed simp

lemma interval_tokens:
  assumes "interval_ok i"
  shows "stringToStrings (interval_text i) date_seps = (True, interval_toks i)"
proof -
  obtain e e2 where i: "i = (e, e2)" by force
  have "alternate (interval_toks i)"
    using assms alternate_elt alternate_append by (cases e2) (auto simp: i)
  then show ?thesis
    by (simp add: interval_text_def stringToStrings_tokens)
qed

section \<open>The tokens are understood\<close>

lemma digit_chars: "is_digit c \<Longrightarrow> c \<in> set ''0123456789''"
proof -
  assume "is_digit c"
  then have "of_char c \<in> set [48..<58]"
    unfolding is_digit_def set_upt by (simp add: less_Suc_eq_le)
  moreover have "list_all (\<lambda>n. char_of n \<in> set ''0123456789'') [48..<58]"
    by code_simp
  ultimately have "char_of (of_char c :: nat) \<in> set ''0123456789''"
    unfolding list_all_iff by blast
  then show ?thesis
    by (simp only: char_of_char)
qed

lemma dec_no_other: "find_first_not_of (dec_string k) ''0123456789'' 0 = None"
  using dec_string_digits [of k] digit_chars unfolding find_first_not_of_None drop_0 by blast

lemma atoi_dec: "k < 2 ^ 31 \<Longrightarrow> atoi (dec_string k) = Inr (int k)"
  using strtol10_dec_string [of "[]" k] by (simp add: atoi_def)

lemma date_field_dec:
  assumes "k < 10 ^ n" "0 < n" "n \<le> 4"
  shows "date_field n (dec_string k # it) = Inr (Some (int k, it))"
proof -
  have "(10 :: nat) ^ n \<le> 10 ^ 4"
    using assms(3) by (rule power_increasing) simp
  then have "k < 2 ^ 31"
    using assms(1) by simp
  then show ?thesis
    using length_dec_string_le [OF assms(1,2)] by (simp add: date_field_def dec_no_other atoi_dec)
qed

fun spec_date :: "date_spec \<Rightarrow> DateInterval" where
  "spec_date (DY y) = zero_interval\<lparr>di_y1 := int y\<rparr>"
| "spec_date (DYM y m) = zero_interval\<lparr>di_y1 := int y, di_m1 := int m\<rparr>"
| "spec_date (DYMD y m d) = zero_interval\<lparr>di_y1 := int y, di_m1 := int m, di_d1 := int d\<rparr>"

lemma parsedate_toks:
  assumes "spec_ok sp" "rest = [] \<or> hd rest = ''/''"
  shows "parsedate (date_toks sp @ rest) = Inr (Some (rest, spec_date sp))"
proof -
  have b: "y < 10 ^ 4" if "y < 10000" for y :: nat
    using that by simp
  have c: "m < 10 ^ 2" if "m \<le> 31" for m :: nat
    using that by simp
  have d: "m \<le> 31 \<and> d \<le> 31" if "date_ok y (int m) (int d)" for y m d
    using that month_days_bounds [of "int m" y] by (auto simp: date_ok_def)
  show ?thesis
  proof (cases sp)
    case (DY y)
    then show ?thesis
      using assms date_field_dec [of y 4 rest] by (auto simp: parsedate_def)
  next
    case (DYM y m)
    then show ?thesis
      using assms date_field_dec [of y 4] date_field_dec [of m 2] by (auto simp: parsedate_def Let_def)
  next
    case (DYMD y m dd)
    have "date_ok (int y) (int m) (int dd)" "y < 10000"
      using assms(1) DYMD by simp_all
    then have "m < 10 ^ 2" "dd < 10 ^ 2"
      using d [of "int y" m dd] by simp_all
    then show ?thesis
      using assms DYMD date_field_dec [of y 4] date_field_dec [of m 2] date_field_dec [of dd 2] \<open>y < 10000\<close>
      by (auto simp: parsedate_def Let_def)
  qed
qed

text \<open>The period that a list of amounts gives.\<close>

definition amounts :: "(nat \<times> char) list \<Rightarrow> DateInterval \<Rightarrow> DateInterval" where
  "amounts ps p = fold (\<lambda>(n, u) q. the (period_unit u (int n) q)) ps p"

lemma period_unit_ok: "unit_ok u \<Longrightarrow> period_unit u v p = Some (the (period_unit u v p))"
  by (auto simp: period_unit_def unit_ok_def)

lemma parseperiod_toks:
  assumes "ps \<noteq> []" "\<forall>(n, u) \<in> set ps. n < 2 ^ 31 \<and> unit_ok u" "rest = [] \<or> hd rest = ''/''"
  shows "parseperiod p (concat (map (\<lambda>(n, u). [dec_string n, [u]]) ps) @ rest) = Inr (Some (rest, amounts ps p))"
  using assms(1,2)
proof (induction ps arbitrary: p)
  case (Cons x ps)
  obtain n u where x: "x = (n, u)" by force
  have n: "n < 2 ^ 31" and u: "unit_ok u" and ps: "\<forall>(n, u) \<in> set ps. n < 2 ^ 31 \<and> unit_ok u"
    using Cons.prems(2) unfolding x by auto
  let ?p1 = "the (period_unit u (int n) p)" and ?toks = "concat (map (\<lambda>(n, u). [dec_string n, [u]]) ps)"
  have "dec_string (fst (hd ps)) \<noteq> ''/''" if "ps \<noteq> []"
    using num_not_sep [of "dec_string (fst (hd ps))"] by auto
  then have stop: "(?toks @ rest = [] \<or> hd (?toks @ rest) = ''/'') \<longleftrightarrow> ps = []"
    using assms(3) by (cases ps) (auto split: prod.splits)
  obtain p1 where p1: "period_unit u (int n) p = Some p1"
    using period_unit_ok [OF u] by metis
  have "parseperiod p (concat (map (\<lambda>(n, u). [dec_string n, [u]]) (x # ps)) @ rest) =
      (if ps = [] then Inr (Some (?toks @ rest, ?p1)) else parseperiod ?p1 (?toks @ rest))"
    using stop p1 by (simp add: x dec_no_other atoi_dec [OF n])
  also have "\<dots> = Inr (Some (rest, amounts ps ?p1))"
    using Cons.IH [OF _ ps, of ?p1] by (auto simp: amounts_def)
  finally show ?case
    by (simp add: amounts_def x)
qed simp

fun elt_value :: "bool \<Rightarrow> elt_spec \<Rightarrow> elt" where
  "elt_value first (SDate d) = EDate (spec_date d)"
| "elt_value first (SPeriod ps) = EPeriod (if first then negate_period (amounts ps zero_interval) else amounts ps zero_interval)"
| "elt_value first SNothing = ENothing"

lemma date_toks_hd: "date_toks d \<noteq> []" "hd (date_toks d @ rest) \<noteq> ''/''" "\<not> is_P (hd (date_toks d @ rest))"
proof -
  have "is_num (hd (date_toks d))" "date_toks d \<noteq> []"
    by (cases d; simp)+
  moreover have "is_sep ''p''" "is_sep ''P''" "is_sep ''/''"
    by simp_all
  ultimately show "date_toks d \<noteq> []" "hd (date_toks d @ rest) \<noteq> ''/''" "\<not> is_P (hd (date_toks d @ rest))"
    using num_not_sep unfolding is_P_def by (metis hd_append2)+
qed

lemma first_elt_toks:
  assumes "elt_ok e" "if e = SNothing then rest \<noteq> [] \<and> hd rest = ''/'' else rest = [] \<or> hd rest = ''/''"
  shows "first_elt (elt_toks e @ rest) = Inr (Some (rest, elt_value True e))"
proof (cases e)
  case (SDate d)
  then show ?thesis
    using parsedate_toks [of d rest] date_toks_hd(1) [of d] date_toks_hd(2,3) [of d rest] assms by (simp add: first_elt_def)
next
  case (SPeriod ps)
  then show ?thesis
    using parseperiod_toks [of ps rest] assms by (auto simp: first_elt_def is_P_def)
next
  case SNothing
  then show ?thesis
    using assms by (simp add: first_elt_def is_P_def)
qed

lemma second_elt_toks:
  assumes "elt_ok e"
  shows "second_elt (''/'' # elt_toks e) = Inr (Some (True, elt_value False e))"
proof (cases e)
  case (SDate d)
  then show ?thesis
    using parsedate_toks [of d "[]"] date_toks_hd(1) [of d] date_toks_hd(2,3) [of d "[]"] assms by (simp add: second_elt_def)
next
  case (SPeriod ps)
  then show ?thesis
    using parseperiod_toks [of ps "[]"] assms by (auto simp: second_elt_def is_P_def)
next
  case SNothing
  then show ?thesis
    by (simp add: second_elt_def)
qed

fun interval_elts :: "elt_spec \<times> elt_spec option \<Rightarrow> bool \<times> elt \<times> elt" where
  "interval_elts (e, None) = (False, elt_value True e, ENothing)"
| "interval_elts (e, Some e') = (True, elt_value True e, elt_value False e')"

lemma elt_value_simps [simp]:
  "elt_value b e = ENothing \<longleftrightarrow> e = SNothing" "is_EPeriod (elt_value b e) \<longleftrightarrow> is_SPeriod e"
  by (cases e; simp)+

lemma parse_interval_text:
  assumes "interval_ok i"
  shows "parsedateinterval today (interval_text i) =
    Inr (True, case interval_elts i of (slash, e1, e2) \<Rightarrow> interval_dates slash (fill_today today (e1, e2)))"
proof -
  obtain e e2 where i: "i = (e, e2)" by force
  have ne: "interval_toks i \<noteq> []"
    using assms date_toks_hd(1) by (cases e; cases e2) (auto simp: i)
  show ?thesis
  proof (cases e2)
    case None
    then have e: "elt_ok e" "e \<noteq> SNothing"
      using assms by (simp_all add: i)
    then show ?thesis
      using interval_tokens [OF assms] first_elt_toks [of e "[]"] ne
      by (auto simp: parsedateinterval_def i None second_elt_def)
  next
    case (Some e')
    then have e: "elt_ok e" "elt_ok e'" "\<not> (e = SNothing \<and> e' = SNothing)" "\<not> (is_SPeriod e \<and> is_SPeriod e')"
      using assms by (simp_all add: i)
    then show ?thesis
      using interval_tokens [OF assms] first_elt_toks [OF e(1), of "''/'' # elt_toks e'"] second_elt_toks [OF e(2)] ne
      by (auto simp: parsedateinterval_def i Some)
  qed
qed

section \<open>The dates of the interval\<close>

lemma amounts_snoc: "amounts (ps @ [(n, u)]) p = the (period_unit u (int n) (amounts ps p))"
  by (simp add: amounts_def)

lemma unit_amount_snoc: "unit_amount us (ps @ [(n, u)]) = (if u \<in> set us then int n else unit_amount us ps)"
  by (simp add: unit_amount_def Let_def)

lemma amounts_fields:
  assumes "\<forall>(n, u) \<in> set ps. unit_ok u"
  shows "amounts ps zero_interval = zero_interval\<lparr>di_y1 := unit_amount ''Yy'' ps, di_m1 := unit_amount ''Mm'' ps, di_d1 := unit_amount ''Dd'' ps\<rparr>"
  using assms
proof (induction ps rule: rev_induct)
  case Nil
  then show ?case
    by (simp add: amounts_def unit_amount_def zero_interval_def)
next
  case (snoc x ps)
  obtain n u where x: "x = (n, u)" by force
  have "unit_ok u"
    using snoc.prems by (simp add: x)
  then show ?case
    using snoc by (auto simp: x amounts_snoc unit_amount_snoc period_unit_def unit_ok_def)
qed

lemma date_of_civil: "civil n = (y, m, d) \<Longrightarrow> date_of_day (Some n) = zero_interval\<lparr>di_y1 := y, di_m1 := m, di_d1 := d\<rparr>"
  by (simp add: date_of_day_def)

lemma date_of_date: "date_ok y m d \<Longrightarrow> date_of_day (Some (day_number y m d)) = zero_interval\<lparr>di_y1 := y, di_m1 := m, di_d1 := d\<rparr>"
  by (rule date_of_civil, rule civil_of_date)

lemma amounts_sel:
  assumes "\<forall>(n, u) \<in> set ps. unit_ok u"
  shows "di_y1 (amounts ps zero_interval) = unit_amount ''Yy'' ps" "di_m1 (amounts ps zero_interval) = unit_amount ''Mm'' ps"
    "di_d1 (amounts ps zero_interval) = unit_amount ''Dd'' ps"
  by (simp_all add: amounts_fields [OF assms])

lemma addperiod_shift:
  assumes "\<forall>(n, u) \<in> set ps. unit_ok u"
  shows "addperiod (date_of_day (Some n)) (amounts ps zero_interval) = date_of_day (Some (shift_day 1 ps n))"
    and "addperiod (date_of_day (Some n)) (negate_period (amounts ps zero_interval)) = date_of_day (Some (shift_day (- 1) ps n))"
proof -
  obtain y m d where c: "civil n = (y, m, d)" by (metis surj_pair)
  show "addperiod (date_of_day (Some n)) (amounts ps zero_interval) = date_of_day (Some (shift_day 1 ps n))"
    by (simp add: addperiod_def date_of_day_def shift_day_def c amounts_sel [OF assms] algebra_simps split: prod.split)
  show "addperiod (date_of_day (Some n)) (negate_period (amounts ps zero_interval)) = date_of_day (Some (shift_day (- 1) ps n))"
    by (simp add: addperiod_def date_of_day_def shift_day_def c amounts_sel [OF assms] negate_period_def
        algebra_simps split: prod.split)
qed

lemma addperiod_zero: "addperiod (date_of_day (Some n)) zero_interval = date_of_day (Some n)"
proof -
  obtain y m d where c: "civil n = (y, m, d)" by (metis surj_pair)
  then have "date_ok y m d" "day_number y m d = n"
    using civil_day_number by blast+
  then have "mktime_day y (m - 1) d = n"
    by (simp add: mktime_day_number date_ok_def)
  then show ?thesis
    by (simp add: addperiod_def date_of_day_def c zero_interval_def)
qed

lemma spec_dates_ok:
  assumes "spec_ok a"
  shows "\<exists>y m d y' m' d'. date_ok y m d \<and> spec_lo a = day_number y m d \<and> date_ok y' m' d' \<and> spec_hi a = day_number y' m' d'"
proof (cases a)
  case (DY y)
  have "date_ok (int y) 1 1" "date_ok (int y) 12 31"
    by (simp_all add: date_ok_def month_days_def days_in_months_def)
  then show ?thesis using DY by (metis spec_hi.simps(1) spec_lo.simps(1))
next
  case (DYM y m)
  have "date_ok (int y) (int m) 1" "date_ok (int y) (int m) (month_days (int y) (int m))"
    using assms month_days_bounds [of "int m" "int y"] by (simp_all add: date_ok_def DYM)
  then show ?thesis using DYM by (metis spec_hi.simps(2) spec_lo.simps(2))
next
  case (DYMD y m d)
  then show ?thesis using assms by fastforce
qed

lemma complete_second_hi: "spec_ok a \<Longrightarrow> complete_second (spec_date a) = date_of_day (Some (spec_hi a))"
proof (cases a)
  case (DY y)
  have "date_ok (int y) 12 31"
    by (simp add: date_ok_def month_days_def days_in_months_def)
  from date_of_date [OF this] show ?thesis
    by (simp add: complete_second_def DY zero_interval_def)
next
  case (DYM y m)
  assume ok: "spec_ok a"
  then have "date_ok (int y) (int m) (month_days (int y) (int m))"
    using month_days_bounds [of "int m" "int y"] by (simp add: date_ok_def DYM)
  from date_of_date [OF this] show ?thesis
    using ok by (simp add: complete_second_def DYM zero_interval_def)
next
  case (DYMD y m d)
  assume "spec_ok a"
  then have "date_ok (int y) (int m) (int d)"
    by (simp add: DYMD)
  from date_of_date [OF this] this show ?thesis
    by (simp add: complete_second_def DYMD date_ok_def zero_interval_def)
qed

lemma complete_first_lo:
  assumes "spec_ok a" "slash \<or> is_EPeriod e"
  shows "complete_first slash (spec_date a) e = (date_of_day (Some (spec_lo a)), e)"
proof (cases a)
  case (DY y)
  have "date_ok (int y) 1 1"
    by (simp add: date_ok_def month_days_def days_in_months_def)
  from date_of_date [OF this] show ?thesis
    using assms(2) by (simp add: complete_first_def DY zero_interval_def)
next
  case (DYM y m)
  then have "date_ok (int y) (int m) 1"
    using assms(1) month_days_bounds [of "int m" "int y"] by (simp add: date_ok_def)
  from date_of_date [OF this] show ?thesis
    using assms by (simp add: complete_first_def DYM zero_interval_def)
next
  case (DYMD y m d)
  then have "date_ok (int y) (int m) (int d)"
    using assms(1) by simp
  from date_of_date [OF this] this show ?thesis
    using assms(2) by (simp add: complete_first_def DYMD date_ok_def zero_interval_def)
qed

text \<open>A date without slash: the day after its last one, unless it is a full date.\<close>

lemma complete_first_alone:
  assumes "spec_ok a"
  obtains p where "complete_first False (spec_date a) ENothing = (date_of_day (Some (spec_lo a)), EPeriod p)"
    "addperiod (date_of_day (Some (spec_lo a))) p = date_of_day (Some (day_after a))"
proof (cases a)
  case (DY y)
  have ok: "date_ok (int y) 1 1"
    by (simp add: date_ok_def month_days_def days_in_months_def)
  have "mktime_day (int y) 12 1 = day_after a"
    using year_end [of "int y"] month_step [of 12 "int y"]
    by (simp add: mktime_day_def day_after_def DY day_number_def month_days_def days_in_months_def)
  then show ?thesis
    using that [of "zero_interval\<lparr>di_m1 := 12\<rparr>"] date_of_date [OF ok]
    by (simp add: complete_first_def DY zero_interval_def addperiod_def date_of_day_def split: prod.split)
next
  case (DYM y m)
  then have ok: "date_ok (int y) (int m) 1" and m: "1 \<le> int m" "int m \<le> 12" "monthdays (int m) (int y) = month_days (int y) (int m)"
    using assms(1) month_days_bounds [of "int m" "int y"] by (simp_all add: date_ok_def)
  have "mktime_day (int y) (int m - 1) (1 + month_days (int y) (int m)) = day_after a"
    using mktime_day_number [OF m(1,2)] by (simp add: day_after_def DYM day_number_def)
  then show ?thesis
    using that [of "zero_interval\<lparr>di_d1 := month_days (int y) (int m)\<rparr>"] date_of_date [OF ok] m
    by (simp add: complete_first_def DYM zero_interval_def addperiod_def date_of_day_def split: prod.split)
next
  case (DYMD y m d)
  then have ok: "date_ok (int y) (int m) (int d)"
    using assms(1) by simp
  then show ?thesis
    using that [of zero_interval] date_of_date [OF ok] addperiod_zero [of "spec_lo a"]
    by (simp add: complete_first_def DYMD day_after_def zero_interval_def date_ok_def)
qed

lemma complete_day: "complete_second (date_of_day (Some n)) = date_of_day (Some n)"
  "slash \<or> is_EPeriod e \<Longrightarrow> complete_first slash (date_of_day (Some n)) e = (date_of_day (Some n), e)"
proof -
  obtain y m d where c: "civil n = (y, m, d)" by (metis surj_pair)
  then have "m \<noteq> 0" "d \<noteq> 0"
    using civil_day_number by (fastforce simp: date_ok_def)+
  then show "complete_second (date_of_day (Some n)) = date_of_day (Some n)"
    "slash \<or> is_EPeriod e \<Longrightarrow> complete_first slash (date_of_day (Some n)) e = (date_of_day (Some n), e)"
    by (simp_all add: complete_second_def complete_first_def date_of_day_def c)
qed

lemma interval_dates_days:
  assumes "interval_ok i"
  shows "(case interval_elts i of (slash, e1, e2) \<Rightarrow> interval_dates slash (fill_today (date_of_day (Some today)) (e1, e2))) =
    interval_of_days (found_days today i)"
proof -
  obtain e e2 where i: "i = (e, e2)" by force
  have units: "\<forall>(n, u) \<in> set ps. unit_ok u" if "elt_ok (SPeriod ps)" for ps
    using that by auto
  note simps = interval_dates_def fill_today_def interval_of_days_def elt_date_def Let_def i
    complete_first_lo complete_second_hi complete_day addperiod_shift
  show ?thesis
  proof (cases e)
    case (SDate a)
    then have a: "spec_ok a"
      using assms by (simp add: i)
    show ?thesis
    proof (cases e2)
      case None
      from complete_first_alone [OF a] obtain p where
        "complete_first False (spec_date a) ENothing = (date_of_day (Some (spec_lo a)), EPeriod p)"
        "addperiod (date_of_day (Some (spec_lo a))) p = date_of_day (Some (day_after a))" .
      then show ?thesis
        by (simp add: simps SDate None)
    next
      case (Some e')
      have "date_of_day None = zero_interval"
        by (simp add: date_of_day_def)
      then show ?thesis
        using assms a units by (cases e') (auto simp: simps SDate Some)
    qed
  next
    case (SPeriod ps)
    then show ?thesis
      using assms units [of ps] by (cases e2 rule: option.exhaust [case_names None Some]; cases "the e2") (auto simp: simps SPeriod)
  next
    case SNothing
    have "date_of_day None = zero_interval"
      by (simp add: date_of_day_def)
    then show ?thesis
      using assms units by (cases e2; cases "the e2") (auto simp: simps SNothing)
  qed
qed

section \<open>The search\<close>

text \<open>The ends of the interval in an index whose documents are from the years \<open>a\<close> to \<open>b\<close>.\<close>

definition first_day :: "int \<Rightarrow> int option \<Rightarrow> int" where
  "first_day a lo = (case lo of None \<Rightarrow> day_number a 1 1 | Some n \<Rightarrow> n)"

definition last_day :: "int \<Rightarrow> int option \<Rightarrow> int" where
  "last_day b hi = (case hi of None \<Rightarrow> day_number b 12 31 | Some n \<Rightarrow> n)"

definition year_in :: "int \<Rightarrow> int \<Rightarrow> int option \<Rightarrow> bool" where
  "year_in a b n = (case n of None \<Rightarrow> True | Some k \<Rightarrow> a \<le> fst (civil k) \<and> fst (civil k) \<le> b)"

definition date_hit :: "bool \<Rightarrow> int \<times> int \<Rightarrow> DateInterval \<Rightarrow> int \<Rightarrow> bool" where
  "date_hit st span di day \<longleftrightarrow>
     (\<exists>t \<in> set (processdaterange st (Some span) di). t \<in> set (addDateTerms st day xapday_prefix xapmonth_prefix xapyear_prefix))"

lemma first_last_ok: "date_ok y 1 1" "date_ok y 12 31"
  by (simp_all add: date_ok_def month_days_def days_in_months_def)

lemma fill_years_days:
  assumes "year_in 1 9999 lo" "year_in 1 9999 hi"
  shows "\<exists>y1 m1 d1 y2 m2 d2. civil (first_day a lo) = (y1, m1, d1) \<and> civil (last_day b hi) = (y2, m2, d2) \<and>
    fill_years (Some (a, b)) (interval_of_days (lo, hi)) =
      \<lparr>di_y1 = y1, di_m1 = m1, di_d1 = d1, di_y2 = y2, di_m2 = m2, di_d2 = d2\<rparr>"
proof -
  have first: "civil (day_number a 1 1) = (a, 1, 1)" and last: "civil (day_number b 12 31) = (b, 12, 31)"
    using civil_of_date first_last_ok by simp_all
  show ?thesis
  proof (cases lo)
    case None
    then show ?thesis
      using assms(2) first last
      by (cases hi) (auto simp: first_day_def last_day_def interval_of_days_def both_dates_def date_of_day_def zero_interval_def
          fill_years_def year_in_def split: prod.splits)
  next
    case (Some n)
    then show ?thesis
      using assms last
      by (cases hi) (auto simp: first_day_def last_day_def interval_of_days_def both_dates_def date_of_day_def zero_interval_def
          fill_years_def year_in_def split: prod.splits)
  qed
qed

lemma date_hit_days:
  assumes ends: "year_in 1 9999 lo" "year_in 1 9999 hi" and span: "1 \<le> a" "b \<le> 9999" and le: "first_day a lo \<le> last_day b hi"
    and y: "a \<le> fst (civil day)" "fst (civil day) \<le> b"
  shows "date_hit st (a, b) (interval_of_days (lo, hi)) day \<longleftrightarrow> (\<forall>n. lo = Some n \<longrightarrow> n \<le> day) \<and> (\<forall>n. hi = Some n \<longrightarrow> day \<le> n)"
proof -
  obtain y1 m1 d1 y2 m2 d2 where c: "civil (first_day a lo) = (y1, m1, d1)" "civil (last_day b hi) = (y2, m2, d2)"
    and f: "fill_years (Some (a, b)) (interval_of_days (lo, hi)) =
      \<lparr>di_y1 = y1, di_m1 = m1, di_d1 = d1, di_y2 = y2, di_m2 = m2, di_d2 = d2\<rparr>"
    using fill_years_days [OF ends, of a b] by blast
  obtain yy m d where day: "civil day = (yy, m, d)" by (metis surj_pair)
  note ok1 = civil_day_number [OF c(1)] and ok2 = civil_day_number [OF c(2)] and ok = civil_day_number [OF day]
  have first: "civil (day_number a 1 1) = (a, 1, 1)" and last: "civil (day_number b 12 31) = (b, 12, 31)"
    using civil_of_date first_last_ok by simp_all
  have years: "1 \<le> y1" "y2 \<le> 9999"
    using ends c span first last by (auto simp: first_day_def last_day_def year_in_def split: option.splits)
  have "date_le (y1, m1, d1) (y2, m2, d2)"
    using le ok1 ok2 day_number_le_iff by metis
  then have "date_hit st (a, b) (interval_of_days (lo, hi)) day \<longleftrightarrow> date_le (y1, m1, d1) (yy, m, d) \<and> date_le (yy, m, d) (y2, m2, d2)"
    using date_filter_finds [OF day, of y1 y2 m1 m2 d1 d2 st] ok1 ok2 years y span
    by (simp add: date_hit_def processdaterange_def f Let_def day date_ok_def)
  also have "\<dots> \<longleftrightarrow> first_day a lo \<le> day \<and> day \<le> last_day b hi"
    using ok1 ok2 ok day_number_le_iff by metis
  also have "\<dots> \<longleftrightarrow> (\<forall>n. lo = Some n \<longrightarrow> n \<le> day) \<and> (\<forall>n. hi = Some n \<longrightarrow> day \<le> n)"
  proof -
    have "day_number a 1 1 \<le> day"
      using day_number_le_iff [of a 1 1 yy m d] first_last_ok(1) ok y(1) by (auto simp: day date_le_def date_ok_def)
    moreover have "day \<le> day_number b 12 31"
      using day_number_le_iff [of yy m d b 12 31] first_last_ok(2) ok y(2) month_days_bounds [of m yy]
      by (auto simp: day date_le_def date_ok_def)
    ultimately show ?thesis
      by (auto simp: first_day_def last_day_def split: option.splits)
  qed
  finally show ?thesis .
qed


lemma date_search_example:
  "interval_ok (SPeriod [(1, CHR ''M'')], Some (SDate (DYM 2024 2)))"
  "interval_text (SPeriod [(1, CHR ''M'')], Some (SDate (DYM 2024 2))) = ''P1M/2024-2''"
  "interval_days 0 (SPeriod [(1, CHR ''M'')], Some (SDate (DYM 2024 2))) = (Some 19751, Some 19782)"
  "civil 19751 = (2024, 1, 29)" "civil 19782 = (2024, 2, 29)" "civil 19760 = (2024, 2, 7)"
  by (simp add: unit_ok_def monthdays_def month_days_def days_in_months_def leap_year_def) code_simp+


section \<open>Departures\<close>

text \<open>A year alone, and a month alone, include the first day of the next one.\<close>

lemma date_year_alone: "2 \<le> y \<Longrightarrow> y < 9999 \<Longrightarrow> found_days today (SDate (DY y), None) =
    (Some (day_number (int y) 1 1), Some (day_number (int y + 1) 1 1))"
  using year_end [of "int y"] month_step [of 12 "int y"]
  by (simp add: day_after_def day_number_def month_days_def days_in_months_def)

lemma date_year_alone_example:
  "map_sum id (\<lambda>(ok, di). ok \<and> date_hit True (2000, 2030) di (day_number 2025 1 1)) (parsedateinterval zero_interval ''2024'') = Inr True"
  by code_simp

text \<open>
  An interval without first date that ends with a year before the oldest document finds all the documents of the oldest year:
  the years of the index fill the open end, and the filter does not expect ends in the wrong order.
\<close>

lemma backward_filter:
  assumes "0 \<le> y2" "y2 < y1" "y1 < 10000" "length dp = length mp"
  shows "anydate_range_filter st dp mp yp y1 1 1 y2 12 31 = map (m_term st mp y1) [1..12]"
proof -
  have L: "bpoffs st dp = bpoffs st mp"
    using bpoffs_length assms(4) by metis
  have d: "monthdays 1 y1 = 31" "monthdays 12 y2 = 31"
    by (simp_all add: monthdays_def)
  obtain q s where q: "length q = bpoffs st dp" and F: "first_month st dp mp y1 1 1 31 = ([m_term st mp y1 1], q @ fmt0 4 y1 @ s)"
    using first_month_terms [of y1 1 dp mp st 1 31] assms by (auto simp: d)
  let ?p = "wrap_prefix st mp @ fmt0 4 y1"
  have "bufprefix st (q @ fmt0 4 y1 @ s) mp = ?p @ s"
    using q L by (simp add: bufprefix_eq)
  then obtain s2 where M: "fmt_loop (4 + bpoffs st mp) 2 [2..11] (bufprefix st (q @ fmt0 4 y1 @ s) mp) =
      (map (m_term st mp y1) [2..11], ?p @ s2)"
    using fmt_loop_at [of "4 + bpoffs st mp" ?p 2 "[2..11]" s] assms by (auto simp: m_term_def [abs_def])
  have "last_month st dp mp y2 12 31 (?p @ s2) = [m_term st mp y1 12]"
    using assms by (simp add: last_month_def d snprintf_at_def bufprefix_eq m_term_def Let_def)
  moreover have "[1..12] = 1 # [2..11] @ [12 :: int]"
    by code_simp
  ultimately show ?thesis
    using F M assms by (simp add: anydate_range_filter_def d last_year_def)
qed

text \<open>
  C28. Searching for the documents until the end of a year before that of the oldest document finds every document of that oldest year.
\<close>

theorem date_open_interval_before_index:
  assumes "1 \<le> y" "int y < a" "a \<le> 9999" and "fst (civil day) = a"
  shows "\<exists>di. parsedateinterval (date_of_day (Some today)) (interval_text (SNothing, Some (SDate (DY y)))) = Inr (True, di) \<and>
    date_hit st (a, b) di day \<and> day_number (int y) 12 31 < day"
proof -
  let ?i = "(SNothing, Some (SDate (DY y)))"
  have ok: "interval_ok ?i"
    using assms by simp
  have parse: "parsedateinterval (date_of_day (Some today)) (interval_text ?i) =
      Inr (True, interval_of_days (None, Some (day_number (int y) 12 31)))"
    using parse_interval_text [OF ok] interval_dates_days [OF ok, of today] by simp
  obtain m d where day: "civil day = (a, m, d)"
    using assms(4) by (metis fst_conv surj_pair)
  note D = civil_day_number [OF day]
  have last: "civil (day_number (int y) 12 31) = (int y, 12, 31)"
    using civil_of_date first_last_ok by simp
  have "fill_years (Some (a, b)) (interval_of_days (None, Some (day_number (int y) 12 31))) =
      \<lparr>di_y1 = a, di_m1 = 1, di_d1 = 1, di_y2 = int y, di_m2 = 12, di_d2 = 31\<rparr>"
    using assms(1) by (simp add: fill_years_def interval_of_days_def both_dates_def date_of_day_def last zero_interval_def)
  then have "processdaterange st (Some (a, b)) (interval_of_days (None, Some (day_number (int y) 12 31))) =
      map (m_term st xapmonth_prefix a) [1..12]"
    using assms backward_filter [of "int y" a xapday_prefix xapmonth_prefix st xapyear_prefix]
    by (simp add: processdaterange_def date_range_filter_def xapday_prefix_def xapmonth_prefix_def)
  moreover have "m_term st xapmonth_prefix a m \<in> set (addDateTerms st day xapday_prefix xapmonth_prefix xapyear_prefix)"
    using addDateTerms_civil [OF day] assms by simp
  ultimately have "date_hit st (a, b) (interval_of_days (None, Some (day_number (int y) 12 31))) day"
    using D by (auto simp: date_hit_def date_ok_def)
  moreover have "day_number (int y) 12 31 < day"
    using D day_number_less [OF first_last_ok(2), of a m d "int y"] assms(2) by simp
  ultimately show ?thesis
    using parse by blast
qed

theorem date_open_interval_before_index_witness:
  "\<exists>di. parsedateinterval (date_of_day (Some 0)) ''/2000'' = Inr (True, di) \<and> date_hit True (2005, 2030) di (day_number 2005 6 15)"
proof -
  have "civil (day_number 2005 6 15) = (2005, 6, 15)"
    by code_simp
  moreover have "interval_text (SNothing, Some (SDate (DY 2000))) = ''/2000''"
    by code_simp
  ultimately show ?thesis
    using date_open_interval_before_index [of 2000 2005 "day_number 2005 6 15" 0 True 2030] by auto
qed

text \<open>A date that ends with a hyphen is read beyond the end of its tokens.\<close>

theorem date_parse_beyond_end: "parsedateinterval today ''2020-'' = Inl BadAccess"
  by code_simp


end
