(* ===== verification/C_Number.thy ===== *)
theory C_Number
  imports Prelude
begin

text \<open>
  Numbers of the C library in any base: the digits \<open>printf\<close> writes for \<open>%x\<close>, the conversion
  \<open>strtoll\<close> and the \<open>sscanf\<close> directive \<open>%x\<close>, which reads what \<open>strtoul\<close> reads in base 16.
\<close>

section \<open>Printing\<close>

definition digit_char :: "nat \<Rightarrow> char" where
  "digit_char d = char_of (if d < 10 then 48 + d else 87 + d)"

fun hex_string :: "nat \<Rightarrow> string" where
  "hex_string n = (if n < 16 then [digit_char n] else hex_string (n div 16) @ [digit_char (n mod 16)])"

declare hex_string.simps [simp del]

section \<open>Reading\<close>

definition digit_val :: "char \<Rightarrow> nat" where
  "digit_val c =
     (if is_digit c then of_char c - 48
      else if is_lower c then of_char c - 87
      else if is_upper c then of_char c - 55 else 99)"

definition digits_value :: "nat \<Rightarrow> string \<Rightarrow> nat" where
  "digits_value b s = foldl (\<lambda>v c. b * v + digit_val c) 0 s"

text \<open>
  The number at the start of a C string and what follows it, \<open>None\<close> when there is none: white space, a sign,
  a prefix that gives the base or agrees with it (base 0 stands for the prefix's base), digits. The
  value is not yet limited to a type.
\<close>

definition base_prefix :: "nat \<Rightarrow> string \<Rightarrow> nat \<times> string" where
  "base_prefix b s =
     (case s of
        z # x # d # r \<Rightarrow>
          if (b = 0 \<or> b = 16) \<and> z = CHR ''0'' \<and> (x = CHR ''x'' \<or> x = CHR ''X'') \<and> digit_val d < 16
          then (16, d # r)
          else (if b = 0 then if z = CHR ''0'' then 8 else 10 else b, s)
      | z # _ \<Rightarrow> (if b = 0 then if z = CHR ''0'' then 8 else 10 else b, s)
      | [] \<Rightarrow> (b, s))"

definition strto :: "nat \<Rightarrow> string \<Rightarrow> (int \<times> string) option" where
  "strto b s =
     (let t = dropWhile is_space (takeWhile (\<lambda>c. c \<noteq> CHR 0x00) s);
          neg = (t \<noteq> [] \<and> hd t = CHR ''-'');
          u = (if t \<noteq> [] \<and> (hd t = CHR ''-'' \<or> hd t = CHR ''+'') then tl t else t)
      in case base_prefix b u of (b', r) \<Rightarrow>
           let ds = takeWhile (\<lambda>c. digit_val c < b') r;
               v = int (digits_value b' ds)
           in if ds = [] then None
              else Some (if neg then - v else v, dropWhile (\<lambda>c. digit_val c < b') r))"

text \<open>\<open>strtoll(s, &end, base)\<close>: limited to 64 bits; \<open>None\<close> is \<open>end == s\<close>.\<close>

definition strtoll :: "nat \<Rightarrow> string \<Rightarrow> int option" where
  "strtoll b s = map_option (\<lambda>(v, r). max (- (2 ^ 63)) (min (2 ^ 63 - 1) v)) (strto b s)"

text \<open>
  The value \<open>sscanf\<close> stores for \<open>%x\<close>, \<open>%llx\<close> and \<open>%hx\<close>: an \<open>unsigned long\<close>, all ones when the digits do not fit,
  reduced to the width of its target.
\<close>

definition scan_x :: "string \<Rightarrow> ('w::len word \<times> string) option" where
  "scan_x s =
     map_option (\<lambda>(v, r). (word_of_int (if \<bar>v\<bar> < 2 ^ 64 then v else 2 ^ 64 - 1), r)) (strto 16 s)"

section \<open>Round trips\<close>

lemma of_char_digit_char: "d < 16 \<Longrightarrow> (of_char (digit_char d) :: nat) = (if d < 10 then 48 + d else 87 + d)"
  by (simp add: digit_char_def)

lemma digit_val_digit_char [simp]: "d < 16 \<Longrightarrow> digit_val (digit_char d) = d"
  by (auto simp: digit_val_def is_digit_def is_lower_def is_upper_def of_char_digit_char)

lemma digits_value_append [simp]: "digits_value b (s @ [c]) = b * digits_value b s + digit_val c"
  by (simp add: digits_value_def)

lemma hex_string_nonempty [simp]: "hex_string n \<noteq> []"
  by (subst hex_string.simps) simp

lemma hex_string_chars: "c \<in> set (hex_string n) \<Longrightarrow> \<exists>d < 16. c = digit_char d"
proof (induction n rule: hex_string.induct)
  case (1 n)
  then show ?case
    by (subst (asm) (2) hex_string.simps) (auto split: if_splits intro: exI [of _ n] exI [of _ "n mod 16"])
qed

lemma digits_value_hex_string [simp]: "digits_value 16 (hex_string n) = n"
proof (induction n rule: hex_string.induct)
  case (1 n)
  then show ?case
    by (subst hex_string.simps) (auto simp: digits_value_def)
qed

lemma length_hex_string: "n < 16 ^ k \<Longrightarrow> 0 < k \<Longrightarrow> length (hex_string n) \<le> k"
proof (induction n arbitrary: k rule: hex_string.induct)
  case (1 n)
  show ?case
  proof (cases "n < 16")
    case True
    then show ?thesis using "1.prems" by (subst hex_string.simps) simp
  next
    case False
    then obtain j where j: "k = Suc j" "0 < j"
      using "1.prems" by (cases k; cases "k - 1") auto
    then have "n div 16 < 16 ^ j"
      using "1.prems" by (simp add: less_mult_imp_div_less mult.commute)
    then show ?thesis
      using "1.IH" [OF False, of j] False j by (subst hex_string.simps) simp
  qed
qed

lemma hex_char_class:
  assumes "c \<in> set (hex_string n)"
  shows "\<not> is_space c" "c \<noteq> CHR 0x00" "digit_val c < 16" "c \<noteq> CHR ''-''" "c \<noteq> CHR ''+''" "c \<noteq> CHR ''x''" "c \<noteq> CHR ''X''"
proof -
  obtain d where d: "d < 16" "c = digit_char d"
    using hex_string_chars [OF assms] by blast
  then have v: "digit_val c = d" and o: "(of_char c :: nat) = (if d < 10 then 48 + d else 87 + d)"
    by (simp_all add: of_char_digit_char)
  show "digit_val c < 16" using v d by simp
  show "\<not> is_space c" using o d(1) by (auto simp: is_space_def split: if_splits)
  show "c \<noteq> CHR 0x00" "c \<noteq> CHR ''-''" "c \<noteq> CHR ''+''" "c \<noteq> CHR ''x''" "c \<noteq> CHR ''X''"
    using o d(1) by (auto split: if_splits)
qed

text \<open>A number that starts with a digit which is no prefix of another base.\<close>

lemma strto_digits:
  assumes ne: "ds \<noteq> []" and b: "base_prefix b (ds @ r) = (b', ds @ r)"
    and cs: "\<And>c. c \<in> set ds \<Longrightarrow> \<not> is_space c \<and> c \<noteq> CHR 0x00 \<and> digit_val c < b' \<and> c \<noteq> CHR ''-'' \<and> c \<noteq> CHR ''+''"
    and r: "r = [] \<or> \<not> digit_val (hd r) < b'" and z: "CHR 0x00 \<notin> set r" and ws: "\<forall>c \<in> set w. is_space c"
    and rest: "rest = [] \<or> hd rest = CHR 0x00"
  shows "strto b (w @ ds @ r @ rest) = Some (int (digits_value b' ds), r)"
proof -
  have wz: "\<forall>c \<in> set w. c \<noteq> CHR 0x00"
    using ws by (auto simp: is_space_def)
  have "takeWhile (\<lambda>c. c \<noteq> CHR 0x00) rest = []"
    using rest by (cases rest) auto
  then have c: "takeWhile (\<lambda>c. c \<noteq> CHR 0x00) (w @ ds @ r @ rest) = w @ ds @ r"
    using wz cs z by (auto simp: takeWhile_append)
  obtain d ds' where d: "ds = d # ds'"
    using ne by (cases ds) auto
  have "dropWhile is_space (w @ ds @ r) = ds @ r"
    using dropWhile_append_all [of w is_space "ds @ r"] ws cs by (simp add: d)
  moreover have "takeWhile (\<lambda>c. digit_val c < b') (ds @ r) = ds"
    using takeWhile_append_all [of ds "\<lambda>c. digit_val c < b'" r] cs r by (cases r) auto
  moreover have "dropWhile (\<lambda>c. digit_val c < b') (ds @ r) = r"
    using dropWhile_append_all [of ds "\<lambda>c. digit_val c < b'" r] cs r by (cases r) auto
  ultimately show ?thesis
    using cs [of d] b ne unfolding strto_def c Let_def by (simp add: d)
qed

lemma base_prefix_hex:
  assumes "hd r \<noteq> CHR ''x'' \<and> hd r \<noteq> CHR ''X'' \<or> r = []"
  shows "base_prefix 16 (hex_string n @ r) = (16, hex_string n @ r)"
proof -
  have "x \<noteq> CHR ''x'' \<and> x \<noteq> CHR ''X''" if "hex_string n @ r = z # x # r'" for z x r'
  proof (cases "tl (hex_string n)")
    case Nil
    then have "r = x # r'"
      using that by (metis append_Nil hex_string_nonempty list.sel(3) tl_append2)
    then show ?thesis using assms by simp
  next
    case (Cons y ys)
    then have "hex_string n = z # y # ys \<and> y = x"
      using that by (cases "hex_string n") auto
    then have "x \<in> set (hex_string n)" by simp
    then show ?thesis using hex_char_class by blast
  qed
  then show ?thesis
    by (auto simp: base_prefix_def split: list.splits)
qed

lemma scan_x_hex_string:
  assumes n: "n < 2 ^ LENGTH('w)" "LENGTH('w) \<le> 64" and ws: "\<forall>c \<in> set w. is_space c"
    and r: "r = [] \<or> hd r = blank" "CHR 0x00 \<notin> set r" and rest: "rest = [] \<or> hd rest = CHR 0x00"
  shows "scan_x (w @ hex_string n @ r @ rest) = Some (of_nat n :: 'w::len word, r)"
proof -
  have "base_prefix 16 (hex_string n @ r) = (16, hex_string n @ r)"
    using r(1) by (intro base_prefix_hex) auto
  moreover have "r = [] \<or> \<not> digit_val (hd r) < 16"
    using r(1) by (auto simp: digit_val_def is_digit_def is_lower_def is_upper_def)
  ultimately have "strto 16 (w @ hex_string n @ r @ rest) = Some (int n, r)"
    using strto_digits [OF hex_string_nonempty, of 16 n r 16 w rest] hex_char_class r ws rest by auto
  moreover have "int n < 2 ^ 64"
  proof -
    have "n < 2 ^ 64"
      using n by (meson le_less_trans not_less order.strict_trans2 power_increasing one_le_numeral)
    then show ?thesis by (metis of_nat_less_iff of_nat_numeral of_nat_power)
  qed
  ultimately show ?thesis
    by (simp add: scan_x_def)
qed

text \<open>A decimal number is read back in base 0: it has no leading zero unless it is zero.\<close>

lemma dec_char_class:
  assumes "c \<in> set (dec_string n)"
  shows "\<not> is_space c" "c \<noteq> CHR 0x00" "digit_val c < 10" "c \<noteq> CHR ''-''" "c \<noteq> CHR ''+''"
  using dec_string_digits [of n] assms
  by (auto simp: is_digit_def is_space_def digit_val_def dest!: bspec)

lemma digits_value_dec_string [simp]: "digits_value 10 (dec_string n) = n"
proof (induction n rule: dec_string.induct)
  case (1 n)
  then show ?case
    by (subst dec_string.simps) (auto simp: digits_value_def digit_val_def)
qed

lemma hd_dec_string: "0 < n \<Longrightarrow> hd (dec_string n) \<noteq> CHR ''0''"
proof (induction n rule: dec_string.induct)
  case (1 n)
  show ?case
  proof (cases "n < 10")
    case True
    then have "(of_char (char_of (48 + n) :: char) :: nat) \<noteq> of_char CHR ''0''"
      using "1.prems" by simp
    then have "char_of (48 + n) \<noteq> CHR ''0''" by metis
    with True show ?thesis by (subst dec_string.simps) simp
  next
    case False
    then show ?thesis using "1.IH" by (subst dec_string.simps) simp
  qed
qed

lemma strto_dec_string:
  assumes "r = [] \<or> hd r \<noteq> CHR ''x'' \<and> hd r \<noteq> CHR ''X'' \<and> \<not> is_digit (hd r)" "rest = [] \<or> hd rest = CHR 0x00"
    "CHR 0x00 \<notin> set r"
  shows "strto 0 (dec_string n @ r @ rest) = Some (int n, r)"
proof (cases "n = 0")
  case True
  have dec: "dec_string n = ''0''" using True by (subst dec_string.simps) (simp add: char_of_eq_iff take_bit_eq_mod)
  have "base_prefix 0 (''0'' @ r) = (8, ''0'' @ r)"
    using assms(1) by (auto simp: base_prefix_def split: list.splits)
  moreover have "r = [] \<or> \<not> digit_val (hd r) < 8"
    using assms(1) by (auto simp: digit_val_def is_digit_def is_lower_def is_upper_def)
  ultimately show ?thesis
    unfolding dec using strto_digits [of "''0''" 0 r 8 "[]" rest] assms True
    by (auto simp: is_space_def digits_value_def digit_val_def is_digit_def)
next
  case False
  have "base_prefix 0 (dec_string n @ r) = (10, dec_string n @ r)"
    using hd_dec_string [of n] False by (cases "dec_string n") (auto simp: base_prefix_def split: list.splits)
  moreover have "r = [] \<or> \<not> digit_val (hd r) < 10"
    using assms(1) by (auto simp: digit_val_def is_digit_def is_lower_def is_upper_def)
  ultimately show ?thesis
    using strto_digits [of "dec_string n" 0 r 10 "[]" rest] assms dec_char_class by auto
qed

lemma dec_int_string_cases:
  "dec_int_string z = (if z < 0 then CHR ''-'' # dec_string (nat (- z)) else dec_string (nat z))"
  by (simp add: dec_int_string_def)

lemma strtoll_dec_int_string:
  assumes "- (2 ^ 63) \<le> z" "z < 2 ^ 63" and "rest = [] \<or> hd rest = CHR 0x00"
  shows "strtoll 0 (dec_int_string z @ rest) = Some z"
proof (cases "z < 0")
  case False
  then show ?thesis
    using strto_dec_string [of "[]" rest "nat z"] assms by (simp add: strtoll_def dec_int_string_def)
next
  case True
  let ?d = "dec_string (nat (- z))"
  have p: "strto 0 (?d @ [] @ rest) = Some (int (nat (- z)), [])"
    using assms(3) by (intro strto_dec_string) auto
  have c: "takeWhile (\<lambda>c. c \<noteq> CHR 0x00) (?d @ rest) = ?d"
    using assms(3) dec_char_class [of _ "nat (- z)"] by (cases rest) (auto simp: takeWhile_append)
  have sp: "dropWhile is_space ?d = ?d"
    using dec_char_class [of "hd ?d" "nat (- z)"] by (cases ?d) auto
  have "hd ?d \<noteq> CHR ''-''" "hd ?d \<noteq> CHR ''+''"
    using dec_char_class [of "hd ?d" "nat (- z)"] by (cases ?d; auto)+
  then have "strto 0 (CHR ''-'' # ?d @ rest) = Some (z, [])"
    using p True unfolding strto_def Let_def
    by (auto simp: c sp is_space_def split: prod.splits if_splits)
  then show ?thesis
    using True assms by (simp add: strtoll_def dec_int_string_def)
qed

end
