(* ===== verification/Conf_Value.thy ===== *)
theory Conf_Value
  imports Conf_Write C_Number Str_Number
begin

text \<open>
  The typed lookups of \<open>ConfNull\<close> (\<open>utils/conftree.cpp\<close>), which every configuration class inherits: an integer
  in any C notation and a boolean. \<open>getFloat\<close> needs floating-point numbers and is not modelled.
\<close>

definition conf_getInt :: "ConfSimple \<Rightarrow> string \<Rightarrow> int \<Rightarrow> string \<Rightarrow> int" where
  "conf_getInt c nm dflt sk =
     (case conf_get c nm sk of
        None \<Rightarrow> dflt
      | Some v \<Rightarrow> (case strtoll 0 v of None \<Rightarrow> dflt | Some ret \<Rightarrow> ret))"

definition conf_getBool :: "ConfSimple \<Rightarrow> string \<Rightarrow> bool \<Rightarrow> string \<Rightarrow> bool run" where
  "conf_getBool c nm dflt sk =
     (case conf_get c nm sk of
        None \<Rightarrow> Inr dflt
      | Some v \<Rightarrow> stringToBool v)"

lemma dec_no_breaks: "\<not> line_breaks (dec_int_string z)"
proof -
  have "c \<noteq> newline \<and> c \<noteq> cret" if "c \<in> set (dec_string n)" for c n
    using dec_char_class(1) [OF that] by (auto simp: is_space_def)
  then show ?thesis
    by (auto simp: line_breaks_def dec_int_string_def)
qed

lemma conf_getInt_dec:
  "conf_get c nm sk = Some (dec_int_string z) \<Longrightarrow> - (2 ^ 63) \<le> z \<Longrightarrow> z < 2 ^ 63 \<Longrightarrow> conf_getInt c nm dflt sk = z"
  using strtoll_dec_int_string [of z "[]"] by (simp add: conf_getInt_def)

text \<open>
  A 64-bit integer that is set through the integer form of \<open>set\<close> is what the integer lookup gives back, whatever the
  default is, and what the boolean lookup tests against zero when it is not negative and fits an \<open>int\<close>.
\<close>

theorem conf_int_roundtrip:
  assumes "conf_made tilde c" and "status c = STATUS_RW" and "conf_set_int nm z sk c d = Inr (b, c1, d1)"
    and "- (2 ^ 63) \<le> z" and "z < 2 ^ 63"
  shows "conf_getInt c1 nm dflt sk = z" and "0 \<le> z \<Longrightarrow> z < 2 ^ 31 \<Longrightarrow> conf_getBool c1 nm bd sk = Inr (z \<noteq> 0)"
proof -
  have g: "conf_get c1 nm sk = Some (dec_int_string z)"
    using conf_set_get_same [OF assms(1,2), of nm "dec_int_string z" sk d] assms(3) dec_no_breaks
    by (simp add: conf_set_int_def)
  then show "conf_getInt c1 nm dflt sk = z"
    using assms(4,5) by (rule conf_getInt_dec)
  assume z: "0 \<le> z" "z < 2 ^ 31"
  have "is_digit (hd (dec_string (nat z)))"
    using dec_string_digits [of "nat z"] by (cases "dec_string (nat z)") auto
  then show "conf_getBool c1 nm bd sk = Inr (z \<noteq> 0)"
    using g z strtol10_dec_string [of "[]" "nat z"]
    by (simp add: conf_getBool_def stringToBool_def dec_int_string_def atoi_def)
qed

theorem conf_int_roundtrip_witness:
  "\<exists>b c1 d1. conf_set_int ''n'' 5 [] (conf_init CFSF_FROMSTRING) no_disk = Inr (b, c1, d1) \<and> conf_getInt c1 ''n'' 7 [] = 5 \<and>
    conf_getBool c1 ''n'' False [] = Inr True"
proof -
  let ?c = "conf_init CFSF_FROMSTRING"
  have "conf_new id CFSF_FROMSTRING [] no_disk = Inr (?c, no_disk)"
    by (simp add: conf_new_def cfsf_defs)
  then have made: "conf_made id ?c"
    by (rule made_new)
  obtain b c1 d1 where s: "conf_set_int ''n'' 5 [] ?c no_disk = Inr (b, c1, d1)"
    using conf_set_inv [OF conf_made_inv [OF made]] unfolding conf_set_int_def by blast
  have "status ?c = STATUS_RW"
    by (simp add: conf_init_def cfsf_defs)
  from conf_int_roundtrip [OF made this s] s show ?thesis
    by simp
qed

end
