(* ===== verification/Cir_Entry.thy ===== *)
theory Cir_Entry
  imports Conf_Value Md5
begin

text \<open>
  The file format of the circular cache (\<open>utils/circache.cpp\<close>): the entry headers with the text they are
  stored as, the hash of identifiers, reading and writing bytes of the file, and the entry as the unit the file is made of.
  The file is the string of its bytes; calls to the system succeed, with short reads at the end of the file.
\<close>

section \<open>The file\<close>

text \<open>\<open>pread\<close> is \<open>lseek\<close> and \<open>read\<close>; writing beyond the end leaves a gap of null bytes.\<close>

definition pread :: "string \<Rightarrow> int \<Rightarrow> nat \<Rightarrow> string" where
  "pread f offs n = take n (drop (nat offs) f)"

definition pwrite :: "string \<Rightarrow> int \<Rightarrow> string \<Rightarrow> string" where
  "pwrite f offs s =
     (let o' = nat offs in
      take o' f @ replicate (o' - length f) (CHR 0x00) @ s @ drop (o' + length s) f)"

lemma pread_at:
  "nat offs = length pre \<Longrightarrow> n = length s \<Longrightarrow> pread (pre @ s @ post) offs n = s"
  by (simp add: pread_def)

lemma pwrite_over:
  "nat offs = length pre \<Longrightarrow> length s = length s' \<Longrightarrow> pwrite (pre @ s @ post) offs s' = pre @ s' @ post"
  by (simp add: pwrite_def)

section \<open>Headers\<close>

abbreviation (input) CIRCACHE_FIRSTBLOCK_SIZE :: nat where "CIRCACHE_FIRSTBLOCK_SIZE \<equiv> 1024"
abbreviation (input) CIRCACHE_HEADER_SIZE :: nat where "CIRCACHE_HEADER_SIZE \<equiv> 64"

record EntryHeaderData =
  dicsize :: "32 word"
  datasize :: "32 word"
  padsize :: "64 word"
  hflags :: "16 word"

definition empty_header :: EntryHeaderData where
  "empty_header = \<lparr>dicsize = 0, datasize = 0, padsize = 0, hflags = 0\<rparr>"

definition EFDataCompressed :: "16 word" where
  "EFDataCompressed = 1"

text \<open>\<open>snprintf(bf, 64, headerformat, ...)\<close> into a block of null bytes, which keeps room for the final null.\<close>

definition header_text :: "EntryHeaderData \<Rightarrow> string" where
  "header_text d =
     ''circacheSizes = '' @ hex_string (unat (dicsize d)) @ '' '' @ hex_string (unat (datasize d)) @ '' '' @
     hex_string (unat (padsize d)) @ '' '' @ hex_string (unat (hflags d))"

definition header_block :: "EntryHeaderData \<Rightarrow> string" where
  "header_block d =
     (let t = take (CIRCACHE_HEADER_SIZE - 1) (header_text d) in
      t @ replicate (CIRCACHE_HEADER_SIZE - length t) (CHR 0x00))"

text \<open>
  \<open>sscanf(bf, headerformat, ...)\<close>: the number of conversions and the header with those that were made. A space of the
  format matches any white space; the name and the equal sign match themselves.
\<close>

definition scan_literal :: "string \<Rightarrow> string \<Rightarrow> string option" where
  "scan_literal l s = (if prefix l s then Some (drop (length l) s) else None)"

definition header_scan :: "string \<Rightarrow> EntryHeaderData \<Rightarrow> nat \<times> EntryHeaderData" where
  "header_scan bf d =
     (case scan_literal ''circacheSizes'' (takeWhile (\<lambda>c. c \<noteq> CHR 0x00) bf) of None \<Rightarrow> (0, d)
      | Some r0 \<Rightarrow> case scan_literal ''='' (dropWhile is_space r0) of None \<Rightarrow> (0, d)
      | Some r1 \<Rightarrow> case scan_x r1 of None \<Rightarrow> (0, d)
      | Some (x1, r2) \<Rightarrow> case scan_x r2 of None \<Rightarrow> (1, d\<lparr>dicsize := x1\<rparr>)
      | Some (x2, r3) \<Rightarrow> case scan_x r3 of None \<Rightarrow> (2, d\<lparr>dicsize := x1, datasize := x2\<rparr>)
      | Some (x3, r4) \<Rightarrow> case scan_x r4 of None \<Rightarrow> (3, d\<lparr>dicsize := x1, datasize := x2, padsize := x3\<rparr>)
      | Some (x4, r5) \<Rightarrow> (4, \<lparr>dicsize = x1, datasize = x2, padsize = x3, hflags = x4\<rparr>))"

datatype CCStatus = Stop | Continue | Error | Eof

definition readEntryHeader :: "string \<Rightarrow> int \<Rightarrow> EntryHeaderData \<Rightarrow> CCStatus \<times> EntryHeaderData" where
  "readEntryHeader f offs d =
     (if offs < 0 then (Error, d)
      else let bf = pread f offs CIRCACHE_HEADER_SIZE in
        if bf = [] then (Eof, d)
        else if length bf \<noteq> CIRCACHE_HEADER_SIZE then (Error, d)
        else case header_scan bf d of (n, d') \<Rightarrow> if n \<noteq> 4 then (Error, d') else (Continue, d'))"

text \<open>With \<open>eraseData\<close>, the pad space of an entry that holds nothing else is overwritten.\<close>

definition writeEntryHeader :: "string \<Rightarrow> int \<Rightarrow> EntryHeaderData \<Rightarrow> bool \<Rightarrow> bool \<times> string" where
  "writeEntryHeader f offs d eraseData =
     (if offs < 0 then (False, f)
      else
        let f1 = pwrite f offs (header_block d) in
        if \<not> eraseData then (True, f1)
        else if dicsize d \<noteq> 0 \<or> datasize d \<noteq> 0 then (False, f1)
        else (True, pwrite f1 (offs + int CIRCACHE_HEADER_SIZE) (replicate (unat (padsize d)) blank)))"

text \<open>
  The step from a header to the next, as it is computed: the header's size and the two 32-bit sizes in 32 bits,
  the pad size in 64 bits, and the sum with a signed offset in 64 bits.
\<close>

definition entry_span :: "EntryHeaderData \<Rightarrow> 64 word" where
  "entry_span d = ucast (of_nat CIRCACHE_HEADER_SIZE + dicsize d + datasize d :: 32 word) + padsize d"

definition add_offs :: "int \<Rightarrow> 64 word \<Rightarrow> int" where
  "add_offs offs w = sint (word_of_int offs + w)"

section \<open>Metadata\<close>

text \<open>The identifier in a dictionary, which is the text of a configuration (never a failure: see \<open>dic_get_total\<close>).\<close>

definition dic_conf :: "bool \<Rightarrow> string \<Rightarrow> (ConfSimple \<times> Disk) run" where
  "dic_conf readonly dic = conf_new id (varsToFlags readonly False True OR CFSF_FROMSTRING) dic no_disk"

definition dic_get :: "bool \<Rightarrow> string \<Rightarrow> string \<Rightarrow> string option" where
  "dic_get readonly dic nm =
     (case dic_conf readonly dic of
        Inl e \<Rightarrow> None
      | Inr (c, d) \<Rightarrow> conf_get c nm [])"

text \<open>The hash of an identifier: the start of its digest. The context on the stack is initialised by \<open>MD5Init\<close>.\<close>

definition UDIHLEN :: nat where "UDIHLEN = 4"

definition UdiH :: "string \<Rightarrow> byte list" where
  "UdiH udi = take UDIHLEN (fst (MD5Final (MD5Update (map byte_of udi) (MD5Init fresh_ctx))))"

lemma UdiH_any_ctx:
  "length (md5_buffer ctx) = 64 \<Longrightarrow>
    UdiH udi = take UDIHLEN (fst (MD5Final (MD5Update (map byte_of udi) (MD5Init ctx))))"
  using md5_pieces [of ctx "[map byte_of udi]"] md5_pieces [of fresh_ctx "[map byte_of udi]"]
  by (simp add: UdiH_def fresh_ctx_def)

lemma dic_get_total: "\<exists>c d. dic_conf readonly dic = Inr (c, d)"
  unfolding dic_conf_def using conf_new_inv by blast

text \<open>
  \<open>readDicData\<close>: the dictionary and, when the caller asks for them, the data. \<open>inflate\<close> stands for \<open>inflateToBuf\<close>.
\<close>

definition readDicData ::
  "(string \<Rightarrow> string option) \<Rightarrow> string \<Rightarrow> int \<Rightarrow> EntryHeaderData \<Rightarrow> bool \<Rightarrow> (string \<times> string option) option" where
  "readDicData inflate f hoffs h want =
     (let offs = hoffs + int CIRCACHE_HEADER_SIZE;
          dic = pread f offs (unat (dicsize h));
          data = pread f (offs + int (length dic)) (unat (datasize h))
      in if offs < 0 \<or> int (length dic) \<noteq> sint (dicsize h) then None
         else if \<not> want then Some (dic, None)
         else if datasize h = 0 then Some (dic, Some [])
         else if int (length data) \<noteq> sint (datasize h) then None
         else if hflags h AND EFDataCompressed \<noteq> 0
           then map_option (\<lambda>s. (dic, Some s)) (inflate data)
         else Some (dic, Some data))"

definition readHUdi :: "string \<Rightarrow> int \<Rightarrow> EntryHeaderData \<Rightarrow> EntryHeaderData \<times> string option" where
  "readHUdi f hoffs d0 =
     (case readEntryHeader f hoffs d0 of (st, d) \<Rightarrow>
        if st \<noteq> Continue then (d, None)
        else case readDicData (\<lambda>s. None) f hoffs d False of
            None \<Rightarrow> (d, None)
          | Some (dic, _) \<Rightarrow>
              (d, if dicsize d = 0 then Some [] else dic_get False dic ''udi''))"

section \<open>Headers are read back\<close>

lemma length_hex_word: "length (hex_string (unat (w :: 'a::len word))) \<le> max 1 ((LENGTH('a) + 3) div 4)"
proof -
  have "unat w < 2 ^ LENGTH('a)" by simp
  also have "\<dots> \<le> 2 ^ (4 * max 1 ((LENGTH('a) + 3) div 4))"
    by (rule power_increasing) auto
  also have "\<dots> = 16 ^ max 1 ((LENGTH('a) + 3) div 4)"
    by (subst power_mult) simp
  finally show ?thesis
    by (intro length_hex_string) auto
qed

lemma length_header_text: "length (header_text d) \<le> 55"
  using length_hex_word [of "dicsize d"] length_hex_word [of "datasize d"]
    length_hex_word [of "padsize d"] length_hex_word [of "hflags d"]
  by (simp add: header_text_def)

lemma header_block_text:
  "header_block d = header_text d @ replicate (CIRCACHE_HEADER_SIZE - length (header_text d)) (CHR 0x00)"
  using length_header_text [of d] by (simp add: header_block_def Let_def)

lemma length_header_block [simp]: "length (header_block d) = CIRCACHE_HEADER_SIZE"
  using length_header_text [of d] by (simp add: header_block_text)

lemma scan_x_word:
  assumes "LENGTH('w) \<le> 64" and "r = [] \<or> hd r = blank" "CHR 0x00 \<notin> set r"
  shows "scan_x (blank # hex_string (unat (x :: 'w::len word)) @ r) = Some (x, r)"
proof -
  have "unat x < 2 ^ LENGTH('w)" by simp
  from scan_x_hex_string [OF this assms(1), of "[blank]" r "[]"] assms show ?thesis
    by (simp add: is_space_def)
qed

lemma header_scan_block [simp]: "header_scan (header_block d) d0 = (4, d)"
proof -
  let ?h = "\<lambda>w. hex_string (unat w)"
  have nz: "CHR 0x00 \<notin> set (hex_string n)" for n
    using hex_char_class(2) by blast
  then have "\<forall>c \<in> set (header_text d). c \<noteq> CHR 0x00"
    by (auto simp: header_text_def)
  then have t: "takeWhile (\<lambda>c. c \<noteq> CHR 0x00) (header_block d) = header_text d"
    by (simp add: header_block_text takeWhile_append_all)
  have "scan_x ('' '' @ ?h (hflags d)) = Some (hflags d, [])"
    using scan_x_word [of "[]" "hflags d"] by simp
  moreover have "scan_x ('' '' @ ?h (padsize d) @ '' '' @ ?h (hflags d)) = Some (padsize d, '' '' @ ?h (hflags d))"
    using scan_x_word [of "'' '' @ ?h (hflags d)" "padsize d"] nz by simp
  moreover have "scan_x ('' '' @ ?h (datasize d) @ '' '' @ ?h (padsize d) @ '' '' @ ?h (hflags d)) =
      Some (datasize d, '' '' @ ?h (padsize d) @ '' '' @ ?h (hflags d))"
    using scan_x_word [of "'' '' @ ?h (padsize d) @ '' '' @ ?h (hflags d)" "datasize d"] nz by simp
  moreover have "scan_x ('' '' @ ?h (dicsize d) @ '' '' @ ?h (datasize d) @ '' '' @ ?h (padsize d) @ '' '' @ ?h (hflags d)) =
      Some (dicsize d, '' '' @ ?h (datasize d) @ '' '' @ ?h (padsize d) @ '' '' @ ?h (hflags d))"
    using scan_x_word [of "'' '' @ ?h (datasize d) @ '' '' @ ?h (padsize d) @ '' '' @ ?h (hflags d)" "dicsize d"] nz by simp
  ultimately show ?thesis
    unfolding header_scan_def t by (simp add: header_text_def scan_literal_def is_space_def)
qed

lemma readEntryHeader_block:
  "nat offs = length pre \<Longrightarrow> 0 \<le> offs \<Longrightarrow> readEntryHeader (pre @ header_block d @ post) offs d0 = (Continue, d)"
  using length_header_block [of d] by (auto simp: readEntryHeader_def pread_at Let_def simp del: length_header_block)

lemma readEntryHeader_eof: "int (length f) \<le> offs \<Longrightarrow> readEntryHeader f offs d0 = (Eof, d0)"
  by (simp add: readEntryHeader_def pread_def)

section \<open>Entries\<close>

text \<open>An entry as the format has it: its header, dictionary, data and pad space. An erased entry is all pad space.\<close>

record CEntry =
  e_hd :: EntryHeaderData
  e_dic :: string
  e_data :: string
  e_pad :: string

definition entry_bytes :: "CEntry \<Rightarrow> string" where
  "entry_bytes e = header_block (e_hd e) @ e_dic e @ e_data e @ e_pad e"

text \<open>The sizes of the header agree and do not overflow; the dictionary of an entry that is not erased has an identifier.\<close>

definition e_udi :: "CEntry \<Rightarrow> string" where
  "e_udi e = (if e_dic e = [] then [] else the (dic_get True (e_dic e) ''udi''))"

definition dic_ok :: "string \<Rightarrow> bool" where
  "dic_ok dic \<longleftrightarrow> (\<exists>udi. dic_get True dic ''udi'' = Some udi \<and> dic_get False dic ''udi'' = Some udi \<and> udi \<noteq> [])"

definition entry_ok :: "CEntry \<Rightarrow> bool" where
  "entry_ok e \<longleftrightarrow>
     length (e_dic e) = unat (dicsize (e_hd e)) \<and> length (e_data e) = unat (datasize (e_hd e)) \<and>
     length (e_pad e) = unat (padsize (e_hd e)) \<and>
     CIRCACHE_HEADER_SIZE + length (e_dic e) + length (e_data e) < 2 ^ 31 \<and>
     (if e_dic e = [] then e_data e = [] else dic_ok (e_dic e))"

text \<open>The data as \<open>get\<close> returns it, \<open>None\<close> when it does not decompress.\<close>

definition e_value :: "(string \<Rightarrow> string option) \<Rightarrow> CEntry \<Rightarrow> string option" where
  "e_value inflate e =
     (if e_data e \<noteq> [] \<and> hflags (e_hd e) AND EFDataCompressed \<noteq> 0 then inflate (e_data e) else Some (e_data e))"

lemma length_entry_bytes:
  "length (entry_bytes e) = CIRCACHE_HEADER_SIZE + length (e_dic e) + length (e_data e) + length (e_pad e)"
  by (simp add: entry_bytes_def)

lemma entry_bytes_not_Nil [simp]: "entry_bytes e \<noteq> []"
  using length_entry_bytes [of e] by (metis list.size(3) add_is_0 zero_neq_numeral)

lemma entry_ok_dicsize: "entry_ok e \<Longrightarrow> dicsize (e_hd e) = 0 \<longleftrightarrow> e_dic e = []"
  by (auto simp: entry_ok_def unat_eq_0)

lemma entry_ok_datasize: "entry_ok e \<Longrightarrow> datasize (e_hd e) = 0 \<longleftrightarrow> e_data e = []"
  by (auto simp: entry_ok_def unat_eq_0)

lemma sint_small:
  assumes "unat (w :: 'a::len word) < 2 ^ (LENGTH('a) - 1)"
  shows "sint w = int (unat w)"
proof -
  have u: "int (unat w) < 2 ^ (LENGTH('a) - Suc 0)"
    using assms by (metis One_nat_def of_nat_less_iff of_nat_numeral of_nat_power)
  have "- (2 ^ (LENGTH('a) - Suc 0)) \<le> (0 :: int)" by simp
  also have "0 \<le> int (unat w)" by (rule of_nat_0_le_iff)
  finally have "signed_take_bit (LENGTH('a) - Suc 0) (int (unat w)) = int (unat w)"
    using u by (rule signed_take_bit_int_eq_self)
  moreover have "uint w = int (unat w)" by simp
  ultimately show ?thesis
    unfolding sint_uint by metis
qed

lemma entry_ok_sint:
  assumes "entry_ok e"
  shows "sint (dicsize (e_hd e)) = int (length (e_dic e))" "sint (datasize (e_hd e)) = int (length (e_data e))"
  using assms sint_small [of "dicsize (e_hd e)"] sint_small [of "datasize (e_hd e)"] by (auto simp: entry_ok_def)

lemma readEntryHeader_entry:
  "nat offs = length pre \<Longrightarrow> 0 \<le> offs \<Longrightarrow>
    readEntryHeader (pre @ entry_bytes e @ post) offs d0 = (Continue, e_hd e)"
  using readEntryHeader_block [of offs pre "e_hd e" "e_dic e @ e_data e @ e_pad e @ post" d0]
  by (simp add: entry_bytes_def)

lemma sint_of_nat: "m < 2 ^ (LENGTH('a) - 1) \<Longrightarrow> sint (of_nat m :: 'a::len word) = int m"
proof -
  assume m: "m < 2 ^ (LENGTH('a) - 1)"
  also have "\<dots> \<le> 2 ^ LENGTH('a)" by (rule power_increasing) auto
  finally have "unat (of_nat m :: 'a word) = m"
    by (simp add: unsigned_of_nat take_bit_nat_eq_self)
  with m show ?thesis
    by (metis sint_small)
qed

lemma word_from_unat: "unat w = n \<Longrightarrow> w = of_nat n"
  by (drule sym) simp

lemma add_offs_entry:
  assumes "entry_ok e" and "n + length (entry_bytes e) < 2 ^ 63"
  shows "add_offs (int n) (entry_span (e_hd e)) = int (n + length (entry_bytes e))"
proof -
  let ?h = "e_hd e"
  let ?s = "of_nat CIRCACHE_HEADER_SIZE + dicsize ?h + datasize ?h :: 32 word"
  have s: "unat ?s = CIRCACHE_HEADER_SIZE + length (e_dic e) + length (e_data e)"
    using assms(1) by (simp add: entry_ok_def unat_word_ariths)
  then have "unat (ucast ?s :: 64 word) = CIRCACHE_HEADER_SIZE + length (e_dic e) + length (e_data e)"
    using assms(1) by (simp add: unsigned_ucast_eq take_bit_nat_eq_self entry_ok_def)
  then have "(ucast ?s :: 64 word) = of_nat (CIRCACHE_HEADER_SIZE + length (e_dic e) + length (e_data e))"
    by (rule word_from_unat)
  moreover have "padsize ?h = of_nat (length (e_pad e))"
    using assms(1) by (intro word_from_unat) (simp add: entry_ok_def)
  ultimately have "entry_span ?h = of_nat (length (entry_bytes e))"
    by (simp add: entry_span_def length_entry_bytes)
  then have "word_of_int (int n) + entry_span ?h = of_nat (n + length (entry_bytes e))"
    by simp
  moreover have "sint (of_nat (n + length (entry_bytes e)) :: 64 word) = int (n + length (entry_bytes e))"
    by (rule sint_of_nat) (use assms(2) in simp)
  ultimately show ?thesis
    by (simp add: add_offs_def)
qed

lemma pread_entry:
  assumes "nat offs = length pre" and "0 \<le> offs"
  shows "pread (pre @ entry_bytes e @ post) (offs + 64) (length (e_dic e)) = e_dic e"
    and "pread (pre @ entry_bytes e @ post) (offs + 64 + int (length (e_dic e))) (length (e_data e)) = e_data e"
proof -
  have "nat (offs + 64) = length (pre @ header_block (e_hd e))"
    using assms by simp
  from pread_at [OF this refl] show "pread (pre @ entry_bytes e @ post) (offs + 64) (length (e_dic e)) = e_dic e"
    by (simp add: entry_bytes_def)
  have "nat (offs + 64 + int (length (e_dic e))) = length (pre @ header_block (e_hd e) @ e_dic e)"
    using assms by simp
  from pread_at [OF this refl]
  show "pread (pre @ entry_bytes e @ post) (offs + 64 + int (length (e_dic e))) (length (e_data e)) = e_data e"
    by (simp add: entry_bytes_def)
qed

lemma readDicData_entry:
  assumes "nat offs = length pre" and "0 \<le> offs" and "entry_ok e"
  shows "readDicData inflate (pre @ entry_bytes e @ post) offs (e_hd e) want =
    (if want then map_option (\<lambda>v. (e_dic e, Some v)) (e_value inflate e) else Some (e_dic e, None))"
proof -
  have "length (e_dic e) = unat (dicsize (e_hd e))" "length (e_data e) = unat (datasize (e_hd e))"
    using assms(3) by (simp_all add: entry_ok_def)
  then show ?thesis
    using assms(2) pread_entry [OF assms(1,2), of e post] entry_ok_sint [OF assms(3)] entry_ok_datasize [OF assms(3)]
    by (simp add: readDicData_def e_value_def Let_def)
qed

lemma readHUdi_entry:
  assumes "nat offs = length pre" and "0 \<le> offs" and "entry_ok e"
  shows "readHUdi (pre @ entry_bytes e @ post) offs d0 = (e_hd e, Some (e_udi e))"
  using readDicData_entry [OF assms] readEntryHeader_entry [OF assms(1,2)] entry_ok_dicsize [OF assms(3)] assms(3)
  by (auto simp: readHUdi_def e_udi_def entry_ok_def dic_ok_def)

end
