(* ===== verification/Cir_Cache.thy ===== *)
theory Cir_Cache
  imports Cir_Entry
begin

text \<open>
  The operations of the circular cache (\<open>CirCacheInternal\<close> and \<open>CirCache\<close> of \<open>utils/circache.cpp\<close>): the in-memory
  map of offsets, the scan of the file with a callback, \<open>get\<close>, \<open>erase\<close>, \<open>put\<close>, the first block, \<open>create\<close> and \<open>open\<close>,
  and the iteration. The loop of \<open>scan\<close> follows the sizes it reads in the file and may not end, so the operations that
  scan return an option, with \<open>None\<close> for a run that does not end. Messages for \<open>getReason\<close> and failing system
  calls are not modelled.
\<close>

section \<open>The object and its file\<close>

text \<open>
  The multimap of offsets is the list of its pairs in the order of their insertion, which is the order of the pairs
  of the same key in the multimap. An object that is not open has no file descriptor.
\<close>

record CirCache =
  cc_fd :: bool
  cc_file :: string
  m_maxsize :: int
  m_oheadoffs :: int
  m_nheadoffs :: int
  m_npadsize :: int
  m_uniquentries :: bool
  m_itoffs :: int
  m_ithd :: EntryHeaderData
  m_ofskh :: "(byte list \<times> int) list"
  m_ofskhcplt :: bool

definition CirCacheInternal :: CirCache where
  "CirCacheInternal = \<lparr>cc_fd = False, cc_file = [], m_maxsize = - 1, m_oheadoffs = - 1, m_nheadoffs = 0, m_npadsize = 0,
     m_uniquentries = False, m_itoffs = 0, m_ithd = empty_header, m_ofskh = [], m_ofskhcplt = False\<rparr>"

section \<open>The map of offsets\<close>

definition khEnter :: "string \<Rightarrow> int \<Rightarrow> CirCache \<Rightarrow> CirCache" where
  "khEnter udi ofs c =
     (let h = UdiH udi in
      if (h, ofs) \<in> set (m_ofskh c) then c else c\<lparr>m_ofskh := m_ofskh c @ [(h, ofs)]\<rparr>)"

text \<open>The candidates for an identifier; \<open>khFind\<close> returns false when there is none.\<close>

definition khFind :: "string \<Rightarrow> CirCache \<Rightarrow> int list" where
  "khFind udi c = (let h = UdiH udi in map snd (filter (\<lambda>p. fst p = h) (m_ofskh c)))"

definition khClear_ref :: "string \<times> int \<Rightarrow> CirCache \<Rightarrow> CirCache" where
  "khClear_ref ref c = (let h = UdiH (fst ref) in
     c\<lparr>m_ofskh := filter (\<lambda>p. \<not> (fst p = h \<and> snd p = snd ref)) (m_ofskh c)\<rparr>)"

fun khClear_refs :: "(string \<times> int) list \<Rightarrow> CirCache \<Rightarrow> CirCache" where
  "khClear_refs [] c = c"
| "khClear_refs (ref # refs) c = khClear_refs refs (khClear_ref ref c)"

definition khClear_udi :: "string \<Rightarrow> CirCache \<Rightarrow> CirCache" where
  "khClear_udi udi c = (let h = UdiH udi in c\<lparr>m_ofskh := filter (\<lambda>p. fst p \<noteq> h) (m_ofskh c)\<rparr>)"

section \<open>The first block\<close>

definition first_block_text :: "CirCache \<Rightarrow> string" where
  "first_block_text c =
     ''maxsize = '' @ dec_int_string (m_maxsize c) @ [newline] @
     ''oheadoffs = '' @ dec_int_string (m_oheadoffs c) @ [newline] @
     ''nheadoffs = '' @ dec_int_string (m_nheadoffs c) @ [newline] @
     ''npadsize = '' @ dec_int_string (m_npadsize c) @ [newline] @
     ''unient = '' @ dec_int_string (if m_uniquentries c then 1 else 0) @ [newline] @
     replicate 186 blank"

definition writefirstblock :: "CirCache \<Rightarrow> bool \<times> CirCache" where
  "writefirstblock c =
     (if \<not> cc_fd c then (False, c)
      else (True, c\<lparr>cc_file := pwrite (cc_file c) 0 (first_block_text c)\<rparr>))"

text \<open>A parameter that is missing, or has the value of the default, is a failure; those before it have been set.\<close>

definition readfirstblock :: "CirCache \<Rightarrow> (bool \<times> CirCache) run" where
  "readfirstblock c =
     (let bf = pread (cc_file c) 0 CIRCACHE_FIRSTBLOCK_SIZE in
      if \<not> cc_fd c \<or> length bf \<noteq> CIRCACHE_FIRSTBLOCK_SIZE then Inr (False, c)
      else case dic_conf True bf of
          Inl e \<Rightarrow> Inl e
        | Inr (conf, d) \<Rightarrow>
            let v1 = conf_getInt conf ''maxsize'' (- 1) [];
                v2 = conf_getInt conf ''oheadoffs'' (- 1) [];
                v3 = conf_getInt conf ''nheadoffs'' (- 1) [];
                v4 = conf_getInt conf ''npadsize'' (- 1) [];
                c1 = c\<lparr>m_maxsize := v1\<rparr>;
                c2 = c1\<lparr>m_oheadoffs := v2\<rparr>;
                c3 = c2\<lparr>m_nheadoffs := v3\<rparr>;
                c4 = c3\<lparr>m_npadsize := v4\<rparr>
            in if v1 = - 1 then Inr (False, c1)
               else if v2 = - 1 then Inr (False, c2)
               else if v3 = - 1 then Inr (False, c3)
               else if v4 = - 1 then Inr (False, c4)
               else case conf_getBool conf ''unient'' False [] of
                   Inl e \<Rightarrow> Inl e
                 | Inr b \<Rightarrow> Inr (True, c4\<lparr>m_uniquentries := b\<rparr>))"

section \<open>Scanning\<close>

text \<open>A callback: its state, the offset, the identifier and the header give a status and the new state.\<close>

type_synonym 'u hook = "'u \<Rightarrow> int \<Rightarrow> string \<Rightarrow> EntryHeaderData \<Rightarrow> CCStatus \<times> 'u"

text \<open>The identifier of the entry whose header has been read: empty for an erased entry, \<open>None\<close> is an error.\<close>

definition scan_udi :: "string \<Rightarrow> int \<Rightarrow> EntryHeaderData \<Rightarrow> string option" where
  "scan_udi f startoffset d =
     (if dicsize d = 0 then Some []
      else let b = pread f (startoffset + int CIRCACHE_HEADER_SIZE) (unat (dicsize d)) in
        if int (length b) \<noteq> sint (dicsize d) then None else dic_get True b ''udi'')"

partial_function (option) scan_loop ::
  "'u hook \<Rightarrow> bool \<Rightarrow> int \<Rightarrow> bool \<Rightarrow> int \<Rightarrow> 'u \<Rightarrow> CirCache \<Rightarrow> (CCStatus \<times> 'u \<times> CirCache) option" where
  "scan_loop takeone foldit so0 already_folded startoffset u c =
     (if already_folded \<and> startoffset = so0 then Some (Eof, u, c\<lparr>m_ofskhcplt := True\<rparr>)
      else case readEntryHeader (cc_file c) startoffset empty_header of (st, d) \<Rightarrow>
        if st = Eof \<and> foldit \<and> \<not> already_folded then
          scan_loop takeone foldit so0 True (int CIRCACHE_FIRSTBLOCK_SIZE) u c
        else if st \<noteq> Continue then Some (st, u, c)
        else case scan_udi (cc_file c) startoffset d of
            None \<Rightarrow> Some (Error, u, c)
          | Some udi \<Rightarrow>
              let c1 = (if dicsize d \<noteq> 0 then khEnter udi startoffset c else c) in
              case takeone u startoffset udi d of (a, u1) \<Rightarrow>
                if a \<noteq> Continue then Some (a, u1, c1)
                else scan_loop takeone foldit so0 already_folded (add_offs startoffset (entry_span d)) u1 c1)"

definition scan :: "'u hook \<Rightarrow> bool \<Rightarrow> int \<Rightarrow> 'u \<Rightarrow> CirCache \<Rightarrow> (CCStatus \<times> 'u \<times> CirCache) option" where
  "scan takeone foldit startoffset u c =
     (if \<not> cc_fd c then Some (Error, u, c)
      else scan_loop takeone foldit startoffset False startoffset u c)"

text \<open>The callbacks: the last header seen; the wanted instance of an identifier; enough space for an entry.\<close>

fun hook_record :: "(int \<times> 64 word) hook" where
  "hook_record (headoffs, pad) offs udi d = (Continue, (offs, padsize d))"

fun hook_getter :: "string \<Rightarrow> int \<Rightarrow> (int \<times> int \<times> EntryHeaderData) hook" where
  "hook_getter m_udi targ (inst, o_found, h) offs udi d =
     (if m_udi = udi then (if inst + 1 = targ then Stop else Continue, (inst + 1, offs, d))
      else (Continue, (inst, o_found, h)))"

fun hook_spacer :: "int \<Rightarrow> (int \<times> (string \<times> int) list) hook" where
  "hook_spacer sizewanted (sizeseen, squashed) offs udi d =
     (let seen = add_offs sizeseen (entry_span d) in
      (if sizewanted \<le> seen then Stop else Continue, (seen, squashed @ [(udi, offs)])))"

section \<open>Getting an entry\<close>

text \<open>The candidates of the map: how far the count of instances got and the last one found, \<open>None\<close> when one cannot be read.\<close>

fun kh_try ::
  "string \<Rightarrow> string \<Rightarrow> int \<Rightarrow> int list \<Rightarrow> int \<Rightarrow> int \<times> EntryHeaderData \<Rightarrow> (int \<times> int \<times> EntryHeaderData) option" where
  "kh_try f udi inst [] finst good = Some (finst, good)"
| "kh_try f udi inst (offset # ofss) finst good =
     (case readHUdi f offset empty_header of
        (d, None) \<Rightarrow> None
      | (d, Some fudi) \<Rightarrow>
          if fudi = udi then
            if finst = inst then Some (finst, offset, d) else kh_try f udi inst ofss (finst + 1) (offset, d)
          else kh_try f udi inst ofss finst good)"

definition get_scan ::
  "(string \<Rightarrow> string option) \<Rightarrow> string \<Rightarrow> bool \<Rightarrow> int \<Rightarrow> CirCache \<Rightarrow> ((string \<times> string option) option \<times> CirCache) option" where
  "get_scan inflate udi want inst c =
     map_option (\<lambda>(st, (n, offs, d), c1).
         (if st = Stop \<or> st = Eof \<and> n \<noteq> 0 then readDicData inflate (cc_file c1) offs d want else None, c1))
       (scan (hook_getter udi inst) True (m_oheadoffs c) (0, 0, empty_header) c)"

definition get ::
  "(string \<Rightarrow> string option) \<Rightarrow> string \<Rightarrow> bool \<Rightarrow> int \<Rightarrow> CirCache \<Rightarrow> ((string \<times> string option) option \<times> CirCache) option" where
  "get inflate udi want inst c =
     (if \<not> cc_fd c then Some (None, c)
      else if m_ofskhcplt c \<and> khFind udi c \<noteq> [] then
        (case kh_try (cc_file c) udi inst (khFind udi c) 1 (0, empty_header) of
           None \<Rightarrow> Some (None, c)
         | Some (finst, o_good, d_good) \<Rightarrow>
             if o_good \<noteq> 0 \<and> (inst = - 1 \<or> inst = finst)
             then Some (readDicData inflate (cc_file c) o_good d_good want, c)
             else get_scan inflate udi want inst c)
      else get_scan inflate udi want inst c)"

section \<open>Erasing\<close>

fun erase_loop :: "string \<Rightarrow> bool \<Rightarrow> int list \<Rightarrow> CirCache \<Rightarrow> bool \<times> CirCache" where
  "erase_loop udi reallyclear [] c = (True, c)"
| "erase_loop udi reallyclear (offset # ofss) c =
     (case readHUdi (cc_file c) offset empty_header of
        (d, None) \<Rightarrow> (False, c)
      | (d, Some fudi) \<Rightarrow>
          if fudi = udi then
            let nd = empty_header\<lparr>padsize := ucast (dicsize d + datasize d) + padsize d\<rparr>;
                c1 = (if offset = m_nheadoffs c then c\<lparr>m_npadsize := sint (padsize nd)\<rparr> else c)
            in case writeEntryHeader (cc_file c1) offset nd reallyclear of (ok, f) \<Rightarrow>
                 if \<not> ok then (False, c1\<lparr>cc_file := f\<rparr>)
                 else erase_loop udi reallyclear ofss (c1\<lparr>cc_file := f\<rparr>)
          else erase_loop udi reallyclear ofss c)"

text \<open>A map that is not complete is completed by a lookup of an identifier that should not exist.\<close>

definition erase :: "(string \<Rightarrow> string option) \<Rightarrow> string \<Rightarrow> bool \<Rightarrow> CirCache \<Rightarrow> (bool \<times> CirCache) option" where
  "erase inflate udi reallyclear c =
     (if \<not> cc_fd c then Some (False, c)
      else case (if m_ofskhcplt c then Some c
                 else map_option snd (get inflate ''nosuchudi probably exists'' False (- 1) c)) of
          None \<Rightarrow> None
        | Some c1 \<Rightarrow>
            Some (if \<not> m_ofskhcplt c1 then (False, c1)
                  else if khFind udi c1 = [] then (True, c1)
                  else case erase_loop udi reallyclear (khFind udi c1) c1 of
                      (ok, c2) \<Rightarrow> if ok then (True, khClear_udi udi c2) else (False, c2)))"

section \<open>Storing an entry\<close>

text \<open>
  \<open>deflate\<close> stands for \<open>deflateToBuf\<close>; \<open>worth n m\<close> is the comparison \<open>float(n) < 0.9 * float(m)\<close> of the
  compressed with the original size.
\<close>

definition NoCompHint :: "32 word" where
  "NoCompHint = 1"

definition put_compress ::
  "(string \<Rightarrow> string option) \<Rightarrow> (nat \<Rightarrow> nat \<Rightarrow> bool) \<Rightarrow> string \<Rightarrow> 32 word \<Rightarrow> string \<times> 16 word" where
  "put_compress deflate worth data iflags =
     (if iflags AND NoCompHint = 0 then
        case deflate data of
          None \<Rightarrow> (data, 0)
        | Some z \<Rightarrow> if worth (length z) (length data) then (z, EFDataCompressed) else (data, 0)
      else (data, 0))"

text \<open>
  The pad space behind the newest entry: how much there is to reuse, with the entry's header when it was
  erased. Otherwise its header is rewritten without pad space. \<open>None\<close> is a failure.
\<close>

definition put_recover :: "CirCache \<Rightarrow> (int \<times> CirCache) option" where
  "put_recover c =
     (let recovpadsize = (if m_oheadoffs c = int CIRCACHE_FIRSTBLOCK_SIZE then 0 else m_npadsize c) in
      if recovpadsize = 0 then Some (0, c)
      else case readEntryHeader (cc_file c) (m_nheadoffs c) empty_header of (st, pd) \<Rightarrow>
        if st \<noteq> Continue then None
        else if sint (ucast (padsize pd) :: 32 word) \<noteq> m_npadsize c then None
        else if dicsize pd = 0 then Some (recovpadsize + int CIRCACHE_HEADER_SIZE, c)
        else case writeEntryHeader (cc_file c) (m_nheadoffs c) (pd\<lparr>padsize := 0\<rparr>) False of (ok, f) \<Rightarrow>
          if ok then Some (recovpadsize, c\<lparr>cc_file := f\<rparr>) else None)"

text \<open>The pad size of the new entry, after the entries that it overwrites left the map; \<open>Some None\<close> is a failure.\<close>

definition put_space :: "int \<Rightarrow> int \<Rightarrow> CirCache \<Rightarrow> (int option \<times> CirCache) option" where
  "put_space nsize recovpadsize c =
     (if nsize \<le> recovpadsize then Some (Some (recovpadsize - nsize), c)
      else if int (length (cc_file c)) < m_maxsize c then Some (Some 0, c)
      else
        let scansize = nsize - recovpadsize in
        map_option (\<lambda>(st, (sizeseen, squashed), c1).
            if st = Stop then (Some (sizeseen - scansize), khClear_refs squashed c1)
            else if st = Eof then (Some 0, khClear_refs squashed c1)
            else (None, c1))
          (scan (hook_spacer scansize) False (m_oheadoffs c) (0, []) c))"

definition put_write :: "string \<Rightarrow> string \<Rightarrow> string \<Rightarrow> 16 word \<Rightarrow> int \<Rightarrow> int \<Rightarrow> CirCache \<Rightarrow> bool \<times> CirCache" where
  "put_write udi dic zdata flags nwriteoffs npad c =
     (let nsize = int (CIRCACHE_HEADER_SIZE + length dic + length zdata);
          h = \<lparr>dicsize = of_nat (length dic), datasize = of_nat (length zdata), padsize = word_of_int npad, hflags = flags\<rparr>
      in if nwriteoffs < 0 then (False, c)
         else
           let c1 = khEnter udi nwriteoffs (c\<lparr>cc_file := pwrite (cc_file c) nwriteoffs (header_block h @ dic @ zdata)\<rparr>);
               ohead = (if m_maxsize c \<le> nwriteoffs + nsize then int CIRCACHE_FIRSTBLOCK_SIZE
                        else nwriteoffs + nsize + npad)
           in writefirstblock (c1\<lparr>m_nheadoffs := nwriteoffs, m_npadsize := npad, m_oheadoffs := ohead\<rparr>))"

text \<open>The size of the file for the growth test was taken before the header of the newest entry is rewritten, which keeps it.\<close>

definition put_entry :: "string \<Rightarrow> string \<Rightarrow> string \<times> 16 word \<Rightarrow> CirCache \<Rightarrow> (bool \<times> CirCache) option" where
  "put_entry udi dic zd c =
     (let nsize = int (CIRCACHE_HEADER_SIZE + length dic + length (fst zd)) in
      case put_recover c of
        None \<Rightarrow> Some (False, c)
      | Some (recovpadsize, c1) \<Rightarrow>
          map_option (\<lambda>(npad, c2). case npad of
              None \<Rightarrow> (False, c2)
            | Some npad \<Rightarrow> put_write udi dic (fst zd) (snd zd) (m_oheadoffs c - recovpadsize) npad c2)
            (put_space nsize recovpadsize c1))"

definition put ::
  "(string \<Rightarrow> string option) \<Rightarrow> (string \<Rightarrow> string option) \<Rightarrow> (nat \<Rightarrow> nat \<Rightarrow> bool) \<Rightarrow>
   string \<Rightarrow> ConfSimple option \<Rightarrow> string \<Rightarrow> 32 word \<Rightarrow> CirCache \<Rightarrow> (bool \<times> CirCache) option" where
  "put inflate deflate worth udi iconf data iflags c =
     (if \<not> cc_fd c then Some (False, c)
      else case iconf of
          None \<Rightarrow> Some (False, c)
        | Some conf \<Rightarrow>
            if conf_get conf ''udi'' [] \<noteq> Some udi \<or> udi = [] then Some (False, c)
            else case (if m_uniquentries c then erase inflate udi False c else Some (True, c)) of
                None \<Rightarrow> None
              | Some (ok, c1) \<Rightarrow>
                  if \<not> ok then Some (False, c1)
                  else put_entry udi (snd (conf_write conf)) (put_compress deflate worth data iflags) c1)"

section \<open>Creating and opening\<close>

text \<open>\<open>content\<close> is what the file holds, \<open>None\<close> when it cannot be opened.\<close>

definition cc_open :: "string option \<Rightarrow> CirCache \<Rightarrow> (bool \<times> CirCache) run" where
  "cc_open content c =
     (case content of
        None \<Rightarrow> Inr (False, c\<lparr>cc_fd := False\<rparr>)
      | Some f \<Rightarrow> readfirstblock (c\<lparr>cc_fd := True, cc_file := f\<rparr>))"

definition CC_CRUNIQUE :: "32 word" where "CC_CRUNIQUE = 1"
definition CC_CRTRUNCATE :: "32 word" where "CC_CRTRUNCATE = 2"

definition create_new :: "int \<Rightarrow> 32 word \<Rightarrow> CirCache \<Rightarrow> bool \<times> CirCache" where
  "create_new maxsize flags c =
     writefirstblock (c\<lparr>cc_fd := True, cc_file := replicate CIRCACHE_FIRSTBLOCK_SIZE (CHR 0x00), m_maxsize := maxsize,
       m_oheadoffs := int CIRCACHE_FIRSTBLOCK_SIZE, m_uniquentries := (flags AND CC_CRUNIQUE \<noteq> 0)\<rparr>)"

text \<open>
  The file exists: its parameters are changed. The size that the new limit is compared with is the one of
  \<open>path_fileprops(m_dir)\<close>, which is the directory.
\<close>

definition create_resize :: "int \<Rightarrow> 32 word \<Rightarrow> int \<Rightarrow> CirCache \<Rightarrow> (bool \<times> CirCache) option" where
  "create_resize maxsize flags st_size c =
     (let unient = (flags AND CC_CRUNIQUE \<noteq> 0) in
      if maxsize = m_maxsize c \<and> unient = m_uniquentries c then Some (True, c)
      else
        map_option (\<lambda>c1. writefirstblock (c1\<lparr>m_maxsize := maxsize, m_uniquentries := unient\<rparr>))
          (if m_maxsize c < maxsize \<and> st_size < maxsize then
             map_option (\<lambda>(st, (headoffs, pad), c1).
                 c1\<lparr>m_oheadoffs := int (length (cc_file c1)), m_nheadoffs := headoffs, m_npadsize := sint pad\<rparr>)
               (scan hook_record False (int CIRCACHE_FIRSTBLOCK_SIZE) (0, 0) c)
           else Some c))"

text \<open>
  \<open>create\<close>: \<open>dirsize\<close> is the size of the directory if it exists, \<open>mkdir\<close> whether it can be made, \<open>old\<close> whether the file
  exists and what opening it gives. Opening a file to truncate it succeeds.
\<close>

definition create ::
  "int \<Rightarrow> 32 word \<Rightarrow> int option \<Rightarrow> bool \<Rightarrow> string option option \<Rightarrow> CirCache \<Rightarrow> (bool \<times> CirCache) run option" where
  "create maxsize flags dirsize mkdir old c =
     (case dirsize of
        None \<Rightarrow> Some (Inr (if mkdir then create_new maxsize flags c else (False, c)))
      | Some st_size \<Rightarrow>
          if old \<noteq> None \<and> flags AND CC_CRTRUNCATE = 0 then
            case cc_open (the old) c of
              Inl e \<Rightarrow> Some (Inl e)
            | Inr (ok, c1) \<Rightarrow>
                if \<not> ok then Some (Inr (False, c1))
                else map_option Inr (create_resize maxsize flags st_size c1)
          else Some (Inr (create_new maxsize flags c)))"

section \<open>Iteration\<close>

text \<open>The result, the end flag and the object.\<close>

definition rewind :: "CirCache \<Rightarrow> bool \<times> bool \<times> CirCache" where
  "rewind c =
     (if \<not> cc_fd c then (False, False, c)
      else
        let it = (if m_oheadoffs c = int (length (cc_file c)) then int CIRCACHE_FIRSTBLOCK_SIZE else m_oheadoffs c) in
        case readEntryHeader (cc_file c) it (m_ithd c) of (st, d) \<Rightarrow>
          (st = Continue, st = Eof, c\<lparr>m_itoffs := it, m_ithd := d\<rparr>))"

definition cc_next :: "CirCache \<Rightarrow> bool \<times> bool \<times> CirCache" where
  "cc_next c =
     (let it = add_offs (m_itoffs c) (entry_span (m_ithd c)) in
      if it = m_oheadoffs c then (False, True, c\<lparr>m_itoffs := it\<rparr>)
      else case readEntryHeader (cc_file c) it (m_ithd c) of (st, d) \<Rightarrow>
        if st = Eof then
          let bot = int CIRCACHE_FIRSTBLOCK_SIZE in
          if bot = m_oheadoffs c then (False, True, c\<lparr>m_itoffs := bot, m_ithd := d\<rparr>)
          else case readEntryHeader (cc_file c) bot d of (st, d) \<Rightarrow>
            (st = Continue, False, c\<lparr>m_itoffs := bot, m_ithd := d\<rparr>)
        else (st = Continue, False, c\<lparr>m_itoffs := it, m_ithd := d\<rparr>))"

definition getCurrentUdi :: "CirCache \<Rightarrow> string option \<times> CirCache" where
  "getCurrentUdi c =
     (case readHUdi (cc_file c) (m_itoffs c) (m_ithd c) of (d, udi) \<Rightarrow> (udi, c\<lparr>m_ithd := d\<rparr>))"

definition getCurrent ::
  "(string \<Rightarrow> string option) \<Rightarrow> bool \<Rightarrow> CirCache \<Rightarrow> (string \<times> string \<times> string option) option" where
  "getCurrent inflate want c =
     map_option (\<lambda>(dic, data).
         ((case dic_get True dic ''udi'' of None \<Rightarrow> [] | Some udi \<Rightarrow> udi), dic, data))
       (readDicData inflate (cc_file c) (m_itoffs c) (m_ithd c) want)"

end
