(* ===== verification/Cir_Scan.thy ===== *)
theory Cir_Scan
  imports Cir_Cache
begin

text \<open>
  The circular cache as a list of entries: the layout of the file, the order of age, and the scan as a walk
  over that list. On a well-formed file the scan ends, and its callbacks see every entry once, oldest first. From this
  follow the specifications of \<open>get\<close>, by the scan and by the map of offsets.
\<close>

section \<open>Layout\<close>

definition cc_bytes :: "CEntry list \<Rightarrow> string" where
  "cc_bytes es = concat (map entry_bytes es)"

lemma cc_bytes_simps [simp]:
  "cc_bytes [] = []" "cc_bytes (e # es) = entry_bytes e @ cc_bytes es" "cc_bytes (es @ es') = cc_bytes es @ cc_bytes es'"
  by (simp_all add: cc_bytes_def)

text \<open>Entries with their offsets.\<close>

fun place :: "nat \<Rightarrow> CEntry list \<Rightarrow> (nat \<times> CEntry) list" where
  "place n [] = []"
| "place n (e # es) = (n, e) # place (n + length (entry_bytes e)) es"

lemma place_append [simp]: "place n (es @ es') = place n es @ place (n + length (cc_bytes es)) es'"
  by (induction es arbitrary: n) (auto simp: add.assoc)

lemma map_snd_place [simp]: "map snd (place n es) = es"
  by (induction es arbitrary: n) auto

lemma set_place_snd: "(o1, e) \<in> set (place n es) \<Longrightarrow> e \<in> set es"
  by (metis map_snd_place set_map imageI snd_conv)

lemma place_split:
  "(o1, e) \<in> set (place n es) \<Longrightarrow> \<exists>xs ys. es = xs @ e # ys \<and> o1 = n + length (cc_bytes xs)"
proof (induction es arbitrary: n)
  case (Cons f fs)
  then consider "o1 = n" "e = f" | "(o1, e) \<in> set (place (n + length (entry_bytes f)) fs)" by auto
  then show ?case
  proof cases
    case 1
    then show ?thesis by (intro exI [of _ "[]"] exI [of _ fs]) auto
  next
    case 2
    then obtain xs ys where "fs = xs @ e # ys" "o1 = n + length (entry_bytes f) + length (cc_bytes xs)"
      using Cons.IH by blast
    then show ?thesis by (intro exI [of _ "f # xs"] exI [of _ ys]) auto
  qed
qed simp

lemma place_bounds: "(o1, e) \<in> set (place n es) \<Longrightarrow> n \<le> o1 \<and> o1 + length (entry_bytes e) \<le> n + length (cc_bytes es)"
  by (auto dest!: place_split)

lemma place_less: "(o1, e) \<in> set (place n es) \<Longrightarrow> o1 < n + length (cc_bytes es)"
  using place_bounds [of o1 e n es] by (metis add_lessD1 entry_bytes_not_Nil le_less_trans length_greater_0_conv less_add_same_cancel1 order_less_le_trans)

lemma distinct_place: "distinct (map fst (place n es))"
proof (induction es arbitrary: n)
  case (Cons e es)
  have "n < o1" if "(o1, f) \<in> set (place (n + length (entry_bytes e)) es)" for o1 f
    using place_bounds [OF that] by (metis add_leD1 entry_bytes_not_Nil le_neq_implies_less length_greater_0_conv less_add_same_cancel1 not_less)
  with Cons show ?case by fastforce
qed simp

text \<open>
  The file is the first block and the entries; the write position, where the oldest entry starts, is in front
  of entry \<open>k\<close> (of none, when it is at the end).
\<close>

definition layout :: "CirCache \<Rightarrow> CEntry list \<Rightarrow> nat \<Rightarrow> bool" where
  "layout c es k \<longleftrightarrow>
     cc_fd c \<and> length (cc_file c) < 2 ^ 63 \<and> (\<forall>e \<in> set es. entry_ok e) \<and> k \<le> length es \<and>
     m_oheadoffs c = int (CIRCACHE_FIRSTBLOCK_SIZE + length (cc_bytes (take k es))) \<and>
     CIRCACHE_FIRSTBLOCK_SIZE \<le> length (cc_file c) \<and> drop CIRCACHE_FIRSTBLOCK_SIZE (cc_file c) = cc_bytes es"

lemma layout_file:
  assumes "layout c es k"
  shows "cc_file c = take CIRCACHE_FIRSTBLOCK_SIZE (cc_file c) @ cc_bytes es"
    and "length (cc_file c) = CIRCACHE_FIRSTBLOCK_SIZE + length (cc_bytes es)"
  using assms by (auto simp: layout_def) (metis append_take_drop_id, metis le_add_diff_inverse length_drop)

text \<open>The entries from the oldest to the newest, with their offsets.\<close>

definition aged :: "CEntry list \<Rightarrow> nat \<Rightarrow> (nat \<times> CEntry) list" where
  "aged es k =
     place (CIRCACHE_FIRSTBLOCK_SIZE + length (cc_bytes (take k es))) (drop k es) @
     place CIRCACHE_FIRSTBLOCK_SIZE (take k es)"

lemma set_aged: "set (aged es k) = set (place CIRCACHE_FIRSTBLOCK_SIZE es)"
proof -
  have "place CIRCACHE_FIRSTBLOCK_SIZE es = place CIRCACHE_FIRSTBLOCK_SIZE (take k es @ drop k es)"
    by simp
  then show ?thesis
    unfolding aged_def place_append by auto
qed

lemma map_snd_aged: "map snd (aged es k) = drop k es @ take k es"
  by (simp add: aged_def)

lemma distinct_aged: "distinct (map fst (aged es k))"
proof -
  have "distinct (map fst (place CIRCACHE_FIRSTBLOCK_SIZE (take k es @ drop k es)))"
    by (rule distinct_place)
  then show ?thesis
    unfolding aged_def place_append by auto
qed

lemma layout_entry:
  assumes "layout c es k" and "(n, e) \<in> set (aged es k)"
  obtains pre post where "cc_file c = pre @ entry_bytes e @ post" "length pre = n" "entry_ok e"
    "CIRCACHE_FIRSTBLOCK_SIZE \<le> n"
proof -
  obtain xs ys where e: "es = xs @ e # ys" "n = CIRCACHE_FIRSTBLOCK_SIZE + length (cc_bytes xs)"
    using place_split assms(2) unfolding set_aged by blast
  show ?thesis
  proof
    show "cc_file c = (take CIRCACHE_FIRSTBLOCK_SIZE (cc_file c) @ cc_bytes xs) @ entry_bytes e @ cc_bytes ys"
      using layout_file(1) [OF assms(1)] e(1) by simp
  qed (use assms(1) e in \<open>auto simp: layout_def\<close>)
qed

section \<open>The scan as a walk\<close>

definition enter :: "nat \<times> CEntry \<Rightarrow> CirCache \<Rightarrow> CirCache" where
  "enter p c = (if e_dic (snd p) \<noteq> [] then khEnter (e_udi (snd p)) (int (fst p)) c else c)"

fun walk :: "'u hook \<Rightarrow> (nat \<times> CEntry) list \<Rightarrow> 'u \<Rightarrow> CirCache \<Rightarrow> CCStatus \<times> 'u \<times> CirCache" where
  "walk takeone [] u c = (Continue, u, c)"
| "walk takeone (p # ps) u c =
     (case takeone u (int (fst p)) (e_udi (snd p)) (e_hd (snd p)) of (a, u1) \<Rightarrow>
        if a \<noteq> Continue then (a, u1, enter p c) else walk takeone ps u1 (enter p c))"

lemma khEnter_sel [simp]:
  "cc_fd (khEnter udi n c) = cc_fd c" "cc_file (khEnter udi n c) = cc_file c" "m_maxsize (khEnter udi n c) = m_maxsize c"
  "m_oheadoffs (khEnter udi n c) = m_oheadoffs c" "m_nheadoffs (khEnter udi n c) = m_nheadoffs c"
  "m_npadsize (khEnter udi n c) = m_npadsize c" "m_uniquentries (khEnter udi n c) = m_uniquentries c"
  "m_ofskhcplt (khEnter udi n c) = m_ofskhcplt c"
  by (simp_all add: khEnter_def Let_def)

lemma enter_sel [simp]:
  "cc_fd (enter p c) = cc_fd c" "cc_file (enter p c) = cc_file c" "m_maxsize (enter p c) = m_maxsize c"
  "m_oheadoffs (enter p c) = m_oheadoffs c" "m_nheadoffs (enter p c) = m_nheadoffs c"
  "m_npadsize (enter p c) = m_npadsize c" "m_uniquentries (enter p c) = m_uniquentries c"
  "m_ofskhcplt (enter p c) = m_ofskhcplt c"
  by (simp_all add: enter_def)

lemma scan_udi_entry:
  assumes "cc_file c = pre @ entry_bytes e @ post" and "entry_ok e"
  shows "scan_udi (cc_file c) (int (length pre)) (e_hd e) = Some (e_udi e)"
proof -
  have "pread (cc_file c) (int (length pre) + 64) (unat (dicsize (e_hd e))) = e_dic e"
    using pread_entry(1) [of "int (length pre)" pre e post] assms by (simp add: entry_ok_def)
  then show ?thesis
    using assms(2) entry_ok_sint(1) [OF assms(2)] entry_ok_dicsize [OF assms(2)]
    by (auto simp: scan_udi_def Let_def e_udi_def entry_ok_def dic_ok_def)
qed

lemma scan_loop_entry:
  assumes "cc_file c = pre @ entry_bytes e @ post" and "entry_ok e" and "length (cc_file c) < 2 ^ 63"
    and "\<not> (already \<and> int (length pre) = so0)"
  shows "scan_loop takeone foldit so0 already (int (length pre)) u c =
    (case takeone u (int (length pre)) (e_udi e) (e_hd e) of (a, u1) \<Rightarrow>
       if a \<noteq> Continue then Some (a, u1, enter (length pre, e) c)
       else scan_loop takeone foldit so0 already (int (length pre + length (entry_bytes e))) u1 (enter (length pre, e) c))"
proof -
  have "readEntryHeader (cc_file c) (int (length pre)) empty_header = (Continue, e_hd e)"
    using readEntryHeader_entry [of "int (length pre)" pre e post] assms(1) by simp
  moreover have "add_offs (int (length pre)) (entry_span (e_hd e)) = int (length pre + length (entry_bytes e))"
    using assms(1,3) by (intro add_offs_entry [OF assms(2)]) simp
  moreover have "(already \<and> int (length pre) = so0) = False"
    using assms(4) by blast
  ultimately show ?thesis
    unfolding scan_loop.simps [of takeone foldit so0 already "int (length pre)" u c]
    using scan_udi_entry [OF assms(1,2)] entry_ok_dicsize [OF assms(2)]
    by (simp only: if_False) (simp add: enter_def Let_def split: prod.splits)
qed

lemma scan_loop_walk:
  assumes "cc_file c = pre @ cc_bytes es @ post" and "\<forall>e \<in> set es. entry_ok e" and "length (cc_file c) < 2 ^ 63"
    and "already \<Longrightarrow> so0 < int (length pre) \<or> int (length pre + length (cc_bytes es)) \<le> so0"
  shows "scan_loop takeone foldit so0 already (int (length pre)) u c =
    (case walk takeone (place (length pre) es) u c of (a, u1, c1) \<Rightarrow>
       if a \<noteq> Continue then Some (a, u1, c1)
       else scan_loop takeone foldit so0 already (int (length pre + length (cc_bytes es))) u1 c1)"
  using assms
proof (induction es arbitrary: pre u c)
  case (Cons e es)
  let ?pre = "pre @ entry_bytes e"
  have bytes: "cc_file c = pre @ entry_bytes e @ cc_bytes es @ post" and ok: "entry_ok e"
    using Cons.prems by simp_all
  have "64 \<le> length (entry_bytes e)" by (simp add: length_entry_bytes)
  then have ne: "\<not> (already \<and> int (length pre) = so0)"
    using Cons.prems(4) by auto
  have IH: "scan_loop takeone foldit so0 already (int (length ?pre)) u1 (enter (length pre, e) c) =
      (case walk takeone (place (length ?pre) es) u1 (enter (length pre, e) c) of (a, u1, c1) \<Rightarrow>
         if a \<noteq> Continue then Some (a, u1, c1)
         else scan_loop takeone foldit so0 already (int (length ?pre + length (cc_bytes es))) u1 c1)" for u1
  proof (rule Cons.IH)
    show "cc_file (enter (length pre, e) c) = ?pre @ cc_bytes es @ post" using bytes by simp
    assume already
    then show "so0 < int (length ?pre) \<or> int (length ?pre + length (cc_bytes es)) \<le> so0"
      using Cons.prems(4) by auto
  qed (use Cons.prems in auto)
  show ?case
    using scan_loop_entry [OF bytes ok Cons.prems(3) ne, of takeone foldit u] IH
    by (auto simp: add.assoc split: prod.splits)
qed simp

lemma walk_append:
  "walk takeone (ps @ qs) u c =
    (case walk takeone ps u c of (a, u1, c1) \<Rightarrow> if a \<noteq> Continue then (a, u1, c1) else walk takeone qs u1 c1)"
  by (induction ps arbitrary: u c) (auto split: prod.splits)

text \<open>What a walk does to the object: it enters the entries it has seen.\<close>

lemma walk_enters:
  "walk takeone ps u c = (a, u1, c1) \<Longrightarrow>
    \<exists>qs rs. ps = qs @ rs \<and> c1 = fold enter qs c \<and> (a = Continue \<longrightarrow> rs = [])"
proof (induction ps arbitrary: u c)
  case Nil
  then show ?case by (intro exI [of _ "[]"]) simp
next
  case (Cons p ps)
  obtain b u2 where t: "takeone u (int (fst p)) (e_udi (snd p)) (e_hd (snd p)) = (b, u2)" by force
  show ?case
  proof (cases "b = Continue")
    case True
    then obtain qs rs where "ps = qs @ rs \<and> c1 = fold enter qs (enter p c) \<and> (a = Continue \<longrightarrow> rs = [])"
      using Cons.IH [of u2 "enter p c"] Cons.prems t by auto
    then show ?thesis by (intro exI [of _ "p # qs"] exI [of _ rs]) simp
  next
    case False
    then show ?thesis
      using Cons.prems t by (intro exI [of _ "[p]"] exI [of _ ps]) auto
  qed
qed

lemma fold_enter_sel [simp]:
  "cc_fd (fold enter ps c) = cc_fd c" "cc_file (fold enter ps c) = cc_file c" "m_maxsize (fold enter ps c) = m_maxsize c"
  "m_oheadoffs (fold enter ps c) = m_oheadoffs c" "m_nheadoffs (fold enter ps c) = m_nheadoffs c"
  "m_npadsize (fold enter ps c) = m_npadsize c" "m_uniquentries (fold enter ps c) = m_uniquentries c"
  "m_ofskhcplt (fold enter ps c) = m_ofskhcplt c"
  by (induction ps arbitrary: c) auto

lemma walk_file: "walk takeone ps u c = (a, u1, c1) \<Longrightarrow> cc_file c1 = cc_file c \<and> m_oheadoffs c1 = m_oheadoffs c"
  by (auto dest: walk_enters)

text \<open>A scan without folding goes to the end of the file.\<close>

lemma scan_loop_end:
  assumes "cc_file c = pre" and "\<not> (foldit \<and> \<not> already)" and "\<not> (already \<and> int (length pre) = so0)"
  shows "scan_loop takeone foldit so0 already (int (length pre)) u c = Some (Eof, u, c)"
proof -
  have "(already \<and> int (length pre) = so0) = False"
    using assms(3) by blast
  then show ?thesis
    unfolding scan_loop.simps [of takeone foldit so0 already "int (length pre)" u c]
    using assms(1,2) by (simp only: if_False) (auto simp: readEntryHeader_eof)
qed

lemma scan_tail:
  assumes "cc_file c = pre @ cc_bytes es" and "\<forall>e \<in> set es. entry_ok e" and "length (cc_file c) < 2 ^ 63" and "cc_fd c"
  shows "scan takeone False (int (length pre)) u c =
    (case walk takeone (place (length pre) es) u c of (a, u1, c1) \<Rightarrow> Some (if a \<noteq> Continue then a else Eof, u1, c1))"
proof -
  obtain a u1 c1 where w: "walk takeone (place (length pre) es) u c = (a, u1, c1)"
    by (metis surj_pair)
  have "length pre + length (cc_bytes es) = length (cc_file c1)"
    using walk_file [OF w] assms(1) by simp
  then have "scan_loop takeone False (int (length pre)) False (int (length pre + length (cc_bytes es))) u1 c1 = Some (Eof, u1, c1)"
    using scan_loop_end [of c1 "cc_file c1" False False "int (length pre)" takeone u1] by simp
  then show ?thesis
    using scan_loop_walk [of c pre es "[]" False "int (length pre)" takeone False u] assms by (simp add: scan_def w)
qed

text \<open>A scan that folds sees the entries from the oldest to the newest, and then the map is complete.\<close>

lemma scan_folding:
  assumes "layout c es k"
  shows "scan takeone True (m_oheadoffs c) u c =
    (case walk takeone (aged es k) u c of (a, u1, c1) \<Rightarrow>
       Some (if a \<noteq> Continue then (a, u1, c1) else (Eof, u1, c1\<lparr>m_ofskhcplt := True\<rparr>)))"
proof -
  let ?so = "m_oheadoffs c"
  define fb where "fb = take CIRCACHE_FIRSTBLOCK_SIZE (cc_file c)"
  define pre where "pre = fb @ cc_bytes (take k es)"
  have f: "cc_file c = pre @ cc_bytes (drop k es) @ []" and g: "cc_file c = fb @ cc_bytes (take k es) @ cc_bytes (drop k es)"
    using layout_file(1) [OF assms] by (simp_all add: fb_def pre_def flip: cc_bytes_simps(3))
  have l: "length pre = CIRCACHE_FIRSTBLOCK_SIZE + length (cc_bytes (take k es))" "length fb = CIRCACHE_FIRSTBLOCK_SIZE"
    and ok: "\<forall>e \<in> set (drop k es). entry_ok e" "\<forall>e \<in> set (take k es). entry_ok e" "length (cc_file c) < 2 ^ 63" "cc_fd c"
    and so: "?so = int (length pre)"
    using assms by (auto simp: layout_def fb_def pre_def dest: in_set_dropD in_set_takeD)
  have bot: "scan_loop takeone True ?so False (int (length pre + length (cc_bytes (drop k es)))) u1 c1 =
      scan_loop takeone True ?so True (int CIRCACHE_FIRSTBLOCK_SIZE) u1 c1" if "cc_file c1 = cc_file c" for u1 c1
  proof -
    have "length pre + length (cc_bytes (drop k es)) = length (cc_file c1)"
      using arg_cong [OF f, of length] that by simp
    then show ?thesis
      by (subst scan_loop.simps) (simp add: readEntryHeader_eof)
  qed
  have last: "scan_loop takeone True ?so True (int (length fb + length (cc_bytes (take k es)))) u1 c1 =
      Some (Eof, u1, c1\<lparr>m_ofskhcplt := True\<rparr>)" for u1 c1
    using so l by (subst scan_loop.simps) simp
  have second: "scan_loop takeone True ?so True (int CIRCACHE_FIRSTBLOCK_SIZE) u1 c1 =
      (case walk takeone (place CIRCACHE_FIRSTBLOCK_SIZE (take k es)) u1 c1 of (a, u2, c2) \<Rightarrow>
         if a \<noteq> Continue then Some (a, u2, c2) else Some (Eof, u2, c2\<lparr>m_ofskhcplt := True\<rparr>))"
    if "cc_file c1 = cc_file c" for u1 c1
    using scan_loop_walk [of c1 fb "take k es" "cc_bytes (drop k es)" True ?so takeone True u1] that g ok last so l
    by (simp split: prod.splits)
  obtain a u1 c1 where w: "walk takeone (place (length pre) (drop k es)) u c = (a, u1, c1)"
    by (metis surj_pair)
  have c1: "cc_file c1 = cc_file c"
    using walk_file [OF w] by simp
  have "scan takeone True ?so u c =
      (if a \<noteq> Continue then Some (a, u1, c1) else scan_loop takeone True ?so True (int CIRCACHE_FIRSTBLOCK_SIZE) u1 c1)"
    using scan_loop_walk [OF f ok(1,3), of False ?so takeone True u] ok(4) bot [OF c1, of u1]
    by (simp add: scan_def so w)
  then show ?thesis
    unfolding aged_def walk_append l(1) [symmetric] w second [OF c1]
    by (simp split: prod.splits)
qed

end
