(* ===== verification/Cir_Get.thy ===== *)
theory Cir_Get
  imports Cir_Scan
begin

text \<open>
  Lookup in the circular cache: what the map of offsets has to satisfy, and the specification of \<open>get\<close> by the list of
  entries in the order of age, for the scan and for the map.
\<close>

section \<open>The map of offsets\<close>

text \<open>
  The offsets of an identifier's entries from the oldest to the newest. The map is sound when it has only
  entries that exist and are not erased, each once, and ordered when it has those of an identifier in the order of
  age, starting with the oldest; all of them when it is said to be complete. It is full when it has them all, said so or not.
\<close>

definition offs_of :: "string \<Rightarrow> (nat \<times> CEntry) list \<Rightarrow> int list" where
  "offs_of udi ps = map (\<lambda>p. int (fst p)) (filter (\<lambda>p. e_dic (snd p) \<noteq> [] \<and> e_udi (snd p) = udi) ps)"

definition kh_sound :: "CirCache \<Rightarrow> (nat \<times> CEntry) list \<Rightarrow> bool" where
  "kh_sound c ps \<longleftrightarrow> distinct (m_ofskh c) \<and>
     (\<forall>(h, n) \<in> set (m_ofskh c). \<exists>p \<in> set ps. n = int (fst p) \<and> e_dic (snd p) \<noteq> [] \<and> h = UdiH (e_udi (snd p)))"

definition kh_known :: "string \<Rightarrow> CirCache \<Rightarrow> (nat \<times> CEntry) list \<Rightarrow> int list" where
  "kh_known udi c ps = filter (\<lambda>n. n \<in> set (offs_of udi ps)) (khFind udi c)"

definition kh_ordered :: "CirCache \<Rightarrow> (nat \<times> CEntry) list \<Rightarrow> bool" where
  "kh_ordered c ps \<longleftrightarrow>
     (\<forall>udi. prefix (kh_known udi c ps) (offs_of udi ps) \<and> (m_ofskhcplt c \<longrightarrow> kh_known udi c ps = offs_of udi ps))"

definition kh_full :: "CirCache \<Rightarrow> (nat \<times> CEntry) list \<Rightarrow> bool" where
  "kh_full c ps \<longleftrightarrow> (\<forall>udi. kh_known udi c ps = offs_of udi ps)"

definition kh_complete :: "CirCache \<Rightarrow> (nat \<times> CEntry) list \<Rightarrow> bool" where
  "kh_complete c ps \<longleftrightarrow> (\<forall>p \<in> set ps. e_dic (snd p) \<noteq> [] \<longrightarrow> (UdiH (e_udi (snd p)), int (fst p)) \<in> set (m_ofskh c))"

lemma kh_full_ordered: "kh_full c ps \<Longrightarrow> kh_ordered c ps" "kh_ordered c ps \<Longrightarrow> m_ofskhcplt c \<Longrightarrow> kh_full c ps"
  by (simp_all add: kh_full_def kh_ordered_def)

lemma offs_of_simps [simp]:
  "offs_of udi [] = []"
  "offs_of udi (p # ps) = (if e_dic (snd p) \<noteq> [] \<and> e_udi (snd p) = udi then [int (fst p)] else []) @ offs_of udi ps"
  "offs_of udi (ps @ qs) = offs_of udi ps @ offs_of udi qs"
  by (simp_all add: offs_of_def)

lemma set_offs_of: "n \<in> set (offs_of udi ps) \<longleftrightarrow> (\<exists>p \<in> set ps. n = int (fst p) \<and> e_dic (snd p) \<noteq> [] \<and> e_udi (snd p) = udi)"
  by (auto simp: offs_of_def)

lemma set_khFind: "n \<in> set (khFind udi c) \<longleftrightarrow> (UdiH udi, n) \<in> set (m_ofskh c)"
  by (force simp: khFind_def)

lemma khFind_enter:
  "khFind udi (enter p c) = khFind udi c @
    (if e_dic (snd p) \<noteq> [] \<and> UdiH (e_udi (snd p)) = UdiH udi \<and> int (fst p) \<notin> set (khFind udi c) then [int (fst p)] else [])"
  by (force simp: enter_def khEnter_def khFind_def Let_def)

text \<open>Entering is by age, so the map stays ordered while a scan fills it.\<close>

lemma distinct_fst_same:
  "distinct (map fst ps) \<Longrightarrow> p \<in> set ps \<Longrightarrow> q \<in> set ps \<Longrightarrow> fst p = fst q \<Longrightarrow> p = q"
  by (metis distinct_map inj_onD)

lemma kh_sound_enter: "kh_sound c ps \<Longrightarrow> p \<in> set ps \<Longrightarrow> kh_sound (enter p c) ps"
  by (auto simp: kh_sound_def enter_def khEnter_def Let_def)

lemma kh_sound_enters: "kh_sound c ps \<Longrightarrow> set qs \<subseteq> set ps \<Longrightarrow> kh_sound (fold enter qs c) ps"
  by (induction qs arbitrary: c) (auto simp: kh_sound_enter)

lemma known_enter:
  assumes "distinct (map fst ps)" and "p \<in> set ps"
  shows "kh_known udi (enter p c) ps = kh_known udi c ps @
    (if e_dic (snd p) \<noteq> [] \<and> e_udi (snd p) = udi \<and> int (fst p) \<notin> set (kh_known udi c ps) then [int (fst p)] else [])"
proof -
  have "int (fst p) \<in> set (offs_of udi ps) \<longleftrightarrow> e_dic (snd p) \<noteq> [] \<and> e_udi (snd p) = udi"
    using assms distinct_fst_same [OF assms(1) _ assms(2)] by (auto simp: set_offs_of)
  then show ?thesis
    by (auto simp: kh_known_def khFind_enter)
qed

lemma distinct_offs_of: "distinct (map fst ps) \<Longrightarrow> distinct (offs_of udi ps)"
  by (induction ps) (auto simp: set_offs_of)

lemma known_enters:
  assumes "distinct (map fst ps)" and "ps = qs @ rs" and "prefix (kh_known udi c ps) (offs_of udi ps)"
  shows "kh_known udi (fold enter qs c) ps =
    (if length (kh_known udi c ps) \<le> length (offs_of udi qs) then offs_of udi qs else kh_known udi c ps)"
  using assms
proof (induction qs arbitrary: rs rule: rev_induct)
  case Nil
  then show ?case by auto
next
  case (snoc p qs)
  let ?K = "kh_known udi c ps" and ?m = "e_dic (snd p) \<noteq> [] \<and> e_udi (snd p) = udi"
  have ps: "ps = qs @ p # rs" "p \<in> set ps" and pre: "prefix ?K (offs_of udi ps)"
    using snoc.prems by simp_all
  have IH: "kh_known udi (fold enter qs c) ps = (if length ?K \<le> length (offs_of udi qs) then offs_of udi qs else ?K)"
    using snoc.IH [of "p # rs"] snoc.prems by simp
  have new: "int (fst p) \<notin> set (offs_of udi qs)" if ?m
    using distinct_offs_of [OF snoc.prems(1), of udi] that by (auto simp: ps(1))
  show ?case
  proof (cases "length ?K \<le> length (offs_of udi qs)")
    case True
    then show ?thesis
      using IH new by (auto simp: known_enter [OF snoc.prems(1) ps(2)])
  next
    case False
    let ?O = "offs_of udi (qs @ [p])"
    have "prefix ?O (offs_of udi ps)" and "length ?O \<le> length ?K"
      using False by (simp_all add: ps(1))
    then have O: "prefix ?O ?K"
      using pre by (metis prefix_length_prefix)
    then have "?m \<Longrightarrow> int (fst p) \<in> set ?K"
      by (auto dest!: set_mono_prefix)
    moreover have "length ?K \<le> length ?O \<Longrightarrow> ?O = ?K"
      using O by (auto simp: prefix_def)
    ultimately show ?thesis
      using IH False by (auto simp: known_enter [OF snoc.prems(1) ps(2)])
  qed
qed

text \<open>The same for all entries of the map, after a whole walk.\<close>

lemma known_all:
  "distinct (map fst ps) \<Longrightarrow> prefix (kh_known udi c ps) (offs_of udi ps) \<Longrightarrow>
    kh_known udi (fold enter ps c) ps = offs_of udi ps"
  using known_enters [of ps ps "[]" udi c] prefix_length_le [of "kh_known udi c ps" "offs_of udi ps"] by simp

lemma ofskh_enter: "set (m_ofskh c) \<subseteq> set (m_ofskh (enter p c))"
  by (auto simp: enter_def khEnter_def Let_def)

lemma enter_mem: "e_dic (snd p) \<noteq> [] \<Longrightarrow> (UdiH (e_udi (snd p)), int (fst p)) \<in> set (m_ofskh (enter p c))"
  by (auto simp: enter_def khEnter_def Let_def)

lemma ofskh_enters: "set (m_ofskh c) \<subseteq> set (m_ofskh (fold enter ps c))"
proof (induction ps arbitrary: c)
  case (Cons p ps)
  then show ?case
    using ofskh_enter [of c p] by (simp only: fold_simps) (blast intro: order_trans)
qed simp

lemma kh_complete_enters: "kh_complete (fold enter ps c) ps"
proof -
  have "(UdiH (e_udi (snd p)), int (fst p)) \<in> set (m_ofskh (fold enter ps c))" if mem: "p \<in> set ps" and live: "e_dic (snd p) \<noteq> []" for p
  proof -
    obtain qs rs where ps: "ps = qs @ p # rs"
      using split_list [OF mem] by blast
    have "(UdiH (e_udi (snd p)), int (fst p)) \<in> set (m_ofskh (enter p (fold enter qs c)))"
      using live by (rule enter_mem)
    then have "(UdiH (e_udi (snd p)), int (fst p)) \<in> set (m_ofskh (fold enter rs (enter p (fold enter qs c))))"
      by (rule subsetD [OF ofskh_enters])
    then show ?thesis
      by (simp only: ps fold_append fold_simps o_apply)
  qed
  then show ?thesis
    by (simp add: kh_complete_def)
qed

definition kh_inv :: "CirCache \<Rightarrow> (nat \<times> CEntry) list \<Rightarrow> bool" where
  "kh_inv c ps \<longleftrightarrow> kh_sound c ps \<and> (m_ofskhcplt c \<longrightarrow> kh_complete c ps)"

lemma kh_complete_more: "kh_complete c ps \<Longrightarrow> set (m_ofskh c) \<subseteq> set (m_ofskh c') \<Longrightarrow> kh_complete c' ps"
  unfolding kh_complete_def by blast

lemma cplt_sel [simp]:
  "khFind udi (c\<lparr>m_ofskhcplt := b\<rparr>) = khFind udi c" "kh_known udi (c\<lparr>m_ofskhcplt := b\<rparr>) ps = kh_known udi c ps"
  "kh_sound (c\<lparr>m_ofskhcplt := b\<rparr>) ps = kh_sound c ps" "kh_complete (c\<lparr>m_ofskhcplt := b\<rparr>) ps = kh_complete c ps"
  "layout (c\<lparr>m_ofskhcplt := b\<rparr>) es k = layout c es k"
  by (simp_all add: khFind_def kh_known_def kh_sound_def kh_complete_def layout_def)

lemma layout_enters [simp]: "layout (fold enter ps c) es k = layout c es k"
  by (simp add: layout_def)

lemma kh_inv_enters:
  "kh_inv c ps \<Longrightarrow> set qs \<subseteq> set ps \<Longrightarrow> kh_inv (fold enter qs c) ps"
  by (simp add: kh_inv_def kh_sound_enters kh_complete_more [OF _ ofskh_enters])

lemma kh_ordered_enters:
  assumes "distinct (map fst ps)" and "ps = qs @ rs" and "kh_ordered c ps"
  shows "kh_ordered (fold enter qs c) ps"
proof -
  have "prefix (kh_known udi (fold enter qs c) ps) (offs_of udi ps)" for udi
    using known_enters [OF assms(1,2), of udi c] assms(3) unfolding kh_ordered_def by (simp add: assms(2))
  moreover have "m_ofskhcplt c \<Longrightarrow> kh_known udi (fold enter qs c) ps = offs_of udi ps" for udi
    using known_enters [OF assms(1,2), of udi c] assms(3) unfolding kh_ordered_def by (auto simp: assms(2) split: if_splits)
  ultimately show ?thesis
    by (simp add: kh_ordered_def)
qed

lemma kh_full_enters:
  assumes "distinct (map fst ps)" and "ps = qs @ rs" and "kh_full c ps"
  shows "kh_full (fold enter qs c) ps"
proof -
  have "kh_known udi (fold enter qs c) ps = offs_of udi ps" for udi
    using known_enters [OF assms(1,2), of udi c] assms(3) unfolding kh_full_def by (auto simp: assms(2))
  then show ?thesis
    by (simp add: kh_full_def)
qed

section \<open>Lookup\<close>

text \<open>
  Instance \<open>i\<close> of the entries of an identifier: counted from the oldest, starting with 1, and the newest when there are not so
  many or \<open>i\<close> is not positive.
\<close>

definition mates :: "string \<Rightarrow> (nat \<times> CEntry) list \<Rightarrow> (nat \<times> CEntry) list" where
  "mates udi ps = filter (\<lambda>p. e_dic (snd p) \<noteq> [] \<and> e_udi (snd p) = udi) ps"

definition cc_instance :: "int \<Rightarrow> 'a list \<Rightarrow> 'a option" where
  "cc_instance i ms =
     (if ms = [] then None else if 1 \<le> i \<and> i \<le> int (length ms) then Some (ms ! (nat i - 1)) else Some (last ms))"

text \<open>What a lookup returns for an entry.\<close>

definition entry_result :: "(string \<Rightarrow> string option) \<Rightarrow> bool \<Rightarrow> CEntry \<Rightarrow> (string \<times> string option) option" where
  "entry_result inflate want e =
     (if want then map_option (\<lambda>v. (e_dic e, Some v)) (e_value inflate e) else Some (e_dic e, None))"

lemma mates_simps [simp]:
  "mates udi [] = []"
  "mates udi (p # ps) = (if e_dic (snd p) \<noteq> [] \<and> e_udi (snd p) = udi then p # mates udi ps else mates udi ps)"
  "mates udi (ps @ qs) = mates udi ps @ mates udi qs"
  by (simp_all add: mates_def)

lemma set_mates: "set (mates udi ps) \<subseteq> set ps"
  by (auto simp: mates_def)

lemma offs_of_mates: "offs_of udi ps = map (\<lambda>p. int (fst p)) (mates udi ps)"
  by (simp add: offs_of_def mates_def)

lemma e_udi_live: "udi \<noteq> [] \<Longrightarrow> e_udi e = udi \<Longrightarrow> e_dic e \<noteq> []"
  by (auto simp: e_udi_def)

lemma walk_getter:
  assumes "udi \<noteq> []" and "walk (hook_getter udi ti) ps (n, o0, h0) c = (st, u1, c1)"
  shows "if n < ti \<and> ti \<le> n + int (length (mates udi ps))
    then st = Stop \<and> u1 = (ti, int (fst (mates udi ps ! nat (ti - n - 1))), e_hd (snd (mates udi ps ! nat (ti - n - 1))))
    else st = Continue \<and> u1 = (n + int (length (mates udi ps)),
      (if mates udi ps = [] then (o0, h0) else (int (fst (last (mates udi ps))), e_hd (snd (last (mates udi ps))))))"
  using assms(2)
proof (induction ps arbitrary: n o0 h0 c)
  case Nil
  then show ?case by simp
next
  case (Cons p ps)
  show ?case
  proof (cases "e_udi (snd p) = udi")
    case False
    then show ?thesis
      using Cons.IH [of n o0 h0 "enter p c"] Cons.prems by simp
  next
    case True
    note live = e_udi_live [OF assms(1) True]
    show ?thesis
    proof (cases "n + 1 = ti")
      case True': True
      then show ?thesis
        using Cons.prems True live by auto
    next
      case False
      then have "if n + 1 < ti \<and> ti \<le> n + 1 + int (length (mates udi ps))
        then st = Stop \<and> u1 = (ti, int (fst (mates udi ps ! nat (ti - (n + 1) - 1))), e_hd (snd (mates udi ps ! nat (ti - (n + 1) - 1))))
        else st = Continue \<and> u1 = (n + 1 + int (length (mates udi ps)),
          (if mates udi ps = [] then (int (fst p), e_hd (snd p))
           else (int (fst (last (mates udi ps))), e_hd (snd (last (mates udi ps))))))"
        using Cons.IH [of "n + 1" "int (fst p)" "e_hd (snd p)" "enter p c"] Cons.prems True by simp
      moreover have "nat (ti - n - 1) = Suc (nat (ti - (n + 1) - 1))" if "n + 1 < ti"
        using that by simp
      ultimately show ?thesis
        using True live False by (auto split: if_splits)
    qed
  qed
qed

text \<open>The entry that instance \<open>i\<close> is, in the terms of the walk.\<close>

lemma getter_instance:
  assumes "udi \<noteq> []" and "walk (hook_getter udi i) ps (0, 0, empty_header) c = (st, (n, offs, d), c1)"
  shows "case cc_instance i (mates udi ps) of
      None \<Rightarrow> st = Continue \<and> n = 0
    | Some p \<Rightarrow> (st = Stop \<or> st = Continue \<and> n \<noteq> 0) \<and> offs = int (fst p) \<and> d = e_hd (snd p)"
proof (cases "0 < i \<and> i \<le> int (length (mates udi ps))")
  case True
  then have "nat (i - 1) = nat i - 1" by simp
  with True show ?thesis
    using walk_getter [OF assms] by (auto simp: cc_instance_def)
next
  case False
  then show ?thesis
    using walk_getter [OF assms] by (auto simp: cc_instance_def split: if_splits)
qed

lemma readDicData_layout:
  assumes "layout c es k" and "p \<in> set (aged es k)"
  shows "readDicData inflate (cc_file c) (int (fst p)) (e_hd (snd p)) want = entry_result inflate want (snd p)"
proof -
  obtain n e where p: "p = (n, e)" by force
  obtain pre post where "cc_file c = pre @ entry_bytes e @ post" "length pre = n" "entry_ok e"
    using layout_entry [OF assms(1), of n e] assms(2) p by metis
  then show ?thesis
    using readDicData_entry [of "int n" pre e inflate post want] by (simp add: p entry_result_def)
qed

lemma readHUdi_layout:
  assumes "layout c es k" and "p \<in> set (aged es k)"
  shows "readHUdi (cc_file c) (int (fst p)) d0 = (e_hd (snd p), Some (e_udi (snd p)))"
proof -
  obtain n e where p: "p = (n, e)" by force
  obtain pre post where "cc_file c = pre @ entry_bytes e @ post" "length pre = n" "entry_ok e"
    using layout_entry [OF assms(1), of n e] assms(2) p by metis
  then show ?thesis
    using readHUdi_entry [of "int n" pre e post d0] by (simp add: p)
qed

text \<open>A state that a lookup can leave behind: some entries from the oldest on have been entered, all of them if the map is now complete.\<close>

definition looked :: "CirCache \<Rightarrow> (nat \<times> CEntry) list \<Rightarrow> CirCache \<Rightarrow> bool" where
  "looked c ps c' \<longleftrightarrow>
     c' = c \<or> (\<exists>qs rs. ps = qs @ rs \<and> c' = fold enter qs c) \<or> c' = (fold enter ps c)\<lparr>m_ofskhcplt := True\<rparr>"

lemma get_scan_spec:
  assumes "layout c es k" and "udi \<noteq> []"
  shows "\<exists>c'. get_scan inflate udi want i c =
      Some (case cc_instance i (mates udi (aged es k)) of None \<Rightarrow> None | Some p \<Rightarrow> entry_result inflate want (snd p), c') \<and>
    looked c (aged es k) c'"
proof -
  let ?ps = "aged es k"
  obtain st n offs d c1 where w: "walk (hook_getter udi i) ?ps (0, 0, empty_header) c = (st, (n, offs, d), c1)"
    by (metis surj_pair)
  obtain qs rs where q: "?ps = qs @ rs" "c1 = fold enter qs c" "st = Continue \<longrightarrow> rs = []"
    using walk_enters [OF w] by blast
  let ?c = "if st \<noteq> Continue then c1 else c1\<lparr>m_ofskhcplt := True\<rparr>"
  have sc: "get_scan inflate udi want i c =
      Some (if st = Stop \<or> (st = Eof \<or> st = Continue) \<and> n \<noteq> 0 then readDicData inflate (cc_file ?c) offs d want else None, ?c)"
    using scan_folding [OF assms(1), of "hook_getter udi i" "(0, 0, empty_header)"] w by (auto simp: get_scan_def)
  have l: "looked c ?ps ?c"
    using q by (auto simp: looked_def)
  have f: "cc_file ?c = cc_file c"
    using q by simp
  have "(if st = Stop \<or> (st = Eof \<or> st = Continue) \<and> n \<noteq> 0 then readDicData inflate (cc_file ?c) offs d want else None) =
      (case cc_instance i (mates udi ?ps) of None \<Rightarrow> None | Some p \<Rightarrow> entry_result inflate want (snd p))"
  proof (cases "cc_instance i (mates udi ?ps)")
    case None
    then show ?thesis
      using getter_instance [OF assms(2) w] by auto
  next
    case (Some p)
    then have "p \<in> set (mates udi ?ps)"
      by (auto simp: cc_instance_def split: if_splits)
    then have "p \<in> set ?ps"
      using set_mates by blast
    then show ?thesis
      using getter_instance [OF assms(2) w] Some readDicData_layout [OF assms(1), of p inflate want] unfolding f by auto
  qed
  with sc have "get_scan inflate udi want i c =
      Some (case cc_instance i (mates udi ?ps) of None \<Rightarrow> None | Some p \<Rightarrow> entry_result inflate want (snd p), ?c)"
    by (simp only:)
  with l show ?thesis
    by blast
qed

lemma kh_try_walk:
  assumes "layout c es k" and "set qs \<subseteq> set (aged es k)" and "\<forall>q \<in> set qs. e_dic (snd q) \<noteq> []"
  shows "kh_try (cc_file c) udi i (map (\<lambda>q. int (fst q)) qs) n (o0, h0) =
    Some (if n \<le> i \<and> i < n + int (length (mates udi qs))
      then (i, int (fst (mates udi qs ! nat (i - n))), e_hd (snd (mates udi qs ! nat (i - n))))
      else (n + int (length (mates udi qs)),
        (if mates udi qs = [] then (o0, h0) else (int (fst (last (mates udi qs))), e_hd (snd (last (mates udi qs)))))))"
  using assms(2,3)
proof (induction qs arbitrary: n o0 h0)
  case Nil
  then show ?case by auto
next
  case (Cons q qs)
  have r: "readHUdi (cc_file c) (int (fst q)) empty_header = (e_hd (snd q), Some (e_udi (snd q)))"
    using readHUdi_layout [OF assms(1)] Cons.prems(1) by simp
  have IH: "kh_try (cc_file c) udi i (map (\<lambda>q. int (fst q)) qs) n (o0, h0) =
    Some (if n \<le> i \<and> i < n + int (length (mates udi qs))
      then (i, int (fst (mates udi qs ! nat (i - n))), e_hd (snd (mates udi qs ! nat (i - n))))
      else (n + int (length (mates udi qs)),
        (if mates udi qs = [] then (o0, h0) else (int (fst (last (mates udi qs))), e_hd (snd (last (mates udi qs)))))))"
    for n o0 h0
    using Cons by simp
  show ?case
  proof (cases "e_udi (snd q) = udi \<and> n = i")
    case True
    then show ?thesis
      using r Cons.prems(2) by simp
  next
    case False
    have "nat (i - n) = Suc (nat (i - (n + 1)))" if "n + 1 \<le> i"
      using that by simp
    with False show ?thesis
      using r IH [of n o0 h0] IH [of "n + 1" "int (fst q)" "e_hd (snd q)"] Cons.prems(2) by auto
  qed
qed

text \<open>The candidates of a sound map are entries, those of an ordered and complete one the entries of the identifier by age.\<close>

lemma khFind_places:
  assumes "kh_sound c ps"
  obtains qs where "khFind udi c = map (\<lambda>q. int (fst q)) qs" "set qs \<subseteq> set ps" "\<forall>q \<in> set qs. e_dic (snd q) \<noteq> []"
proof -
  have "\<forall>n \<in> set (khFind udi c). \<exists>q \<in> set ps. n = int (fst q) \<and> e_dic (snd q) \<noteq> []"
    using assms by (fastforce simp: kh_sound_def set_khFind)
  then obtain f where f: "\<forall>n \<in> set (khFind udi c). f n \<in> set ps \<and> n = int (fst (f n)) \<and> e_dic (snd (f n)) \<noteq> []"
    by metis
  show ?thesis
  proof
    show "khFind udi c = map (\<lambda>q. int (fst q)) (map f (khFind udi c))"
      using f by (auto intro!: map_idI [symmetric])
  qed (use f in auto)
qed

lemma mates_known:
  assumes "distinct (map fst ps)" and "set qs \<subseteq> set ps" and "khFind udi c = map (\<lambda>q. int (fst q)) qs"
    and "\<forall>q \<in> set qs. e_dic (snd q) \<noteq> []" and "kh_known udi c ps = offs_of udi ps"
  shows "mates udi qs = mates udi ps"
proof -
  have same: "int (fst q) \<in> set (offs_of udi ps) \<longleftrightarrow> e_dic (snd q) \<noteq> [] \<and> e_udi (snd q) = udi" if "q \<in> set qs" for q
    unfolding set_offs_of using that assms(2) distinct_fst_same [OF assms(1), of q] by (metis of_nat_eq_iff subsetD)
  have "kh_known udi c ps = map (\<lambda>q. int (fst q)) (filter (\<lambda>q. int (fst q) \<in> set (offs_of udi ps)) qs)"
    by (simp add: kh_known_def assms(3) filter_map o_def)
  also have "filter (\<lambda>q. int (fst q) \<in> set (offs_of udi ps)) qs = mates udi qs"
    unfolding mates_def by (rule filter_cong) (use same in simp_all)
  finally have "map (\<lambda>q. int (fst q)) (mates udi qs) = map (\<lambda>q. int (fst q)) (mates udi ps)"
    using assms(5) by (simp add: offs_of_mates)
  moreover have "inj_on (\<lambda>q. int (fst q)) (set ps)"
    using distinct_fst_same [OF assms(1)] by (auto intro!: inj_onI)
  moreover have "set (mates udi qs) \<union> set (mates udi ps) \<subseteq> set ps"
    using assms(2) set_mates by blast
  ultimately show ?thesis
    by (meson inj_on_map_eq_map inj_on_subset)
qed

lemma get_spec:
  assumes "layout c es k" and "udi \<noteq> []" and "kh_sound c (aged es k)" and "kh_ordered c (aged es k)"
  shows "\<exists>c'. get inflate udi want i c =
      Some (case cc_instance i (mates udi (aged es k)) of None \<Rightarrow> None | Some p \<Rightarrow> entry_result inflate want (snd p), c') \<and>
    looked c (aged es k) c'"
proof -
  let ?ps = "aged es k"
  let ?ms = "mates udi ?ps"
  have fd: "cc_fd c"
    using assms(1) by (simp add: layout_def)
  show ?thesis
  proof (cases "m_ofskhcplt c \<and> khFind udi c \<noteq> []")
    case False
    then show ?thesis
      using get_scan_spec [OF assms(1,2), of inflate want i] fd by (simp add: get_def)
  next
    case True
    obtain qs where qs: "khFind udi c = map (\<lambda>q. int (fst q)) qs" "set qs \<subseteq> set ?ps" "\<forall>q \<in> set qs. e_dic (snd q) \<noteq> []"
      using khFind_places [OF assms(3)] .
    have m: "mates udi qs = ?ms"
      using mates_known [OF distinct_aged qs(2,1,3)] assms(4) True by (simp add: kh_ordered_def)
    note t = kh_try_walk [OF assms(1) qs(2,3), of udi i 1 0 empty_header, folded qs(1), unfolded m]
    have pos: "fst p \<noteq> 0" if "p \<in> set ?ms" for p
      by (rule layout_entry [OF assms(1), of "fst p" "snd p"]) (use that set_mates [of udi ?ps] in auto)
    show ?thesis
    proof (cases "?ms \<noteq> [] \<and> (i = - 1 \<or> 1 \<le> i \<and> i \<le> int (length ?ms) + 1)")
      case hit: True
      define p where "p = (if 1 \<le> i \<and> i \<le> int (length ?ms) then ?ms ! (nat i - 1) else last ?ms)"
      have p: "cc_instance i ?ms = Some p" "p \<in> set ?ms"
        using hit by (auto simp: p_def cc_instance_def)
      have "kh_try (cc_file c) udi i (khFind udi c) 1 (0, empty_header) =
          Some (if i = - 1 then int (length ?ms) + 1 else i, int (fst p), e_hd (snd p))"
        using t hit by (auto simp: p_def nat_diff_distrib)
      moreover have "readDicData inflate (cc_file c) (int (fst p)) (e_hd (snd p)) want = entry_result inflate want (snd p)"
        using readDicData_layout [OF assms(1)] p(2) set_mates [of udi ?ps] by blast
      ultimately have "get inflate udi want i c = Some (entry_result inflate want (snd p), c)"
        using fd True pos [OF p(2)] by (simp add: get_def)
      then show ?thesis
        using p(1) by (auto simp: looked_def)
    next
      case False
      then have "get inflate udi want i c = get_scan inflate udi want i c"
        using fd True t by (auto simp: get_def split: if_splits)
      then show ?thesis
        using get_scan_spec [OF assms(1,2), of inflate want i] by simp
    qed
  qed
qed

end
