(* ===== verification/Cir_Erase.thy ===== *)
theory Cir_Erase
  imports Cir_Get
begin

text \<open>
  Erasing in the circular cache: the entries of an identifier become pad space in place, every other entry, its
  offset and the write position stay, and the map of offsets follows.
\<close>

section \<open>An erased entry\<close>

definition erased :: "bool \<Rightarrow> CEntry \<Rightarrow> CEntry" where
  "erased reallyclear e =
     (let pad = e_dic e @ e_data e @ e_pad e in
      \<lparr>e_hd = empty_header\<lparr>padsize := ucast (dicsize (e_hd e) + datasize (e_hd e)) + padsize (e_hd e)\<rparr>,
       e_dic = [], e_data = [], e_pad = (if reallyclear then replicate (length pad) blank else pad)\<rparr>)"

lemma erased_sel [simp]:
  "e_dic (erased b e) = []" "e_data (erased b e) = []" "e_udi (erased b e) = []"
  "length (e_pad (erased b e)) = length (e_dic e) + length (e_data e) + length (e_pad e)"
  by (simp_all add: erased_def e_udi_def Let_def)

lemma length_erased [simp]: "length (entry_bytes (erased b e)) = length (entry_bytes e)"
  by (simp add: length_entry_bytes)

lemma erased_padsize:
  assumes "entry_ok e" and "length (entry_bytes e) < 2 ^ 63"
  shows "unat (padsize (e_hd (erased b e))) = length (e_dic e) + length (e_data e) + length (e_pad e)"
proof -
  let ?h = "e_hd e"
  have "unat (dicsize ?h + datasize ?h) = length (e_dic e) + length (e_data e)"
    using assms(1) by (simp add: entry_ok_def unat_word_ariths)
  then have "unat (ucast (dicsize ?h + datasize ?h) :: 64 word) = length (e_dic e) + length (e_data e)"
    using assms(1) by (simp add: unsigned_ucast_eq take_bit_nat_eq_self entry_ok_def)
  then have "(ucast (dicsize ?h + datasize ?h) :: 64 word) = of_nat (length (e_dic e) + length (e_data e))"
    by (rule word_from_unat)
  moreover have "padsize ?h = of_nat (length (e_pad e))"
    using assms(1) by (intro word_from_unat) (simp add: entry_ok_def)
  ultimately have "padsize (e_hd (erased b e)) = of_nat (length (e_dic e) + length (e_data e) + length (e_pad e))"
    by (simp add: erased_def Let_def)
  then show ?thesis
    using assms(2) by (simp only: unsigned_of_nat) (simp add: take_bit_nat_eq_self length_entry_bytes)
qed

lemma erased_ok: "entry_ok e \<Longrightarrow> length (entry_bytes e) < 2 ^ 63 \<Longrightarrow> entry_ok (erased b e)"
  using erased_padsize [of e b] by (simp add: entry_ok_def erased_def Let_def empty_header_def)

text \<open>Writing the header, and the blanks, on an entry.\<close>

lemma write_erased:
  assumes "nat offs = length pre" and "0 \<le> offs" and "entry_ok e" and "length (entry_bytes e) < 2 ^ 63"
  shows "writeEntryHeader (pre @ entry_bytes e @ post) offs
      (empty_header\<lparr>padsize := ucast (dicsize (e_hd e) + datasize (e_hd e)) + padsize (e_hd e)\<rparr>) b =
    (True, pre @ entry_bytes (erased b e) @ post)"
proof -
  let ?nd = "empty_header\<lparr>padsize := ucast (dicsize (e_hd e) + datasize (e_hd e)) + padsize (e_hd e)\<rparr>"
  let ?body = "e_dic e @ e_data e @ e_pad e"
  have f1: "pwrite (pre @ entry_bytes e @ post) offs (header_block ?nd) = (pre @ header_block ?nd) @ ?body @ post"
    using pwrite_over [OF assms(1), of "header_block (e_hd e)" "header_block ?nd" "?body @ post"]
    by (simp add: entry_bytes_def)
  have n: "unat (padsize ?nd) = length ?body"
    using erased_padsize [OF assms(3,4), of b] by (simp add: erased_def Let_def)
  have "nat (offs + 64) = length (pre @ header_block ?nd)"
    using assms(1,2) by simp
  from pwrite_over [OF this, of ?body "replicate (length ?body) blank" post]
  have f2: "pwrite ((pre @ header_block ?nd) @ ?body @ post) (offs + 64) (replicate (length ?body) blank) =
      (pre @ header_block ?nd) @ replicate (length ?body) blank @ post"
    by simp
  show ?thesis
  proof (cases b)
    case True
    then show ?thesis
      using assms(2) f1 f2 n by (simp add: writeEntryHeader_def empty_header_def erased_def entry_bytes_def Let_def)
  next
    case False
    then show ?thesis
      using assms(2) f1 by (simp add: writeEntryHeader_def erased_def entry_bytes_def Let_def)
  qed
qed

section \<open>Replacing entries in place\<close>

text \<open>The entries of a set are erased where they are.\<close>

definition upd :: "(nat \<times> CEntry) set \<Rightarrow> bool \<Rightarrow> nat \<times> CEntry \<Rightarrow> nat \<times> CEntry" where
  "upd S b p = (fst p, if p \<in> S then erased b (snd p) else snd p)"

definition upd_entries :: "(nat \<times> CEntry) set \<Rightarrow> bool \<Rightarrow> CEntry list \<Rightarrow> CEntry list" where
  "upd_entries S b es = map (\<lambda>p. snd (upd S b p)) (place CIRCACHE_FIRSTBLOCK_SIZE es)"

lemma fst_upd [simp]: "fst (upd S b p) = fst p"
  by (simp add: upd_def)

lemma length_upd [simp]: "length (entry_bytes (snd (upd S b p))) = length (entry_bytes (snd p))"
  by (simp add: upd_def)

lemma place_upd_from:
  "place n (map (\<lambda>p. snd (upd S b p)) (place n es)) = map (upd S b) (place n es)"
  "length (cc_bytes (map (\<lambda>p. snd (upd S b p)) (place n es))) = length (cc_bytes es)"
  by (induction es arbitrary: n) (simp_all add: prod_eq_iff upd_def)

lemma length_upd_entries [simp]: "length (upd_entries S b es) = length es"
  by (simp add: upd_entries_def) (metis length_map map_snd_place)

lemma take_place: "take k (place n es) = place n (take k es)"
  by (induction es arbitrary: k n) (auto split: nat.splits simp: take_Cons)

lemma drop_place: "drop k (place n es) = place (n + length (cc_bytes (take k es))) (drop k es)"
  by (induction es arbitrary: k n) (auto split: nat.splits simp: drop_Cons add.assoc)

lemma aged_rotate: "aged es k = drop k (place CIRCACHE_FIRSTBLOCK_SIZE es) @ take k (place CIRCACHE_FIRSTBLOCK_SIZE es)"
  by (simp add: aged_def take_place drop_place)

lemma place_upd_entries: "place CIRCACHE_FIRSTBLOCK_SIZE (upd_entries S b es) = map (upd S b) (place CIRCACHE_FIRSTBLOCK_SIZE es)"
  by (simp add: upd_entries_def place_upd_from)

lemma aged_upd: "aged (upd_entries S b es) k = map (upd S b) (aged es k)"
  by (simp add: aged_rotate place_upd_entries drop_map take_map)

lemma upd_entries_split:
  assumes "es = xs @ e # ys" and "p = (CIRCACHE_FIRSTBLOCK_SIZE + length (cc_bytes xs), e)"
  shows "upd_entries {p} b es = xs @ erased b e # ys"
proof -
  let ?P = "place CIRCACHE_FIRSTBLOCK_SIZE"
  have pl: "?P es = ?P xs @ p # place (fst p + length (entry_bytes e)) ys"
    by (simp add: assms)
  have d: "distinct (map fst (?P xs @ p # place (fst p + length (entry_bytes e)) ys))"
    using distinct_place [of CIRCACHE_FIRSTBLOCK_SIZE es] unfolding pl .
  then have same: "snd (upd {p} b q) = snd q" if "q \<in> set (?P xs) \<union> set (place (fst p + length (entry_bytes e)) ys)" for q
    using that by (force simp: upd_def)
  have "map (\<lambda>q. snd (upd {p} b q)) (?P xs) = map snd (?P xs)"
    by (rule map_cong) (use same in simp_all)
  moreover have "map (\<lambda>q. snd (upd {p} b q)) (place (fst p + length (entry_bytes e)) ys) = map snd (place (fst p + length (entry_bytes e)) ys)"
    by (rule map_cong) (use same in simp_all)
  ultimately show ?thesis
    unfolding upd_entries_def pl by (simp add: upd_def assms(2))
qed

section \<open>The loop\<close>

abbreviation entry_offs :: "CEntry list \<Rightarrow> nat \<Rightarrow> nat" where
  "entry_offs es j \<equiv> 1024 + length (cc_bytes (take j es))"

text \<open>What the header knows of the newest entry, when the write position is behind one.\<close>

definition newest :: "CirCache \<Rightarrow> CEntry list \<Rightarrow> nat \<Rightarrow> bool" where
  "newest c es k \<longleftrightarrow>
     (0 < k \<longrightarrow> m_nheadoffs c = int (entry_offs es (k - 1)) \<and> m_npadsize c = int (length (e_pad (es ! (k - 1)))))"

lemma nth_place: "j < length es \<Longrightarrow> place n es ! j = (n + length (cc_bytes (take j es)), es ! j)"
  by (induction es arbitrary: j n) (auto simp: nth_Cons add.assoc split: nat.splits)

lemma length_place [simp]: "length (place n es) = length es"
  by (metis length_map map_snd_place)

lemma nth_upd_entries:
  "j < length es \<Longrightarrow> upd_entries S b es ! j = snd (upd S b (entry_offs es j, es ! j))"
  by (simp add: upd_entries_def nth_place)

lemma place_mem: "j < length es \<Longrightarrow> (entry_offs es j, es ! j) \<in> set (aged es k)"
  unfolding set_aged using nth_mem [of j "place 1024 es"] nth_place [of j es 1024] by simp

lemma length_take_upd [simp]: "length (cc_bytes (take j (upd_entries S b es))) = length (cc_bytes (take j es))"
proof -
  have "take j (upd_entries S b es) = map (\<lambda>p. snd (upd S b p)) (place CIRCACHE_FIRSTBLOCK_SIZE (take j es))"
    by (simp add: upd_entries_def take_map take_place)
  then show ?thesis
    by (simp add: place_upd_from)
qed

lemma layout_small:
  assumes "layout c es k" and "e \<in> set es"
  shows "entry_ok e" and "length (entry_bytes e) < 2 ^ 63"
proof -
  show "entry_ok e" using assms by (simp add: layout_def)
  obtain xs ys where "es = xs @ e # ys"
    using split_list [OF assms(2)] by blast
  then have "length (entry_bytes e) \<le> length (cc_file c)"
    using layout_file(2) [OF assms(1)] by simp
  then show "length (entry_bytes e) < 2 ^ 63"
    using assms(1) by (simp add: layout_def)
qed

lemma aged_entry: "p \<in> set (aged es k) \<Longrightarrow> snd p \<in> set es"
  unfolding set_aged by (metis prod.collapse set_place_snd)

abbreviation erased_head :: "EntryHeaderData \<Rightarrow> EntryHeaderData" where
  "erased_head d \<equiv> empty_header\<lparr>padsize := ucast (dicsize d + datasize d) + padsize d\<rparr>"

lemma layout_replace:
  assumes "layout c (xs @ e # ys) k" and "length (entry_bytes e') = length (entry_bytes e)" and "entry_ok e'"
    and "length pre = CIRCACHE_FIRSTBLOCK_SIZE + length (cc_bytes xs)"
    and "pre @ entry_bytes e @ post = cc_file c"
  shows "layout (c\<lparr>cc_file := pre @ entry_bytes e' @ post\<rparr>) (xs @ e' # ys) k"
proof -
  have "length (cc_bytes (take k (xs @ e' # ys))) = length (cc_bytes (take k (xs @ e # ys)))"
    using assms(2) by (simp add: take_Cons split: nat.splits)
  moreover have "drop CIRCACHE_FIRSTBLOCK_SIZE (pre @ entry_bytes e @ post) = cc_bytes xs @ entry_bytes e @ cc_bytes ys"
    unfolding assms(5) using assms(1) by (simp add: layout_def)
  then have "drop CIRCACHE_FIRSTBLOCK_SIZE pre @ entry_bytes e @ post = cc_bytes xs @ entry_bytes e @ cc_bytes ys"
    using assms(4) by simp
  then have "drop CIRCACHE_FIRSTBLOCK_SIZE pre = cc_bytes xs" "post = cc_bytes ys"
    using assms(4) by simp_all
  moreover have "length (pre @ entry_bytes e' @ post) = length (cc_file c)"
    using assms(2) by (simp flip: assms(5))
  ultimately show ?thesis
    using assms by (simp add: layout_def)
qed

lemma erase_one:
  assumes "layout c es k" and "p \<in> set (aged es k)" and "newest c es k"
  defines "nd \<equiv> erased_head (e_hd (snd p))"
  defines "c1 \<equiv> (if int (fst p) = m_nheadoffs c then c\<lparr>m_npadsize := sint (padsize nd)\<rparr> else c)"
  shows "\<exists>f. writeEntryHeader (cc_file c1) (int (fst p)) nd b = (True, f) \<and>
    layout (c1\<lparr>cc_file := f\<rparr>) (upd_entries {p} b es) k \<and> newest (c1\<lparr>cc_file := f\<rparr>) (upd_entries {p} b es) k"
proof -
  obtain xs e ys where es: "es = xs @ e # ys" and p: "p = (CIRCACHE_FIRSTBLOCK_SIZE + length (cc_bytes xs), e)"
    using place_split [of "fst p" "snd p"] assms(2) unfolding set_aged by (metis prod.collapse)
  note small = layout_small [OF assms(1) aged_entry [OF assms(2)]]
  define pre where "pre = take CIRCACHE_FIRSTBLOCK_SIZE (cc_file c) @ cc_bytes xs"
  have f: "pre @ entry_bytes e @ cc_bytes ys = cc_file c" and l: "length pre = fst p"
    using layout_file(1) [OF assms(1)] assms(1) by (simp_all add: es pre_def p layout_def)
  have e': "entry_ok (erased b e)"
    using erased_ok [OF small] by (simp add: p)
  have lay: "layout (c\<lparr>cc_file := pre @ entry_bytes (erased b e) @ cc_bytes ys\<rparr>) (upd_entries {p} b es) k"
    unfolding upd_entries_split [OF es p]
    using layout_replace [OF assms(1) [unfolded es], of "erased b e" pre "cc_bytes ys"] e' f l by (simp add: p)
  have w: "writeEntryHeader (cc_file c) (int (fst p)) nd b = (True, pre @ entry_bytes (erased b e) @ cc_bytes ys)"
    using write_erased [of "int (fst p)" pre e "cc_bytes ys" b] small l f by (simp add: p nd_def)
  have c1: "cc_file c1 = cc_file c" "m_nheadoffs c1 = m_nheadoffs c"
    by (simp_all add: c1_def)
  have lay1: "layout (c1\<lparr>cc_file := f\<rparr>) es' k = layout (c\<lparr>cc_file := f\<rparr>) es' k" for f es'
    by (simp add: c1_def layout_def)
  have "newest (c1\<lparr>cc_file := f\<rparr>) (upd_entries {p} b es) k" for f
  proof (cases "0 < k")
    case True
    let ?q = "(entry_offs es (k - 1), es ! (k - 1))"
    have k: "k - 1 < length es"
      using assms(1) True unfolding layout_def by linarith
    have nw: "m_nheadoffs c = int (fst ?q)" "m_npadsize c = int (length (e_pad (snd ?q)))"
      using assms(3) True by (simp_all add: newest_def)
    show ?thesis
    proof (cases "fst p = fst ?q")
      case same: True
      then have q: "p = ?q"
        using distinct_fst_same [OF distinct_aged assms(2) place_mem [OF k]] by simp
      have "sint (padsize nd) = int (length (e_pad (erased b e)))"
        using erased_padsize [OF small, of b] small(2) sint_small [of "padsize nd"]
        by (simp add: p nd_def erased_def Let_def length_entry_bytes)
      then show ?thesis
        using True nw q k by (simp add: newest_def c1_def nth_upd_entries upd_def p)
    next
      case False
      then show ?thesis
        using True nw k by (simp add: newest_def c1_def nth_upd_entries upd_def p)
    qed
  qed (simp add: newest_def)
  with w lay show ?thesis
    unfolding c1 lay1 by blast
qed

text \<open>Erasing some entries, the loop keeps everything but the file and the size of the pad space.\<close>

definition same_but_file :: "CirCache \<Rightarrow> CirCache \<Rightarrow> bool" where
  "same_but_file c c' \<longleftrightarrow> (\<exists>f n. c' = c\<lparr>cc_file := f, m_npadsize := n\<rparr>)"

lemma upd_upd:
  assumes "distinct (map fst ps)" and "q \<in> set ps" and "q \<notin> S" and "S \<subseteq> set ps" and "p \<in> set ps"
  shows "upd S b (upd {q} b p) = upd (insert q S) b p"
proof (cases "p = q")
  case True
  have "(fst q, erased b (snd q)) \<notin> S"
  proof
    assume mem: "(fst q, erased b (snd q)) \<in> S"
    then have "(fst q, erased b (snd q)) = q"
      using distinct_fst_same [OF assms(1) _ assms(2)] assms(4) by auto
    then show False
      using mem assms(3) by simp
  qed
  with True show ?thesis
    by (simp add: upd_def)
qed (simp add: upd_def)

lemma upd_entries_upd:
  assumes "q \<in> set (aged es k)" and "q \<notin> S" and "S \<subseteq> set (aged es k)"
  shows "upd_entries S b (upd_entries {q} b es) = upd_entries (insert q S) b es"
proof -
  have "upd S b (upd {q} b p) = upd (insert q S) b p" if "p \<in> set (place CIRCACHE_FIRSTBLOCK_SIZE es)" for p
    using upd_upd [OF distinct_place] assms that unfolding set_aged by blast
  then show ?thesis
    unfolding upd_entries_def [of S b "upd_entries {q} b es"] place_upd_entries by (simp add: upd_entries_def)
qed

lemma erase_loop_spec:
  assumes "layout c es k" and "newest c es k" and "set qs \<subseteq> set (aged es k)" and "distinct qs"
  shows "\<exists>c'. erase_loop udi b (map (\<lambda>q. int (fst q)) qs) c = (True, c') \<and> same_but_file c c' \<and>
    layout c' (upd_entries {q \<in> set qs. e_udi (snd q) = udi} b es) k \<and>
    newest c' (upd_entries {q \<in> set qs. e_udi (snd q) = udi} b es) k"
  using assms
proof (induction qs arbitrary: c es)
  case Nil
  have "upd_entries {} b es = es"
    by (simp add: upd_entries_def upd_def flip: map_snd_place [of 1024])
  moreover have "same_but_file c c"
    unfolding same_but_file_def by (intro exI [of _ "cc_file c"] exI [of _ "m_npadsize c"]) simp
  ultimately show ?case
    using Nil by simp
next
  case (Cons q qs)
  let ?S = "{q \<in> set qs. e_udi (snd q) = udi}"
  have q: "q \<in> set (aged es k)" and qs: "set qs \<subseteq> set (aged es k)" "q \<notin> set qs"
    using Cons.prems(3,4) by simp_all
  have r: "readHUdi (cc_file c) (int (fst q)) empty_header = (e_hd (snd q), Some (e_udi (snd q)))"
    using readHUdi_layout [OF Cons.prems(1) q] .
  show ?case
  proof (cases "e_udi (snd q) = udi")
    case False
    then have "{p \<in> set (q # qs). e_udi (snd p) = udi} = ?S" by auto
    then show ?thesis
      using False r Cons.IH [OF Cons.prems(1,2) qs(1)] Cons.prems(4) by simp
  next
    case True
    let ?c1 = "if int (fst q) = m_nheadoffs c then c\<lparr>m_npadsize := sint (padsize (erased_head (e_hd (snd q))))\<rparr> else c"
    let ?es = "upd_entries {q} b es"
    obtain f where w: "writeEntryHeader (cc_file ?c1) (int (fst q)) (erased_head (e_hd (snd q))) b = (True, f)"
      and l: "layout (?c1\<lparr>cc_file := f\<rparr>) ?es k" and n: "newest (?c1\<lparr>cc_file := f\<rparr>) ?es k"
      using erase_one [OF Cons.prems(1) q Cons.prems(2), of b] by blast
    have "p \<in> set (aged ?es k)" if "p \<in> set qs" for p
    proof -
      have "upd {q} b p = p"
        using that qs(2) by (auto simp: upd_def)
      then show ?thesis
        unfolding aged_upd using that qs(1) by (metis image_eqI list.set_map subsetD)
    qed
    then obtain c' where c': "erase_loop udi b (map (\<lambda>q. int (fst q)) qs) (?c1\<lparr>cc_file := f\<rparr>) = (True, c')"
      "same_but_file (?c1\<lparr>cc_file := f\<rparr>) c'" "layout c' (upd_entries ?S b ?es) k" "newest c' (upd_entries ?S b ?es) k"
      using Cons.IH [OF l n] Cons.prems(4) by fastforce
    have S: "{p \<in> set (q # qs). e_udi (snd p) = udi} = insert q ?S"
      using True by auto
    have U: "upd_entries ?S b ?es = upd_entries (insert q ?S) b es"
      using qs by (intro upd_entries_upd [OF q]) auto
    have "same_but_file c c'"
      using c'(2) by (auto simp: same_but_file_def split: if_splits)
    moreover have "erase_loop udi b (map (\<lambda>q. int (fst q)) (q # qs)) c = (True, c')"
      using r True w c'(1) by (simp add: Let_def)
    ultimately show ?thesis
      using c'(3,4) unfolding S U by blast
  qed
qed

section \<open>Erasing an identifier\<close>

definition erase_udi :: "string \<Rightarrow> bool \<Rightarrow> CEntry list \<Rightarrow> CEntry list" where
  "erase_udi udi b es = map (\<lambda>e. if e_dic e \<noteq> [] \<and> e_udi e = udi then erased b e else e) es"

definition coll_free :: "string \<Rightarrow> CEntry list \<Rightarrow> bool" where
  "coll_free udi es \<longleftrightarrow> (\<forall>e \<in> set es. e_dic e \<noteq> [] \<longrightarrow> UdiH (e_udi e) = UdiH udi \<longrightarrow> e_udi e = udi)"

abbreviation matching :: "string \<Rightarrow> CEntry list \<Rightarrow> nat \<Rightarrow> (nat \<times> CEntry) set" where
  "matching udi es k \<equiv> {p \<in> set (aged es k). e_dic (snd p) \<noteq> [] \<and> e_udi (snd p) = udi}"

lemma upd_matching: "upd_entries (matching udi es k) b es = erase_udi udi b es"
proof -
  have "map (\<lambda>p. snd (upd (matching udi es k) b p)) (place 1024 es) =
      map (\<lambda>p. if e_dic (snd p) \<noteq> [] \<and> e_udi (snd p) = udi then erased b (snd p) else snd p) (place 1024 es)"
    by (rule map_cong) (auto simp: upd_def set_aged)
  also have "\<dots> = erase_udi udi b (map snd (place 1024 es))"
    by (simp add: erase_udi_def o_def del: map_snd_place)
  finally show ?thesis
    by (simp add: upd_entries_def)
qed

lemma aged_erase: "aged (erase_udi udi b es) k = map (upd (matching udi es k) b) (aged es k)"
  using aged_upd [of "matching udi es k" b es k] by (simp only: upd_matching)

lemma upd_not_matching:
  "p \<in> set (aged es k) \<Longrightarrow> \<not> (e_dic (snd p) \<noteq> [] \<and> e_udi (snd p) = udi) \<Longrightarrow> upd (matching udi es k) b p = p"
  by (auto simp: upd_def)

text \<open>The identifiers of the map's entries are hashed; two with the same hash are told apart by reading the file.\<close>

lemma clear_sound:
  assumes "kh_sound c (aged es k)"
  shows "kh_sound (khClear_udi udi c) (aged (erase_udi udi b es) k)"
proof -
  have "\<exists>q \<in> set (aged (erase_udi udi b es) k). n = int (fst q) \<and> e_dic (snd q) \<noteq> [] \<and> h = UdiH (e_udi (snd q))"
    if mem: "(h, n) \<in> set (m_ofskh c)" and other: "h \<noteq> UdiH udi" for h n
  proof -
    obtain p where p: "p \<in> set (aged es k)" "n = int (fst p)" "e_dic (snd p) \<noteq> []" "h = UdiH (e_udi (snd p))"
      using assms mem by (fastforce simp: kh_sound_def)
    then have u: "upd (matching udi es k) b p = p"
      using other by (intro upd_not_matching) auto
    have "upd (matching udi es k) b p \<in> set (aged (erase_udi udi b es) k)"
      unfolding aged_erase set_map using p(1) by (rule imageI)
    then have "p \<in> set (aged (erase_udi udi b es) k)"
      unfolding u .
    with p show ?thesis
      by blast
  qed
  then show ?thesis
    using assms by (auto simp: kh_sound_def khClear_udi_def Let_def)
qed

lemma clear_complete:
  assumes "kh_complete c (aged es k)" and "coll_free udi es"
  shows "kh_complete (khClear_udi udi c) (aged (erase_udi udi b es) k)"
proof -
  have "(UdiH (e_udi (snd q)), int (fst q)) \<in> set (m_ofskh (khClear_udi udi c))"
    if q: "q \<in> set (aged (erase_udi udi b es) k)" and live: "e_dic (snd q) \<noteq> []" for q
  proof -
    obtain p where p: "p \<in> set (aged es k)" "q = upd (matching udi es k) b p"
      using q unfolding aged_erase by auto
    then have "p \<notin> matching udi es k"
      using live by (auto simp: upd_def)
    then have "q = p" "e_udi (snd p) \<noteq> udi"
      using p live upd_not_matching [of p es k udi b] by auto
    moreover from this have "UdiH (e_udi (snd p)) \<noteq> UdiH udi"
      using assms(2) live aged_entry [OF p(1)] by (auto simp: coll_free_def)
    ultimately show ?thesis
      using assms(1) p(1) live by (auto simp: kh_complete_def khClear_udi_def Let_def)
  qed
  then show ?thesis
    by (simp add: kh_complete_def)
qed

lemma khFind_clear: "khFind udi' (khClear_udi udi c) = (if UdiH udi' = UdiH udi then [] else khFind udi' c)"
  by (auto simp: khFind_def khClear_udi_def Let_def filter_empty_conv intro!: arg_cong [of _ _ "map snd"] filter_cong)

lemma mates_erase:
  "mates udi' (aged (erase_udi udi b es) k) = (if udi' = udi then [] else mates udi' (aged es k))"
proof -
  have "mates udi' (map (upd (matching udi es k) b) ps) = (if udi' = udi then [] else mates udi' ps)"
    if "set ps \<subseteq> set (aged es k)" for ps
    using that by (induction ps) (auto simp: upd_def)
  then show ?thesis
    unfolding aged_erase by simp
qed

lemma clear_ordered:
  assumes "kh_ordered c (aged es k)" and "coll_free udi es"
  shows "kh_ordered (khClear_udi udi c) (aged (erase_udi udi b es) k)"
proof -
  have "kh_known udi' (khClear_udi udi c) (aged (erase_udi udi b es) k) =
      (if udi' = udi then [] else kh_known udi' c (aged es k))" for udi'
  proof (cases "UdiH udi' = UdiH udi")
    case False
    then have "udi' \<noteq> udi" by auto
    with False show ?thesis
      by (simp add: kh_known_def khFind_clear offs_of_mates mates_erase)
  next
    case True
    have "mates udi' (aged es k) = []" if "udi' \<noteq> udi"
    proof -
      have "\<not> (e_dic (snd p) \<noteq> [] \<and> e_udi (snd p) = udi')" if "p \<in> set (aged es k)" for p
        using assms(2) aged_entry [OF that] True \<open>udi' \<noteq> udi\<close> by (auto simp: coll_free_def)
      then show ?thesis
        by (auto simp: mates_def filter_empty_conv)
    qed
    with True show ?thesis
      by (auto simp: kh_known_def khFind_clear offs_of_mates)
  qed
  moreover have "m_ofskhcplt (khClear_udi udi c) = m_ofskhcplt c"
    by (simp add: khClear_udi_def Let_def)
  ultimately show ?thesis
    using assms(1) by (simp add: kh_ordered_def offs_of_mates mates_erase)
qed

lemma distinct_khFind: "kh_sound c ps \<Longrightarrow> distinct (khFind udi c)"
  by (auto simp: kh_sound_def khFind_def distinct_map Let_def intro!: inj_onI)

text \<open>Completing the map.\<close>

lemma get_fill:
  assumes "layout c es k" and "\<not> m_ofskhcplt c"
  shows "map_option snd (get inflate ''nosuchudi probably exists'' False (- 1) c) =
    Some ((fold enter (aged es k) c)\<lparr>m_ofskhcplt := True\<rparr>)"
proof -
  let ?u = "''nosuchudi probably exists''"
  obtain st n offs d c1 where w: "walk (hook_getter ?u (- 1)) (aged es k) (0, 0, empty_header) c = (st, (n, offs, d), c1)"
    by (metis surj_pair)
  then have "st = Continue"
    using walk_getter [OF _ w] by simp
  moreover from this have "c1 = fold enter (aged es k) c"
    using walk_enters [OF w] by auto
  moreover have "cc_fd c"
    using assms(1) by (simp add: layout_def)
  ultimately show ?thesis
    using assms(2) w by (simp add: get_def get_scan_def scan_folding [OF assms(1)])
qed

text \<open>The invariant of a cache: its entries, with the write position in front of entry \<open>k\<close>.\<close>

definition cc_inv :: "CirCache \<Rightarrow> CEntry list \<Rightarrow> nat \<Rightarrow> bool" where
  "cc_inv c es k \<longleftrightarrow> layout c es k \<and> newest c es k \<and> kh_inv c (aged es k)"

lemma cc_inv_filled:
  assumes "cc_inv c es k"
  defines "c1 \<equiv> (if m_ofskhcplt c then c else (fold enter (aged es k) c)\<lparr>m_ofskhcplt := True\<rparr>)"
  shows "cc_inv c1 es k" and "kh_ordered c (aged es k) \<Longrightarrow> kh_ordered c1 (aged es k)" and "m_ofskhcplt c1"
    and "cc_file c1 = cc_file c" and "m_maxsize c1 = m_maxsize c" and "m_uniquentries c1 = m_uniquentries c"
    and "m_oheadoffs c1 = m_oheadoffs c"
proof -
  have "newest (fold enter (aged es k) c\<lparr>m_ofskhcplt := True\<rparr>) es k = newest c es k"
    by (simp add: newest_def)
  then show "cc_inv c1 es k"
    using assms(1) kh_sound_enters [of c "aged es k" "aged es k"] kh_complete_enters
    by (auto simp: cc_inv_def c1_def kh_inv_def)
  assume "kh_ordered c (aged es k)"
  then show "kh_ordered c1 (aged es k)"
    using known_all [OF distinct_aged] by (simp add: c1_def kh_ordered_def)
qed (simp_all add: c1_def)

lemma layout_npad [simp]: "layout (khClear_udi udi c) es k = layout c es k"
  "newest (khClear_udi udi c) es k = newest c es k" "m_ofskhcplt (khClear_udi udi c) = m_ofskhcplt c"
  "m_maxsize (khClear_udi udi c) = m_maxsize c" "m_uniquentries (khClear_udi udi c) = m_uniquentries c"
  "cc_file (khClear_udi udi c) = cc_file c"
  by (simp_all add: khClear_udi_def layout_def newest_def Let_def)

lemma kh_same:
  assumes "same_but_file c c'"
  shows "m_ofskh (khClear_udi udi c') = m_ofskh (khClear_udi udi c)" "m_ofskhcplt c' = m_ofskhcplt c"
    "m_maxsize c' = m_maxsize c" "m_uniquentries c' = m_uniquentries c" "m_oheadoffs c' = m_oheadoffs c"
  using assms by (auto simp: same_but_file_def khClear_udi_def Let_def)

lemma kh_cong:
  "m_ofskh c' = m_ofskh c \<Longrightarrow> kh_sound c' ps = kh_sound c ps"
  "m_ofskh c' = m_ofskh c \<Longrightarrow> kh_complete c' ps = kh_complete c ps"
  "m_ofskh c' = m_ofskh c \<Longrightarrow> m_ofskhcplt c' = m_ofskhcplt c \<Longrightarrow> kh_ordered c' ps = kh_ordered c ps"
  by (simp_all add: kh_sound_def kh_complete_def kh_ordered_def kh_known_def khFind_def)

text \<open>
  What erasing does in any case; only the map suffers from another identifier with the same hash, whose entries it
  forgets.
\<close>

lemma erase_any:
  assumes "cc_inv c es k"
  shows "\<exists>c'. erase inflate udi b c = Some (True, c') \<and> layout c' (erase_udi udi b es) k \<and> newest c' (erase_udi udi b es) k \<and>
    m_ofskhcplt c' \<and> (\<forall>udi'. UdiH udi' = UdiH udi \<longrightarrow> khFind udi' c' = []) \<and>
    m_maxsize c' = m_maxsize c \<and> m_uniquentries c' = m_uniquentries c \<and> m_oheadoffs c' = m_oheadoffs c \<and>
    length (cc_file c') = length (cc_file c) \<and>
    (coll_free udi es \<longrightarrow> cc_inv c' (erase_udi udi b es) k \<and>
      (kh_ordered c (aged es k) \<longrightarrow> kh_ordered c' (aged (erase_udi udi b es) k)))"
proof -
  define c1 where "c1 = (if m_ofskhcplt c then c else (fold enter (aged es k) c)\<lparr>m_ofskhcplt := True\<rparr>)"
  note fill = cc_inv_filled [OF assms, folded c1_def]
  have lay1: "layout c1 es k" and new: "newest c1 es k" and snd: "kh_sound c1 (aged es k)" and cpl: "kh_complete c1 (aged es k)"
    using fill(1,3) by (simp_all add: cc_inv_def kh_inv_def)
  have c1: "(if m_ofskhcplt c then Some c else map_option snd (get inflate ''nosuchudi probably exists'' False (- 1) c)) = Some c1"
    using get_fill assms by (simp add: c1_def cc_inv_def)
  have fd: "cc_fd c"
    using assms by (simp add: cc_inv_def layout_def)
  obtain qs where qs: "khFind udi c1 = map (\<lambda>q. int (fst q)) qs" "set qs \<subseteq> set (aged es k)" "\<forall>q \<in> set qs. e_dic (snd q) \<noteq> []"
    using khFind_places [OF snd] .
  have "distinct qs"
    using distinct_khFind [OF snd, of udi] unfolding qs(1) by (simp add: distinct_map)
  from erase_loop_spec [OF lay1 new qs(2) this, of udi b] obtain c2 where
    l: "erase_loop udi b (khFind udi c1) c1 = (True, c2)" and same: "same_but_file c1 c2"
    and lay2: "layout c2 (upd_entries {q \<in> set qs. e_udi (snd q) = udi} b es) k"
    and new2: "newest c2 (upd_entries {q \<in> set qs. e_udi (snd q) = udi} b es) k"
    unfolding qs(1) by blast
  have "p \<in> set qs" if "p \<in> matching udi es k" for p
  proof -
    have "int (fst p) \<in> set (khFind udi c1)"
      using cpl that by (auto simp: set_khFind kh_complete_def)
    then obtain q where "q \<in> set qs" "fst q = fst p"
      unfolding qs(1) by auto
    then show ?thesis
      using distinct_fst_same [OF distinct_aged, of q es k p] qs(2) that by auto
  qed
  then have "{q \<in> set qs. e_udi (snd q) = udi} = matching udi es k"
    using qs(2,3) by auto
  then have E: "upd_entries {q \<in> set qs. e_udi (snd q) = udi} b es = erase_udi udi b es"
    by (simp only: upd_matching)
  let ?c' = "khClear_udi udi c2"
  have r: "erase inflate udi b c = Some (True, ?c')"
  proof (cases "khFind udi c1 = []")
    case True
    then have "c2 = c1" "khClear_udi udi c1 = c1"
      using l by (auto simp: khClear_udi_def khFind_def Let_def filter_empty_conv filter_id_conv)
    then show ?thesis
      using fd fill(3) True unfolding erase_def c1 by simp
  next
    case False
    then show ?thesis
      using fd fill(3) l unfolding erase_def c1 by simp
  qed
  note kh = kh_same(1) [OF same, of udi]
  have inv: "cc_inv ?c' (erase_udi udi b es) k" if "coll_free udi es"
    using lay2 new2 clear_sound [OF snd] clear_complete [OF cpl that] unfolding E
    by (simp add: cc_inv_def kh_inv_def kh_cong [OF kh])
  have ord: "kh_ordered ?c' (aged (erase_udi udi b es) k)" if "kh_ordered c (aged es k)" "coll_free udi es"
    using clear_ordered [OF fill(2) [OF that(1)] that(2)] kh_same(2) [OF same] by (simp add: kh_cong [OF kh])
  have lay: "layout ?c' (erase_udi udi b es) k \<and> newest ?c' (erase_udi udi b es) k"
    using lay2 new2 unfolding E by simp
  have "length (cc_file c2) = length (cc_file c)"
    using layout_file(2) [OF lay1] layout_file(2) [OF lay2] fill(4) length_take_upd [of "length es" _ b es] by simp
  with r inv ord lay fill kh_same [OF same] show ?thesis
    by (intro exI [of _ ?c']) (simp add: khFind_clear, simp add: khClear_udi_def Let_def)
qed

lemma erase_spec:
  assumes "cc_inv c es k" and "coll_free udi es"
  shows "\<exists>c'. erase inflate udi b c = Some (True, c') \<and> cc_inv c' (erase_udi udi b es) k \<and> m_ofskhcplt c' \<and>
    m_maxsize c' = m_maxsize c \<and> m_uniquentries c' = m_uniquentries c \<and> m_oheadoffs c' = m_oheadoffs c \<and>
    length (cc_file c') = length (cc_file c) \<and>
    (kh_ordered c (aged es k) \<longrightarrow> kh_ordered c' (aged (erase_udi udi b es) k))"
  using erase_any [OF assms(1), of inflate udi b] assms(2) by blast

text \<open>With a complete map, erasing an identifier that the map does not find is a success that changes nothing.\<close>

lemma erase_unknown: "cc_fd c \<Longrightarrow> m_ofskhcplt c \<Longrightarrow> khFind udi c = [] \<Longrightarrow> erase inflate udi b c = Some (True, c)"
  by (simp add: erase_def)

lemma clear_forgets:
  assumes "\<not> coll_free udi es" and "\<forall>udi'. UdiH udi' = UdiH udi \<longrightarrow> khFind udi' c' = []"
  shows "\<not> kh_complete c' (aged (erase_udi udi b es) k)"
proof -
  obtain e where e: "e \<in> set es" "e_dic e \<noteq> []" "UdiH (e_udi e) = UdiH udi" "e_udi e \<noteq> udi"
    using assms(1) by (auto simp: coll_free_def)
  have "snd ` set (aged es k) = set es"
    unfolding set_aged by (simp only: set_map [symmetric] map_snd_place)
  then have "e \<in> snd ` set (aged es k)"
    using e(1) by simp
  then obtain p where p: "p \<in> set (aged es k)" "snd p = e"
    by blast
  have "upd (matching udi es k) b p = p"
    using e(4) p by (intro upd_not_matching) simp_all
  then have "p \<in> upd (matching udi es k) b ` set (aged es k)"
    using p(1) by (intro image_eqI [of _ _ p]) simp_all
  then have "p \<in> set (aged (erase_udi udi b es) k)"
    unfolding aged_erase set_map .
  moreover have "(UdiH (e_udi e), int (fst p)) \<notin> set (m_ofskh c')"
    using assms(2) e(3) set_khFind [of "int (fst p)" "e_udi e" c'] by simp
  ultimately show ?thesis
    using p(2) e(2) by (auto simp: kh_complete_def)
qed

end
