(* ===== verification/Cir_Put.thy ===== *)
theory Cir_Put
  imports Cir_Erase
begin

text \<open>
  Storing in the circular cache: where the new entry goes, which old entries it overwrites, and what the file is
  afterwards. The new entry reuses the pad space behind the newest one, then extends a file that is below its size
  limit, and otherwise overwrites the oldest entries, with the space left of the last of them as its pad space.
\<close>

section \<open>The entries that count\<close>

text \<open>What a client sees of an entry; the pad space and erased entries do not show.\<close>

definition core :: "CEntry \<Rightarrow> string \<times> string \<times> 16 word" where
  "core e = (e_dic e, e_data e, hflags (e_hd e))"

definition core_udi :: "string \<times> string \<times> 16 word \<Rightarrow> string" where
  "core_udi x = (if fst x = [] then [] else the (dic_get True (fst x) ''udi''))"

definition live :: "(nat \<times> CEntry) list \<Rightarrow> (nat \<times> string \<times> string \<times> 16 word) list" where
  "live ps = map (\<lambda>p. (fst p, core (snd p))) (filter (\<lambda>p. e_dic (snd p) \<noteq> []) ps)"

lemma core_udi_core [simp]: "core_udi (core e) = e_udi e"
  by (simp add: core_udi_def core_def e_udi_def)

lemma live_simps [simp]:
  "live [] = []"
  "live (p # ps) = (if e_dic (snd p) \<noteq> [] then (fst p, core (snd p)) # live ps else live ps)"
  "live (ps @ qs) = live ps @ live qs"
  by (simp_all add: live_def)

lemma kh_sound_live:
  "kh_sound c ps \<longleftrightarrow> distinct (m_ofskh c) \<and>
    (\<forall>(h, n) \<in> set (m_ofskh c). \<exists>x \<in> set (live ps). n = int (fst x) \<and> h = UdiH (core_udi (snd x)))"
  unfolding kh_sound_def live_def by fastforce

lemma kh_complete_live:
  "kh_complete c ps \<longleftrightarrow> (\<forall>x \<in> set (live ps). (UdiH (core_udi (snd x)), int (fst x)) \<in> set (m_ofskh c))"
  unfolding kh_complete_def live_def by auto

lemma offs_of_live: "offs_of udi ps = map (\<lambda>x. int (fst x)) (filter (\<lambda>x. core_udi (snd x) = udi) (live ps))"
  by (induction ps) auto

section \<open>The pad space of the newest entry\<close>

definition unpadded :: "CEntry \<Rightarrow> CEntry" where
  "unpadded e = e\<lparr>e_hd := (e_hd e)\<lparr>padsize := 0\<rparr>, e_pad := []\<rparr>"

lemma unpadded_facts:
  "entry_ok e \<Longrightarrow> entry_ok (unpadded e)" "core (unpadded e) = core e" "e_dic (unpadded e) = e_dic e"
  "length (entry_bytes (unpadded e)) + length (e_pad e) = length (entry_bytes e)"
  by (auto simp: unpadded_def entry_ok_def core_def length_entry_bytes)

lemma int_pad:
  assumes "entry_ok e" and "int (length (e_pad e)) < 2 ^ 31"
  shows "sint (ucast (padsize (e_hd e)) :: 32 word) = int (length (e_pad e))"
proof -
  have n: "unat (padsize (e_hd e)) = length (e_pad e)"
    using assms(1) by (simp add: entry_ok_def)
  have l: "length (e_pad e) < 2 ^ 31"
    using assms(2) by simp
  with n have u: "unat (ucast (padsize (e_hd e)) :: 32 word) = length (e_pad e)"
    by (simp add: unsigned_ucast_eq take_bit_nat_eq_self)
  then show ?thesis
    using sint_small [of "ucast (padsize (e_hd e)) :: 32 word"] l by simp
qed

text \<open>
  After the recovery, the entries before the write position are \<open>pre_es\<close>, and then come bytes that are free.
\<close>

definition split_at :: "CirCache \<Rightarrow> CEntry list \<Rightarrow> string \<Rightarrow> CEntry list \<Rightarrow> bool" where
  "split_at c pre_es junk rest \<longleftrightarrow>
     cc_fd c \<and> length (cc_file c) < 2 ^ 63 \<and> (\<forall>e \<in> set pre_es \<union> set rest. entry_ok e) \<and>
     CIRCACHE_FIRSTBLOCK_SIZE \<le> length (cc_file c) \<and>
     drop CIRCACHE_FIRSTBLOCK_SIZE (cc_file c) = cc_bytes pre_es @ junk @ cc_bytes rest"

lemma split_at_file:
  assumes "split_at c pre_es junk rest"
  shows "cc_file c = take CIRCACHE_FIRSTBLOCK_SIZE (cc_file c) @ cc_bytes pre_es @ junk @ cc_bytes rest"
    and "length (cc_file c) = CIRCACHE_FIRSTBLOCK_SIZE + length (cc_bytes pre_es) + length junk + length (cc_bytes rest)"
proof -
  show f: "cc_file c = take CIRCACHE_FIRSTBLOCK_SIZE (cc_file c) @ cc_bytes pre_es @ junk @ cc_bytes rest"
    using assms by (metis append_take_drop_id split_at_def)
  have "length (take CIRCACHE_FIRSTBLOCK_SIZE (cc_file c)) = CIRCACHE_FIRSTBLOCK_SIZE"
    using assms by (simp add: split_at_def)
  then show "length (cc_file c) = CIRCACHE_FIRSTBLOCK_SIZE + length (cc_bytes pre_es) + length junk + length (cc_bytes rest)"
    by (subst f) simp
qed

text \<open>Where the content of the newest entry ends, or starts when it was erased.\<close>

definition write_offs :: "CEntry list \<Rightarrow> nat \<Rightarrow> nat" where
  "write_offs es k =
     (if k = 0 then 1024
      else let e = es ! (k - 1) in
        if e_dic e = [] \<and> e_pad e \<noteq> [] then entry_offs es (k - 1)
        else entry_offs es (k - 1) + length (entry_bytes e) - length (e_pad e))"

definition before_write :: "CEntry list \<Rightarrow> nat \<Rightarrow> CEntry list" where
  "before_write es k =
     (if k = 0 then []
      else let e = es ! (k - 1) in
        if e_dic e = [] \<and> e_pad e \<noteq> [] then take (k - 1) es else take (k - 1) es @ [unpadded e])"

lemma take_prev: "0 < k \<Longrightarrow> k \<le> length es \<Longrightarrow> take k es = take (k - 1) es @ [es ! (k - 1)]"
  by (metis Suc_diff_1 Suc_le_eq take_Suc_conv_app_nth)

lemma unpadded_id: "entry_ok e \<Longrightarrow> e_pad e = [] \<Longrightarrow> unpadded e = e"
  by (auto simp: unpadded_def entry_ok_def unat_eq_0)

lemma before_write_facts:
  assumes "layout c es k"
  shows "\<forall>e \<in> set (before_write es k). entry_ok e"
    and "CIRCACHE_FIRSTBLOCK_SIZE + length (cc_bytes (before_write es k)) = write_offs es k"
    and "live (place CIRCACHE_FIRSTBLOCK_SIZE (before_write es k)) = live (place CIRCACHE_FIRSTBLOCK_SIZE (take k es))"
proof -
  have k: "k \<le> length es" and ok: "\<forall>e \<in> set es. entry_ok e"
    using assms by (simp_all add: layout_def)
  have e: "entry_ok (es ! (k - 1))" if "0 < k"
    using ok k that by simp
  show "\<forall>e \<in> set (before_write es k). entry_ok e"
    using ok e unpadded_facts(1) by (auto simp: before_write_def Let_def dest: in_set_takeD)
  show "CIRCACHE_FIRSTBLOCK_SIZE + length (cc_bytes (before_write es k)) = write_offs es k"
    using unpadded_facts(4) [of "es ! (k - 1)"] by (auto simp: before_write_def write_offs_def Let_def)
  show "live (place CIRCACHE_FIRSTBLOCK_SIZE (before_write es k)) = live (place CIRCACHE_FIRSTBLOCK_SIZE (take k es))"
  proof (cases "0 < k")
    case True
    then show ?thesis
      using unpadded_facts(2,3) by (simp add: before_write_def Let_def take_prev [OF True k])
  qed (simp add: before_write_def)
qed

lemma put_recover_spec:
  assumes "layout c es k" and "newest c es k" and "0 < k \<longrightarrow> m_npadsize c < 2 ^ 31"
  shows "\<exists>f junk. put_recover c = Some (int (length junk), c\<lparr>cc_file := f\<rparr>) \<and> length f = length (cc_file c) \<and>
    m_oheadoffs c - int (length junk) = int (write_offs es k) \<and>
    split_at (c\<lparr>cc_file := f\<rparr>) (before_write es k) junk (drop k es)"
proof (cases "0 < k \<and> e_pad (es ! (k - 1)) \<noteq> []")
  case False
  have k: "k \<le> length es" and ok: "\<forall>e \<in> set es. entry_ok e" and oh: "m_oheadoffs c = int (entry_offs es k)"
    using assms(1) by (simp_all add: layout_def)
  have b: "before_write es k = take k es"
  proof (cases "0 < k")
    case True
    then have "entry_ok (es ! (k - 1))" "e_pad (es ! (k - 1)) = []"
      using ok k False by auto
    then show ?thesis
      using True unpadded_id by (simp add: before_write_def Let_def take_prev [OF True k])
  qed (simp add: before_write_def)
  have "0 < k \<Longrightarrow> m_npadsize c = 0"
    using assms(2) False by (simp add: newest_def)
  moreover have "k = 0 \<Longrightarrow> m_oheadoffs c = 1024"
    using oh by simp
  ultimately have "put_recover c = Some (0, c)"
    by (auto simp: put_recover_def Let_def)
  moreover have "split_at c (take k es) [] (drop k es)"
    using assms(1) by (auto simp: split_at_def layout_def simp flip: cc_bytes_simps(3) dest: in_set_takeD in_set_dropD)
  moreover have "c\<lparr>cc_file := cc_file c\<rparr> = c" by simp
  ultimately show ?thesis
    using oh before_write_facts(2) [OF assms(1)] unfolding b
    by (intro exI [of _ "cc_file c"] exI [of _ "[]"]) simp
next
  case True
  define e where "e = es ! (k - 1)"
  have k: "0 < k" "k \<le> length es" "k - 1 < length es" and pad: "e_pad e \<noteq> []"
    using True assms(1) unfolding layout_def e_def by linarith+
  have oh: "m_oheadoffs c = int (entry_offs es k)"
    using assms(1) by (simp add: layout_def)
  have es: "es = take (k - 1) es @ e # drop k es" and tk: "take k es = take (k - 1) es @ [e]"
    using take_prev [OF k(1,2)] id_take_nth_drop [OF k(3)] k(1) by (simp_all add: e_def)
  have ok: "entry_ok e"
    using layout_small(1) [OF assms(1)] k(3) by (simp add: e_def)
  have nw: "m_nheadoffs c = int (entry_offs es (k - 1))" "m_npadsize c = int (length (e_pad e))"
    using assms(2) k(1) by (simp_all add: newest_def e_def)
  define pre where "pre = take CIRCACHE_FIRSTBLOCK_SIZE (cc_file c) @ cc_bytes (take (k - 1) es)"
  have l: "length pre = entry_offs es (k - 1)"
    using assms(1) by (simp add: pre_def layout_def)
  have f: "cc_file c = pre @ entry_bytes e @ cc_bytes (drop k es)"
    using layout_file(1) [OF assms(1)] by (subst (asm) es) (simp add: pre_def)
  have r: "readEntryHeader (cc_file c) (m_nheadoffs c) empty_header = (Continue, e_hd e)"
    unfolding f using readEntryHeader_entry [of "m_nheadoffs c" pre e] nw(1) l by simp
  have np: "sint (ucast (padsize (e_hd e)) :: 32 word) = m_npadsize c"
    using int_pad [OF ok] nw(2) assms(3) k(1) by simp
  have b: "1024 < m_oheadoffs c"
    using oh unfolding tk by (simp add: length_entry_bytes)
  have oks: "\<forall>e \<in> set (take (k - 1) es) \<union> set (drop k es). entry_ok e" "cc_fd c" "length (cc_file c) < 2 ^ 63"
      "1024 \<le> length (cc_file c)"
    using assms(1) by (auto simp: layout_def dest: in_set_takeD in_set_dropD)
  have dp: "drop 1024 pre = cc_bytes (take (k - 1) es)"
    using oks(4) by (simp add: pre_def)
  have end_pos: "m_oheadoffs c = int (length pre + length (entry_bytes e))"
    using oh l unfolding tk by simp
  show ?thesis
  proof (cases "e_dic e = []")
    case True
    have "e_data e = []"
      using ok True by (simp add: entry_ok_def)
    then have R: "put_recover c = Some (int (length (entry_bytes e)), c)"
      using r np b pad nw(2) True entry_ok_dicsize [OF ok]
      by (simp add: put_recover_def length_entry_bytes Let_def)
    have S: "split_at c (take (k - 1) es) (entry_bytes e) (drop k es)"
      using oks f l dp by (auto simp: split_at_def)
    have B: "before_write es k = take (k - 1) es" "write_offs es k = length pre"
      using True k(1) pad l by (simp_all add: before_write_def write_offs_def Let_def e_def)
    show ?thesis
    proof (intro exI conjI)
      show "put_recover c = Some (int (length (entry_bytes e)), c\<lparr>cc_file := cc_file c\<rparr>)"
        by (simp add: R)
      show "split_at (c\<lparr>cc_file := cc_file c\<rparr>) (before_write es k) (entry_bytes e) (drop k es)"
        using S by (simp add: B)
      show "m_oheadoffs c - int (length (entry_bytes e)) = int (write_offs es k)"
        by (simp add: B end_pos)
    qed simp
  next
    case False
    let ?f = "pre @ entry_bytes (unpadded e) @ e_pad e @ cc_bytes (drop k es)"
    have "pwrite (cc_file c) (m_nheadoffs c) (header_block ((e_hd e)\<lparr>padsize := 0\<rparr>)) = ?f"
      unfolding f using pwrite_over [of "m_nheadoffs c" pre "header_block (e_hd e)"] nw(1) l
      by (simp add: entry_bytes_def unpadded_def)
    then have "put_recover c = Some (int (length (e_pad e)), c\<lparr>cc_file := ?f\<rparr>)"
      using r np b pad nw(1,2) False entry_ok_dicsize [OF ok]
      by (simp add: put_recover_def writeEntryHeader_def Let_def)
    moreover have "length ?f = length (cc_file c)"
      using unpadded_facts(4) [of e] f by simp
    moreover have "before_write es k = take (k - 1) es @ [unpadded e]"
      "write_offs es k = length pre + length (entry_bytes e) - length (e_pad e)"
      using False k(1) l by (simp_all add: before_write_def write_offs_def Let_def e_def)
    moreover have "length (e_pad e) \<le> length (entry_bytes e)"
      by (simp add: length_entry_bytes)
    ultimately show ?thesis
      using end_pos oks unpadded_facts(1) [OF ok] l dp
      by (intro exI [of _ ?f] exI [of _ "e_pad e"]) (auto simp: split_at_def)
  qed
qed

section \<open>Room for the entry\<close>

definition ref_of :: "nat \<times> CEntry \<Rightarrow> string \<times> int" where
  "ref_of q = (e_udi (snd q), int (fst q))"

text \<open>The walk of the space seeker: the shortest run of entries with enough space, or all of them.\<close>

lemma walk_spacer:
  assumes "\<forall>e \<in> set es. entry_ok e" and "s + length (cc_bytes es) < 2 ^ 63" and "s < sw"
  shows "\<exists>j st. walk (hook_spacer (int sw)) (place n es) (int s, refs) c =
      (st, (int (s + length (cc_bytes (take j es))), refs @ map ref_of (take j (place n es))), fold enter (take j (place n es)) c) \<and>
    j \<le> length es \<and> (st = Stop \<and> sw \<le> s + length (cc_bytes (take j es)) \<or>
      st = Continue \<and> j = length es \<and> s + length (cc_bytes (take j es)) < sw) \<and>
    (\<forall>i < j. s + length (cc_bytes (take i es)) < sw)"
  using assms
proof (induction es arbitrary: s refs n c)
  case Nil
  then show ?case by auto
next
  case (Cons e es)
  let ?s = "s + length (entry_bytes e)" and ?p = "(n, e)"
  have step: "add_offs (int s) (entry_span (e_hd e)) = int ?s"
    using Cons.prems by (intro add_offs_entry) auto
  show ?case
  proof (cases "sw \<le> ?s")
    case True
    then show ?thesis
      using step Cons.prems(3) by (intro exI [of _ 1] exI [of _ Stop]) (simp add: ref_of_def)
  next
    case False
    then obtain j st where j: "walk (hook_spacer (int sw)) (place (n + length (entry_bytes e)) es) (int ?s, refs @ [ref_of ?p]) (enter ?p c) =
        (st, (int (?s + length (cc_bytes (take j es))), (refs @ [ref_of ?p]) @ map ref_of (take j (place (n + length (entry_bytes e)) es))),
         fold enter (take j (place (n + length (entry_bytes e)) es)) (enter ?p c))" "j \<le> length es"
      "st = Stop \<and> sw \<le> ?s + length (cc_bytes (take j es)) \<or>
       st = Continue \<and> j = length es \<and> ?s + length (cc_bytes (take j es)) < sw"
      "\<forall>i < j. ?s + length (cc_bytes (take i es)) < sw"
      using Cons.IH [of ?s "n + length (entry_bytes e)" "refs @ [ref_of ?p]" "enter ?p c"] Cons.prems by auto
    have "walk (hook_spacer (int sw)) (place n (e # es)) (int s, refs) c =
        walk (hook_spacer (int sw)) (place (n + length (entry_bytes e)) es) (int ?s, refs @ [ref_of ?p]) (enter ?p c)"
      using False step by (simp add: ref_of_def)
    moreover have "\<forall>i < Suc j. s + length (cc_bytes (take i (e # es))) < sw"
      using j(4) Cons.prems(3) by (auto simp: less_Suc_eq_0_disj add.assoc)
    ultimately show ?thesis
      using j(1-3) by (intro exI [of _ "Suc j"] exI [of _ st]) (auto simp: add.assoc)
  qed
qed

lemma khClear_refs_filter:
  "khClear_refs refs c = c\<lparr>m_ofskh := filter (\<lambda>p. p \<notin> (\<lambda>r. (UdiH (fst r), snd r)) ` set refs) (m_ofskh c)\<rparr>"
proof (induction refs arbitrary: c)
  case (Cons r refs)
  have "filter (\<lambda>p. p \<notin> (\<lambda>r. (UdiH (fst r), snd r)) ` set refs \<and> \<not> (fst p = UdiH (fst r) \<and> snd p = snd r)) (m_ofskh c) =
      filter (\<lambda>p. p \<notin> (\<lambda>r. (UdiH (fst r), snd r)) ` set (r # refs)) (m_ofskh c)"
    by (rule filter_cong) (auto simp: prod_eq_iff)
  then show ?case
    by (simp only: khClear_refs.simps Cons khClear_ref_def Let_def) (simp add: conj_commute)
qed simp

lemma enters_ofskh:
  "\<exists>xs. fold enter qs c = c\<lparr>m_ofskh := m_ofskh c @ xs\<rparr> \<and> set xs \<subseteq> (\<lambda>q. (UdiH (e_udi (snd q)), int (fst q))) ` set qs"
proof (induction qs arbitrary: c)
  case Nil
  then show ?case by (intro exI [of _ "[]"]) simp
next
  case (Cons q qs)
  obtain x where x: "enter q c = c\<lparr>m_ofskh := m_ofskh c @ x\<rparr>" "set x \<subseteq> {(UdiH (e_udi (snd q)), int (fst q))}"
  proof (cases "enter q c = c")
    case True
    then show ?thesis using that [of "[]"] by simp
  next
    case False
    then show ?thesis
      using that [of "[(UdiH (e_udi (snd q)), int (fst q))]"] by (auto simp: enter_def khEnter_def Let_def split: if_splits)
  qed
  then show ?case
    using Cons [of "enter q c"] by auto (rule exI [of _ "x @ xs" for xs], auto)
qed

lemma clear_scanned:
  assumes "\<And>q h. q \<in> set qs \<Longrightarrow> (h, int (fst q)) \<in> set (m_ofskh c) \<Longrightarrow> h = UdiH (e_udi (snd q))"
  shows "khClear_refs (map ref_of qs) (fold enter qs c) =
    c\<lparr>m_ofskh := filter (\<lambda>p. snd p \<notin> (\<lambda>q. int (fst q)) ` set qs) (m_ofskh c)\<rparr>"
proof -
  let ?R = "(\<lambda>q. (UdiH (e_udi (snd q)), int (fst q))) ` set qs"
  obtain xs where xs: "fold enter qs c = c\<lparr>m_ofskh := m_ofskh c @ xs\<rparr>" "set xs \<subseteq> ?R"
    using enters_ofskh by blast
  have R: "(\<lambda>r. (UdiH (fst r), snd r)) ` set (map ref_of qs) = ?R"
    by (force simp: ref_of_def)
  have "filter (\<lambda>p. p \<notin> ?R) (m_ofskh c @ xs) = filter (\<lambda>p. p \<notin> ?R) (m_ofskh c)"
    using xs(2) by (auto simp: filter_empty_conv)
  also have "\<dots> = filter (\<lambda>p. snd p \<notin> (\<lambda>q. int (fst q)) ` set qs) (m_ofskh c)"
    using assms by (intro filter_cong) force+
  finally show ?thesis
    unfolding khClear_refs_filter R by (simp add: xs(1))
qed

abbreviation without :: "(nat \<times> CEntry) list \<Rightarrow> (byte list \<times> int) list \<Rightarrow> (byte list \<times> int) list" where
  "without qs kh \<equiv> filter (\<lambda>p. snd p \<notin> (\<lambda>q. int (fst q)) ` set qs) kh"

lemma without_Nil: "c\<lparr>m_ofskh := without [] (m_ofskh c)\<rparr> = c"
  by simp

lemma put_space_spec:
  assumes s: "split_at c pre_es junk rest" and oh: "m_oheadoffs c = int n"
    and n: "n = CIRCACHE_FIRSTBLOCK_SIZE + length (cc_bytes pre_es) + length junk"
    and grow: "int (length (cc_file c)) < m_maxsize c \<longrightarrow> rest = []"
    and kh: "\<And>q h. q \<in> set (place n rest) \<Longrightarrow> (h, int (fst q)) \<in> set (m_ofskh c) \<Longrightarrow> h = UdiH (e_udi (snd q))"
  shows "\<exists>j. put_space (int nsz) (int (length junk)) c =
      Some (Some (int (length junk + length (cc_bytes (take j rest)) - nsz)),
        c\<lparr>m_ofskh := without (take j (place n rest)) (m_ofskh c)\<rparr>) \<and>
    j \<le> length rest \<and> (j = length rest \<or> nsz \<le> length junk + length (cc_bytes (take j rest))) \<and>
    (\<forall>i < j. length junk + length (cc_bytes (take i rest)) < nsz)"
proof (cases "nsz \<le> length junk")
  case True
  then show ?thesis
    by (intro exI [of _ 0]) (simp add: put_space_def without_Nil of_nat_diff)
next
  case False
  show ?thesis
  proof (cases "int (length (cc_file c)) < m_maxsize c")
    case True
    then show ?thesis
      using False grow by (intro exI [of _ 0]) (simp add: put_space_def without_Nil)
  next
    case full: False
    define sw where "sw = nsz - length junk"
    have sw0: "0 < sw"
      using False by (simp add: sw_def)
    define pre where "pre = take CIRCACHE_FIRSTBLOCK_SIZE (cc_file c) @ cc_bytes pre_es @ junk"
    have f: "cc_file c = pre @ cc_bytes rest" and l: "length pre = n"
      using split_at_file(1) [OF s] s by (simp_all add: pre_def n split_at_def)
    have ok: "\<forall>e \<in> set rest. entry_ok e" "length (cc_file c) < 2 ^ 63" "cc_fd c"
      using s by (simp_all add: split_at_def)
    have b: "0 + length (cc_bytes rest) < 2 ^ 63"
      using ok(2) f by simp
    obtain j st where w: "walk (hook_spacer (int sw)) (place n rest) (0, []) c =
        (st, (int (length (cc_bytes (take j rest))), map ref_of (take j (place n rest))), fold enter (take j (place n rest)) c)"
      and j: "j \<le> length rest" "st = Stop \<and> sw \<le> length (cc_bytes (take j rest)) \<or>
        st = Continue \<and> j = length rest \<and> length (cc_bytes (take j rest)) < sw"
        "\<forall>i < j. length (cc_bytes (take i rest)) < sw"
      using walk_spacer [OF ok(1) b sw0, of n "[]" c] by (simp only: add_0 append_Nil int_ops(1)) blast
    have cl: "khClear_refs (map ref_of (take j (place n rest))) (fold enter (take j (place n rest)) c) =
        c\<lparr>m_ofskh := without (take j (place n rest)) (m_ofskh c)\<rparr>"
      using kh by (intro clear_scanned) (auto dest: in_set_takeD)
    have sc: "scan (hook_spacer (int sw)) False (m_oheadoffs c) (0, []) c =
        Some (if st \<noteq> Continue then st else Eof, (int (length (cc_bytes (take j rest))), map ref_of (take j (place n rest))),
          fold enter (take j (place n rest)) c)"
      using scan_tail [OF f ok, of "hook_spacer (int sw)" "(0, [])"] oh by (simp add: l w)
    have swi: "int nsz - int (length junk) = int sw"
      using False by (simp add: sw_def)
    have ng: "(int nsz \<le> int (length junk)) = False" "(int (length (cc_file c)) < m_maxsize c) = False"
      using False full by auto
    have p: "put_space (int nsz) (int (length junk)) c =
        Some (Some (if st = Stop then int (length (cc_bytes (take j rest))) - int sw else 0),
          c\<lparr>m_ofskh := without (take j (place n rest)) (m_ofskh c)\<rparr>)"
      unfolding put_space_def Let_def ng if_False swi sc using j(2) cl by auto
    have "(if st = Stop then int (length (cc_bytes (take j rest))) - int sw else 0) =
        int (length junk + length (cc_bytes (take j rest)) - nsz)"
      using j(2) False by (auto simp: of_nat_diff sw_def)
    note P = p [unfolded this]
    have "j = length rest \<or> nsz \<le> length junk + length (cc_bytes (take j rest))"
      using j(2) False unfolding sw_def by linarith
    moreover have "\<forall>i < j. length junk + length (cc_bytes (take i rest)) < nsz"
      using j(3) unfolding sw_def by auto
    ultimately show ?thesis
      using P j(1) by blast
  qed
qed

section \<open>The first block\<close>

lemma length_dec_int_string: "\<bar>z\<bar> \<le> 2 ^ 63 \<Longrightarrow> length (dec_int_string z) \<le> 20"
proof -
  assume "\<bar>z\<bar> \<le> 2 ^ 63"
  then have "nat \<bar>z\<bar> < 10 ^ 19" by simp
  then have "length (dec_string (nat \<bar>z\<bar>)) \<le> 19"
    by (intro length_dec_string_le) auto
  then show ?thesis
    by (auto simp: dec_int_string_def abs_if split: if_splits)
qed

text \<open>What the numbers of the first block stay within.\<close>

definition ints_ok :: "CirCache \<Rightarrow> bool" where
  "ints_ok c \<longleftrightarrow> \<bar>m_maxsize c\<bar> \<le> 2 ^ 63 \<and> \<bar>m_oheadoffs c\<bar> \<le> 2 ^ 63 \<and> \<bar>m_nheadoffs c\<bar> \<le> 2 ^ 63 \<and> \<bar>m_npadsize c\<bar> \<le> 2 ^ 63"

lemma length_first_block: "ints_ok c \<Longrightarrow> length (first_block_text c) \<le> CIRCACHE_FIRSTBLOCK_SIZE"
  using length_dec_int_string [of "m_maxsize c"] length_dec_int_string [of "m_oheadoffs c"]
    length_dec_int_string [of "m_nheadoffs c"] length_dec_int_string [of "m_npadsize c"]
    length_dec_int_string [of 1] length_dec_int_string [of 0]
  by (simp add: ints_ok_def first_block_text_def)

lemma writefirstblock_spec:
  assumes "ints_ok c" and "cc_fd c" and "CIRCACHE_FIRSTBLOCK_SIZE \<le> length (cc_file c)"
  shows "\<exists>f. writefirstblock c = (True, c\<lparr>cc_file := f\<rparr>) \<and> length f = length (cc_file c) \<and>
    drop CIRCACHE_FIRSTBLOCK_SIZE f = drop CIRCACHE_FIRSTBLOCK_SIZE (cc_file c) \<and>
    f = first_block_text c @ drop (length (first_block_text c)) (cc_file c)"
  using assms length_first_block [OF assms(1)] by (simp add: writefirstblock_def pwrite_def)

section \<open>Writing the entry\<close>

definition new_entry :: "string \<Rightarrow> string \<Rightarrow> 16 word \<Rightarrow> string \<Rightarrow> CEntry" where
  "new_entry dic z flags pad =
     \<lparr>e_hd = \<lparr>dicsize = of_nat (length dic), datasize = of_nat (length z), padsize = of_nat (length pad), hflags = flags\<rparr>,
      e_dic = dic, e_data = z, e_pad = pad\<rparr>"

lemma new_entry_ok:
  assumes "dic_ok dic" and "dic \<noteq> []" and "64 + length dic + length z < 2 ^ 31" and "length pad < 2 ^ 63"
  shows "entry_ok (new_entry dic z flags pad)"
  using assms by (simp add: entry_ok_def new_entry_def unsigned_of_nat take_bit_nat_eq_self)

lemma put_write_spec:
  fixes flags :: "16 word"
  assumes s: "split_at c pre_es junk rest" and j: "j \<le> length rest"
    and n0: "n0 = CIRCACHE_FIRSTBLOCK_SIZE + length (cc_bytes pre_es)"
    and free: "free = junk @ cc_bytes (take j rest)"
    and nsz: "nsz = 64 + length dic + length z"
    and room: "j = length rest \<or> nsz \<le> length free"
    and dic: "dic_ok dic" "dic \<noteq> []" and small: "64 + length dic + length z < 2 ^ 31"
    and fbound: "length (cc_file c) + nsz < 2 ^ 63" and mx: "\<bar>m_maxsize c\<bar> \<le> 2 ^ 63"
  defines "es' \<equiv> pre_es @ new_entry dic z flags (drop nsz free) # drop j rest"
    and "k' \<equiv> (if m_maxsize c \<le> int (n0 + nsz) then 0 else length pre_es + 1)"
  shows "\<exists>c'. put_write udi dic z flags (int n0) (int (length free - nsz)) c = (True, c') \<and>
    layout c' es' k' \<and> newest c' es' k' \<and> m_ofskh c' = m_ofskh (khEnter udi (int n0) c) \<and>
    m_ofskhcplt c' = m_ofskhcplt c \<and> m_maxsize c' = m_maxsize c \<and> m_uniquentries c' = m_uniquentries c"
proof -
  define e where "e = new_entry dic z flags (drop nsz free)"
  define pre where "pre = take CIRCACHE_FIRSTBLOCK_SIZE (cc_file c) @ cc_bytes pre_es"
  have oks: "\<forall>e \<in> set pre_es \<union> set rest. entry_ok e" "cc_fd c" "1024 \<le> length (cc_file c)"
    using s by (simp_all add: split_at_def)
  have "cc_bytes rest = cc_bytes (take j rest) @ cc_bytes (drop j rest)"
    by (simp flip: cc_bytes_simps(3))
  then have f: "cc_file c = pre @ free @ cc_bytes (drop j rest)"
    using split_at_file(1) [OF s] by (simp add: pre_def free)
  have l: "length pre = n0" and dp: "drop 1024 pre = cc_bytes pre_es"
    using oks(3) by (simp_all add: pre_def n0)
  have len: "length free < 2 ^ 63" "n0 + length free + length (cc_bytes (drop j rest)) = length (cc_file c)"
    using arg_cong [OF f, of length] l fbound by simp_all
  have eok: "entry_ok e"
    unfolding e_def using dic small len(1) by (intro new_entry_ok) auto
  have h: "header_block \<lparr>dicsize = of_nat (length dic), datasize = of_nat (length z),
      padsize = word_of_int (int (length free - nsz)), hflags = flags\<rparr> @ dic @ z @ drop nsz free = entry_bytes e"
    by (simp add: entry_bytes_def e_def new_entry_def)
  have tail: "drop (n0 + nsz) (cc_file c) = drop nsz free @ cc_bytes (drop j rest)"
    unfolding f using room l by auto
  let ?h = "\<lparr>dicsize = of_nat (length dic), datasize = of_nat (length z),
      padsize = word_of_int (int (length free - nsz)), hflags = flags\<rparr>"
  have w: "pwrite (cc_file c) (int n0) (header_block ?h @ dic @ z) = pre @ entry_bytes e @ cc_bytes (drop j rest)"
  proof -
    have "take n0 (cc_file c) = pre" "n0 - length (cc_file c) = 0"
      using l len(2) by (simp_all add: f)
    then show ?thesis
      using tail nsz h by (simp add: pwrite_def add.assoc)
  qed
  define oh where "oh = (if m_maxsize c \<le> int n0 + int nsz then 1024 else int n0 + int nsz + int (length free - nsz))"
  define c1 where "c1 = (khEnter udi (int n0) (c\<lparr>cc_file := pre @ entry_bytes e @ cc_bytes (drop j rest)\<rparr>))
    \<lparr>m_nheadoffs := int n0, m_npadsize := int (length free - nsz), m_oheadoffs := oh\<rparr>"
  have pw: "put_write udi dic z flags (int n0) (int (length free - nsz)) c = writefirstblock c1"
    using w nsz by (simp add: put_write_def c1_def oh_def Let_def)
  have le: "length (entry_bytes e) = nsz + (length free - nsz)"
    by (simp add: length_entry_bytes e_def new_entry_def nsz)
  have fl: "n0 + length (entry_bytes e) + length (cc_bytes (drop j rest)) \<le> length (cc_file c) + nsz"
    using len(2) le by linarith
  have ints: "ints_ok c1"
    using mx fl fbound le n0 by (auto simp: ints_ok_def c1_def oh_def)
  have cf: "cc_file c1 = pre @ entry_bytes e @ cc_bytes (drop j rest)" "cc_fd c1" "m_maxsize c1 = m_maxsize c"
    using oks(2) by (simp_all add: c1_def)
  obtain f' where f': "writefirstblock c1 = (True, c1\<lparr>cc_file := f'\<rparr>)" "length f' = length (cc_file c1)"
    "drop 1024 f' = drop 1024 (cc_file c1)"
    using writefirstblock_spec [OF ints cf(2)] cf(1) l n0 by auto
  have "drop 1024 (cc_file c1) = cc_bytes es'"
    using dp l n0 by (simp add: cf(1) es'_def e_def)
  moreover have "length (cc_file c1) < 2 ^ 63" "1024 \<le> length (cc_file c1)"
    using fl fbound l n0 by (simp_all add: cf(1))
  moreover have "\<forall>e \<in> set es'. entry_ok e"
    using oks(1) eok by (auto simp: es'_def e_def dest: in_set_dropD)
  moreover have "oh = int (1024 + length (cc_bytes (take k' es')))"
    using le n0 by (simp add: oh_def k'_def es'_def e_def)
  ultimately have "layout (c1\<lparr>cc_file := f'\<rparr>) es' k'"
    using f'(2,3) cf(2) by (simp add: layout_def c1_def k'_def es'_def)
  moreover have "newest (c1\<lparr>cc_file := f'\<rparr>) es' k'"
    using n0 by (simp add: newest_def c1_def k'_def es'_def nth_append new_entry_def)
  moreover have "m_ofskh c1 = m_ofskh (khEnter udi (int n0) c)"
    by (simp add: c1_def khEnter_def Let_def)
  ultimately show ?thesis
    unfolding pw f'(1) by (intro exI [of _ "c1\<lparr>cc_file := f'\<rparr>"]) (simp add: c1_def)
qed

section \<open>The whole operation\<close>

text \<open>
  The offset limit: no entry and no write starts at or beyond the maximum size, and a file below it is
  written at its end.
\<close>

definition cap_inv :: "CirCache \<Rightarrow> CEntry list \<Rightarrow> nat \<Rightarrow> bool" where
  "cap_inv c es k \<longleftrightarrow>
     int CIRCACHE_FIRSTBLOCK_SIZE < m_maxsize c \<and> m_maxsize c \<le> 2 ^ 63 \<and>
     (\<forall>p \<in> set (aged es k). int (fst p) < m_maxsize c) \<and> int (write_offs es k) < m_maxsize c \<and>
     (int (length (cc_file c)) < m_maxsize c \<longrightarrow> k = length es)"

text \<open>What the new entry replaces: the first \<open>j\<close> entries after the write position.\<close>

definition placed_before :: "CEntry list \<Rightarrow> nat \<Rightarrow> (nat \<times> CEntry) list" where
  "placed_before es k = place CIRCACHE_FIRSTBLOCK_SIZE (take k es)"

definition placed_after :: "CEntry list \<Rightarrow> nat \<Rightarrow> (nat \<times> CEntry) list" where
  "placed_after es k = place (entry_offs es k) (drop k es)"

lemma aged_placed: "aged es k = placed_after es k @ placed_before es k"
  by (simp add: aged_def placed_after_def placed_before_def)

text \<open>The map of offsets after the store, given what the new list of entries looks like.\<close>

lemma live_offs: "x \<in> set (live ps) \<Longrightarrow> int (fst x) \<in> (\<lambda>q. int (fst q)) ` set ps"
  by (force simp: live_def)

lemma kept_offs:
  assumes old: "live ps = live qs @ live rs @ live bs" and snd: "kh_sound c ps"
    and mem: "(h, n) \<in> set (without qs (m_ofskh c))"
  shows "\<exists>x \<in> set (live rs @ live bs). n = int (fst x) \<and> h = UdiH (core_udi (snd x))"
proof -
  obtain x where x: "x \<in> set (live ps)" "n = int (fst x)" "h = UdiH (core_udi (snd x))"
    using snd mem by (fastforce simp: kh_sound_live)
  have "x \<notin> set (live qs)"
    using mem x(2) live_offs [of x qs] by auto
  with x old show ?thesis by auto
qed

lemma kh_after_put:
  assumes old: "live ps = live qs @ live rs @ live bs"
    and snd: "kh_sound c ps" and kh: "m_ofskh c' = without qs (m_ofskh c) @ [(UdiH udi, int n0)]"
    and new: "set (live ps') = set (live rs) \<union> set (live bs) \<union> {(n0, x)}" and u: "core_udi x = udi"
    and n0: "n0 \<notin> set (map fst (live rs @ live bs))"
    and away: "set (map fst (live rs @ live bs)) \<inter> set (map fst qs) = {}"
  shows "kh_sound c' ps'" and "kh_complete c ps \<Longrightarrow> kh_complete c' ps'"
proof -
  note in_old = kept_offs [OF old snd]
  have "(UdiH udi, int n0) \<notin> set (without qs (m_ofskh c))"
  proof
    assume "(UdiH udi, int n0) \<in> set (without qs (m_ofskh c))"
    then obtain x where "x \<in> set (live rs @ live bs)" "int n0 = int (fst x)"
      using in_old by blast
    then show False
      using n0 by auto
  qed
  moreover have "distinct (without qs (m_ofskh c))"
    using snd by (simp add: kh_sound_live)
  ultimately show "kh_sound c' ps'"
    using in_old u by (fastforce simp: kh_sound_live kh new)
  show "kh_complete c' ps'" if "kh_complete c ps"
  proof -
    have "(UdiH (core_udi (snd x)), int (fst x)) \<in> set (m_ofskh c')" if x: "x \<in> set (live rs @ live bs)" for x
    proof -
      have "int (fst x) \<notin> (\<lambda>q. int (fst q)) ` set qs"
        using away x by force
      then show ?thesis
        using \<open>kh_complete c ps\<close> x old by (auto simp: kh_complete_live kh)
    qed
    then show ?thesis
      using u by (auto simp: kh_complete_live new kh)
  qed
qed

lemma full_after_put:
  assumes old: "live ps = live qs @ live rs @ live bs"
    and kh: "m_ofskh c' = without qs (m_ofskh c) @ [(UdiH udi, int n0)]"
    and new: "live ps' = live rs @ live bs @ [(n0, x)]" and u: "core_udi x = udi"
    and n0: "n0 \<notin> set (map fst (live rs @ live bs))"
    and away: "set (map fst (live rs @ live bs)) \<inter> set (map fst qs) = {}"
    and full: "kh_full c ps" and snd: "kh_sound c ps"
  shows "kh_full c' ps'"
proof -
  let ?Q = "(\<lambda>q. int (fst q)) ` set qs"
  have "kh_known u c' ps' = offs_of u ps'" for u
  proof -
    let ?o = "\<lambda>ls. map (\<lambda>x. int (fst x)) (filter (\<lambda>x. core_udi (snd x) = u) ls)"
    have o': "offs_of u ps' = ?o (live rs @ live bs) @ (if u = udi then [int n0] else [])"
      using u by (simp add: offs_of_live new)
    have o: "offs_of u ps = ?o (live qs) @ ?o (live rs @ live bs)"
      by (simp add: offs_of_live old)
    have k: "kh_known u c ps = offs_of u ps"
      using full by (simp add: kh_full_def)
    have out: "m \<notin> ?Q" if "m \<in> set (?o (live rs @ live bs))" for m
      using that away by force
    have inQ: "set (?o (live qs)) \<subseteq> ?Q"
      using live_offs [of _ qs] by auto
    have F: "khFind u c' = filter (\<lambda>n. n \<notin> ?Q) (khFind u c) @ (if UdiH udi = UdiH u then [int n0] else [])"
      by (simp add: khFind_def kh filter_map o_def conj_commute Let_def)
    have n0': "int n0 \<notin> set (?o (live rs @ live bs))"
      using n0 by force
    have sub: "n \<in> set (offs_of u ps') \<longleftrightarrow> n \<in> set (offs_of u ps)" if "n \<notin> ?Q" "n \<noteq> int n0" for n
      using that inQ unfolding o o' by auto
    have "kh_known u c' ps' = filter (\<lambda>n. n \<in> set (offs_of u ps')) (filter (\<lambda>n. n \<notin> ?Q) (khFind u c)) @
        (if u = udi then [int n0] else [])"
      using n0' unfolding kh_known_def F by (auto simp: o')
    moreover have "filter (\<lambda>n. n \<in> set (offs_of u ps')) (filter (\<lambda>n. n \<notin> ?Q) (khFind u c)) =
        filter (\<lambda>n. n \<notin> ?Q) (kh_known u c ps)"
    proof -
      have nn: "int n0 \<notin> set (filter (\<lambda>n. n \<notin> ?Q) (khFind u c))"
        using kept_offs [OF old snd, of "UdiH u" "int n0"] n0 by (auto simp: set_khFind)
      have "filter (\<lambda>n. n \<in> set (offs_of u ps')) (filter (\<lambda>n. n \<notin> ?Q) (khFind u c)) =
          filter (\<lambda>n. n \<in> set (offs_of u ps)) (filter (\<lambda>n. n \<notin> ?Q) (khFind u c))"
        by (rule filter_cong) (use sub nn in auto)
      then show ?thesis
        by (simp add: kh_known_def conj_commute)
    qed
    moreover have "filter (\<lambda>n. n \<notin> ?Q) (kh_known u c ps) = ?o (live rs @ live bs)"
    proof -
      have "filter (\<lambda>n. n \<notin> ?Q) (?o (live qs)) = []"
        unfolding filter_empty_conv using inQ by blast
      moreover have "filter (\<lambda>n. n \<notin> ?Q) (?o (live rs @ live bs)) = ?o (live rs @ live bs)"
        using out by (intro filter_True) blast
      ultimately show ?thesis
        unfolding k o filter_append by simp
    qed
    ultimately show ?thesis
      by (simp add: o')
  qed
  then show ?thesis
    by (simp add: kh_full_def)
qed

lemma before_write_offs:
  assumes "k \<le> length es"
  shows "set (map fst (place CIRCACHE_FIRSTBLOCK_SIZE (before_write es k))) \<subseteq> set (map fst (placed_before es k))"
  using take_prev [of k es] assms by (auto simp: before_write_def placed_before_def Let_def)

lemma live_fst: "set (map fst (live ps)) \<subseteq> set (map fst ps)"
  by (auto simp: live_def)

lemma dic_get_Nil: "dic_get ro [] nm = None"
  by (simp add: dic_get_def dic_conf_def conf_new_def cfsf_defs varsToFlags_def conf_get_def conf_init_def)

lemma put_entry_spec:
  assumes inv: "cc_inv c es k" and cap: "cap_inv c es k" and pad: "0 < k \<longrightarrow> m_npadsize c < 2 ^ 31"
    and dic: "dic_ok dic" "dic_get True dic ''udi'' = Some udi"
    and small: "64 + length dic + length z < 2 ^ 31" and fbound: "length (cc_file c) + 64 + length dic + length z < 2 ^ 63"
  shows "\<exists>c' es' k' qs rs. put_entry udi dic (z, flags) c = Some (True, c') \<and> cc_inv c' es' k' \<and> cap_inv c' es' k' \<and>
    live (aged es k) = live qs @ rs \<and> live (aged es' k') = rs @ [(write_offs es k, (dic, z, flags))] \<and>
    m_ofskhcplt c' = m_ofskhcplt c \<and> m_maxsize c' = m_maxsize c \<and> m_uniquentries c' = m_uniquentries c \<and>
    (kh_full c (aged es k) \<longrightarrow> kh_full c' (aged es' k')) \<and>
    int (length (cc_file c')) \<le> max (int (length (cc_file c))) (m_maxsize c - 1 + int (64 + length dic + length z))"
proof -
  define nsz where "nsz = 64 + length dic + length z"
  define n0 where "n0 = write_offs es k"
  define pre_es where "pre_es = before_write es k"
  define rest where "rest = drop k es"
  have lay: "layout c es k" and new: "newest c es k" and snd: "kh_sound c (aged es k)"
    using inv by (simp_all add: cc_inv_def kh_inv_def)
  note bw = before_write_facts [OF lay, folded pre_es_def n0_def]
  have k: "k \<le> length es" and oh: "m_oheadoffs c = int (entry_offs es k)" and dne: "dic \<noteq> []"
    using lay dic(2) dic_get_Nil by (auto simp: layout_def)
  obtain f junk where R: "put_recover c = Some (int (length junk), c\<lparr>cc_file := f\<rparr>)" and fl: "length f = length (cc_file c)"
    and po: "m_oheadoffs c - int (length junk) = int n0" and sp: "split_at (c\<lparr>cc_file := f\<rparr>) pre_es junk rest"
    using put_recover_spec [OF lay new pad] unfolding pre_es_def rest_def n0_def by blast
  define c1 where "c1 = c\<lparr>cc_file := f\<rparr>"
  define n where "n = n0 + length junk"
  have n: "n = entry_offs es k"
    using po oh by (simp add: n_def)
  have kh: "h = UdiH (e_udi (snd q))" if mem: "q \<in> set (place n rest)" "(h, int (fst q)) \<in> set (m_ofskh c1)" for q h
  proof -
    have q: "q \<in> set (aged es k)"
      using mem(1) by (auto simp: aged_def n rest_def)
    obtain p where p: "p \<in> set (aged es k)" "fst p = fst q" "h = UdiH (e_udi (snd p))"
      using snd mem(2) by (fastforce simp: kh_sound_def c1_def)
    then show ?thesis
      using distinct_fst_same [OF distinct_aged p(1) q p(2)] by simp
  qed
  have grow: "int (length (cc_file c1)) < m_maxsize c1 \<longrightarrow> rest = []"
    using cap fl by (simp add: cap_inv_def c1_def rest_def)
  have "m_oheadoffs c1 = int n" "n = CIRCACHE_FIRSTBLOCK_SIZE + length (cc_bytes pre_es) + length junk"
    using oh n bw(2) by (simp_all add: c1_def n_def)
  from put_space_spec [OF sp [folded c1_def] this grow kh, where nsz = nsz] obtain j where
    S: "put_space (int nsz) (int (length junk)) c1 = Some (Some (int (length junk + length (cc_bytes (take j rest)) - nsz)),
        c1\<lparr>m_ofskh := without (take j (place n rest)) (m_ofskh c1)\<rparr>)"
    and j: "j \<le> length rest" "j = length rest \<or> nsz \<le> length junk + length (cc_bytes (take j rest))"
    by blast
  define qs where "qs = take j (place n rest)"
  define c2 where "c2 = c1\<lparr>m_ofskh := without qs (m_ofskh c)\<rparr>"
  define free where "free = junk @ cc_bytes (take j rest)"
  have sp2: "split_at c2 pre_es junk rest"
    using sp by (simp add: split_at_def c2_def c1_def)
  define e where "e = new_entry dic z flags (drop nsz free)"
  define es' where "es' = pre_es @ e # drop j rest"
  define k' where "k' = (if m_maxsize c \<le> int (n0 + nsz) then 0 else length pre_es + 1)"
  have c2: "m_maxsize c2 = m_maxsize c" "cc_file c2 = f" "m_ofskhcplt c2 = m_ofskhcplt c" "m_uniquentries c2 = m_uniquentries c"
    by (simp_all add: c2_def c1_def)
  have "\<bar>m_maxsize c2\<bar> \<le> 2 ^ 63" "j = length rest \<or> nsz \<le> length free" "length (cc_file c2) + nsz < 2 ^ 63"
    using cap j(2) fbound fl by (auto simp: cap_inv_def c2 free_def nsz_def)
  then obtain c' where P: "put_write udi dic z flags (int n0) (int (length free - nsz)) c2 = (True, c')"
    and lay': "layout c' es' k'" and new': "newest c' es' k'" and K: "m_ofskh c' = m_ofskh (khEnter udi (int n0) c2)"
    and sel: "m_ofskhcplt c' = m_ofskhcplt c" "m_maxsize c' = m_maxsize c" "m_uniquentries c' = m_uniquentries c"
    using put_write_spec [OF sp2 j(1) bw(2) [symmetric] free_def nsz_def _ dic(1) dne small, where flags = flags and udi = udi]
    unfolding es'_def k'_def e_def c2 by blast
  have run: "put_entry udi dic (z, flags) c = Some (True, c')"
    using R S P po by (simp add: put_entry_def c1_def c2_def qs_def free_def nsz_def)
  have qsr: "place n rest = qs @ place (n + length (cc_bytes (take j rest))) (drop j rest)"
    unfolding qs_def using take_place drop_place append_take_drop_id by metis
  define rs where "rs = place (n + length (cc_bytes (take j rest))) (drop j rest)"
  define bs where "bs = place CIRCACHE_FIRSTBLOCK_SIZE pre_es"
  have aged: "aged es k = (qs @ rs) @ placed_before es k"
    unfolding aged_placed placed_after_def n [symmetric] rest_def [symmetric] rs_def qsr [symmetric] ..
  have lb: "live (placed_before es k) = live bs"
    using bw(3) by (simp add: placed_before_def bs_def)
  have le: "length (entry_bytes e) = nsz + (length free - nsz)"
    by (simp add: length_entry_bytes e_def new_entry_def nsz_def)
  have pl': "place CIRCACHE_FIRSTBLOCK_SIZE es' = bs @ (n0, e) # rs"
  proof (cases "drop j rest = []")
    case False
    then have "nsz \<le> length free"
      using j by (auto simp: free_def)
    then have "n0 + length (entry_bytes e) = n + length (cc_bytes (take j rest))"
      using le by (simp add: n_def free_def)
    then show ?thesis
      using bw(2) by (simp add: es'_def bs_def rs_def add.assoc)
  qed (use bw(2) in \<open>simp add: es'_def bs_def rs_def\<close>)
  have le_e: "live [(n0, e)] = [(n0, (dic, z, flags))]"
    using dne by (simp add: e_def new_entry_def core_def)
  have u: "core_udi (dic, z, flags) = udi"
    using dne dic(2) by (simp add: core_udi_def)
  have ob: "set (map fst bs) \<subseteq> set (map fst (placed_before es k))"
    using before_write_offs [OF k] by (simp add: bs_def pre_es_def)
  have d': "distinct (map fst (bs @ (n0, e) # rs))"
    unfolding pl' [symmetric] by (rule distinct_place)
  have n0: "n0 \<notin> set (map fst (live rs @ live bs))"
    using d' live_fst [of rs] live_fst [of bs] by auto
  have "distinct (map fst ((qs @ rs) @ placed_before es k))"
    unfolding aged [symmetric] by (rule distinct_aged)
  then have "set (map fst qs) \<inter> (set (map fst rs) \<union> set (map fst (placed_before es k))) = {}"
    unfolding map_append distinct_append set_append by blast
  then have "set (map fst (rs @ bs)) \<inter> set (map fst qs) = {}"
    using ob unfolding map_append set_append by blast
  moreover have "set (map fst (live rs @ live bs)) \<subseteq> set (map fst (rs @ bs))"
    using live_fst [of rs] live_fst [of bs] by auto
  ultimately have away: "set (map fst (live rs @ live bs)) \<inter> set (map fst qs) = {}"
    by blast
  have old: "live (aged es k) = live qs @ live rs @ live bs"
    unfolding aged by (simp add: lb)
  have new_set: "set (live (aged es' k')) = set (live rs) \<union> set (live bs) \<union> {(n0, (dic, z, flags))}"
  proof -
    have "set (live (aged es' k')) = set (live (place CIRCACHE_FIRSTBLOCK_SIZE es'))"
      using set_aged [of es' k'] by (simp add: live_def)
    then show ?thesis
      using le_e unfolding pl' by auto
  qed
  have fresh: "(UdiH udi, int n0) \<notin> set (without qs (m_ofskh c))"
  proof
    assume "(UdiH udi, int n0) \<in> set (without qs (m_ofskh c))"
    from kept_offs [OF old snd this] obtain x where "x \<in> set (live rs @ live bs)" "int n0 = int (fst x)"
      by blast
    then show False using n0 by auto
  qed
  have K': "m_ofskh c' = without qs (m_ofskh c) @ [(UdiH udi, int n0)]"
    using K fresh by (simp add: khEnter_def c2_def Let_def)
  have inv': "cc_inv c' es' k'"
    using lay' new' kh_after_put [OF old snd K' new_set u n0 away] inv sel(1) by (simp add: cc_inv_def kh_inv_def)
  have fl': "length (cc_file c') = n0 + length (entry_bytes e) + length (cc_bytes (drop j rest))"
    using layout_file(2) [OF lay'] bw(2) by (simp add: es'_def)
  have "length (cc_bytes (take j rest)) + length (cc_bytes (drop j rest)) = length (cc_bytes rest)"
    by (metis append_take_drop_id cc_bytes_simps(3) length_append)
  then have fl0: "length (cc_file c) = n0 + length free + length (cc_bytes (drop j rest))"
    using split_at_file(2) [OF sp] fl bw(2) by (simp add: free_def)
  have cap0: "int n0 < m_maxsize c" "\<forall>p \<in> set (aged es k). int (fst p) < m_maxsize c"
    using cap by (simp_all add: cap_inv_def n0_def)
  have last: "k' = 0 \<Longrightarrow> drop j rest = []"
  proof (rule ccontr)
    assume z: "k' = 0" and ne: "drop j rest \<noteq> []"
    then have "nsz \<le> length free" and "m_maxsize c \<le> int (n0 + nsz)"
      using j by (auto simp: free_def k'_def split: if_splits)
    moreover have "(n + length (cc_bytes (take j rest)), hd (drop j rest)) \<in> set rs"
      using ne by (cases "drop j rest") (auto simp: rs_def)
    moreover from this have "int (n + length (cc_bytes (take j rest))) < m_maxsize c"
      using cap0(2) unfolding aged by force
    ultimately show False
      by (simp add: free_def n_def)
  qed
  have live': "live (aged es' k') = (live rs @ live bs) @ [(n0, (dic, z, flags))]"
  proof (cases "k' = 0")
    case True
    then have "rs = []"
      using last by (simp add: rs_def)
    then show ?thesis
      using pl' le_e True by (simp add: aged_def)
  next
    case False
    then have "k' = Suc (length pre_es)"
      by (simp add: k'_def split: if_splits)
    then have "aged es' k' = rs @ bs @ [(n0, e)]"
      using pl' unfolding aged_rotate by (simp add: bs_def)
    then show ?thesis
      using le_e by simp
  qed
  have cap': "cap_inv c' es' k'"
  proof -
    have "\<forall>p \<in> set (aged es' k'). int (fst p) < m_maxsize c"
    proof -
      have "int m < m_maxsize c" if "m \<in> set (map fst (rs @ bs))" for m
        using cap0(2) that ob unfolding aged by force
      then show ?thesis
        using cap0(1) unfolding set_aged pl' by auto
    qed
    moreover have "int (write_offs es' k') < m_maxsize c"
    proof (cases "k' = 0")
      case True
      then show ?thesis using cap by (simp add: write_offs_def cap_inv_def)
    next
      case False
      then have "int (n0 + nsz) < m_maxsize c" "k' = Suc (length pre_es)"
        by (auto simp: k'_def split: if_splits)
      moreover have "write_offs es' (Suc (length pre_es)) = n0 + nsz"
        using bw(2) dne le by (simp add: write_offs_def es'_def e_def new_entry_def Let_def nth_append)
      ultimately show ?thesis by simp
    qed
    moreover have "k' = length es'" if "int (length (cc_file c')) < m_maxsize c"
    proof -
      have "int (n0 + nsz) < m_maxsize c" "int (length (cc_file c)) < m_maxsize c"
        using that fl' fl0 le by linarith+
      then show ?thesis
        using grow fl by (simp add: k'_def es'_def c1_def)
    qed
    ultimately show ?thesis
      using cap sel(2) by (simp add: cap_inv_def)
  qed
  have bound: "int (length (cc_file c')) \<le> max (int (length (cc_file c))) (m_maxsize c - 1 + int nsz)"
  proof (cases "nsz \<le> length free")
    case True
    then show ?thesis using fl' fl0 le by simp
  next
    case False
    then have "drop j rest = []"
      using j by (auto simp: free_def)
    then show ?thesis using False fl' le cap0(1) by simp
  qed
  have ord: "kh_full c' (aged es' k')" if "kh_full c (aged es k)"
    using full_after_put [OF old K' _ u n0 away that snd] live' by simp
  from run inv' cap' old live' sel ord bound show ?thesis
    unfolding n0_def nsz_def by (metis (no_types, lifting))
qed

end
