(* ===== verification/Cir_Run.thy ===== *)
theory Cir_Run
  imports Cir_Put
begin

text \<open>
  The circular cache as its clients see it: a bounded first-in first-out list of entries. \<open>put\<close>, \<open>erase\<close> and \<open>get\<close> are
  related to operations on that list, and the states that can be reached from a new cache are well-formed.
\<close>

section \<open>The abstract cache\<close>

text \<open>The entries from the oldest to the newest: dictionary, stored data and flags.\<close>

type_synonym content = "string \<times> string \<times> 16 word"

definition contents :: "CEntry list \<Rightarrow> nat \<Rightarrow> content list" where
  "contents es k = map snd (live (aged es k))"

definition content_result :: "(string \<Rightarrow> string option) \<Rightarrow> bool \<Rightarrow> content \<Rightarrow> (string \<times> string option) option" where
  "content_result inflate want x =
     (case x of (dic, z, flags) \<Rightarrow>
        if \<not> want then Some (dic, None)
        else if z \<noteq> [] \<and> flags AND EFDataCompressed \<noteq> 0 then map_option (\<lambda>v. (dic, Some v)) (inflate z)
        else Some (dic, Some z))"

text \<open>Lookup, removal and storing on the list: the store drops some of the oldest entries.\<close>

definition a_get :: "string \<Rightarrow> int \<Rightarrow> content list \<Rightarrow> content option" where
  "a_get udi i xs = cc_instance i (filter (\<lambda>x. core_udi x = udi) xs)"

definition a_erase :: "string \<Rightarrow> content list \<Rightarrow> content list" where
  "a_erase udi xs = filter (\<lambda>x. core_udi x \<noteq> udi) xs"

definition a_put :: "bool \<Rightarrow> string \<Rightarrow> content \<Rightarrow> nat \<Rightarrow> content list \<Rightarrow> content list" where
  "a_put unique udi x j xs = drop j (if unique then a_erase udi xs else xs) @ [x]"

lemma entry_result_core: "entry_result inflate want e = content_result inflate want (core e)"
  by (simp add: entry_result_def content_result_def core_def e_value_def)

lemma cc_instance_map: "cc_instance i (map f xs) = map_option f (cc_instance i xs)"
  by (auto simp: cc_instance_def last_map nat_less_iff)

lemma contents_mates:
  "filter (\<lambda>x. core_udi x = udi) (contents es k) = map (\<lambda>p. core (snd p)) (mates udi (aged es k))"
proof -
  have "filter (\<lambda>x. core_udi x = udi) (map snd (live ps)) = map (\<lambda>p. core (snd p)) (mates udi ps)" for ps
    by (induction ps) auto
  then show ?thesis
    by (simp add: contents_def)
qed

lemma contents_erase: "contents (erase_udi udi b es) k = a_erase udi (contents es k)"
proof -
  have "map snd (live (map (upd (matching udi es k) b) ps)) = a_erase udi (map snd (live ps))" if "set ps \<subseteq> set (aged es k)" for ps
    using that by (induction ps) (auto simp: a_erase_def upd_def)
  then show ?thesis
    by (simp add: contents_def aged_erase)
qed

text \<open>Looking up.\<close>

lemma get_refines:
  assumes "cc_inv c es k" and "kh_ordered c (aged es k)" and "udi \<noteq> []"
  shows "\<exists>c'. get inflate udi want i c = Some (case a_get udi i (contents es k) of
      None \<Rightarrow> None | Some x \<Rightarrow> content_result inflate want x, c') \<and> looked c (aged es k) c'"
proof -
  have "(case a_get udi i (contents es k) of None \<Rightarrow> None | Some x \<Rightarrow> content_result inflate want x) =
      (case cc_instance i (mates udi (aged es k)) of None \<Rightarrow> None | Some p \<Rightarrow> entry_result inflate want (snd p))"
    unfolding a_get_def contents_mates cc_instance_map
    by (cases "cc_instance i (mates udi (aged es k))") (simp_all add: entry_result_core)
  then show ?thesis
    using get_spec [of c es k udi inflate want i] assms by (simp add: cc_inv_def kh_inv_def)
qed

section \<open>The operations on well-formed caches\<close>

lemma cc_inv_looked:
  assumes "cc_inv c es k" and "looked c (aged es k) c'"
  shows "cc_inv c' es k" and "kh_ordered c (aged es k) \<Longrightarrow> kh_ordered c' (aged es k)"
    and "kh_full c (aged es k) \<Longrightarrow> kh_full c' (aged es k)"
    and "cc_file c' = cc_file c" and "m_maxsize c' = m_maxsize c" and "m_uniquentries c' = m_uniquentries c"
proof -
  let ?ps = "aged es k"
  consider "c' = c" | qs rs where "?ps = qs @ rs" "c' = fold enter qs c"
    | "c' = (fold enter ?ps c)\<lparr>m_ofskhcplt := True\<rparr>"
    using assms(2) by (auto simp: looked_def)
  note cases = this
  have n: "newest ((fold enter qs c)\<lparr>m_ofskhcplt := b\<rparr>) es k = newest c es k" "newest (fold enter qs c) es k = newest c es k"
    for qs b by (simp_all add: newest_def)
  show "cc_inv c' es k"
    using cases
  proof cases
    case 2
    then show ?thesis
      using assms(1) kh_inv_enters [of c ?ps qs] n by (auto simp: cc_inv_def)
  next
    case 3
    then show ?thesis
      using assms(1) kh_sound_enters [of c ?ps ?ps] kh_complete_enters n by (simp add: cc_inv_def kh_inv_def)
  qed (use assms(1) in simp)
  show "kh_ordered c' ?ps" if "kh_ordered c ?ps"
    using cases
  proof cases
    case 2
    then show ?thesis
      using kh_ordered_enters [OF distinct_aged] that by blast
  next
    case 3
    have "kh_known udi (fold enter ?ps c) ?ps = offs_of udi ?ps" for udi
      using known_all [OF distinct_aged] that by (simp add: kh_ordered_def)
    with 3 show ?thesis
      by (simp add: kh_ordered_def)
  qed (use that in simp)
  show "kh_full c' ?ps" if "kh_full c ?ps"
    using cases
  proof cases
    case 2
    then show ?thesis
      using kh_full_enters [OF distinct_aged] that by blast
  next
    case 3
    then show ?thesis
      using kh_full_enters [OF distinct_aged, of es k ?ps "[]" c] that by (simp add: kh_full_def)
  qed (use that in simp)
  show "cc_file c' = cc_file c"
    using cases by cases simp_all
  show "m_maxsize c' = m_maxsize c"
    using cases by cases simp_all
  show "m_uniquentries c' = m_uniquentries c"
    using cases by cases simp_all
qed

lemma cap_looked:
  "cap_inv c es k \<Longrightarrow> cc_file c' = cc_file c \<Longrightarrow> m_maxsize c' = m_maxsize c \<Longrightarrow> cap_inv c' es k"
  by (simp add: cap_inv_def)

lemma cap_erase:
  assumes "cap_inv c es k" and "layout c es k" and "length (cc_file c') = length (cc_file c)" and "m_maxsize c' = m_maxsize c"
  shows "cap_inv c' (erase_udi udi b es) k"
proof -
  have len: "length (erase_udi udi b es) = length es"
    by (simp add: erase_udi_def)
  have offs: "\<forall>p \<in> set (aged (erase_udi udi b es) k). int (fst p) < m_maxsize c"
    using assms(1) unfolding aged_erase cap_inv_def by auto
  have "int (write_offs (erase_udi udi b es) k) < m_maxsize c"
  proof (cases "0 < k")
    case True
    then have k: "k - 1 < length es"
      using assms(2) unfolding layout_def by linarith
    let ?e = "es ! (k - 1)"
    have nth: "erase_udi udi b es ! (k - 1) = (if e_dic ?e \<noteq> [] \<and> e_udi ?e = udi then erased b ?e else ?e)"
      using k by (simp add: erase_udi_def)
    have t: "length (cc_bytes (take (k - 1) (erase_udi udi b es))) = length (cc_bytes (take (k - 1) es))"
      using length_take_upd [of "k - 1" "matching udi es k" b es] by (simp only: upd_matching)
    have "int (entry_offs es (k - 1)) < m_maxsize c"
      using assms(1) place_mem [OF k, of k] by (auto simp: cap_inv_def)
    moreover have "e_pad (erased b ?e) \<noteq> []" if "e_dic ?e \<noteq> []"
      using that erased_sel(4) [of b ?e] by (metis add_eq_0_iff_both_eq_0 length_0_conv)
    ultimately show ?thesis
      using assms(1) nth t True by (auto simp: write_offs_def cap_inv_def Let_def)
  next
    case False
    then show ?thesis
      using assms(1) by (simp add: write_offs_def cap_inv_def)
  qed
  with offs len show ?thesis
    using assms by (simp add: cap_inv_def)
qed

lemma newest_pad_less:
  assumes "layout c es k" and "newest c es k" and "0 < k"
  shows "m_npadsize c < int (length (cc_file c))"
proof -
  have k: "k - 1 < length es"
    using assms(1,3) unfolding layout_def by linarith
  let ?e = "es ! (k - 1)"
  have "(entry_offs es (k - 1), ?e) \<in> set (place CIRCACHE_FIRSTBLOCK_SIZE es)"
    using place_mem [OF k, of k] by (simp add: set_aged)
  then have "length (entry_bytes ?e) + 1024 \<le> length (cc_file c)"
    using place_bounds [of _ ?e] layout_file(2) [OF assms(1)] by force
  then show ?thesis
    using assms(2,3) by (simp add: newest_def length_entry_bytes)
qed

text \<open>What can be stored: the identifier is readable in the text of the dictionary, the sizes are small.\<close>

definition put_ok :: "string \<Rightarrow> ConfSimple \<Rightarrow> string \<Rightarrow> bool" where
  "put_ok udi conf z \<longleftrightarrow>
     conf_get conf ''udi'' [] = Some udi \<and> udi \<noteq> [] \<and>
     dic_get True (snd (conf_write conf)) ''udi'' = Some udi \<and> dic_get False (snd (conf_write conf)) ''udi'' = Some udi \<and>
     64 + length (snd (conf_write conf)) + length z < 2 ^ 31"

lemma put_refines:
  assumes inv: "cc_inv c es k" and cap: "cap_inv c es k" and small: "length (cc_file c) < 2 ^ 31"
    and z: "put_compress deflate worth data iflags = (z, flags)" and ok: "put_ok udi conf z"
    and cf: "m_uniquentries c \<longrightarrow> coll_free udi es"
  shows "\<exists>c' es' k' j. put inflate deflate worth udi (Some conf) data iflags c = Some (True, c') \<and>
    cc_inv c' es' k' \<and> cap_inv c' es' k' \<and>
    contents es' k' = a_put (m_uniquentries c) udi (snd (conf_write conf), z, flags) j (contents es k) \<and>
    m_maxsize c' = m_maxsize c \<and> m_uniquentries c' = m_uniquentries c \<and>
    (kh_full c (aged es k) \<or> kh_ordered c (aged es k) \<and> m_uniquentries c \<longrightarrow> kh_full c' (aged es' k')) \<and>
    int (length (cc_file c')) \<le>
      max (int (length (cc_file c))) (m_maxsize c - 1 + int (64 + length (snd (conf_write conf)) + length z))"
proof -
  let ?dic = "snd (conf_write conf)"
  let ?es1 = "if m_uniquentries c then erase_udi udi False es else es"
  have lay: "layout c es k" and fd: "cc_fd c"
    using inv by (auto simp: cc_inv_def layout_def)
  obtain c1 where c1: "(if m_uniquentries c then erase inflate udi False c else Some (True, c)) = Some (True, c1)"
    and inv1: "cc_inv c1 ?es1 k" and sel: "m_maxsize c1 = m_maxsize c" "m_uniquentries c1 = m_uniquentries c"
      "length (cc_file c1) = length (cc_file c)"
    and full: "kh_full c (aged es k) \<or> kh_ordered c (aged es k) \<and> m_uniquentries c \<longrightarrow> kh_full c1 (aged ?es1 k)"
  proof (cases "m_uniquentries c")
    case True
    then show ?thesis
      using erase_spec [OF inv, of udi inflate False] cf that kh_full_ordered by auto
  next
    case False
    then show ?thesis
      using inv that [of c] by simp
  qed
  have cap1: "cap_inv c1 ?es1 k"
    using cap cap_erase [OF cap lay sel(3,1)] cap_looked [of c es k c1] sel by (auto simp: cap_inv_def)
  have "layout c1 ?es1 k" "newest c1 ?es1 k"
    using inv1 by (simp_all add: cc_inv_def)
  then have pad: "0 < k \<longrightarrow> m_npadsize c1 < 2 ^ 31"
    using newest_pad_less [of c1 ?es1 k] small sel(3) by fastforce
  have dic: "dic_ok ?dic" "dic_get True ?dic ''udi'' = Some udi" "64 + length ?dic + length z < 2 ^ 31"
    using ok by (auto simp: put_ok_def dic_ok_def)
  have fb: "length (cc_file c1) + 64 + length ?dic + length z < 2 ^ 63"
    using small sel(3) dic(3) by simp
  from put_entry_spec [OF inv1 cap1 pad dic fb, of flags] obtain c' es' k' qs rs where
    P: "put_entry udi ?dic (z, flags) c1 = Some (True, c')" and inv': "cc_inv c' es' k'" "cap_inv c' es' k'"
    and l: "live (aged ?es1 k) = live qs @ rs" "live (aged es' k') = rs @ [(write_offs ?es1 k, (?dic, z, flags))]"
    and sel': "m_ofskhcplt c' = m_ofskhcplt c1" "m_maxsize c' = m_maxsize c1" "m_uniquentries c' = m_uniquentries c1"
    and full': "kh_full c1 (aged ?es1 k) \<longrightarrow> kh_full c' (aged es' k')"
    and bound: "int (length (cc_file c')) \<le>
      max (int (length (cc_file c1))) (m_maxsize c1 - 1 + int (64 + length ?dic + length z))"
    by blast
  have "put inflate deflate worth udi (Some conf) data iflags c = Some (True, c')"
    using ok fd P z c1 by (auto simp: put_def put_ok_def)
  moreover have "contents es' k' = a_put (m_uniquentries c) udi (?dic, z, flags) (length (live qs)) (contents es k)"
  proof -
    have "contents ?es1 k = (if m_uniquentries c then a_erase udi (contents es k) else contents es k)"
      by (simp add: contents_erase)
    moreover have "map snd rs = drop (length (live qs)) (contents ?es1 k)"
      by (simp add: contents_def l(1))
    ultimately show ?thesis
      by (simp add: a_put_def contents_def [of es'] l(2))
  qed
  ultimately show ?thesis
    using inv' sel sel' full full' bound by (intro exI [of _ c'] exI [of _ es'] exI [of _ k'] exI [of _ "length (live qs)"]) auto
qed

end
