(* ===== verification/Cir_Prop.thy ===== *)
theory Cir_Prop
  imports Cir_Run
begin

text \<open>
  The properties of the circular cache: the states reachable from a new cache are well-formed, the operations on them always
  return and are those of a bounded first-in first-out list, and the situations in which the code departs from that.
\<close>

section \<open>Reachable caches\<close>

text \<open>
  A new cache, and the operations with identifiers of a set \<open>U\<close> and entries that keep the file below 2 GB.
\<close>

inductive reach ::
  "(string \<Rightarrow> string option) \<Rightarrow> (string \<Rightarrow> string option) \<Rightarrow> (nat \<Rightarrow> nat \<Rightarrow> bool) \<Rightarrow> string set \<Rightarrow> CirCache \<Rightarrow> bool"
  for inflate deflate worth U where
  reach_new: "1024 < mx \<Longrightarrow> mx < 2 ^ 31 \<Longrightarrow> reach inflate deflate worth U (snd (create_new mx flags CirCacheInternal))"
| reach_put: "reach inflate deflate worth U c \<Longrightarrow> udi \<in> U \<Longrightarrow> put_ok udi conf (fst (put_compress deflate worth data iflags)) \<Longrightarrow>
    m_maxsize c + int (64 + length (snd (conf_write conf)) + length (fst (put_compress deflate worth data iflags))) \<le> 2 ^ 31 \<Longrightarrow>
    put inflate deflate worth udi (Some conf) data iflags c = Some (ok, c') \<Longrightarrow> reach inflate deflate worth U c'"
| reach_erase: "reach inflate deflate worth U c \<Longrightarrow> udi \<in> U \<Longrightarrow> erase inflate udi b c = Some (ok, c') \<Longrightarrow>
    reach inflate deflate worth U c'"
| reach_get: "reach inflate deflate worth U c \<Longrightarrow> udi \<noteq> [] \<Longrightarrow> get inflate udi want i c = Some (r, c') \<Longrightarrow>
    reach inflate deflate worth U c'"

text \<open>What holds in all of them.\<close>

definition cc_good :: "string set \<Rightarrow> CirCache \<Rightarrow> CEntry list \<Rightarrow> nat \<Rightarrow> bool" where
  "cc_good U c es k \<longleftrightarrow>
     cc_inv c es k \<and> cap_inv c es k \<and> kh_full c (aged es k) \<and> length (cc_file c) < 2 ^ 31 \<and> m_maxsize c < 2 ^ 31 \<and>
     (\<forall>x \<in> set (contents es k). core_udi x \<in> U) \<and>
     (m_uniquentries c \<longrightarrow> distinct (map core_udi (contents es k)))"

lemma create_new_good:
  assumes "1024 < mx" and "mx < 2 ^ 31"
  shows "cc_good U (snd (create_new mx flags CirCacheInternal)) [] 0"
proof -
  define c where "c = CirCacheInternal\<lparr>cc_fd := True, cc_file := replicate 1024 (CHR 0x00), m_maxsize := mx,
       m_oheadoffs := 1024, m_uniquentries := (flags AND CC_CRUNIQUE \<noteq> 0)\<rparr>"
  have "ints_ok c" "cc_fd c" "1024 \<le> length (cc_file c)"
    using assms by (simp_all add: ints_ok_def c_def CirCacheInternal_def)
  from writefirstblock_spec [OF this] obtain f where f: "writefirstblock c = (True, c\<lparr>cc_file := f\<rparr>)" "length f = 1024"
    by (auto simp: c_def)
  have cr: "snd (create_new mx flags CirCacheInternal) = c\<lparr>cc_file := f\<rparr>"
    using f(1) by (simp add: create_new_def c_def)
  have "aged [] 0 = []"
    by (simp add: aged_def)
  then show ?thesis
    using assms f(2) unfolding cr
    by (auto simp: cc_good_def cc_inv_def layout_def newest_def kh_inv_def kh_sound_def cap_inv_def write_offs_def
        kh_full_def kh_known_def khFind_def contents_def c_def CirCacheInternal_def)
qed

lemma content_udi:
  assumes "x \<in> set (contents es k)"
  shows "\<exists>e \<in> set es. e_dic e \<noteq> [] \<and> core_udi x = e_udi e"
  using assms aged_entry by (fastforce simp: contents_def live_def)

lemma entry_content: "e \<in> set es \<Longrightarrow> e_dic e \<noteq> [] \<Longrightarrow> core e \<in> set (contents es k)"
proof -
  assume e: "e \<in> set es" "e_dic e \<noteq> []"
  then have "e \<in> snd ` set (aged es k)"
    unfolding set_aged by (metis list.set_map map_snd_place)
  then show ?thesis
    using e(2) by (force simp: contents_def live_def)
qed

lemma good_coll_free:
  assumes "cc_good U c es k" and "inj_on UdiH U" and "udi \<in> U"
  shows "coll_free udi es"
  unfolding coll_free_def
proof (intro ballI impI)
  fix e
  assume "e \<in> set es" "e_dic e \<noteq> []" and h: "UdiH (e_udi e) = UdiH udi"
  then have "core e \<in> set (contents es k)"
    using entry_content by blast
  then have "e_udi e \<in> U"
    using assms(1) by (auto simp: cc_good_def)
  then show "e_udi e = udi"
    using assms(2,3) h by (meson inj_onD)
qed

lemma distinct_a_put:
  "distinct (map f xs) \<Longrightarrow> \<forall>y \<in> set xs. f y \<noteq> f x \<Longrightarrow> distinct (map f (drop j xs @ [x]))"
  using distinct_drop [of "map f xs" j] by (auto simp: drop_map dest: in_set_dropD)

lemma good_put:
  assumes good: "cc_good U c es k" and u: "udi \<in> U" and coll: "m_uniquentries c \<longrightarrow> coll_free udi es"
    and ok: "put_ok udi conf (fst (put_compress deflate worth data iflags))"
    and room: "m_maxsize c + int (64 + length (snd (conf_write conf)) + length (fst (put_compress deflate worth data iflags))) \<le> 2 ^ 31"
  shows "\<exists>c' es' k' j. put inflate deflate worth udi (Some conf) data iflags c = Some (True, c') \<and> cc_good U c' es' k' \<and>
    contents es' k' = a_put (m_uniquentries c) udi (snd (conf_write conf), put_compress deflate worth data iflags) j (contents es k) \<and>
    m_maxsize c' = m_maxsize c \<and> m_uniquentries c' = m_uniquentries c \<and>
    int (length (cc_file c')) \<le> max (int (length (cc_file c)))
      (m_maxsize c - 1 + int (64 + length (snd (conf_write conf)) + length (fst (put_compress deflate worth data iflags))))"
proof -
  obtain z flags where z: "put_compress deflate worth data iflags = (z, flags)"
    by force
  let ?x = "(snd (conf_write conf), z, flags)"
  have g: "cc_inv c es k" "cap_inv c es k" "length (cc_file c) < 2 ^ 31" "kh_full c (aged es k)" "m_maxsize c < 2 ^ 31"
    "\<forall>x \<in> set (contents es k). core_udi x \<in> U" "m_uniquentries c \<longrightarrow> distinct (map core_udi (contents es k))"
    using good by (simp_all add: cc_good_def)
  have pok: "put_ok udi conf z"
    using ok z by simp
  obtain c' es' k' j where
    P: "put inflate deflate worth udi (Some conf) data iflags c = Some (True, c')" "cc_inv c' es' k'" "cap_inv c' es' k'"
    "contents es' k' = a_put (m_uniquentries c) udi ?x j (contents es k)" "m_maxsize c' = m_maxsize c"
    "m_uniquentries c' = m_uniquentries c"
    "kh_full c (aged es k) \<or> kh_ordered c (aged es k) \<and> m_uniquentries c \<longrightarrow> kh_full c' (aged es' k')"
    "int (length (cc_file c')) \<le> max (int (length (cc_file c))) (m_maxsize c - 1 + int (64 + length (snd (conf_write conf)) + length z))"
    using put_refines [OF g(1-3) z pok coll, of inflate] by blast
  have x: "core_udi ?x = udi"
    using ok dic_get_Nil by (auto simp: put_ok_def core_udi_def)
  have "distinct (map core_udi (contents es' k'))" if uniq: "m_uniquentries c"
  proof -
    have "distinct (map core_udi (a_erase udi (contents es k)))"
      using g(7) uniq by (simp add: a_erase_def distinct_map_filter)
    then show ?thesis
      using distinct_a_put [of core_udi "a_erase udi (contents es k)" ?x j] x uniq
      by (simp add: P(4) a_put_def a_erase_def)
  qed
  moreover have "\<forall>y \<in> set (contents es' k'). core_udi y \<in> U"
    using g(6) u x by (auto simp: P(4) a_put_def a_erase_def dest: in_set_dropD split: if_splits)
  moreover have "length (cc_file c') < 2 ^ 31"
    using P(8) g(3) room z by simp
  ultimately have "cc_good U c' es' k'"
    using P g(4,5) by (simp add: cc_good_def)
  with P z show ?thesis
    by (intro exI [of _ c'] exI [of _ es'] exI [of _ k'] exI [of _ j]) simp
qed

lemma good_erase_any:
  assumes good: "cc_good U c es k"
  shows "\<exists>c'. erase inflate udi b c = Some (True, c') \<and> contents (erase_udi udi b es) k = a_erase udi (contents es k) \<and>
    layout c' (erase_udi udi b es) k \<and> newest c' (erase_udi udi b es) k \<and>
    m_maxsize c' = m_maxsize c \<and> m_uniquentries c' = m_uniquentries c \<and> length (cc_file c') = length (cc_file c) \<and>
    (cc_good U c' (erase_udi udi b es) k \<longleftrightarrow> coll_free udi es) \<and>
    (\<forall>udi' b'. UdiH udi' = UdiH udi \<longrightarrow> erase inflate udi' b' c' = Some (True, c'))"
proof -
  have g: "cc_inv c es k" "cap_inv c es k" "kh_full c (aged es k)"
    using good by (simp_all add: cc_good_def)
  obtain c' where E: "erase inflate udi b c = Some (True, c')" "layout c' (erase_udi udi b es) k" "newest c' (erase_udi udi b es) k"
    "m_ofskhcplt c'" "\<forall>udi'. UdiH udi' = UdiH udi \<longrightarrow> khFind udi' c' = []"
    "m_maxsize c' = m_maxsize c" "m_uniquentries c' = m_uniquentries c" "length (cc_file c') = length (cc_file c)"
    "coll_free udi es \<longrightarrow> cc_inv c' (erase_udi udi b es) k \<and> kh_ordered c' (aged (erase_udi udi b es) k)"
    using erase_any [OF g(1), of inflate udi b] kh_full_ordered(1) [OF g(3)] by blast
  have "cap_inv c' (erase_udi udi b es) k"
    using cap_erase [OF g(2) _ E(8,6)] g(1) by (simp add: cc_inv_def)
  moreover have "distinct (map core_udi (a_erase udi (contents es k)))" if "m_uniquentries c"
    using good that by (simp add: cc_good_def a_erase_def distinct_map_filter)
  ultimately have "cc_good U c' (erase_udi udi b es) k" if "coll_free udi es"
    using that E good kh_full_ordered(2) [of c', OF _ E(4)] by (auto simp: cc_good_def contents_erase a_erase_def)
  moreover have "coll_free udi es" if "cc_good U c' (erase_udi udi b es) k"
    using that E(4) clear_forgets [OF _ E(5)] by (auto simp: cc_good_def cc_inv_def kh_inv_def)
  moreover have "erase inflate udi' b' c' = Some (True, c')" if "UdiH udi' = UdiH udi" for udi' b'
    using erase_unknown [OF _ E(4)] E(2,5) that by (simp add: layout_def)
  ultimately show ?thesis
    using E contents_erase by blast
qed

lemma good_erase:
  assumes good: "cc_good U c es k" and inj: "inj_on UdiH U" and u: "udi \<in> U"
  shows "\<exists>c'. erase inflate udi b c = Some (True, c') \<and> cc_good U c' (erase_udi udi b es) k"
  using good_erase_any [OF good, of inflate udi b] good_coll_free [OF assms] by blast

lemma good_get:
  assumes good: "cc_good U c es k" and "udi \<noteq> []"
  shows "\<exists>c'. get inflate udi want i c = Some (case a_get udi i (contents es k) of
      None \<Rightarrow> None | Some x \<Rightarrow> content_result inflate want x, c') \<and> cc_good U c' es k"
proof -
  have g: "cc_inv c es k" "cap_inv c es k" "kh_full c (aged es k)"
    using good by (simp_all add: cc_good_def)
  obtain c' where G: "get inflate udi want i c = Some (case a_get udi i (contents es k) of
      None \<Rightarrow> None | Some x \<Rightarrow> content_result inflate want x, c')" "looked c (aged es k) c'"
    using get_refines [OF g(1) kh_full_ordered(1) [OF g(3)] assms(2)] by blast
  note L = cc_inv_looked [OF g(1) G(2)]
  have "cc_good U c' es k"
    using good L g(3) cap_looked [OF g(2) L(4,5)] by (simp add: cc_good_def)
  with G(1) show ?thesis
    by blast
qed

lemma reach_good:
  assumes "reach inflate deflate worth U c" and "inj_on UdiH U"
  shows "\<exists>es k. cc_good U c es k"
  using assms
proof induction
  case (reach_new mx flags)
  then show ?case
    using create_new_good by blast
next
  case (reach_put c udi conf data iflags ok c')
  then obtain es k where "cc_good U c es k" by blast
  from good_put [OF this reach_put.hyps(2) _ reach_put.hyps(3,4), of inflate] good_coll_free [OF this reach_put.prems reach_put.hyps(2)]
    reach_put.hyps(5) show ?case
    by auto
next
  case (reach_erase c udi b ok c')
  then obtain es k where "cc_good U c es k" by blast
  from good_erase [OF this reach_erase.prems reach_erase.hyps(2), of inflate b] reach_erase.hyps(3) show ?case
    by auto
next
  case (reach_get c udi want i r c')
  then obtain es k where "cc_good U c es k" by blast
  from good_get [OF this reach_get.hyps(2), of inflate want i] reach_get.hyps(3) show ?case
    by auto
qed

section \<open>Properties\<close>

text \<open>
  C1. Every cache reachable from a new one by storing, erasing and looking up, with identifiers whose hashes differ, is well-formed:
  the file is the first block and a sequence of entries, the write position is between two of them, the header agrees with the newest
  entry, the map of offsets has every entry, no entry starts beyond the maximum size, and a cache of unique entries holds no identifier twice.
\<close>

theorem cir_reach_good:
  assumes "reach inflate deflate worth U c" and "inj_on UdiH U"
  shows "\<exists>es k. cc_good U c es k"
  using assms by (rule reach_good)

theorem cir_reach_good_witness: "\<exists>es k. cc_good {''a''} (snd (create_new 2000 CC_CRUNIQUE CirCacheInternal)) es k"
  by (rule cir_reach_good [of Some "\<lambda>s. None" "\<lambda>n m. False"], rule reach_new) simp_all

text \<open>
  C2. Storing in a well-formed cache returns and succeeds, and on the list of entries from the oldest to the newest it is the store of a bounded
  first-in first-out list: the entries of the same identifier are removed when they are to be unique, some of the oldest entries
  make room, and the new one is the newest; the file outgrows the maximum size by less than the entry. In a cache of unique
  entries this is for an identifier whose hash, of four bytes, no other stored identifier has; C4 says what happens then.
\<close>

theorem cir_put_fifo:
  assumes "cc_good U c es k" and "udi \<in> U" and "m_uniquentries c \<longrightarrow> coll_free udi es"
    and "put_ok udi conf (fst (put_compress deflate worth data iflags))"
    and "m_maxsize c + int (64 + length (snd (conf_write conf)) + length (fst (put_compress deflate worth data iflags))) \<le> 2 ^ 31"
  shows "\<exists>c' es' k' j. put inflate deflate worth udi (Some conf) data iflags c = Some (True, c') \<and> cc_good U c' es' k' \<and>
    contents es' k' = a_put (m_uniquentries c) udi (snd (conf_write conf), put_compress deflate worth data iflags) j (contents es k) \<and>
    m_maxsize c' = m_maxsize c \<and> m_uniquentries c' = m_uniquentries c \<and>
    int (length (cc_file c')) \<le> max (int (length (cc_file c)))
      (m_maxsize c - 1 + int (64 + length (snd (conf_write conf)) + length (fst (put_compress deflate worth data iflags))))"
  using assms by (rule good_put)

text \<open>A dictionary with one identifier, for the examples.\<close>

definition udi_conf :: "string \<Rightarrow> ConfSimple" where
  "udi_conf udi = (case conf_set ''udi'' udi [] (conf_init CFSF_FROMSTRING) no_disk of
     Inr (_, c, _) \<Rightarrow> c | Inl _ \<Rightarrow> conf_init 0)"

lemma udi_conf_a:
  "conf_get (udi_conf ''a'') ''udi'' [] = Some ''a''" "snd (conf_write (udi_conf ''a'')) = ''udi = a'' @ [newline]"
  "dic_get True (''udi = a'' @ [newline]) ''udi'' = Some ''a''" "dic_get False (''udi = a'' @ [newline]) ''udi'' = Some ''a''"
  by code_simp+

lemma put_ok_a: "length z < 1000 \<Longrightarrow> put_ok ''a'' (udi_conf ''a'') z"
  by (simp add: put_ok_def udi_conf_a del: append_Cons)

lemma put_compress_none: "put_compress (\<lambda>s. None) w data n = (data, 0)"
  by (simp add: put_compress_def)

theorem cir_put_fifo_witness:
  "\<exists>c' es' k' j. put Some (\<lambda>s. None) (\<lambda>n m. False) ''a'' (Some (udi_conf ''a'')) ''xyz'' 0 (snd (create_new 2000 CC_CRUNIQUE CirCacheInternal)) =
      Some (True, c') \<and> cc_good {''a''} c' es' k' \<and>
    contents es' k' = a_put True ''a'' (''udi = a'' @ [newline], ''xyz'', 0) j []"
proof -
  let ?c = "snd (create_new 2000 CC_CRUNIQUE CirCacheInternal)"
  have good: "cc_good {''a''} ?c [] 0"
    by (rule create_new_good) simp_all
  have c: "m_maxsize ?c = 2000" "m_uniquentries ?c"
    by (simp_all add: create_new_def writefirstblock_def CC_CRUNIQUE_def)
  have "contents [] 0 = []"
    by (simp add: contents_def aged_def)
  then show ?thesis
    using cir_put_fifo [OF good, of "''a''" "udi_conf ''a''" "\<lambda>s. None" "\<lambda>n m. False" "''xyz''" 0 Some] c
    by (auto simp: put_compress_none put_ok_a udi_conf_a coll_free_def)
qed

text \<open>
  C3. Looking up an identifier in a well-formed cache returns, and finds the wanted instance of the list, counted from the oldest entry, the newest
  when there are fewer or none is asked for; whether it goes by the map of offsets or scans the file makes no difference.
\<close>

theorem cir_get_instance:
  assumes "cc_good U c es k" and "udi \<noteq> []"
  shows "\<exists>c'. get inflate udi want i c = Some (case a_get udi i (contents es k) of
      None \<Rightarrow> None | Some x \<Rightarrow> content_result inflate want x, c') \<and> cc_good U c' es k"
  using assms by (rule good_get)

theorem cir_get_instance_witness:
  "\<exists>c'. get Some ''a'' True 1 (snd (create_new 2000 0 CirCacheInternal)) = Some (None, c')"
proof -
  have "cc_good {''a''} (snd (create_new 2000 0 CirCacheInternal)) [] 0"
    by (rule create_new_good) simp_all
  from cir_get_instance [OF this, of "''a''" Some True 1] show ?thesis
    by (auto simp: contents_def aged_def a_get_def cc_instance_def)
qed

text \<open>
  C4. Erasing an identifier of a well-formed cache returns and succeeds, removes its entries from the list in the file and nothing else, and
  keeps the size of the file and the agreement of the header with the newest entry. The cache stays well-formed if and only if no other
  stored identifier has the same hash: the map forgets the entries of all of them, and from then on erasing one of these is a success
  that changes nothing.
\<close>

theorem cir_erase_removes:
  assumes "cc_good U c es k"
  shows "\<exists>c' es'. erase inflate udi b c = Some (True, c') \<and> contents es' k = a_erase udi (contents es k) \<and>
    length (cc_file c') = length (cc_file c) \<and> layout c' es' k \<and> newest c' es' k \<and>
    (cc_good U c' es' k \<longleftrightarrow> coll_free udi es) \<and>
    (\<forall>udi' b'. UdiH udi' = UdiH udi \<longrightarrow> erase inflate udi' b' c' = Some (True, c'))"
  using good_erase_any [OF assms, of inflate udi b] by blast

theorem cir_erase_removes_witness:
  "\<exists>c' es'. erase Some ''a'' True (snd (create_new 2000 0 CirCacheInternal)) = Some (True, c') \<and> cc_good {''a''} c' es' 0 \<and> contents es' 0 = []"
proof -
  have "cc_good {''a''} (snd (create_new 2000 0 CirCacheInternal)) [] 0"
    by (rule create_new_good) simp_all
  from cir_erase_removes [OF this, of Some "''a''" True] show ?thesis
    by (auto simp: contents_def aged_def a_erase_def coll_free_def)
qed

text \<open>
  C5. What has just been stored is what the lookup of its newest instance gives: the text of the dictionary and the data, when the compressor
  returns a non-empty text that the decompressor undoes; in a cache of unique entries, for an identifier whose hash no other stored one has.
\<close>

theorem cir_put_get:
  assumes "cc_good U c es k" and "udi \<in> U" and "m_uniquentries c \<longrightarrow> coll_free udi es"
    and "put_ok udi conf (fst (put_compress deflate worth data iflags))"
    and "m_maxsize c + int (64 + length (snd (conf_write conf)) + length (fst (put_compress deflate worth data iflags))) \<le> 2 ^ 31"
    and "\<And>s z. deflate s = Some z \<Longrightarrow> z \<noteq> [] \<and> inflate z = Some s"
  shows "\<exists>c1 c2. put inflate deflate worth udi (Some conf) data iflags c = Some (True, c1) \<and>
    get inflate udi True (- 1) c1 = Some (Some (snd (conf_write conf), Some data), c2)"
proof -
  let ?x = "(snd (conf_write conf), put_compress deflate worth data iflags)"
  obtain c1 es1 k1 j where P: "put inflate deflate worth udi (Some conf) data iflags c = Some (True, c1)" "cc_good U c1 es1 k1"
    "contents es1 k1 = a_put (m_uniquentries c) udi ?x j (contents es k)"
    using good_put [OF assms(1-5), of inflate] by blast
  have ok: "udi \<noteq> []" "core_udi ?x = udi"
    using assms(4) dic_get_Nil by (auto simp: put_ok_def core_udi_def)
  then have "a_get udi (- 1) (contents es1 k1) = Some ?x"
    by (simp add: P(3) a_put_def a_get_def cc_instance_def)
  moreover have "content_result inflate True ?x = Some (snd (conf_write conf), Some data)"
    using assms(6) by (auto simp: content_result_def put_compress_def EFDataCompressed_def split: option.splits)
  ultimately show ?thesis
    using good_get [OF P(2) ok(1), of inflate True "- 1"] P(1) by auto
qed

theorem cir_put_get_witness:
  "\<exists>c1 c2. put (\<lambda>z. Some (tl z)) (\<lambda>s. Some (CHR ''z'' # s)) (\<lambda>n m. True) ''a'' (Some (udi_conf ''a'')) ''xyz'' 0
      (snd (create_new 2000 0 CirCacheInternal)) = Some (True, c1) \<and>
    get (\<lambda>z. Some (tl z)) ''a'' True (- 1) c1 = Some (Some (''udi = a'' @ [newline], Some ''xyz''), c2)"
proof -
  let ?c = "snd (create_new 2000 0 CirCacheInternal)" and ?d = "\<lambda>s. Some (CHR ''z'' # s)"
  have good: "cc_good {''a''} ?c [] 0"
    by (rule create_new_good) simp_all
  have c: "m_maxsize ?c = 2000"
    by (simp add: create_new_def writefirstblock_def)
  have p: "put_compress ?d (\<lambda>n m. True) ''xyz'' 0 = (''zxyz'', EFDataCompressed)"
    by (simp add: put_compress_def)
  show ?thesis
    using cir_put_get [OF good, of "''a''" "udi_conf ''a''" ?d "\<lambda>n m. True" "''xyz''" 0 "\<lambda>z. Some (tl z)"] c p
    by (auto simp: put_ok_a udi_conf_a coll_free_def)
qed

end
