(* ===== verification/Text_Class.thy ===== *)
theory Text_Class
  imports Str_Basic
begin

text \<open>
  The character classes of the text splitter (\<open>common/textsplit.cpp\<close>, \<open>common/uproplist.h\<close>): the table of the ASCII
  characters, which the configuration can change, the lists of Unicode punctuation, and the ranges of the scripts that are
  split into n-grams or by an external program. Characters are code points as integers; \<open>(unsigned)-1\<close> stands
  for no character.
\<close>

section \<open>Configuration\<close>

record TextConf =
  o_processCJK :: bool
  o_CJKNgramLen :: int
  o_noNumbers :: bool
  o_deHyphenate :: bool
  o_maxWordLength :: int
  o_maxWordsInSpan :: int
  o_numberDashSpans :: bool
  o_idxpunct :: "int list"
  o_haveidxpunct :: bool
  o_exthangultagger :: bool
  o_extchinesetagger :: bool
  backslash_letter :: bool
  underscore_letter :: bool

definition text_conf :: TextConf where
  "text_conf = \<lparr>o_processCJK = True, o_CJKNgramLen = 2, o_noNumbers = False, o_deHyphenate = False, o_maxWordLength = 40,
     o_maxWordsInSpan = 6, o_numberDashSpans = False, o_idxpunct = [], o_haveidxpunct = False, o_exthangultagger = False,
     o_extchinesetagger = False, backslash_letter = False, underscore_letter = False\<rparr>"

section \<open>Classes\<close>

text \<open>The classes above 255; a special character is its own class.\<close>

definition LETTER :: int where "LETTER = 256"
definition SPACE_CC :: int where "SPACE_CC = 257"
definition DIGIT :: int where "DIGIT = 258"
definition WILD :: int where "WILD = 259"
definition A_ULETTER :: int where "A_ULETTER = 260"
definition A_LLETTER :: int where "A_LLETTER = 261"
definition SKIP :: int where "SKIP = 262"

definition no_char :: int where "no_char = 4294967295"

text \<open>The table \<open>charclasses\<close>, after the static initialisation and the two options.\<close>

definition charclasses :: "TextConf \<Rightarrow> int \<Rightarrow> int" where
  "charclasses cf c =
     (if c = 92 \<and> backslash_letter cf \<or> c = 95 \<and> underscore_letter cf then A_LLETTER
      else if c \<in> set [46, 64, 43, 45, 35, 39, 95, 10, 13, 12] then c
      else if c \<in> set [42, 63, 91, 93] then WILD
      else if 97 \<le> c \<and> c \<le> 122 then A_LLETTER
      else if 65 \<le> c \<and> c \<le> 90 then A_ULETTER
      else if 48 \<le> c \<and> c \<le> 57 then DIGIT
      else SPACE_CC)"

definition unipuncblocks :: "int list" where
  "unipuncblocks = [
    0x0080, 0x00BF, 0x2000, 0x206F, 0x2070, 0x209F, 0x20A0, 0x20CF, 0x2100, 0x214F, 0x2150, 0x218F, 0x2190, 0x21FF,
    0x2200, 0x22FF, 0x2300, 0x23FF, 0x2400, 0x243F, 0x2440, 0x245F, 0x2460, 0x24FF, 0x2500, 0x257F, 0x2580, 0x259F,
    0x25A0, 0x25FF, 0x2600, 0x26FF, 0x2700, 0x27BF, 0x27C0, 0x27EF, 0x27F0, 0x27FF, 0x2900, 0x297F, 0x2980, 0x29FF,
    0x2A00, 0x2AFF, 0x2B00, 0x2BFF]"

definition unipunc :: "int list" where
  "unipunc = [
    0x00D7, 0x00F7, 0x037E, 0x0387, 0x055C, 0x055E, 0x0589, 0x058A, 0x05C3, 0x060C, 0x061B, 0x061F, 0x06D4, 0x0964,
    0x0965, 0x166E, 0x1680, 0x16EB, 0x16EC, 0x16ED, 0x1803, 0x1806, 0x1809, 0x180E, 0x2E2E, 0x3000, 0x3002, 0x300C,
    0x300D, 0x300E, 0x300F, 0x301C, 0x301D, 0x301E, 0x3030, 0x30FB, 0xC2B6, 0xC3B7, 0xFE31, 0xFE32, 0xFE41, 0xFE42,
    0xFE43, 0xFE44, 0xFE50, 0xFE51, 0xFE52, 0xFE52, 0xFE54, 0xFE55, 0xFE56, 0xFE57, 0xFE58, 0xFE63, 0xFF01, 0xFF02,
    0xFF03, 0xFF04, 0xFF05, 0xFF06, 0xFF07, 0xFF08, 0xFF09, 0xFF0A, 0xFF0B, 0xFF0C, 0xFF0D, 0xFF0E, 0xFF0F, 0xFF1A,
    0xFF1B, 0xFF1F, 0xFF61, 0xFF62, 0xFF63, 0xFF64, 0xFF65]"

definition uniskip :: "int list" where
  "uniskip = [
    0x00AD, 0x034F, 0x2027, 0x200C, 0x200D, 0x2060]"

definition avsbwht :: "int list" where
  "avsbwht = [
    0x0009, 0x000A, 0x000D, 0x0020, 0x00A0, 0x1680, 0x180E, 0x2000, 0x2001, 0x2002, 0x2003, 0x2004, 0x2005, 0x2006,
    0x2007, 0x2008, 0x2009, 0x200A, 0x202F, 0x205F, 0x3000]"

definition isvisiblewhite :: "int \<Rightarrow> bool" where
  "isvisiblewhite c \<longleftrightarrow> c \<in> set avsbwht"

text \<open>The index that \<open>lower_bound\<close> finds in the sorted list of block ends.\<close>

definition lower_bound :: "int list \<Rightarrow> int \<Rightarrow> nat option" where
  "lower_bound xs c = find_idx (\<lambda>x. c \<le> x) xs"

definition whatcc :: "TextConf \<Rightarrow> int \<Rightarrow> int" where
  "whatcc cf c =
     (if c \<le> 127 then charclasses cf c
      else if c = 0x2010 \<or> c = 0x2019 \<or> c = 0x275c \<or> c = 0x02bc then c
      else if c \<in> set uniskip then SKIP
      else if c \<in> set unipunc \<or> c = no_char then SPACE_CC
      else (case lower_bound unipuncblocks c of
              None \<Rightarrow> LETTER
            | Some i \<Rightarrow> if c = unipuncblocks ! i then SPACE_CC else if i mod 2 = 1 then SPACE_CC else LETTER))"

definition isalphanum :: "bool \<Rightarrow> int \<Rightarrow> bool" where
  "isalphanum keepwild what \<longleftrightarrow>
     what = A_LLETTER \<or> what = A_ULETTER \<or> what = DIGIT \<or> what = LETTER \<or> keepwild \<and> what = WILD"

definition isdigit_cc :: "bool \<Rightarrow> int \<Rightarrow> bool" where
  "isdigit_cc keepwild what \<longleftrightarrow> what = DIGIT \<or> keepwild \<and> what = WILD"

section \<open>Scripts\<close>

definition in_ranges :: "(int \<times> int) list \<Rightarrow> int \<Rightarrow> bool" where
  "in_ranges rs p \<longleftrightarrow> list_ex (\<lambda>(a, b). a \<le> p \<and> p \<le> b) rs"

definition UNICODE_IS_CJK :: "int \<Rightarrow> bool" where
  "UNICODE_IS_CJK = in_ranges [(0x1100, 0x11FF), (0x2E80, 0x2EFF), (0x3000, 0x9FFF), (0xA700, 0xA71F), (0xAC00, 0xD7AF),
     (0xF900, 0xFAFF), (0xFE30, 0xFE4F), (0xFF00, 0xFFEF), (0x20000, 0x2A6DF), (0x2F800, 0x2FA1F)]"

definition UNICODE_IN_KATAKANA_RANGE :: "int \<Rightarrow> bool" where
  "UNICODE_IN_KATAKANA_RANGE p \<longleftrightarrow> p \<noteq> 0x309F \<and> in_ranges [(0x3099, 0x30FF), (0x31F0, 0x31FF)] p"

definition UNICODE_IN_HANGUL_RANGE :: "int \<Rightarrow> bool" where
  "UNICODE_IN_HANGUL_RANGE = in_ranges [(0x1100, 0x11FF), (0x3130, 0x318F), (0x3200, 0x321E), (0x3248, 0x327F), (0x3281, 0x32BF),
     (0xAC00, 0xD7AF)]"

definition UNICODE_IN_CHINESE_RANGE :: "int \<Rightarrow> bool" where
  "UNICODE_IN_CHINESE_RANGE p \<longleftrightarrow> UNICODE_IS_CJK p \<and> \<not> (UNICODE_IN_KATAKANA_RANGE p \<or> UNICODE_IN_HANGUL_RANGE p)"

text \<open>Tibetan, Thai and Lao, Burmese; the first value of each range is outside it.\<close>

definition UNICODE_IS_OTHER_NGRAM :: "int \<Rightarrow> bool" where
  "UNICODE_IS_OTHER_NGRAM p \<longleftrightarrow> 0x0F00 < p \<and> p \<le> 0x0FFF \<or> 0x0E00 < p \<and> p \<le> 0x0EFF \<or> 0x1000 < p \<and> p \<le> 0x109F"

text \<open>Hangul and Chinese are apart from the other scripts only when a program for them is configured; Katakana never is.\<close>

definition isHANGUL :: "TextConf \<Rightarrow> int \<Rightarrow> bool" where
  "isHANGUL cf p \<longleftrightarrow> o_exthangultagger cf \<and> UNICODE_IN_HANGUL_RANGE p"

definition isCHINESE :: "TextConf \<Rightarrow> int \<Rightarrow> bool" where
  "isCHINESE cf p \<longleftrightarrow> o_extchinesetagger cf \<and> UNICODE_IN_CHINESE_RANGE p"

definition isKATAKANA :: "int \<Rightarrow> bool" where
  "isKATAKANA p \<longleftrightarrow> False"

definition isCJK :: "int \<Rightarrow> bool" where
  "isCJK p \<longleftrightarrow> UNICODE_IS_CJK p"

definition noStemming :: "int \<Rightarrow> bool" where
  "noStemming p \<longleftrightarrow> UNICODE_IS_CJK p \<or> UNICODE_IS_OTHER_NGRAM p"

definition isSpace_cc :: "TextConf \<Rightarrow> int \<Rightarrow> bool" where
  "isSpace_cc cf p \<longleftrightarrow> whatcc cf p = SPACE_CC"

definition isNGRAMMED :: "TextConf \<Rightarrow> int \<Rightarrow> bool" where
  "isNGRAMMED cf p \<longleftrightarrow>
     UNICODE_IS_OTHER_NGRAM p \<or> UNICODE_IS_CJK p \<and> \<not> isKATAKANA p \<and> \<not> isHANGUL cf p \<and> \<not> isCHINESE cf p"

datatype CharSpanClass = CSC_OTHER | CSC_HANGUL | CSC_CHINESE | CSC_CJK | CSC_KATAKANA | CSC_OTHERNGRAM | CSC_TESTNGRAM

definition char_span_class :: "TextConf \<Rightarrow> int \<Rightarrow> CharSpanClass" where
  "char_span_class cf c =
     (if isKATAKANA c then CSC_KATAKANA
      else if isHANGUL cf c then CSC_HANGUL
      else if isCHINESE cf c then CSC_CHINESE
      else if UNICODE_IS_OTHER_NGRAM c then CSC_OTHERNGRAM
      else if UNICODE_IS_CJK c then CSC_CJK
      else CSC_OTHER)"

section \<open>The lookup in the blocks\<close>

text \<open>A character is in the blocks of punctuation exactly when the binary search says so: the list is sorted and of even length.\<close>

fun in_blocks :: "int list \<Rightarrow> int \<Rightarrow> bool" where
  "in_blocks (a # b # bs) c \<longleftrightarrow> a \<le> c \<and> c \<le> b \<or> in_blocks bs c"
| "in_blocks _ c \<longleftrightarrow> False"

lemma lower_bound_blocks:
  "sorted bs \<Longrightarrow> even (length bs) \<Longrightarrow>
    (case lower_bound bs c of None \<Rightarrow> False | Some i \<Rightarrow> c = bs ! i \<or> i mod 2 = 1) \<longleftrightarrow> in_blocks bs c"
proof (induction bs c rule: in_blocks.induct)
  case (1 a b bs c)
  consider "c < a" | "a \<le> c" "c \<le> b" | "b < c"
    by linarith
  then show ?case
  proof cases
    case 1
    then have "\<forall>x \<in> set bs. c < x"
      using "1.prems"(1) by auto
    then have "\<not> in_blocks bs c"
      by (induction bs c rule: in_blocks.induct) auto
    with 1 show ?thesis
      using "1.prems"(1) by (simp add: lower_bound_def)
  next
    case 2
    then show ?thesis
      by (auto simp: lower_bound_def)
  next
    case 3
    then have "lower_bound (a # b # bs) c = map_option (\<lambda>i. Suc (Suc i)) (lower_bound bs c)"
      using "1.prems"(1) by (auto simp: lower_bound_def option.map_comp comp_def)
    moreover have "Suc (Suc i) mod 2 = i mod 2" for i :: nat
      by simp
    ultimately show ?thesis
      using "1.IH" "1.prems" 3 by (cases "lower_bound bs c") (auto simp del: mod_Suc_Suc_eq)
  qed
qed (auto simp: lower_bound_def)

lemma unipuncblocks_sorted: "sorted unipuncblocks" "even (length unipuncblocks)"
  by (simp_all add: unipuncblocks_def)

lemma whatcc_unicode:
  assumes "127 < c" "c \<notin> set [0x2010, 0x2019, 0x275c, 0x02bc]"
  shows "whatcc cf c = (if c \<in> set uniskip then SKIP
    else if c \<in> set unipunc \<or> c = no_char \<or> in_blocks unipuncblocks c then SPACE_CC else LETTER)"
proof -
  have "c \<noteq> 0x2010" "c \<noteq> 0x2019" "c \<noteq> 0x275c" "c \<noteq> 0x02bc" "\<not> c \<le> 127"
    using assms by simp_all
  moreover have "(case lower_bound unipuncblocks c of None \<Rightarrow> LETTER
      | Some i \<Rightarrow> if c = unipuncblocks ! i then SPACE_CC else if i mod 2 = 1 then SPACE_CC else LETTER) =
      (if in_blocks unipuncblocks c then SPACE_CC else LETTER)"
    unfolding lower_bound_blocks [OF unipuncblocks_sorted, of c, symmetric] by (simp split: option.split)
  ultimately show ?thesis
    by (simp only: whatcc_def if_False simp_thms) (simp only: disj_assoc split: if_split; blast)
qed

text \<open>
  Two code points of the list of punctuation are the bytes of the UTF-8 encodings of the characters that their comments name:
  they are Hangul syllables.
\<close>

lemma punctuation_hangul:
  "whatcc cf 0xC2B6 = SPACE_CC" "whatcc cf 0xC3B7 = SPACE_CC" "UNICODE_IN_HANGUL_RANGE 0xC2B6" "UNICODE_IN_HANGUL_RANGE 0xC3B7"
  by code_simp+

end
