(* ===== verification/Text_Split.thy ===== *)
theory Text_Split
  imports Text_Class Utf8
begin

text \<open>
  The text splitter (\<open>TextSplit\<close> of \<open>common/textsplit.cpp\<close>) up to its switch: the
  members as a record, the local variables of \<open>text_to_words\<close> as its extension, one function per label of the switch. The
  client's virtual functions are a function on the client's state, which gets the events; the external splitters
  for Hangul and Chinese are a function too. The handling of camel case and the statistics are not compiled.
\<close>

section \<open>The object\<close>

datatype DiscardReason = WORD_TOO_LONG | LONG_SPAN_TRUNCATED

datatype tsevent =
  TakeWord string int int int
| Discarded string int int int DiscardReason
| NewPage int
| NewLine int

type_synonym 'u sink = "'u \<Rightarrow> tsevent \<Rightarrow> bool \<times> 'u"

definition TXTS_ONLYSPANS :: "32 word" where "TXTS_ONLYSPANS = 1"
definition TXTS_NOSPANS :: "32 word" where "TXTS_NOSPANS = 2"
definition TXTS_KEEPWILD :: "32 word" where "TXTS_KEEPWILD = 4"

record 'u TextSplit =
  m_flags :: "32 word"
  m_span :: string
  m_words_in_span :: "(nat \<times> nat) list"
  m_wordStart :: nat
  m_wordLen :: nat
  m_inNumber :: bool
  m_wordpos :: int
  m_spanpos :: int
  m_prevpos :: int
  m_prevlen :: nat
  ts_sink :: 'u

definition clearsplitstate :: "('u, 'z) TextSplit_scheme \<Rightarrow> ('u, 'z) TextSplit_scheme" where
  "clearsplitstate s = s\<lparr>m_span := [], m_words_in_span := [], m_inNumber := False, m_wordStart := 0, m_wordLen := 0,
     m_wordpos := 0, m_spanpos := 0, m_prevpos := 0, m_prevlen := 0\<rparr>"

definition discardspan :: "('u, 'z) TextSplit_scheme \<Rightarrow> ('u, 'z) TextSplit_scheme" where
  "discardspan s = s\<lparr>m_span := [], m_words_in_span := [], m_spanpos := m_wordpos s, m_wordStart := 0, m_wordLen := 0\<rparr>"

definition send :: "'u sink \<Rightarrow> tsevent \<Rightarrow> ('u, 'z) TextSplit_scheme \<Rightarrow> bool \<times> ('u, 'z) TextSplit_scheme" where
  "send sink e s = (case sink (ts_sink s) e of (b, u) \<Rightarrow> (b, s\<lparr>ts_sink := u\<rparr>))"

definition keepwild :: "('u, 'z) TextSplit_scheme \<Rightarrow> bool" where
  "keepwild s \<longleftrightarrow> m_flags s AND TXTS_KEEPWILD \<noteq> 0"

section \<open>Emitting terms\<close>

definition one_byte_term :: "TextConf \<Rightarrow> bool \<Rightarrow> char \<Rightarrow> bool" where
  "one_byte_term cf wild c \<longleftrightarrow>
     (let cc = charclasses cf (of_char c) in cc = A_ULETTER \<or> cc = A_LLETTER \<or> cc = DIGIT \<or> wild \<and> cc = WILD)"

definition emitterm ::
  "TextConf \<Rightarrow> 'u sink \<Rightarrow> string \<Rightarrow> int \<Rightarrow> int \<Rightarrow> int \<Rightarrow> ('u, 'z) TextSplit_scheme \<Rightarrow> bool \<times> ('u, 'z) TextSplit_scheme" where
  "emitterm cf sink w pos btstart btend s =
     (let mx = o_maxWordLength cf; l = utf8len w in
      if (w = [] \<or> 0 \<le> mx \<and> mx \<le> int (length w)) \<and> (l = 0 \<or> mx < int l) then
        (True, snd (send sink (Discarded w pos btstart btend WORD_TOO_LONG) s))
      else if length w = 1 \<and> \<not> one_byte_term cf (keepwild s) (hd w) then (True, s)
      else if pos \<noteq> m_prevpos s \<or> length w \<noteq> m_prevlen s then
        (case send sink (TakeWord w pos btstart btend) s of
           (ret, s1) \<Rightarrow> (ret, s1\<lparr>m_prevpos := pos, m_prevlen := length w\<rparr>))
      else (True, s))"

text \<open>Initials like \<open>I.B.M.\<close>, without the dots.\<close>

definition span_is_initials :: "('u, 'z) TextSplit_scheme \<Rightarrow> string option" where
  "span_is_initials s =
     (let span = m_span s; n = length span in
      if m_wordLen s = n \<or> odd n \<or> n \<le> 2 \<or> 20 < n then None
      else if list_ex (\<lambda>i. odd i \<and> span ! i \<noteq> CHR ''.'') [0..<n] then None
      else if list_ex (\<lambda>i. even i \<and> \<not> (is_lower (span ! i) \<or> is_upper (span ! i))) [0..<n] then None
      else Some (map (\<lambda>i. span ! i) (filter even [0..<n])))"

definition substr_run :: "string \<Rightarrow> nat \<Rightarrow> nat \<Rightarrow> string run" where
  "substr_run s p n = (if length s < p then Inl OutOfRange else Inr (substr s p n))"

text \<open>
  The two loops of \<open>words_from_span\<close>: the terms that begin with a word, and all the terms. A client that returns false
  stops them.
\<close>

fun terms_from ::
  "TextConf \<Rightarrow> 'u sink \<Rightarrow> int \<Rightarrow> nat \<Rightarrow> int \<Rightarrow> nat list \<Rightarrow> ('u, 'z) TextSplit_scheme \<Rightarrow> (bool \<times> ('u, 'z) TextSplit_scheme) run" where
  "terms_from cf sink spboffs deb pos [] s = Inr (True, s)"
| "terms_from cf sink spboffs deb pos (fin # fins) s =
     (if int (length (m_span s)) < int fin - int deb then Inr (True, s)
      else case substr_run (m_span s) deb (if fin < deb then length (m_span s) else fin - deb) of
          Inl e \<Rightarrow> Inl e
        | Inr w \<Rightarrow>
            (case emitterm cf sink w pos (spboffs + int deb) (spboffs + int fin) s of
               (ok, s1) \<Rightarrow> if \<not> ok then Inr (False, s1) else terms_from cf sink spboffs deb pos fins s1))"

fun span_terms ::
  "TextConf \<Rightarrow> 'u sink \<Rightarrow> int \<Rightarrow> (nat \<times> nat) list \<Rightarrow> nat list \<Rightarrow> int \<Rightarrow> ('u, 'z) TextSplit_scheme \<Rightarrow>
   (bool \<times> ('u, 'z) TextSplit_scheme) run" where
  "span_terms cf sink spboffs ws [] pos s = Inr (True, s)"
| "span_terms cf sink spboffs ws (i # is) pos s =
     (let n = length ws; (deb, fin) = ws ! i;
          first = (if m_flags s AND TXTS_ONLYSPANS \<noteq> 0 then n - 1 else i);
          last = (if m_flags s AND TXTS_NOSPANS \<noteq> 0 then i + 1 else n)
      in case terms_from cf sink spboffs deb pos (map (\<lambda>j. snd (ws ! j)) [first..<last]) s of
           Inl e \<Rightarrow> Inl e
         | Inr (ok, s1) \<Rightarrow>
             if \<not> ok then Inr (False, s1)
             else span_terms cf sink spboffs ws is (if fin = deb then pos else pos + 1) s1)"

text \<open>With \<open>dehyphenate\<close>, two words around a hyphen are also one term.\<close>

definition dehyphenated ::
  "TextConf \<Rightarrow> 'u sink \<Rightarrow> int \<Rightarrow> ('u, 'z) TextSplit_scheme \<Rightarrow> ('u, 'z) TextSplit_scheme run" where
  "dehyphenated cf sink spboffs s =
     (case m_words_in_span s of
        [(s0, e0), (s1, e1)] \<Rightarrow>
          if \<not> o_deHyphenate cf then Inr s
          else if length (m_span s) < e0 then Inl BadAccess
          else if (m_span s @ [CHR 0x00]) ! e0 \<noteq> CHR ''-'' then Inr s
          else (case substr_run (m_span s) s0 (e0 - s0) of
                  Inl e \<Rightarrow> Inl e
                | Inr a \<Rightarrow>
                    (case substr_run (m_span s) s1 (e1 - s1) of
                       Inl e \<Rightarrow> Inl e
                     | Inr b \<Rightarrow>
                         Inr (if e0 \<noteq> s0 \<and> e1 \<noteq> s1
                              then snd (emitterm cf sink (a @ b) (m_spanpos s) spboffs (spboffs + int e1) s) else s)))
      | _ \<Rightarrow> Inr s)"

definition words_from_span ::
  "TextConf \<Rightarrow> 'u sink \<Rightarrow> int \<Rightarrow> ('u, 'z) TextSplit_scheme \<Rightarrow> (bool \<times> ('u, 'z) TextSplit_scheme) run" where
  "words_from_span cf sink bp s =
     (let ws = m_words_in_span s; n = length ws; spboffs = bp - int (length (m_span s)) in
      if n = 0 then Inr (True, s)
      else case dehyphenated cf sink spboffs s of
          Inl e \<Rightarrow> Inl e
        | Inr s1 \<Rightarrow> span_terms cf sink spboffs ws [0..<(if m_flags s AND TXTS_ONLYSPANS \<noteq> 0 then 1 else n)] (m_spanpos s) s1)"

text \<open>The current word goes to the words of the span, which ends when there are too many.\<close>

definition remember_word ::
  "TextConf \<Rightarrow> 'u sink \<Rightarrow> bool \<Rightarrow> ('u, 'z) TextSplit_scheme \<Rightarrow> (bool \<times> ('u, 'z) TextSplit_scheme) run" where
  "remember_word cf sink spanerase s =
     (if m_wordLen s = 0 then Inr (spanerase, s)
      else
        let s1 = (if o_noNumbers cf \<and> m_inNumber s then s
                  else s\<lparr>m_words_in_span := m_words_in_span s @ [(m_wordStart s, m_wordStart s + m_wordLen s)],
                     m_wordpos := m_wordpos s + 1\<rparr>);
            ws = m_words_in_span s1
        in if o_maxWordsInSpan cf \<le> int (length ws) then
             (if ws = [] then Inl BadAccess
              else Inr (True, (snd (send sink (Discarded (m_span s1) (m_spanpos s1) (int (fst (hd ws))) (int (snd (last ws)))
                     LONG_SPAN_TRUNCATED) s1))\<lparr>m_wordLen := 0\<rparr>))
           else Inr (spanerase, s1\<lparr>m_wordLen := 0\<rparr>))"

definition emit_initials ::
  "TextConf \<Rightarrow> 'u sink \<Rightarrow> int \<Rightarrow> ('u, 'z) TextSplit_scheme \<Rightarrow> bool \<times> ('u, 'z) TextSplit_scheme" where
  "emit_initials cf sink bp s =
     (case span_is_initials s of
        None \<Rightarrow> (True, s)
      | Some initials \<Rightarrow> emitterm cf sink initials (m_spanpos s) (bp - int (length (m_span s))) bp s)"

definition doemit ::
  "TextConf \<Rightarrow> 'u sink \<Rightarrow> bool \<Rightarrow> int \<Rightarrow> ('u, 'z) TextSplit_scheme \<Rightarrow> (bool \<times> ('u, 'z) TextSplit_scheme) run" where
  "doemit cf sink spanerase bp s =
     (case remember_word cf sink spanerase s of
        Inl e \<Rightarrow> Inl e
      | Inr (erase, s1) \<Rightarrow>
          if \<not> erase then Inr (True, s1\<lparr>m_wordStart := length (m_span s1)\<rparr>)
          else case emit_initials cf sink bp s1 of
              (ok, s2) \<Rightarrow>
                if \<not> ok then Inr (False, s2)
                else case words_from_span cf sink bp s2 of
                    Inl e \<Rightarrow> Inl e
                  | Inr (ok, s3) \<Rightarrow> if \<not> ok then Inr (False, s3) else Inr (True, discardspan s3))"

section \<open>The classes of the switch\<close>

record 'u SplitRun = "'u TextSplit" +
  sr_it :: Utf8Iter
  sr_pagepending :: bool
  sr_nlpending :: bool
  sr_softhyphen :: bool
  sr_prev_csc :: "CharSpanClass option"
  sr_prevc :: int

type_synonym 'u flow = "(bool \<times> 'u SplitRun) run"

definition and_then :: "'u flow \<Rightarrow> ('u SplitRun \<Rightarrow> 'u flow) \<Rightarrow> 'u flow" where
  "and_then r f = (case r of Inl e \<Rightarrow> Inl e | Inr (ok, s) \<Rightarrow> if ok then f s else Inr (False, s))"

definition sr_bpos :: "'u SplitRun \<Rightarrow> int" where
  "sr_bpos s = int (m_pos (sr_it s))"

definition sr_char :: "Utf8Iter \<Rightarrow> int" where
  "sr_char it = uint (utf8_deref it)"

definition sr_nextc :: "'u SplitRun \<Rightarrow> int" where
  "sr_nextc s = uint (utf8_at (sr_it s) (m_charpos (sr_it s) + 1))"

text \<open>The current character is appended to the span, as part of the word, in front of the next word, or neither.\<close>

definition append_span :: "'u SplitRun \<Rightarrow> 'u SplitRun" where
  "append_span s = s\<lparr>m_span := fst (appendchartostring (sr_it s) (m_span s))\<rparr>"

definition append_word :: "'u SplitRun \<Rightarrow> 'u SplitRun" where
  "append_word s = (append_span s)\<lparr>m_wordLen := m_wordLen s + snd (appendchartostring (sr_it s) (m_span s))\<rparr>"

definition append_glue :: "'u SplitRun \<Rightarrow> 'u SplitRun" where
  "append_glue s = (append_span s)\<lparr>m_wordStart := m_wordStart s + snd (appendchartostring (sr_it s) (m_span s))\<rparr>"

definition sr_emit :: "TextConf \<Rightarrow> 'u sink \<Rightarrow> bool \<Rightarrow> 'u SplitRun \<Rightarrow> 'u flow" where
  "sr_emit cf sink spanerase s = doemit cf sink spanerase (sr_bpos s) s"

definition sr_pending :: "'u sink \<Rightarrow> 'u SplitRun \<Rightarrow> 'u SplitRun" where
  "sr_pending sink s =
     (let s1 = (if sr_pagepending s then snd (send sink (NewPage (m_wordpos s)) (s\<lparr>sr_pagepending := False\<rparr>)) else s)
      in if sr_nlpending s1 then snd (send sink (NewLine (m_wordpos s1)) (s1\<lparr>sr_nlpending := False\<rparr>)) else s1)"

definition sr_idxpunct :: "TextConf \<Rightarrow> 'u sink \<Rightarrow> int \<Rightarrow> 'u SplitRun \<Rightarrow> 'u SplitRun" where
  "sr_idxpunct cf sink c s =
     (if o_haveidxpunct cf \<and> c \<in> set (o_idxpunct cf) then
        let (tmp, l) = appendchartostring (sr_it s) [];
            s1 = snd (send sink (TakeWord tmp (m_wordpos s) (sr_bpos s) (sr_bpos s + int l)) s);
            s2 = (if m_spanpos s1 = m_wordpos s1 then s1\<lparr>m_spanpos := m_spanpos s1 + 1\<rparr> else s1)
        in s2\<lparr>m_wordpos := m_wordpos s2 + 1\<rparr>
      else s)"

definition tsp_space :: "TextConf \<Rightarrow> 'u sink \<Rightarrow> int \<Rightarrow> 'u SplitRun \<Rightarrow> 'u flow" where
  "tsp_space cf sink c s =
     and_then (if m_wordLen s \<noteq> 0 \<or> m_span s \<noteq> [] then
                 and_then (sr_emit cf sink True s) (\<lambda>s1. Inr (True, s1\<lparr>m_inNumber := False\<rparr>))
               else Inr (True, s))
       (\<lambda>s1. Inr (True, sr_idxpunct cf sink c (sr_pending sink s1)))"

definition tsp_normal :: "int \<Rightarrow> 'u SplitRun \<Rightarrow> 'u flow" where
  "tsp_normal c s =
     Inr (True, append_word (if m_inNumber s \<and> c \<noteq> 101 \<and> c \<noteq> 69 then s\<lparr>m_inNumber := False\<rparr> else s))"

definition tsp_digit :: "'u SplitRun \<Rightarrow> 'u flow" where
  "tsp_digit s = Inr (True, append_word (if m_wordLen s = 0 then s\<lparr>m_inNumber := True\<rparr> else s))"

text \<open>A word boundary inside a span, and the glue behind it.\<close>

definition tsp_join :: "TextConf \<Rightarrow> 'u sink \<Rightarrow> bool \<Rightarrow> 'u SplitRun \<Rightarrow> 'u flow" where
  "tsp_join cf sink nonumber s =
     and_then (sr_emit cf sink False s)
       (\<lambda>s1. Inr (True, append_glue (if nonumber then s1\<lparr>m_inNumber := False\<rparr> else s1)))"

definition tsp_sign :: "TextConf \<Rightarrow> 'u sink \<Rightarrow> int \<Rightarrow> int \<Rightarrow> 'u SplitRun \<Rightarrow> 'u flow" where
  "tsp_sign cf sink c cc s =
     (let nextc = sr_nextc s; digit = isdigit_cc (keepwild s) (whatcc cf nextc);
          white = (nextc = no_char \<or> isvisiblewhite nextc)
      in if m_wordLen s = 0 then
           if digit then Inr (True, append_word (s\<lparr>m_inNumber := True\<rparr>)) else tsp_space cf sink c s
         else if \<not> o_numberDashSpans cf \<and> m_inNumber s then
           if m_span s = [] then Inl BadAccess
           else if last (m_span s) \<in> {CHR ''e'', CHR ''E''} \<and> digit then Inr (True, append_word s)
           else tsp_space cf sink c s
         else if cc = 43 then
           if nextc = 43 \<and> sr_prevc s \<noteq> 43 \<or> sr_prevc s = 43 \<and> white then Inr (True, append_word s)
           else tsp_space cf sink c s
         else if white then tsp_space cf sink c s
         else tsp_join cf sink True s)"

definition tsp_dot :: "TextConf \<Rightarrow> 'u sink \<Rightarrow> int \<Rightarrow> 'u SplitRun \<Rightarrow> 'u flow" where
  "tsp_dot cf sink c s =
     (let nextwhat = whatcc cf (sr_nextc s); digit = isdigit_cc (keepwild s) nextwhat in
      if m_inNumber s then
        if \<not> digit then tsp_space cf sink c s else Inr (True, append_word s)
      else if \<not> isalphanum (keepwild s) nextwhat then
        let s1 = append_span s;
            s2 = s1\<lparr>sr_it := fst (utf8_next (sr_it s1))\<rparr>;
            s3 = (if sr_char (sr_it s2) = 10 then s2\<lparr>sr_nlpending := True\<rparr>
                  else if sr_char (sr_it s2) = 12 then s2\<lparr>sr_pagepending := True\<rparr> else s2)
        in tsp_space cf sink c s3
      else if m_span s = [] then
        Inr (True, if digit then append_word (s\<lparr>m_inNumber := True\<rparr>)
                   else append_glue (s\<lparr>m_words_in_span := m_words_in_span s @ [(m_wordStart s, m_wordStart s)]\<rparr>))
      else if m_wordLen s \<noteq> 0 then tsp_join cf sink False s
      else Inr (True, s))"

definition tsp_quote :: "TextConf \<Rightarrow> 'u sink \<Rightarrow> int \<Rightarrow> 'u SplitRun \<Rightarrow> 'u flow" where
  "tsp_quote cf sink c s =
     (if sr_nextc s = no_char \<or> isvisiblewhite (sr_nextc s) then tsp_space cf sink c s
      else if m_wordLen s \<noteq> 0 then tsp_join cf sink True s
      else Inr (True, s))"

definition tsp_hash :: "TextConf \<Rightarrow> 'u sink \<Rightarrow> int \<Rightarrow> 'u SplitRun \<Rightarrow> 'u flow" where
  "tsp_hash cf sink c s =
     (let w = whatcc cf (sr_nextc s) in
      if m_wordLen s = 0 \<and> isalphanum (keepwild s) w then Inr (True, append_word s)
      else if m_wordLen s > 0 \<and> (w = SPACE_CC \<or> w = 10 \<or> w = 13) then Inr (True, append_word s)
      else tsp_space cf sink c s)"

text \<open>The switch; skipped characters, and the line ends behind a soft hyphen, are left to the loop.\<close>

definition tsp_class :: "TextConf \<Rightarrow> 'u sink \<Rightarrow> int \<Rightarrow> int \<Rightarrow> 'u SplitRun \<Rightarrow> 'u flow" where
  "tsp_class cf sink c cc s =
     (if cc = DIGIT then tsp_digit s
      else if cc = SPACE_CC then tsp_space cf sink c s
      else if cc = WILD then (if keepwild s then tsp_normal c s else tsp_space cf sink c s)
      else if cc = 45 \<or> cc = 43 then tsp_sign cf sink c cc s
      else if cc = 46 then tsp_dot cf sink c s
      else if cc \<in> set [0x2010, 0x2019, 0x275c, 0x02bc, 64, 95, 39] then tsp_quote cf sink c s
      else if cc = 35 then tsp_hash cf sink c s
      else if cc = 10 then tsp_space cf sink c (s\<lparr>sr_nlpending := True\<rparr>)
      else if cc = 13 then tsp_space cf sink c s
      else if cc = 12 then tsp_space cf sink c (s\<lparr>sr_pagepending := True\<rparr>)
      else tsp_normal c s)"

definition tsp_step :: "TextConf \<Rightarrow> 'u sink \<Rightarrow> int \<Rightarrow> 'u SplitRun \<Rightarrow> 'u flow" where
  "tsp_step cf sink c s =
     (let cc = whatcc cf c in
      if cc = SKIP then Inr (True, s\<lparr>sr_softhyphen := (c = 0xad)\<rparr>)
      else if cc = 10 \<and> sr_softhyphen s then Inr (True, s\<lparr>sr_nlpending := True\<rparr>)
      else if cc = 13 \<and> sr_softhyphen s then Inr (True, s)
      else and_then (tsp_class cf sink c cc s) (\<lambda>s1. Inr (True, s1\<lparr>sr_softhyphen := False, sr_prevc := cc\<rparr>)))"

end
