(* ===== verification/Text_Cjk.thy ===== *)
theory Text_Cjk
  imports Text_Split Str_Basic
begin

text \<open>
  The splitter into n-grams (\<open>CJKSplitter\<close> of \<open>common/cjksplitter.cpp\<close>). The two arrays of offsets are the
  lists of their \<open>nchars\<close> valid entries; an index outside them is an error. \<open>isalpha\<close> is that of ASCII.
\<close>

definition CJKMaxNgramLen :: int where "CJKMaxNgramLen = 5"

record Ngrams =
  ng_it :: Utf8Iter
  ng_boffs :: "nat list"
  ng_myboffs :: "nat list"
  ng_mybuf :: string
  ng_space :: bool
  ng_wordpos :: int
  ng_c :: int

definition ng_nchars :: "Ngrams \<Rightarrow> nat" where
  "ng_nchars g = length (ng_boffs g)"

definition ng_clear :: "Ngrams \<Rightarrow> Ngrams" where
  "ng_clear g = g\<lparr>ng_boffs := [], ng_myboffs := [], ng_mybuf := []\<rparr>"

definition ng_trim :: "string \<Rightarrow> string" where
  "ng_trim w = trimstring w [CHR 0x0D, CHR 0x0A, CHR 0x0C, CHR '' '', CHR 0x09]"

text \<open>A character that gives control back to the other splitter.\<close>

definition ng_stop :: "TextConf \<Rightarrow> bool \<Rightarrow> int \<Rightarrow> bool" where
  "ng_stop cf spacebefore c \<longleftrightarrow>
     (spacebefore \<or> 255 < c \<or> 65 \<le> c \<and> c \<le> 90 \<or> 97 \<le> c \<and> c \<le> 122) \<and> \<not> isNGRAMMED cf c"

text \<open>The new character goes to the buffer and to the offsets, from which the oldest one goes away when there are enough.\<close>

definition ng_push :: "int \<Rightarrow> Ngrams \<Rightarrow> Ngrams run" where
  "ng_push ngramlen g =
     (let full = int (ng_nchars g) = ngramlen;
          boffs = (if full then tl (ng_boffs g) else ng_boffs g);
          myboffs = (if full then tl (ng_myboffs g) else ng_myboffs g)
      in if full \<and> ng_nchars g = 0 \<or> \<not> full \<and> CJKMaxNgramLen < int (ng_nchars g) then Inl BadAccess
         else Inr (g\<lparr>ng_boffs := boffs @ [m_pos (ng_it g)], ng_myboffs := myboffs @ [length (ng_mybuf g)],
                ng_mybuf := fst (appendchartostring (ng_it g) (ng_mybuf g))\<rparr>))"

fun ng_emit ::
  "'u sink \<Rightarrow> nat \<Rightarrow> Ngrams \<Rightarrow> nat list \<Rightarrow> ('u, 'z) TextSplit_scheme \<Rightarrow> (bool \<times> ('u, 'z) TextSplit_scheme) run" where
  "ng_emit sink btend g [] s = Inr (True, s)"
| "ng_emit sink btend g (i # is) s =
     (case substr_run (ng_mybuf g) (ng_myboffs g ! i) (length (ng_mybuf g) - ng_myboffs g ! i) of
        Inl e \<Rightarrow> Inl e
      | Inr w \<Rightarrow>
          (case send sink (TakeWord (ng_trim w) (ng_wordpos g - (int (ng_nchars g) - int i - 1)) (int (ng_boffs g ! i)) (int btend)) s of
             (ok, s1) \<Rightarrow> if \<not> ok then Inr (False, s1) else ng_emit sink btend g is s1))"

text \<open>One character that is not a space: all the n-grams that end there.\<close>

definition ng_char ::
  "'u sink \<Rightarrow> int \<Rightarrow> Ngrams \<Rightarrow> ('u, 'z) TextSplit_scheme \<Rightarrow> (bool \<times> Ngrams \<times> ('u, 'z) TextSplit_scheme) run" where
  "ng_char sink ngramlen g s =
     (case ng_push ngramlen g of
        Inl e \<Rightarrow> Inl e
      | Inr g1 \<Rightarrow>
          (let n = ng_nchars g1; only = (m_flags s AND TXTS_ONLYSPANS \<noteq> 0) in
           if \<not> only \<or> int n = ngramlen then
             (case ng_emit sink (m_pos (ng_it g1) + m_cl (ng_it g1)) g1
                     [(if m_flags s AND TXTS_NOSPANS \<noteq> 0 then n - 1 else 0)..<(if only then 1 else n)] s of
                Inl e \<Rightarrow> Inl e
              | Inr (ok, s1) \<Rightarrow>
                  if \<not> ok then Inr (False, g1, s1)
                  else (let g2 = (if only then ng_clear g1 else g1)
                        in Inr (True, g2\<lparr>ng_wordpos := ng_wordpos g2 + 1\<rparr>, s1)))
           else Inr (True, g1\<lparr>ng_wordpos := ng_wordpos g1 + 1\<rparr>, s)))"

text \<open>The loop; each turn moves the iterator.\<close>

function ng_loop ::
  "TextConf \<Rightarrow> 'u sink \<Rightarrow> int \<Rightarrow> Ngrams \<Rightarrow> ('u, 'z) TextSplit_scheme \<Rightarrow> (bool \<times> Ngrams \<times> ('u, 'z) TextSplit_scheme) run" where
  "ng_loop cf sink ngramlen g s =
     (if utf8_eof (ng_it g) \<or> utf8_error (ng_it g) then Inr (True, g, s)
      else let c = sr_char (ng_it g); g1 = g\<lparr>ng_c := c\<rparr>; it1 = fst (utf8_next (ng_it g)) in
        if ng_stop cf (ng_space g) c then Inr (True, g1, s)
        else if isSpace_cc cf c then
          ng_loop cf sink ngramlen ((ng_clear g1)\<lparr>ng_space := True, ng_it := it1\<rparr>) s
        else case ng_char sink ngramlen (g1\<lparr>ng_space := False\<rparr>) s of
            Inl e \<Rightarrow> Inl e
          | Inr (ok, g2, s1) \<Rightarrow>
              if \<not> ok then Inr (False, g2, s1) else ng_loop cf sink ngramlen (g2\<lparr>ng_it := it1\<rparr>) s1)"
  by pat_completeness auto
termination
  by (relation "measure (\<lambda>(cf, sink, ngramlen, g, s). utf8_left (ng_it g))")
    (auto simp: utf8_error_def intro!: utf8_next_ok)

declare ng_loop.simps [simp del]

text \<open>With \<open>TXTS_ONLYSPANS\<close>, what is left in the buffer at the end is a last term.\<close>

definition ng_flush ::
  "'u sink \<Rightarrow> int \<Rightarrow> Ngrams \<Rightarrow> ('u, 'z) TextSplit_scheme \<Rightarrow> (bool \<times> ('u, 'z) TextSplit_scheme) run" where
  "ng_flush sink ngramlen g s =
     (if m_flags s AND TXTS_ONLYSPANS \<noteq> 0 \<and> 0 < ng_nchars g \<and> int (ng_nchars g) \<noteq> ngramlen then
        (case substr_run (ng_mybuf g) (hd (ng_myboffs g)) (length (ng_mybuf g) - hd (ng_myboffs g)) of
           Inl e \<Rightarrow> Inl e
         | Inr w \<Rightarrow>
             Inr (send sink (TakeWord (ng_trim w) (ng_wordpos g - int (ng_nchars g)) (int (hd (ng_boffs g))) (int (m_pos (ng_it g)))) s))
      else Inr (True, s))"

definition cjk_text_to_words ::
  "TextConf \<Rightarrow> 'u sink \<Rightarrow> int \<Rightarrow> Utf8Iter \<Rightarrow> int \<Rightarrow> ('u, 'z) TextSplit_scheme \<Rightarrow>
   (bool \<times> Utf8Iter \<times> int \<times> int \<times> ('u, 'z) TextSplit_scheme) run" where
  "cjk_text_to_words cf sink ngramlen it wordpos s =
     (if CJKMaxNgramLen \<le> ngramlen then Inl AbortCalled
      else case ng_loop cf sink ngramlen
             \<lparr>ng_it = it, ng_boffs = [], ng_myboffs = [], ng_mybuf = [], ng_space = False, ng_wordpos = wordpos, ng_c = 0\<rparr> s of
          Inl e \<Rightarrow> Inl e
        | Inr (ok, g, s1) \<Rightarrow>
            if \<not> ok then Inr (False, ng_it g, ng_c g, ng_wordpos g, s1)
            else case ng_flush sink ngramlen g s1 of
                Inl e \<Rightarrow> Inl e
              | Inr (ok1, s2) \<Rightarrow> Inr (ok1, ng_it g, ng_c g, ng_wordpos g, s2))"

end
