(* ===== verification/Text_Words.thy ===== *)
theory Text_Words
  imports Text_Cjk Str_Tokens
begin

text \<open>
  The loop of \<open>TextSplit::text_to_words\<close> and the functions that use it. An external program splits Hangul or Chinese
  text when it is configured: it is a function from the script, the iterator, the character, the word position and
  the state of the client to the result, where it left the iterator, the character there, the position and the client.
\<close>

type_synonym 'u splitter = "CharSpanClass \<Rightarrow> Utf8Iter \<Rightarrow> int \<Rightarrow> int \<Rightarrow> 'u \<Rightarrow> bool \<times> Utf8Iter \<times> int \<times> int \<times> 'u"

section \<open>The loop\<close>

text \<open>The rest of the span, as at the end of the text.\<close>

definition sr_finish :: "TextConf \<Rightarrow> 'u sink \<Rightarrow> 'u SplitRun \<Rightarrow> 'u flow" where
  "sr_finish cf sink s =
     (if m_wordLen s \<noteq> 0 \<or> m_span s \<noteq> [] then sr_emit cf sink True s else Inr (True, s))"

definition sr_left :: "Utf8Iter \<Rightarrow> int \<Rightarrow> 'u SplitRun \<Rightarrow> 'u SplitRun" where
  "sr_left it pos s = (clearsplitstate s)\<lparr>m_spanpos := pos, m_wordpos := pos, sr_it := it\<rparr>"

text \<open>A run of characters of a script that has its own splitter: the result also holds the character behind it.\<close>

definition tsp_special ::
  "TextConf \<Rightarrow> 'u sink \<Rightarrow> 'u splitter \<Rightarrow> CharSpanClass \<Rightarrow> int \<Rightarrow> 'u SplitRun \<Rightarrow> (bool \<times> int \<times> 'u SplitRun) run" where
  "tsp_special cf sink ext csc c s =
     (case sr_finish cf sink s of
        Inl e \<Rightarrow> Inl e
      | Inr (ok, s1) \<Rightarrow>
          if \<not> ok then Inr (False, c, s1)
          else if csc = CSC_HANGUL \<or> csc = CSC_CHINESE then
            (case ext csc (sr_it s1) c (m_wordpos s1) (ts_sink s1) of
               (ok, it, c1, pos, u) \<Rightarrow> Inr (ok, c1, sr_left it pos (s1\<lparr>ts_sink := u\<rparr>)))
          else
            (case cjk_text_to_words cf sink (o_CJKNgramLen cf) (sr_it s1) (m_wordpos s1) s1 of
               Inl e \<Rightarrow> Inl e
             | Inr (ok, it, c1, pos, s2) \<Rightarrow> Inr (ok, c1, sr_left it pos s2)))"

text \<open>A change of script ends a span, but behind the scripts that have their own splitters.\<close>

definition tsp_script :: "TextConf \<Rightarrow> 'u sink \<Rightarrow> CharSpanClass \<Rightarrow> 'u SplitRun \<Rightarrow> 'u flow" where
  "tsp_script cf sink csc s =
     and_then (if sr_prev_csc s \<notin> {Some CSC_CJK, Some CSC_HANGUL, Some CSC_CHINESE} \<and> sr_prev_csc s \<noteq> Some csc
               then sr_finish cf sink s else Inr (True, s))
       (\<lambda>s1. Inr (True, s1\<lparr>sr_prev_csc := Some csc\<rparr>))"

datatype 'u turn = Goes_On "'u SplitRun" | Breaks "'u SplitRun" | Returns_False "'u SplitRun"

definition flow_turn :: "'u flow \<Rightarrow> 'u turn run" where
  "flow_turn r = (case r of Inl e \<Rightarrow> Inl e | Inr (ok, s) \<Rightarrow> Inr (if ok then Goes_On s else Returns_False s))"

definition tsp_turn :: "TextConf \<Rightarrow> 'u sink \<Rightarrow> 'u splitter \<Rightarrow> 'u SplitRun \<Rightarrow> 'u turn run" where
  "tsp_turn cf sink ext s =
     (let c = sr_char (sr_it s); csc = char_span_class cf c in
      if c = no_char then Inr (Returns_False s)
      else if o_processCJK cf \<and> csc \<noteq> CSC_OTHER then
        (case tsp_special cf sink ext csc c s of
           Inl e \<Rightarrow> Inl e
         | Inr (ok, c1, s1) \<Rightarrow>
             if \<not> ok then Inr (Returns_False s1)
             else if utf8_eof (sr_it s1) \<or> utf8_error (sr_it s1) then Inr (Breaks s1)
             else flow_turn (and_then (tsp_script cf sink csc s1) (tsp_step cf sink c1)))
      else flow_turn (and_then (tsp_script cf sink csc s) (tsp_step cf sink c)))"

partial_function (option) tsp_loop :: "TextConf \<Rightarrow> 'u sink \<Rightarrow> 'u splitter \<Rightarrow> 'u SplitRun \<Rightarrow> 'u flow option" where
  "tsp_loop cf sink ext s =
     (if utf8_eof (sr_it s) \<or> utf8_error (sr_it s) then Some (sr_finish cf sink s)
      else case tsp_turn cf sink ext s of
          Inl e \<Rightarrow> Some (Inl e)
        | Inr (Returns_False s1) \<Rightarrow> Some (Inr (False, s1))
        | Inr (Breaks s1) \<Rightarrow> Some (sr_finish cf sink s1)
        | Inr (Goes_On s1) \<Rightarrow> tsp_loop cf sink ext (s1\<lparr>sr_it := fst (utf8_next (sr_it s1))\<rparr>))"

declare tsp_loop.simps [code]

definition split_start :: "32 word \<Rightarrow> 'u \<Rightarrow> string \<Rightarrow> 'u SplitRun" where
  "split_start flags u s =
     \<lparr>m_flags = flags, m_span = [], m_words_in_span = [], m_wordStart = 0, m_wordLen = 0, m_inNumber = False,
      m_wordpos = 0, m_spanpos = 0, m_prevpos = 0, m_prevlen = 0, ts_sink = u, sr_it = utf8_iter s,
      sr_pagepending = False, sr_nlpending = False, sr_softhyphen = False, sr_prev_csc = None, sr_prevc = -1\<rparr>"

definition text_to_words ::
  "TextConf \<Rightarrow> 'u sink \<Rightarrow> 'u splitter \<Rightarrow> 32 word \<Rightarrow> 'u \<Rightarrow> string \<Rightarrow> (bool \<times> 'u) run option" where
  "text_to_words cf sink ext flags u s =
     (if s = [] then Some (Inr (True, u))
      else map_option (map_sum id (map_prod id ts_sink)) (tsp_loop cf sink ext (split_start flags u s)))"

section \<open>Functions\<close>

definition count_sink :: "int sink" where
  "count_sink n e = (True, case e of TakeWord _ _ _ _ \<Rightarrow> n + 1 | _ \<Rightarrow> n)"

definition countWords :: "TextConf \<Rightarrow> int splitter \<Rightarrow> string \<Rightarrow> 32 word \<Rightarrow> int run option" where
  "countWords cf ext s flags = map_option (map_sum id snd) (text_to_words cf count_sink ext flags 0 s)"

text \<open>The character is cut to 8 bits.\<close>

function visible_white_loop :: "Utf8Iter \<Rightarrow> bool" where
  "visible_white_loop it =
     (if utf8_eof it \<or> utf8_error it then False
      else if isvisiblewhite (uint (utf8_deref it AND 255)) then True
      else visible_white_loop (fst (utf8_next it)))"
  by pat_completeness auto
termination
  by (relation "measure utf8_left") (auto simp: utf8_error_def intro!: utf8_next_ok)

declare visible_white_loop.simps [simp del]

definition hasVisibleWhite :: "string \<Rightarrow> bool" where
  "hasVisibleWhite s = visible_white_loop (utf8_iter s)"

text \<open>The states are those of the function for bytes; this is the step for one character and the bytes of it.\<close>

fun u8_step :: "int \<Rightarrow> string \<Rightarrow> tok_acc \<Rightarrow> tok_acc" where
  "u8_step c w (tokens, current, state) =
     (let push = (\<lambda>st. (tokens, current @ w, st)) in
      if c = 34 then
        (case state of
           SPACE \<Rightarrow> (tokens, current, INQUOTE)
         | TOKEN \<Rightarrow> push TOKEN
         | ESCAPE \<Rightarrow> push INQUOTE
         | INQUOTE \<Rightarrow> (tokens @ [current], [], SPACE))
      else if c = 92 then
        (case state of
           SPACE \<Rightarrow> push TOKEN
         | TOKEN \<Rightarrow> push TOKEN
         | INQUOTE \<Rightarrow> (tokens, current, ESCAPE)
         | ESCAPE \<Rightarrow> push INQUOTE)
      else if c \<in> set [32, 9, 10, 13] then
        (case state of
           SPACE \<Rightarrow> (tokens, current, SPACE)
         | TOKEN \<Rightarrow> (tokens @ [current], [], SPACE)
         | INQUOTE \<Rightarrow> push INQUOTE
         | ESCAPE \<Rightarrow> push ESCAPE)
      else
        (case state of
           ESCAPE \<Rightarrow> push INQUOTE
         | SPACE \<Rightarrow> push TOKEN
         | TOKEN \<Rightarrow> push TOKEN
         | INQUOTE \<Rightarrow> push INQUOTE))"

function u8_loop :: "Utf8Iter \<Rightarrow> tok_acc \<Rightarrow> tok_acc" where
  "u8_loop it st =
     (if utf8_eof it \<or> utf8_error it then st
      else let c = sr_char it in
        u8_loop (fst (utf8_next it)) (u8_step (if isvisiblewhite c then 32 else c) (utf8_char_string it) st))"
  by pat_completeness auto
termination
  by (relation "measure (\<lambda>(it, st). utf8_left it)") (auto simp: utf8_error_def intro!: utf8_next_ok)

declare u8_loop.simps [simp del]

definition u8stringToStrings :: "string \<Rightarrow> bool \<times> string list" where
  "u8stringToStrings s =
     (case u8_loop (utf8_iter s) ([], [], SPACE) of
        (tokens, current, state) \<Rightarrow>
          (case state of
             SPACE \<Rightarrow> (True, tokens)
           | TOKEN \<Rightarrow> (True, tokens @ [current])
           | _ \<Rightarrow> (False, tokens)))"

end
