(* ===== verification/Text_Safe.thy ===== *)
theory Text_Safe
  imports Text_Words
begin

text \<open>
  What the splitter promises to its clients, whatever the text: it returns, its indices stay inside the span and the
  buffer of n-grams, and the byte offsets of the terms are inside the text. The interface of a client
  is the locale \<open>client\<close>: a predicate on its state that every event with offsets in the text keeps.
\<close>

text \<open>The values of the parameters for which the splitter is safe; \<open>text_conf\<close> has them.\<close>

definition splitter_conf :: "TextConf \<Rightarrow> bool" where
  "splitter_conf cf \<longleftrightarrow> 1 \<le> o_maxWordsInSpan cf \<and> 1 \<le> o_CJKNgramLen cf \<and> o_CJKNgramLen cf < CJKMaxNgramLen \<and>
     \<not> o_exthangultagger cf \<and> \<not> o_extchinesetagger cf"

section \<open>The invariant\<close>

text \<open>The events whose offsets are in a text of \<open>L\<close> bytes.\<close>

fun event_in :: "nat \<Rightarrow> tsevent \<Rightarrow> bool" where
  "event_in L (TakeWord w pos b e) \<longleftrightarrow> 0 \<le> b \<and> b \<le> e \<and> e \<le> int L"
| "event_in L _ \<longleftrightarrow> True"

definition words_ok :: "nat \<Rightarrow> (nat \<times> nat) list \<Rightarrow> bool" where
  "words_ok n ws \<longleftrightarrow> sorted_wrt (\<lambda>x y. snd x \<le> fst y) ws \<and> list_all (\<lambda>x. fst x \<le> snd x \<and> snd x \<le> n) ws"

lemma words_ok_nth:
  "words_ok n ws \<Longrightarrow> i \<le> j \<Longrightarrow> j < length ws \<Longrightarrow> fst (ws ! i) \<le> snd (ws ! j) \<and> snd (ws ! j) \<le> n"
proof (cases "i = j")
  case False
  assume w: "words_ok n ws" and ij: "i \<le> j" "j < length ws"
  then have "snd (ws ! i) \<le> fst (ws ! j)"
    using False by (simp add: words_ok_def sorted_wrt_iff_nth_less)
  moreover have "fst (ws ! k) \<le> snd (ws ! k) \<and> snd (ws ! k) \<le> n" if "k < length ws" for k
    using w that by (simp add: words_ok_def list_all_length)
  ultimately show ?thesis
    using ij by (meson le_trans le_less_trans)
qed (simp add: words_ok_def list_all_length)

lemma words_ok_snoc: "words_ok n ws \<Longrightarrow> n \<le> a \<Longrightarrow> a \<le> b \<Longrightarrow> b \<le> m \<Longrightarrow> words_ok m (ws @ [(a, b)])"
  by (auto simp: words_ok_def sorted_wrt_append list_all_iff)

lemma words_ok_mono: "words_ok n ws \<Longrightarrow> n \<le> m \<Longrightarrow> words_ok m ws"
  by (auto simp: words_ok_def list_all_iff)

definition span_ok :: "('u, 'z) TextSplit_scheme \<Rightarrow> bool" where
  "span_ok s \<longleftrightarrow> m_wordStart s + m_wordLen s \<le> length (m_span s) \<and>
     words_ok (m_wordStart s) (m_words_in_span s)"

text \<open>The iterator is at a character of the text, or at its end.\<close>

definition iter_ok :: "string \<Rightarrow> Utf8Iter \<Rightarrow> bool" where
  "iter_ok t it \<longleftrightarrow> m_sp it = t \<and> m_pos it + m_cl it \<le> length t"

lemma iter_ok_start: "iter_ok t (utf8_iter t)"
  using char_len_le [of t] by (simp add: iter_ok_def utf8_iter_at)

lemma iter_ok_pos: "iter_ok t it \<Longrightarrow> m_pos it \<le> length t"
  by (simp add: iter_ok_def)

lemma iter_ok_next: "iter_ok t it \<Longrightarrow> iter_ok t (fst (utf8_next it))"
  using update_cl_bound [of "it\<lparr>m_pos := m_pos it + m_cl it, m_charpos := m_charpos it + 1\<rparr>"]
  by (cases "m_cl (update_cl (it\<lparr>m_pos := m_pos it + m_cl it, m_charpos := m_charpos it + 1\<rparr>)) = 0")
    (auto simp: iter_ok_def utf8_next_def Let_def)

lemma next_pos: "m_pos (fst (utf8_next it)) = m_pos it + m_cl it"
  by (simp add: utf8_next_def Let_def)

lemma length_char_string: "iter_ok t it \<Longrightarrow> length (utf8_char_string it) = m_cl it"
  by (auto simp: iter_ok_def utf8_char_string_def substr_def min_def)

text \<open>A result that is not an error satisfies a predicate.\<close>

definition run_ok :: "('a \<Rightarrow> bool) \<Rightarrow> 'a run \<Rightarrow> bool" where
  "run_ok P r \<longleftrightarrow> (case r of Inl e \<Rightarrow> False | Inr x \<Rightarrow> P x)"

lemma run_ok_simps [simp]: "run_ok P (Inl e) \<longleftrightarrow> False" "run_ok P (Inr x) \<longleftrightarrow> P x"
  by (simp_all add: run_ok_def)

lemma run_okE: "run_ok P r \<Longrightarrow> (\<And>x. r = Inr x \<Longrightarrow> P x \<Longrightarrow> thesis) \<Longrightarrow> thesis"
  by (cases r) auto

lemma run_ok_mono: "run_ok P r \<Longrightarrow> (\<And>x. P x \<Longrightarrow> Q x) \<Longrightarrow> run_ok Q r"
  by (cases r) auto

text \<open>The parts of the object that only \<open>doemit\<close> and the loop change.\<close>

definition same_span :: "('u, 'z) TextSplit_scheme \<Rightarrow> ('u, 'z) TextSplit_scheme \<Rightarrow> bool" where
  "same_span s s1 \<longleftrightarrow> m_span s1 = m_span s \<and> m_words_in_span s1 = m_words_in_span s \<and> m_flags s1 = m_flags s \<and>
     m_wordStart s1 = m_wordStart s \<and> m_wordLen s1 = m_wordLen s \<and> TextSplit.more s1 = TextSplit.more s"

lemma same_span_refl [simp]: "same_span s s"
  by (simp add: same_span_def)

lemma same_span_trans: "same_span s s1 \<Longrightarrow> same_span s1 s2 \<Longrightarrow> same_span s s2"
  by (simp add: same_span_def)

section \<open>Terms\<close>

locale client =
  fixes sink :: "'u sink" and Q :: "'u \<Rightarrow> bool" and L :: nat
  assumes keeps: "Q u \<Longrightarrow> event_in L e \<Longrightarrow> Q (snd (sink u e))"
begin

lemma send_keeps:
  assumes "Q (ts_sink s)" "event_in L e"
  shows "same_span s (snd (send sink e s))" "Q (ts_sink (snd (send sink e s)))"
    "m_spanpos (snd (send sink e s)) = m_spanpos s"
  using keeps [OF assms] by (auto simp: send_def same_span_def split: prod.splits)

lemma emitterm_keeps:
  assumes "Q (ts_sink s)" "0 \<le> b" "b \<le> e" "e \<le> int L"
  shows "same_span s (snd (emitterm cf sink w pos b e s))" "Q (ts_sink (snd (emitterm cf sink w pos b e s)))"
  using send_keeps [OF assms(1), of "TakeWord w pos b e"] send_keeps [OF assms(1), of "Discarded w pos b e WORD_TOO_LONG"]
    assms
  by (auto simp: emitterm_def Let_def same_span_def split: prod.splits)

text \<open>What a step keeps: the client, the flags and the members of the extension; and the span, which gets no longer.\<close>

definition shrinks :: "('u, 'z) TextSplit_scheme \<Rightarrow> bool \<times> ('u, 'z) TextSplit_scheme \<Rightarrow> bool" where
  "shrinks s r \<longleftrightarrow> Q (ts_sink (snd r)) \<and> m_flags (snd r) = m_flags s \<and> TextSplit.more (snd r) = TextSplit.more s \<and>
     (fst r \<longrightarrow> span_ok (snd r) \<and> length (m_span (snd r)) \<le> length (m_span s))"

definition emits :: "('u, 'z) TextSplit_scheme \<Rightarrow> bool \<times> ('u, 'z) TextSplit_scheme \<Rightarrow> bool" where
  "emits s r \<longleftrightarrow> same_span s (snd r) \<and> Q (ts_sink (snd r))"

lemma emits_trans: "emits s (b, s1) \<Longrightarrow> emits s1 r \<Longrightarrow> emits s r"
  by (auto simp: emits_def intro: same_span_trans)

lemma terms_from_keeps:
  assumes "Q (ts_sink s)" "0 \<le> spb" "spb + int (length (m_span s)) \<le> int L" "deb \<le> length (m_span s)"
    "\<forall>fin \<in> set fins. deb \<le> fin \<and> fin \<le> length (m_span s)"
  shows "run_ok (emits s) (terms_from cf sink spb deb pos fins s)"
  using assms
proof (induction fins arbitrary: s)
  case (Cons fin fins)
  let ?r = "emitterm cf sink (substr (m_span s) deb (fin - deb)) pos (spb + int deb) (spb + int fin) s"
  have k: "same_span s (snd ?r)" "Q (ts_sink (snd ?r))"
    using Cons.prems by (auto intro!: emitterm_keeps)
  then have "run_ok (emits (snd ?r)) (terms_from cf sink spb deb pos fins (snd ?r))"
    using Cons.prems by (intro Cons.IH) (auto simp: same_span_def)
  then have "run_ok (emits s) (terms_from cf sink spb deb pos fins (snd ?r))"
    by (rule run_ok_mono) (use k in \<open>auto simp: emits_def intro: same_span_trans\<close>)
  then show ?case
    using k Cons.prems by (auto simp: substr_run_def emits_def [of s "(False, _)"] split: prod.split)
qed (simp add: emits_def)

lemma span_terms_keeps:
  assumes "Q (ts_sink s)" "0 \<le> spb" "spb + int (length (m_span s)) \<le> int L" "words_ok (length (m_span s)) ws"
    "\<forall>i \<in> set is. i < length ws"
  shows "run_ok (emits s) (span_terms cf sink spb ws is pos s)"
  using assms
proof (induction "is" arbitrary: s pos)
  case (Cons i "is")
  obtain deb fin where w: "ws ! i = (deb, fin)"
    by (cases "ws ! i")
  define fins where "fins = map (\<lambda>j. snd (ws ! j))
    [(if m_flags s AND TXTS_ONLYSPANS \<noteq> 0 then length ws - 1 else i)..<(if m_flags s AND TXTS_NOSPANS \<noteq> 0 then i + 1 else length ws)]"
  have i: "i < length ws" and wok: "words_ok (length (m_span s)) ws"
    using Cons.prems by auto
  have "deb \<le> length (m_span s)" "\<forall>fin \<in> set fins. deb \<le> fin \<and> fin \<le> length (m_span s)"
    using words_ok_nth [OF wok, of i] i w by (auto simp: fins_def split: if_splits) (force+)?
  then have t: "run_ok (emits s) (terms_from cf sink spb deb pos fins s)"
    using Cons.prems by (intro terms_from_keeps) auto
  have go: "run_ok (emits s) (span_terms cf sink spb ws is p s1)" if "emits s (True, s1)" for p s1
  proof -
    have "run_ok (emits s1) (span_terms cf sink spb ws is p s1)"
      using that Cons.prems by (intro Cons.IH) (auto simp: emits_def same_span_def)
    then show ?thesis
      using emits_trans [OF that] by (rule run_ok_mono)
  qed
  show ?case
    using t go by (auto simp: w Let_def fins_def [symmetric] elim!: run_okE)
qed (simp add: emits_def)

lemma dehyphenated_keeps:
  assumes "Q (ts_sink s)" "0 \<le> spb" "spb + int (length (m_span s)) \<le> int L" "words_ok (length (m_span s)) (m_words_in_span s)"
  shows "run_ok (\<lambda>s1. emits s (True, s1)) (dehyphenated cf sink spb s)"
proof (cases "\<exists>s0 e0 s1 e1. m_words_in_span s = [(s0, e0), (s1, e1)]")
  case True
  then obtain s0 e0 s1 e1 where w: "m_words_in_span s = [(s0, e0), (s1, e1)]"
    by blast
  then have "s0 \<le> e0" "s1 \<le> e1" "e0 \<le> s1" "e1 \<le> length (m_span s)"
    using assms(4) by (auto simp: words_ok_def)
  then show ?thesis
    using assms by (auto simp: dehyphenated_def w substr_run_def emits_def intro!: emitterm_keeps)
next
  case False
  then have "dehyphenated cf sink spb s = Inr s"
    by (auto simp: dehyphenated_def split: list.split)
  then show ?thesis
    using assms by (simp add: emits_def)
qed

lemma words_from_span_keeps:
  assumes "Q (ts_sink s)" "int (length (m_span s)) \<le> bp" "bp \<le> int L" "words_ok (length (m_span s)) (m_words_in_span s)"
  shows "run_ok (emits s) (words_from_span cf sink bp s)"
proof -
  let ?spb = "bp - int (length (m_span s))"
  have d: "run_ok (\<lambda>s1. emits s (True, s1)) (dehyphenated cf sink ?spb s)"
    using assms by (intro dehyphenated_keeps) auto
  define idx where "idx = [0..<(if m_flags s AND TXTS_ONLYSPANS \<noteq> 0 then 1 else length (m_words_in_span s))]"
  have go: "run_ok (emits s) (span_terms cf sink ?spb (m_words_in_span s) idx (m_spanpos s) s1)"
    if "emits s (True, s1)" "m_words_in_span s \<noteq> []" for s1
  proof -
    have "\<forall>i \<in> set idx. i < length (m_words_in_span s)"
      using that(2) by (simp add: idx_def)
    then have "run_ok (emits s1) (span_terms cf sink ?spb (m_words_in_span s) idx (m_spanpos s) s1)"
      using that assms by (intro span_terms_keeps) (auto simp: emits_def same_span_def)
    then show ?thesis
      using emits_trans [OF that(1)] by (rule run_ok_mono)
  qed
  have "words_from_span cf sink bp s = (if m_words_in_span s = [] then Inr (True, s)
      else case dehyphenated cf sink ?spb s of Inl e \<Rightarrow> Inl e
        | Inr s1 \<Rightarrow> span_terms cf sink ?spb (m_words_in_span s) idx (m_spanpos s) s1)"
    by (simp only: words_from_span_def Let_def idx_def length_0_conv)
  then show ?thesis
    using d go assms(1) by (auto simp: emits_def elim!: run_okE)
qed

lemma remember_word_keeps:
  assumes "Q (ts_sink s)" "span_ok s" "1 \<le> o_maxWordsInSpan cf"
  shows "run_ok (\<lambda>(erase, s1). Q (ts_sink s1) \<and> m_flags s1 = m_flags s \<and> TextSplit.more s1 = TextSplit.more s \<and>
    m_span s1 = m_span s \<and> m_wordLen s1 = 0 \<and> words_ok (length (m_span s)) (m_words_in_span s1) \<and> (spanerase \<longrightarrow> erase))
    (remember_word cf sink spanerase s)"
proof -
  let ?s1 = "if o_noNumbers cf \<and> m_inNumber s then s
    else s\<lparr>m_words_in_span := m_words_in_span s @ [(m_wordStart s, m_wordStart s + m_wordLen s)], m_wordpos := m_wordpos s + 1\<rparr>"
  have w: "words_ok (length (m_span s)) (m_words_in_span ?s1)" "words_ok (length (m_span s)) (m_words_in_span s)"
    using assms(2) by (auto simp: span_ok_def intro: words_ok_mono words_ok_snoc)
  have "Q (ts_sink ?s1)" "m_flags ?s1 = m_flags s" "TextSplit.more ?s1 = TextSplit.more s" "m_span ?s1 = m_span s"
    using assms(1) by auto
  moreover have "m_words_in_span ?s1 \<noteq> []" if "o_maxWordsInSpan cf \<le> int (length (m_words_in_span ?s1))"
    using that assms(3) by auto
  moreover note send_keeps [of ?s1 "Discarded (m_span ?s1) (m_spanpos ?s1) (int (fst (hd (m_words_in_span ?s1))))
    (int (snd (last (m_words_in_span ?s1)))) LONG_SPAN_TRUNCATED"]
  ultimately show ?thesis
    using w assms unfolding remember_word_def Let_def
    by (cases "m_wordLen s = 0"; cases "o_maxWordsInSpan cf \<le> int (length (m_words_in_span ?s1))")
      (simp_all add: same_span_def del: if_split)
qed

lemma doemit_keeps:
  assumes "Q (ts_sink s)" "span_ok s" "int (length (m_span s)) \<le> bp" "bp \<le> int L" "1 \<le> o_maxWordsInSpan cf"
  shows "run_ok (shrinks s) (doemit cf sink spanerase bp s)"
proof -
  have "run_ok (shrinks s) (if \<not> erase then Inr (True, s1\<lparr>m_wordStart := length (m_span s1)\<rparr>)
          else case emit_initials cf sink bp s1 of
              (ok, s2) \<Rightarrow>
                if \<not> ok then Inr (False, s2)
                else case words_from_span cf sink bp s2 of
                    Inl e \<Rightarrow> Inl e
                  | Inr (ok, s3) \<Rightarrow> if \<not> ok then Inr (False, s3) else Inr (True, discardspan s3))"
    if s1: "Q (ts_sink s1)" "m_flags s1 = m_flags s" "TextSplit.more s1 = TextSplit.more s" "m_span s1 = m_span s"
      "m_wordLen s1 = 0" "words_ok (length (m_span s)) (m_words_in_span s1)" for erase s1
  proof -
    obtain ok s2 where i: "emit_initials cf sink bp s1 = (ok, s2)"
      by fastforce
    then have k: "emits s1 (ok, s2)"
      using emitterm_keeps [of s1 "bp - int (length (m_span s1))" bp cf _ "m_spanpos s1"] s1 assms
      by (auto simp: emit_initials_def emits_def split: option.splits) (metis snd_conv)+
    then have "run_ok (emits s2) (words_from_span cf sink bp s2)"
      using s1 assms by (intro words_from_span_keeps) (auto simp: emits_def same_span_def)
    then show ?thesis
      using s1 k by (auto simp: i shrinks_def emits_def same_span_def span_ok_def discardspan_def words_ok_def
          elim!: run_okE)
  qed
  note go = this
  obtain erase s1 where "remember_word cf sink spanerase s = Inr (erase, s1)"
    and "Q (ts_sink s1)" "m_flags s1 = m_flags s" "TextSplit.more s1 = TextSplit.more s" "m_span s1 = m_span s"
      "m_wordLen s1 = 0" "words_ok (length (m_span s)) (m_words_in_span s1)"
    using remember_word_keeps [OF assms(1,2,5), of spanerase] by (auto elim!: run_okE)
  then show ?thesis
    unfolding doemit_def using go [of s1 erase] by simp
qed

section \<open>The switch\<close>

text \<open>At a position of the text, with a span from before it.\<close>

definition at_text :: "string \<Rightarrow> 'u SplitRun \<Rightarrow> bool" where
  "at_text t s \<longleftrightarrow> length t \<le> L \<and> iter_ok t (sr_it s) \<and> span_ok s \<and> length (m_span s) \<le> m_pos (sr_it s) \<and> Q (ts_sink s)"

text \<open>Behind a part of a step: the iterator is at the same position, or behind a whole step at most one character further.\<close>

definition stays :: "string \<Rightarrow> 'u SplitRun \<Rightarrow> bool \<times> 'u SplitRun \<Rightarrow> bool" where
  "stays t s r \<longleftrightarrow> Q (ts_sink (snd r)) \<and> (fst r \<longrightarrow> at_text t (snd r) \<and> sr_it (snd r) = sr_it s)"

definition stepped :: "string \<Rightarrow> 'u SplitRun \<Rightarrow> bool \<times> 'u SplitRun \<Rightarrow> bool" where
  "stepped t s r \<longleftrightarrow> Q (ts_sink (snd r)) \<and>
     (fst r \<longrightarrow> length t \<le> L \<and> span_ok (snd r) \<and> iter_ok t (sr_it (snd r)) \<and>
       sr_it (snd r) \<in> {sr_it s, fst (utf8_next (sr_it s))} \<and>
       length (m_span (snd r)) \<le> m_pos (sr_it (snd r)) + m_cl (sr_it (snd r)))"

lemma stays_stepped: "stays t s r \<Longrightarrow> stepped t s r"
  by (auto simp: stays_def stepped_def at_text_def)

lemma more_sel: "TextSplit.more s1 = TextSplit.more (s :: 'u SplitRun) \<longleftrightarrow>
    sr_it s1 = sr_it s \<and> sr_pagepending s1 = sr_pagepending s \<and> sr_nlpending s1 = sr_nlpending s \<and>
    sr_softhyphen s1 = sr_softhyphen s \<and> sr_prev_csc s1 = sr_prev_csc s \<and> sr_prevc s1 = sr_prevc s"
  by (cases s; cases s1) (auto)

lemma sr_emit_keeps:
  assumes "at_text t s" "1 \<le> o_maxWordsInSpan cf"
  shows "run_ok (\<lambda>r. stays t s r \<and> shrinks s r) (sr_emit cf sink spanerase s)"
proof -
  have "run_ok (shrinks s) (sr_emit cf sink spanerase s)"
    unfolding sr_emit_def using assms iter_ok_pos [of t "sr_it s"] by (intro doemit_keeps) (auto simp: at_text_def sr_bpos_def)
  then show ?thesis
    by (rule run_ok_mono) (use assms in \<open>auto simp: shrinks_def stays_def at_text_def more_sel\<close>)
qed

lemma and_then_ok:
  assumes "run_ok (\<lambda>r. Q (ts_sink (snd r)) \<and> (fst r \<longrightarrow> A (snd r))) r" "\<And>s1. Q (ts_sink s1) \<Longrightarrow> A s1 \<Longrightarrow> run_ok P (f s1)"
    "\<And>s1. Q (ts_sink s1) \<Longrightarrow> P (False, s1)"
  shows "run_ok P (and_then r f)"
  using assms by (auto simp: and_then_def elim!: run_okE)

lemma at_text_Q: "at_text t s \<Longrightarrow> Q (ts_sink s)"
  by (simp add: at_text_def)

lemma sr_pending_keeps:
  assumes "at_text t s"
  shows "at_text t (sr_pending sink s)" "sr_it (sr_pending sink s) = sr_it s"
proof -
  have *: "at_text t (snd (send sink e s1))" "sr_it (snd (send sink e s1)) = sr_it s1"
    if "at_text t s1" "event_in L e" for s1 e
    using send_keeps [of s1 e] that by (auto simp: at_text_def same_span_def more_sel span_ok_def)
  have "at_text t (s\<lparr>sr_pagepending := b\<rparr>)" "at_text t (s1\<lparr>sr_nlpending := b\<rparr>)" if "at_text t s" "at_text t s1" for s s1 b
    using that by (auto simp: at_text_def span_ok_def)
  then show "at_text t (sr_pending sink s)" "sr_it (sr_pending sink s) = sr_it s"
    using assms * by (auto simp: sr_pending_def Let_def)
qed

lemma sr_idxpunct_keeps:
  assumes "at_text t s"
  shows "at_text t (sr_idxpunct cf sink c s)" "sr_it (sr_idxpunct cf sink c s) = sr_it s"
  using send_keeps [of s "TakeWord (utf8_char_string (sr_it s)) (m_wordpos s) (sr_bpos s) (sr_bpos s + int (m_cl (sr_it s)))"] assms
  by (auto simp: sr_idxpunct_def appendchartostring_def sr_bpos_def Let_def at_text_def iter_ok_def same_span_def more_sel span_ok_def)

lemma tsp_space_keeps:
  assumes "at_text t s" "1 \<le> o_maxWordsInSpan cf"
  shows "run_ok (stays t s) (tsp_space cf sink c s)"
  unfolding tsp_space_def
proof (rule and_then_ok [where A = "\<lambda>s1. at_text t s1 \<and> sr_it s1 = sr_it s"])
  have "run_ok (stays t s) (and_then (sr_emit cf sink True s) (\<lambda>s1. Inr (True, s1\<lparr>m_inNumber := False\<rparr>)))"
    by (rule and_then_ok [where A = "\<lambda>s1. at_text t s1 \<and> sr_it s1 = sr_it s"])
      (use sr_emit_keeps [OF assms, of True] in \<open>auto simp: stays_def at_text_def span_ok_def elim!: run_ok_mono\<close>)
  then show "run_ok (\<lambda>r. Q (ts_sink (snd r)) \<and> (fst r \<longrightarrow> at_text t (snd r) \<and> sr_it (snd r) = sr_it s))
      (if m_wordLen s \<noteq> 0 \<or> m_span s \<noteq> [] then
         and_then (sr_emit cf sink True s) (\<lambda>s1. Inr (True, s1\<lparr>m_inNumber := False\<rparr>)) else Inr (True, s))"
    using assms by (auto simp: stays_def at_text_def elim!: run_ok_mono)
qed (auto simp: stays_def sr_pending_keeps [where t = t] sr_idxpunct_keeps [where t = t] at_text_Q [where t = t])

lemma at_text_upd:
  assumes "at_text t s"
  shows "at_text t (s\<lparr>m_inNumber := b\<rparr>)" "at_text t (s\<lparr>sr_nlpending := b\<rparr>)" "at_text t (s\<lparr>sr_pagepending := b\<rparr>)"
    "at_text t (s\<lparr>sr_softhyphen := b\<rparr>)" "at_text t (s\<lparr>sr_prevc := i\<rparr>)" "at_text t (s\<lparr>sr_prev_csc := csc\<rparr>)"
  using assms by (simp_all add: at_text_def span_ok_def)

lemma append_stepped:
  assumes "at_text t s" "sr_it s = sr_it s0"
  shows "stepped t s0 (True, append_word s)"
    "stepped t s0 (True, append_glue s)"
  using assms words_ok_mono [of "m_wordStart s" "m_words_in_span s" "m_wordStart s + m_cl (sr_it s)"]
  by (auto simp: stepped_def append_word_def append_glue_def append_span_def appendchartostring_def at_text_def span_ok_def
      length_char_string)

lemma tsp_join_keeps:
  assumes "at_text t s" "1 \<le> o_maxWordsInSpan cf"
  shows "run_ok (stepped t s) (tsp_join cf sink b s)"
  unfolding tsp_join_def
  by (rule and_then_ok [where A = "\<lambda>s1. at_text t s1 \<and> sr_it s1 = sr_it s"])
    (use sr_emit_keeps [OF assms, of False] append_stepped in
      \<open>auto simp: stays_def stepped_def [of t s "(False, _)"] at_text_upd elim!: run_ok_mono\<close>)

lemma tsp_dot_keeps:
  assumes "at_text t s" "m_cl (sr_it s) \<noteq> 0" "1 \<le> o_maxWordsInSpan cf"
  shows "run_ok (stepped t s) (tsp_dot cf sink c s)"
proof -
  let ?it = "fst (utf8_next (sr_it s))"
  have sp: "run_ok (stepped t s) (tsp_space cf sink c s)"
    using tsp_space_keeps [OF assms(1,3)] stays_stepped by (rule run_ok_mono)
  have "at_text t ((append_span s)\<lparr>sr_it := ?it\<rparr>)"
    using assms iter_ok_next [of t "sr_it s"]
    by (auto simp: at_text_def span_ok_def append_span_def appendchartostring_def length_char_string next_pos)
  note dot_text = this
  have dot: "run_ok (stepped t s) (tsp_space cf sink c s1)" if "at_text t s1" "sr_it s1 = ?it" for s1
  proof (rule run_ok_mono [OF tsp_space_keeps [OF that(1) assms(3)]])
    show "stepped t s r" if "stays t s1 r" for r
      using that \<open>sr_it s1 = ?it\<close> by (auto simp: stays_def stepped_def at_text_def)
  qed
  have first: "at_text t (s\<lparr>m_words_in_span := m_words_in_span s @ [(m_wordStart s, m_wordStart s)]\<rparr>)"
    using assms(1) by (auto simp: at_text_def span_ok_def intro: words_ok_snoc)
  have stay: "stepped t s (True, s)"
    using assms(1) by (simp add: stepped_def at_text_def)
  show ?thesis
    unfolding tsp_dot_def Let_def
  proof (split if_split, intro conjI impI)
    let ?digit = "isdigit_cc (keepwild s) (whatcc cf (sr_nextc s))"
    show "run_ok (stepped t s) (if \<not> ?digit then tsp_space cf sink c s else Inr (True, append_word s))"
      by (simp add: sp append_stepped assms)
  next
    let ?s2 = "(append_span s)\<lparr>sr_it := fst (utf8_next (sr_it (append_span s)))\<rparr>"
    let ?s3 = "if sr_char (sr_it ?s2) = 10 then ?s2\<lparr>sr_nlpending := True\<rparr>
      else if sr_char (sr_it ?s2) = 12 then ?s2\<lparr>sr_pagepending := True\<rparr> else ?s2"
    have "sr_it (append_span s) = sr_it s"
      by (simp add: append_span_def)
    then have "at_text t ?s2"
      using dot_text by simp
    then have "at_text t ?s3" "sr_it ?s3 = ?it"
      using \<open>sr_it (append_span s) = sr_it s\<close> by (auto simp: at_text_upd)
    then have d: "run_ok (stepped t s) (tsp_space cf sink c ?s3)"
      by (rule dot)
    have "run_ok (stepped t s) (Inr (True, append_word (s\<lparr>m_inNumber := True\<rparr>)))"
      "run_ok (stepped t s) (Inr (True, append_glue (s\<lparr>m_words_in_span := m_words_in_span s @ [(m_wordStart s, m_wordStart s)]\<rparr>)))"
      "run_ok (stepped t s) (Inr (True, s))" "run_ok (stepped t s) (tsp_join cf sink False s)"
      using append_stepped [OF at_text_upd(1) [OF assms(1), of True]] append_stepped [OF first] stay tsp_join_keeps [OF assms(1,3)]
      by simp_all
    with d show "run_ok (stepped t s)
      (if \<not> isalphanum (keepwild s) (whatcc cf (sr_nextc s)) then tsp_space cf sink c ?s3
       else if m_span s = [] then
         Inr (True, if isdigit_cc (keepwild s) (whatcc cf (sr_nextc s)) then append_word (s\<lparr>m_inNumber := True\<rparr>)
            else append_glue (s\<lparr>m_words_in_span := m_words_in_span s @ [(m_wordStart s, m_wordStart s)]\<rparr>))
       else if m_wordLen s \<noteq> 0 then tsp_join cf sink False s else Inr (True, s))"
      by (cases "isdigit_cc (keepwild s) (whatcc cf (sr_nextc s))") (simp_all only: if_split if_True if_False simp_thms)
  qed
qed

lemma in_word_span: "at_text t s \<Longrightarrow> m_wordLen s \<noteq> 0 \<Longrightarrow> m_span s \<noteq> []"
  by (auto simp: at_text_def span_ok_def)

lemma tsp_class_keeps:
  assumes "at_text t s" "m_cl (sr_it s) \<noteq> 0" "1 \<le> o_maxWordsInSpan cf"
  shows "run_ok (stepped t s) (tsp_class cf sink c cc s)"
proof -
  have sp: "run_ok (stepped t s) (tsp_space cf sink c s)"
    using tsp_space_keeps [OF assms(1,3)] stays_stepped by (rule run_ok_mono)
  have pend: "run_ok (stepped t s) (tsp_space cf sink c s1)" if "at_text t s1" "sr_it s1 = sr_it s" for s1
    using tsp_space_keeps [OF that(1) assms(3)]
    by (rule run_ok_mono) (use that(2) in \<open>auto simp: stays_def stepped_def at_text_def\<close>)
  have stay: "stepped t s (True, s)"
    using assms(1) by (simp add: stepped_def at_text_def)
  note word = append_stepped(1) [OF at_text_upd(1) [OF assms(1)]] append_stepped [OF assms(1) refl]
  have "run_ok (stepped t s) (tsp_digit s)" "run_ok (stepped t s) (tsp_normal c s)"
    using word by (simp_all add: tsp_digit_def tsp_normal_def)
  moreover have "run_ok (stepped t s) (tsp_sign cf sink c cc s)"
    using in_word_span [OF assms(1)] tsp_join_keeps [OF assms(1,3), of True]
    by (simp add: tsp_sign_def Let_def sp word)
  moreover have "run_ok (stepped t s) (tsp_quote cf sink c s)"
    using tsp_join_keeps [OF assms(1,3), of True] by (simp add: tsp_quote_def sp stay)
  moreover have "run_ok (stepped t s) (tsp_hash cf sink c s)"
    by (simp add: tsp_hash_def Let_def sp word)
  moreover have "run_ok (stepped t s) (tsp_space cf sink c (s\<lparr>sr_nlpending := True\<rparr>))"
    "run_ok (stepped t s) (tsp_space cf sink c (s\<lparr>sr_pagepending := True\<rparr>))"
    by (simp_all add: pend at_text_upd assms(1))
  ultimately show ?thesis
    unfolding tsp_class_def using sp tsp_dot_keeps [OF assms] by presburger
qed

lemma tsp_step_keeps:
  assumes "at_text t s" "m_cl (sr_it s) \<noteq> 0" "1 \<le> o_maxWordsInSpan cf"
  shows "run_ok (stepped t s) (tsp_step cf sink c s)"
proof -
  have "run_ok (stepped t s) (and_then (tsp_class cf sink c cc s) (\<lambda>s1. Inr (True, s1\<lparr>sr_softhyphen := False, sr_prevc := cc\<rparr>)))"
    for cc
    by (rule and_then_ok [where A = "\<lambda>s1. stepped t s (True, s1)"])
      (use tsp_class_keeps [OF assms, of c cc] in \<open>auto simp: stepped_def span_ok_def elim!: run_ok_mono\<close>)
  moreover have "run_ok (stepped t s) (Inr (True, s\<lparr>sr_softhyphen := b\<rparr>))" "run_ok (stepped t s) (Inr (True, s\<lparr>sr_nlpending := b\<rparr>))"
    "run_ok (stepped t s) (Inr (True, s))" for b
    using assms(1) at_text_upd(2,4) [OF assms(1), of b] by (simp_all add: stepped_def at_text_def)
  ultimately show ?thesis
    unfolding tsp_step_def Let_def by presburger
qed

section \<open>N-grams\<close>

text \<open>The offsets are in the buffer and in the text before the iterator.\<close>

definition ng_ok :: "string \<Rightarrow> int \<Rightarrow> Ngrams \<Rightarrow> bool" where
  "ng_ok t n g \<longleftrightarrow> length t \<le> L \<and> iter_ok t (ng_it g) \<and> int (ng_nchars g) \<le> n \<and> length (ng_myboffs g) = ng_nchars g \<and>
     list_all (\<lambda>b. b \<le> length (ng_mybuf g)) (ng_myboffs g) \<and> list_all (\<lambda>b. b \<le> m_pos (ng_it g)) (ng_boffs g)"

lemma list_all_tl: "list_all P xs \<Longrightarrow> list_all P (tl xs)"
  by (cases xs) auto

lemma ng_push_ok:
  assumes "ng_ok t n g" "1 \<le> n" "n < CJKMaxNgramLen"
  shows "run_ok (\<lambda>g1. ng_ok t n g1 \<and> ng_it g1 = ng_it g) (ng_push n g)"
proof -
  have "list_all (\<lambda>b. b \<le> length (ng_mybuf g) + k) xs" if "list_all (\<lambda>b. b \<le> length (ng_mybuf g)) xs" for k xs
    using that by (rule list.pred_mono_strong) auto
  moreover have "length (utf8_char_string (ng_it g)) = m_cl (ng_it g)"
    using assms(1) by (auto simp: ng_ok_def intro: length_char_string)
  ultimately show ?thesis
    using assms by (auto simp: ng_push_def ng_ok_def ng_nchars_def appendchartostring_def CJKMaxNgramLen_def Let_def
        intro: list_all_tl)
qed

lemma ng_emit_keeps:
  assumes "ng_ok t n g" "\<forall>i \<in> set is. i < ng_nchars g" "Q (ts_sink s)" "m_pos (ng_it g) \<le> e" "e \<le> L"
  shows "run_ok (emits s) (ng_emit sink e g is s)"
  using assms
proof (induction "is" arbitrary: s)
  case (Cons i "is")
  have i: "ng_myboffs g ! i \<le> length (ng_mybuf g)" "ng_boffs g ! i \<le> m_pos (ng_it g)"
    using Cons.prems by (auto simp: ng_ok_def ng_nchars_def list_all_length)
  have "run_ok (emits s) (ng_emit sink e g is s1)" if "emits s (b, s1)" for b s1
  proof -
    have "run_ok (emits s1) (ng_emit sink e g is s1)"
      using that Cons.prems by (intro Cons.IH) (auto simp: emits_def)
    then show ?thesis
      using emits_trans [OF that] by (rule run_ok_mono)
  qed
  moreover have "emits s (send sink (TakeWord w p (int (ng_boffs g ! i)) (int e)) s)" for w p
    using send_keeps [OF Cons.prems(3), of "TakeWord w p (int (ng_boffs g ! i)) (int e)"] i Cons.prems(4,5)
    by (simp add: emits_def)
  ultimately show ?case
    using i(1) by (auto simp: substr_run_def split: prod.split) (metis)+
qed (simp add: emits_def)

lemma ng_char_keeps:
  assumes "ng_ok t n g" "1 \<le> n" "n < CJKMaxNgramLen" "Q (ts_sink s)"
  shows "run_ok (\<lambda>(ok, g1, s1). ng_ok t n g1 \<and> ng_it g1 = ng_it g \<and> emits s (ok, s1)) (ng_char sink n g s)"
proof -
  obtain g1 where push: "ng_push n g = Inr g1" and g1: "ng_ok t n g1" "ng_it g1 = ng_it g"
    using ng_push_ok [OF assms(1-3)] by (auto elim!: run_okE)
  define only where "only \<longleftrightarrow> m_flags s AND TXTS_ONLYSPANS \<noteq> 0"
  define idx where "idx = [(if m_flags s AND TXTS_NOSPANS \<noteq> 0 then ng_nchars g1 - 1 else 0)..<(if only then 1 else ng_nchars g1)]"
  have wp: "ng_ok t m (g2\<lparr>ng_wordpos := p\<rparr>) \<longleftrightarrow> ng_ok t m g2" for g2 p m
    by (simp add: ng_ok_def ng_nchars_def)
  have "ng_ok t n (ng_clear g1)"
    using g1 assms(2) by (auto simp: ng_clear_def ng_ok_def ng_nchars_def)
  moreover have "run_ok (emits s) (ng_emit sink (m_pos (ng_it g1) + m_cl (ng_it g1)) g1 idx s)" if "\<not> only \<or> int (ng_nchars g1) = n"
    using that g1 assms by (intro ng_emit_keeps) (auto simp: ng_ok_def iter_ok_def idx_def split: if_splits)
  moreover have "ng_it (ng_clear g1) = ng_it g1"
    by (simp add: ng_clear_def)
  moreover have "emits s (True, s)"
    using assms(4) by (simp add: emits_def)
  moreover have "ng_char sink n g s = (if \<not> only \<or> int (ng_nchars g1) = n then
      (case ng_emit sink (m_pos (ng_it g1) + m_cl (ng_it g1)) g1 idx s of
         Inl e \<Rightarrow> Inl e
       | Inr (ok, s1) \<Rightarrow> if \<not> ok then Inr (False, g1, s1)
           else (let g2 = (if only then ng_clear g1 else g1) in Inr (True, g2\<lparr>ng_wordpos := ng_wordpos g2 + 1\<rparr>, s1)))
      else Inr (True, g1\<lparr>ng_wordpos := ng_wordpos g1 + 1\<rparr>, s))"
    by (simp only: ng_char_def push sum.case only_def idx_def Let_def)
  ultimately show ?thesis
    using g1 by (cases "\<not> only \<or> int (ng_nchars g1) = n") (auto simp: wp Let_def emits_def elim!: run_okE)
qed

lemma ng_ok_turn:
  assumes "ng_ok t n g" "1 \<le> n"
  shows "ng_ok t n (g\<lparr>ng_c := c\<rparr>)" "ng_ok t n (g\<lparr>ng_c := c, ng_space := b\<rparr>)" "ng_ok t n (g\<lparr>ng_it := fst (utf8_next (ng_it g))\<rparr>)"
    "ng_ok t n ((ng_clear (g\<lparr>ng_c := c\<rparr>))\<lparr>ng_space := b, ng_it := fst (utf8_next (ng_it g))\<rparr>)"
  using assms iter_ok_next [of t "ng_it g"]
  by (auto simp: ng_ok_def ng_nchars_def ng_clear_def next_pos elim!: list.pred_mono_strong)

lemma ng_loop_keeps:
  assumes "ng_ok t n g" "1 \<le> n" "n < CJKMaxNgramLen" "Q (ts_sink s)"
  shows "run_ok (\<lambda>(ok, g1, s1). ng_ok t n g1 \<and> emits s (ok, s1) \<and> utf8_left (ng_it g1) \<le> utf8_left (ng_it g))
    (ng_loop cf sink n g s)"
  using assms(1,4)
proof (induction "utf8_left (ng_it g)" arbitrary: g s rule: less_induct)
  case less
  let ?c = "sr_char (ng_it g)" and ?it = "fst (utf8_next (ng_it g))"
  have here: "emits s (True, s)"
    using less.prems by (simp add: emits_def)
  show ?case
  proof (cases "utf8_eof (ng_it g) \<or> utf8_error (ng_it g)")
    case True
    then show ?thesis
      using less.prems here by (simp add: ng_loop.simps [of cf sink n g s])
  next
    case False
    then have dec: "utf8_left ?it < utf8_left (ng_it g)"
      by (intro utf8_next_ok) (simp add: utf8_error_def)
    have go: "run_ok (\<lambda>(ok, g1, s1). ng_ok t n g1 \<and> emits s (ok, s1) \<and> utf8_left (ng_it g1) \<le> utf8_left (ng_it g))
      (ng_loop cf sink n g2 s1)" if "ng_ok t n g2" "ng_it g2 = ?it" "emits s (b, s1)" for g2 s1 b
      using less.hyps [of g2 s1] that dec emits_trans [OF that(3)]
      by (auto simp: emits_def elim!: run_ok_mono)
    note turn = ng_ok_turn [OF less.prems(1) assms(2)]
    have "ng_ok t n (g\<lparr>ng_c := ?c, ng_space := False\<rparr>)"
      by (rule turn(2))
    from ng_char_keeps [OF this assms(2,3) less.prems(2)]
    obtain ok g2 s1 where ch: "ng_char sink n (g\<lparr>ng_c := ?c, ng_space := False\<rparr>) s = Inr (ok, g2, s1)"
      and g2: "ng_ok t n g2" "ng_it g2 = ng_it g" "emits s (ok, s1)"
      by (auto elim!: run_okE)
    have "run_ok (\<lambda>(ok, g1, s1). ng_ok t n g1 \<and> emits s (ok, s1) \<and> utf8_left (ng_it g1) \<le> utf8_left (ng_it g))
      (if \<not> ok then Inr (False, g2, s1) else ng_loop cf sink n (g2\<lparr>ng_it := ?it\<rparr>) s1)"
      using g2 go [of "g2\<lparr>ng_it := ?it\<rparr>" ok s1] ng_ok_turn(3) [OF g2(1) assms(2)] by (simp add: emits_def)
    moreover have "run_ok (\<lambda>(ok, g1, s1). ng_ok t n g1 \<and> emits s (ok, s1) \<and> utf8_left (ng_it g1) \<le> utf8_left (ng_it g))
      (ng_loop cf sink n ((ng_clear (g\<lparr>ng_c := ?c\<rparr>))\<lparr>ng_space := True, ng_it := ?it\<rparr>) s)"
      using go [OF turn(4) _ here] by simp
    ultimately show ?thesis
      using False here turn(1) ch by (simp add: ng_loop.simps [of cf sink n g s] Let_def)
  qed
qed

lemma cjk_keeps:
  assumes "length t \<le> L" "iter_ok t it" "1 \<le> n" "n < CJKMaxNgramLen" "Q (ts_sink s)"
  shows "run_ok (\<lambda>(ok, it1, c, pos, s1). iter_ok t it1 \<and> utf8_left it1 \<le> utf8_left it \<and> emits s (ok, s1))
    (cjk_text_to_words cf sink n it pos s)"
proof -
  let ?g = "\<lparr>ng_it = it, ng_boffs = [], ng_myboffs = [], ng_mybuf = [], ng_space = False, ng_wordpos = pos, ng_c = 0\<rparr>"
  have "ng_ok t n ?g"
    using assms by (simp add: ng_ok_def ng_nchars_def)
  from ng_loop_keeps [OF this assms(3-5), of cf] obtain ok g s1 where loop: "ng_loop cf sink n ?g s = Inr (ok, g, s1)"
    and g: "ng_ok t n g" "emits s (ok, s1)" "utf8_left (ng_it g) \<le> utf8_left it"
    by (auto elim!: run_okE)
  have "run_ok (emits s1) (ng_flush sink n g s1)"
  proof (cases "m_flags s1 AND TXTS_ONLYSPANS \<noteq> 0 \<and> 0 < ng_nchars g \<and> int (ng_nchars g) \<noteq> n")
    case True
    then have "ng_myboffs g \<noteq> []" "ng_boffs g \<noteq> []"
      using g(1) by (auto simp: ng_ok_def ng_nchars_def)
    then have "hd (ng_myboffs g) \<le> length (ng_mybuf g)" "hd (ng_boffs g) \<le> m_pos (ng_it g)" "m_pos (ng_it g) \<le> L"
      using g(1) iter_ok_pos [of t "ng_it g"] by (auto simp: ng_ok_def ng_nchars_def list_all_iff)
    then show ?thesis
      using True send_keeps [of s1 "TakeWord _ _ (int (hd (ng_boffs g))) (int (m_pos (ng_it g)))"] g(2)
      by (auto simp: ng_flush_def substr_run_def emits_def)
  qed (use g(2) in \<open>auto simp: ng_flush_def emits_def\<close>)
  then show ?thesis
    using g assms(4) emits_trans [OF g(2)]
    by (auto simp: cjk_text_to_words_def CJKMaxNgramLen_def loop ng_ok_def elim!: run_okE)
qed

section \<open>The loop\<close>

text \<open>Without external programs, no character belongs to their scripts.\<close>

lemma no_ext_class:
  "\<not> o_exthangultagger cf \<Longrightarrow> \<not> o_extchinesetagger cf \<Longrightarrow> char_span_class cf c \<noteq> CSC_HANGUL \<and> char_span_class cf c \<noteq> CSC_CHINESE"
  by (simp add: char_span_class_def isHANGUL_def isCHINESE_def)

lemma sr_finish_keeps:
  assumes "at_text t s" "1 \<le> o_maxWordsInSpan cf"
  shows "run_ok (stays t s) (sr_finish cf sink s)"
  using sr_emit_keeps [OF assms, of True] assms(1) by (auto simp: sr_finish_def stays_def at_text_Q elim!: run_ok_mono)

lemma tsp_script_keeps:
  assumes "at_text t s" "1 \<le> o_maxWordsInSpan cf"
  shows "run_ok (stays t s) (tsp_script cf sink csc s)"
  unfolding tsp_script_def
  by (rule and_then_ok [where A = "\<lambda>s1. at_text t s1 \<and> sr_it s1 = sr_it s"])
    (use sr_finish_keeps [OF assms] assms(1) in \<open>auto simp: stays_def at_text_upd at_text_Q elim!: run_ok_mono\<close>)

lemma tsp_special_keeps:
  assumes "at_text t s" "splitter_conf cf" "csc \<noteq> CSC_HANGUL" "csc \<noteq> CSC_CHINESE"
  shows "run_ok (\<lambda>(ok, c1, s1). Q (ts_sink s1) \<and> (ok \<longrightarrow> at_text t s1 \<and> utf8_left (sr_it s1) \<le> utf8_left (sr_it s)))
    (tsp_special cf sink ext csc c s)"
proof -
  have mx: "1 \<le> o_maxWordsInSpan cf"
    using assms(2) by (simp add: splitter_conf_def)
  from sr_finish_keeps [OF assms(1) this] obtain ok s1 where f: "sr_finish cf sink s = Inr (ok, s1)" "stays t s (ok, s1)"
    by (auto elim!: run_okE)
  have "run_ok (\<lambda>(ok, it1, c, pos, s2). iter_ok t it1 \<and> utf8_left it1 \<le> utf8_left (sr_it s1) \<and> emits s1 (ok, s2))
    (cjk_text_to_words cf sink (o_CJKNgramLen cf) (sr_it s1) (m_wordpos s1) s1)" if ok
    using that f assms(2) by (intro cjk_keeps) (auto simp: stays_def at_text_def splitter_conf_def)
  then show ?thesis
    using f assms
    by (auto simp: tsp_special_def sr_left_def clearsplitstate_def stays_def at_text_def emits_def span_ok_def words_ok_def
        elim!: run_okE split: if_split)
qed

lemma next_left_le: "utf8_left (fst (utf8_next it)) \<le> utf8_left it"
  using utf8_next_ok [of it] by (cases "m_cl it = 0") (auto simp: utf8_next_def)

definition turned :: "string \<Rightarrow> 'u SplitRun \<Rightarrow> 'u turn \<Rightarrow> bool" where
  "turned t s r \<longleftrightarrow>
     (case r of
        Returns_False s1 \<Rightarrow> Q (ts_sink s1)
      | Breaks s1 \<Rightarrow> at_text t s1
      | Goes_On s1 \<Rightarrow> (let it = fst (utf8_next (sr_it s1))
          in at_text t (s1\<lparr>sr_it := it\<rparr>) \<and> utf8_left it < utf8_left (sr_it s)))"

lemma stepped_turned:
  assumes "stepped t s1 (ok, s2)" "m_cl (sr_it s1) \<noteq> 0" "utf8_left (sr_it s1) \<le> utf8_left (sr_it s)"
  shows "turned t s (if ok then Goes_On s2 else Returns_False s2)"
proof -
  have "utf8_left (fst (utf8_next it)) < utf8_left (sr_it s)" if "it \<in> {sr_it s1, fst (utf8_next (sr_it s1))}" for it
    using that utf8_next_ok [of "sr_it s1"] next_left_le [of it] assms(2,3) by auto
  then show ?thesis
    using assms(1) by (auto simp: turned_def stepped_def at_text_def span_ok_def Let_def next_pos iter_ok_next)
qed

lemma tsp_turn_keeps:
  assumes "at_text t s" "m_cl (sr_it s) \<noteq> 0" "splitter_conf cf"
  shows "run_ok (turned t s) (tsp_turn cf sink ext s)"
proof -
  let ?c = "sr_char (sr_it s)"
  let ?csc = "char_span_class cf ?c"
  have mx: "1 \<le> o_maxWordsInSpan cf"
    using assms(3) by (simp add: splitter_conf_def)
  have step: "run_ok (turned t s) (flow_turn (and_then (tsp_script cf sink csc s1) (tsp_step cf sink c)))"
    if s1: "at_text t s1" "m_cl (sr_it s1) \<noteq> 0" "utf8_left (sr_it s1) \<le> utf8_left (sr_it s)" for s1 csc c
  proof -
    have "run_ok (stepped t s1) (and_then (tsp_script cf sink csc s1) (tsp_step cf sink c))"
    proof (rule and_then_ok [where A = "\<lambda>s2. at_text t s2 \<and> sr_it s2 = sr_it s1"])
      show "run_ok (stepped t s1) (tsp_step cf sink c s2)" if "at_text t s2 \<and> sr_it s2 = sr_it s1" for s2
        using tsp_step_keeps [of t s2 cf c] that s1 mx by (auto simp: stepped_def elim!: run_ok_mono)
    qed (use tsp_script_keeps [OF s1(1) mx, of csc] in \<open>auto simp: stays_def stepped_def elim!: run_ok_mono\<close>)
    then show ?thesis
      using stepped_turned [OF _ s1(2,3)] by (auto simp: flow_turn_def elim!: run_okE)
  qed
  have csc: "?csc \<noteq> CSC_HANGUL" "?csc \<noteq> CSC_CHINESE"
    using no_ext_class assms(3) by (auto simp: splitter_conf_def)
  obtain ok c1 s1 where sp: "tsp_special cf sink ext ?csc ?c s = Inr (ok, c1, s1)" and "Q (ts_sink s1)"
    and "ok \<longrightarrow> at_text t s1 \<and> utf8_left (sr_it s1) \<le> utf8_left (sr_it s)"
    using tsp_special_keeps [OF assms(1,3) csc, of ext ?c] by (auto elim!: run_okE)
  then show ?thesis
    using assms step [of s] step [of s1]
    by (auto simp: tsp_turn_def Let_def turned_def [of t s "Returns_False _"] turned_def [of t s "Breaks _"] at_text_Q utf8_error_def)
qed

lemma tsp_loop_keeps:
  assumes "at_text t s" "splitter_conf cf"
  shows "\<exists>r. tsp_loop cf sink ext s = Some r \<and> run_ok (\<lambda>(ok, s1). Q (ts_sink s1)) r"
  using assms(1)
proof (induction "utf8_left (sr_it s)" arbitrary: s rule: less_induct)
  case less
  have fin: "run_ok (\<lambda>(ok, s2). Q (ts_sink s2)) (sr_finish cf sink s1)" if "at_text t s1" for s1
    by (rule run_ok_mono [OF sr_finish_keeps [OF that]]) (use assms(2) in \<open>auto simp: splitter_conf_def stays_def\<close>)
  show ?case
  proof (cases "utf8_eof (sr_it s) \<or> utf8_error (sr_it s)")
    case True
    then show ?thesis
      using fin [OF less.prems] by (simp add: tsp_loop.simps [of cf sink ext s])
  next
    case False
    then have "m_cl (sr_it s) \<noteq> 0"
      by (simp add: utf8_error_def)
    from tsp_turn_keeps [OF less.prems this assms(2), of ext] obtain r where r: "tsp_turn cf sink ext s = Inr r" "turned t s r"
      by (auto elim!: run_okE)
    then show ?thesis
      using False less.hyps fin by (auto simp: tsp_loop.simps [of cf sink ext s] turned_def Let_def split: turn.splits)
  qed
qed

lemma text_to_words_keeps:
  assumes "length t \<le> L" "Q u" "splitter_conf cf"
  shows "\<exists>ok u1. text_to_words cf sink ext flags u t = Some (Inr (ok, u1)) \<and> Q u1"
proof (cases "t = []")
  case False
  have "at_text t (split_start flags u t)"
    using assms(1,2) iter_ok_start [of t] by (simp add: at_text_def split_start_def span_ok_def words_ok_def)
  from tsp_loop_keeps [OF this assms(3), of ext] False show ?thesis
    by (auto simp: text_to_words_def elim!: run_okE)
qed (use assms(2) in \<open>auto simp: text_to_words_def\<close>)

end

section \<open>Clients\<close>

text \<open>The client that keeps the events, the one that counts the words, and any client at all.\<close>

definition log_sink :: "tsevent list sink" where
  "log_sink es e = (True, es @ [e])"

interpretation log_client: client log_sink "list_all (event_in L)" L for L
  by unfold_locales (simp add: log_sink_def)

interpretation any_client: client sink "\<lambda>u. True" L for sink :: "'u sink" and L
  by unfold_locales simp

interpretation word_counter: client count_sink "\<lambda>n. 0 \<le> n" L for L
  by unfold_locales (auto simp: count_sink_def split: tsevent.split)

lemma split_text_conf: "splitter_conf text_conf"
  by (simp add: splitter_conf_def text_conf_def CJKMaxNgramLen_def)

text \<open>
  The splitter returns, for every text, every client and every flag, and without an error: its reads of the
  span, of the words in it and of the buffer of n-grams are inside them, the text need not be UTF-8.
\<close>

theorem split_returns:
  assumes "splitter_conf cf"
  shows "\<exists>ok u1. text_to_words cf sink ext flags u t = Some (Inr (ok, u1))"
  using any_client.text_to_words_keeps [OF order_refl _ assms] by simp

definition no_ext :: "'u splitter" where
  "no_ext csc it c pos u = (False, it, c, pos, u)"

theorem split_returns_witness:
  "\<exists>ok u1. text_to_words text_conf log_sink no_ext TXTS_ONLYSPANS [] (''a.b-'' @ [CHR 0xFF]) = Some (Inr (ok, u1))"
  by (rule split_returns [OF split_text_conf])

text \<open>
  C7. The offsets of every term are in the text, and the start is not behind the end.
\<close>

theorem split_offsets:
  assumes "splitter_conf cf"
  shows "\<exists>ok es. text_to_words cf log_sink ext flags [] t = Some (Inr (ok, es)) \<and> list_all (event_in (length t)) es"
  by (rule log_client.text_to_words_keeps [OF order_refl _ assms]) simp

theorem split_offsets_witness:
  "\<exists>ok es. text_to_words text_conf log_sink no_ext 0 [] ''I.B.M. c++'' = Some (Inr (ok, es)) \<and> list_all (event_in (length ''I.B.M. c++'')) es"
  by (rule split_offsets [OF split_text_conf])

lemma countWords_nonneg: "splitter_conf cf \<Longrightarrow> \<exists>n \<ge> 0. countWords cf ext s flags = Some (Inr n)"
  using word_counter.text_to_words_keeps [OF order_refl, of 0 cf ext flags s] by (auto simp: countWords_def)

text \<open>
  Values of the parameters for which it does not: n-grams of no character, or of as many as \<open>max_ngramlen\<close> says, and
  no words in a span, with numbers that are not indexed.
\<close>

definition han :: string where "han = [CHR 0xE4, CHR 0xB8, CHR 0xAD]"

lemma split_bad_conf:
  "text_to_words (text_conf\<lparr>o_CJKNgramLen := 0\<rparr>) log_sink no_ext 0 [] han = Some (Inl BadAccess)"
  "text_to_words (text_conf\<lparr>o_CJKNgramLen := CJKMaxNgramLen\<rparr>) log_sink no_ext 0 [] han = Some (Inl AbortCalled)"
  "text_to_words (text_conf\<lparr>o_maxWordsInSpan := 0, o_noNumbers := True\<rparr>) log_sink no_ext 0 [] ''1'' = Some (Inl BadAccess)"
  by code_simp+

text \<open>
  With punctuation that is indexed, a period at the end of a word sends the character behind it, and at the end of the text
  the empty term; of two glue characters the second one is lost, the term is not in the text.
\<close>

lemma split_dot_term:
  "text_to_words (text_conf\<lparr>o_haveidxpunct := True, o_idxpunct := [46]\<rparr>) log_sink no_ext 0 [] ''ab. c.'' =
     Some (Inr (True, [TakeWord ''ab'' 0 0 2, TakeWord '' '' 1 3 4, TakeWord ''c'' 2 4 5, TakeWord [] 3 6 6]))"
  by code_simp

lemma split_glue_lost:
  "text_to_words text_conf log_sink no_ext TXTS_ONLYSPANS [] ''a@@b'' = Some (Inr (True, [TakeWord ''a@b'' 0 1 4]))"
  by code_simp

text \<open>The character for which white space is searched is cut to a byte: a letter is taken for a blank, white space is not found.\<close>

lemma visible_white_cut:
  "hasVisibleWhite [CHR 0xC4, CHR 0xA0]" "\<not> hasVisibleWhite [CHR 0xE2, CHR 0x80, CHR 0x83]"
  "isvisiblewhite 0x2003" "\<not> isvisiblewhite 0x120"
  by code_simp+

end
