(* ===== verification/Rcl_Param.thy ===== *)
theory Rcl_Param
  imports Conf_Value Str_Tokens
begin

text \<open>
  The typed parameters of \<open>RclConfig\<close> (\<open>common/rclconfig.cpp\<close>). The lookup in the stack of configuration files, in
  the section of the current directory, is a function from names to values; \<open>None\<close> is a parameter
  that is not there or a configuration that was not read. \<open>long\<close> has 64 bits, and \<open>strtol\<close> leaves \<open>errno\<close> alone when
  there is no number. \<open>getConfParam\<close> for \<open>double\<close> is not modelled.
\<close>

type_synonym params = "string \<Rightarrow> string option"

definition int_of_long :: "int \<Rightarrow> int" where
  "int_of_long v = (v + 2 ^ 31) mod 2 ^ 32 - 2 ^ 31"

definition c_strtol :: "string \<Rightarrow> int" where
  "c_strtol v = (case strtoll 0 v of None \<Rightarrow> 0 | Some l \<Rightarrow> l)"

definition getConfParam_int :: "params \<Rightarrow> string \<Rightarrow> int option" where
  "getConfParam_int get nm = map_option (\<lambda>v. int_of_long (c_strtol v)) (get nm)"

definition getConfParam_bool :: "params \<Rightarrow> string \<Rightarrow> bool option run" where
  "getConfParam_bool get nm =
     (case get nm of None \<Rightarrow> Inr None | Some s \<Rightarrow> map_sum id Some (stringToBool s))"

text \<open>The variants for containers leave the container as it was when there is no parameter.\<close>

definition getConfParam_strings :: "params \<Rightarrow> string \<Rightarrow> string list \<Rightarrow> bool \<times> string list" where
  "getConfParam_strings get nm old = (case get nm of None \<Rightarrow> (False, old) | Some s \<Rightarrow> stringToStrings s [])"

definition getConfParam_set :: "params \<Rightarrow> string \<Rightarrow> string set \<Rightarrow> bool \<times> string set" where
  "getConfParam_set get nm old =
     (case getConfParam_strings get nm [] of (ok, v) \<Rightarrow> if \<not> ok then (False, old) else (True, set v))"

fun param_ints :: "string list \<Rightarrow> int list \<Rightarrow> bool \<times> int list" where
  "param_ints [] acc = (True, acc)"
| "param_ints (v # vs) acc =
     (let acc1 = acc @ [int_of_long (c_strtol v)] in if strtoll 0 v = None then (False, acc1) else param_ints vs acc1)"

definition getConfParam_ints :: "params \<Rightarrow> string \<Rightarrow> bool \<times> int list" where
  "getConfParam_ints get nm =
     (case getConfParam_strings get nm [] of (ok, vs) \<Rightarrow> if \<not> ok then (False, []) else param_ints vs [])"

lemma int_of_long_id: "- (2 ^ 31) \<le> z \<Longrightarrow> z < 2 ^ 31 \<Longrightarrow> int_of_long z = z"
  by (simp add: int_of_long_def)

lemma strtoll_dec: "- (2 ^ 63) \<le> z \<Longrightarrow> z < 2 ^ 63 \<Longrightarrow> strtoll 0 (dec_int_string z) = Some z"
  using strtoll_dec_int_string [of z "[]"] by simp

text \<open>A number of 32 bits is read as it was written; a larger one is cut, and one above 64 bits is \<open>-1\<close>, without an error.\<close>

lemma getConfParam_int_dec:
  "get nm = Some (dec_int_string z) \<Longrightarrow> - (2 ^ 63) \<le> z \<Longrightarrow> z < 2 ^ 63 \<Longrightarrow> getConfParam_int get nm = Some (int_of_long z)"
  by (simp add: getConfParam_int_def c_strtol_def strtoll_dec)

lemma getConfParam_int_cut:
  "get nm = Some (dec_int_string 4294967336) \<Longrightarrow> getConfParam_int get nm = Some 40"
  "int_of_long (max (- (2 ^ 63)) (min (2 ^ 63 - 1) (2 ^ 63 + 5))) = -1"
  by (simp_all add: getConfParam_int_dec int_of_long_def)

lemma dec_survives: "t \<in> set (map dec_int_string zs) \<Longrightarrow> token_survives t"
proof -
  assume "t \<in> set (map dec_int_string zs)"
  then obtain z where t: "t = dec_int_string z"
    by auto
  have "c \<notin> {blank, tab, newline, cret, dquote}" if "c \<in> set (dec_string n)" for c n
    using dec_string_digits [of n] that by (auto simp: is_digit_def)
  then show ?thesis
    by (auto simp: t token_survives_def has_blanks_iff dec_int_string_def)
qed

lemma param_ints_dec:
  "list_all (\<lambda>z. - (2 ^ 31) \<le> z \<and> z < 2 ^ 31) zs \<Longrightarrow> param_ints (map dec_int_string zs) acc = (True, acc @ zs)"
  by (induction zs arbitrary: acc) (simp_all add: c_strtol_def strtoll_dec int_of_long_id Let_def)

text \<open>
  A list of integers of 32 bits that is written as the quoted strings of their decimal digits is read back by the lookup for
  a vector of integers.
\<close>

theorem getConfParam_ints_roundtrip:
  assumes "get nm = Some (stringsToString (map dec_int_string zs))" "list_all (\<lambda>z. - (2 ^ 31) \<le> z \<and> z < 2 ^ 31) zs"
  shows "getConfParam_ints get nm = (True, zs)"
  using assms stringToStrings_stringsToString [of "map dec_int_string zs"] dec_survives
  by (simp add: getConfParam_ints_def getConfParam_strings_def param_ints_dec)

theorem getConfParam_ints_roundtrip_witness:
  "getConfParam_ints (\<lambda>n. Some (stringsToString (map dec_int_string [12, -3]))) ''sizes'' = (True, [12, -3])"
  by (rule getConfParam_ints_roundtrip) simp_all

end
