(* ===== verification/Text_Conf.thy ===== *)
theory Text_Conf
  imports Text_Safe Rcl_Param
begin

text \<open>
  \<open>TextSplit::staticConfInit\<close> (\<open>common/textsplit.cpp\<close>): the static members of the splitter from the parameters
  of the configuration, and which configurations are safe. The initialisation of the external programs is not modelled.
\<close>

definition conf_flag :: "params \<Rightarrow> string \<Rightarrow> (bool \<Rightarrow> TextConf \<Rightarrow> TextConf) \<Rightarrow> TextConf run \<Rightarrow> TextConf run" where
  "conf_flag get nm f r =
     (case r of
        Inl e \<Rightarrow> Inl e
      | Inr cf \<Rightarrow>
          (case getConfParam_bool get nm of
             Inl e \<Rightarrow> Inl e
           | Inr None \<Rightarrow> Inr cf
           | Inr (Some b) \<Rightarrow> Inr (f b cf)))"

definition conf_number :: "params \<Rightarrow> string \<Rightarrow> (int \<Rightarrow> TextConf \<Rightarrow> TextConf) \<Rightarrow> TextConf \<Rightarrow> TextConf" where
  "conf_number get nm f cf = (case getConfParam_int get nm of None \<Rightarrow> cf | Some v \<Rightarrow> f v cf)"

function punct_loop :: "Utf8Iter \<Rightarrow> int list" where
  "punct_loop it = (if utf8_eof it \<or> utf8_error it then [] else sr_char it # punct_loop (fst (utf8_next it)))"
  by pat_completeness auto
termination
  by (relation "measure utf8_left") (auto simp: utf8_error_def intro!: utf8_next_ok)

declare punct_loop.simps [simp del]

definition conf_punct :: "params \<Rightarrow> TextConf \<Rightarrow> TextConf" where
  "conf_punct get cf =
     (case get ''indexedpunctuation'' of
        None \<Rightarrow> cf
      | Some s \<Rightarrow> if s = [] then cf
          else cf\<lparr>o_idxpunct := o_idxpunct cf @ punct_loop (utf8_iter s), o_haveidxpunct := True\<rparr>)"

text \<open>The test of \<open>nocjk\<close>, and the length of the n-grams, which \<open>max_ngramlen\<close> limits.\<close>

definition conf_cjk :: "params \<Rightarrow> TextConf run \<Rightarrow> TextConf run" where
  "conf_cjk get r =
     (case r of
        Inl e \<Rightarrow> Inl e
      | Inr cf \<Rightarrow>
          (case getConfParam_bool get ''nocjk'' of
             Inl e \<Rightarrow> Inl e
           | Inr b \<Rightarrow>
               Inr (if b = Some True then cf\<lparr>o_processCJK := False\<rparr>
                    else conf_number get ''cjkngramlen'' (\<lambda>n cf. cf\<lparr>o_CJKNgramLen := (if n \<le> CJKMaxNgramLen then n else CJKMaxNgramLen)\<rparr>)
                           (cf\<lparr>o_processCJK := True\<rparr>))))"

definition conf_tagger :: "params \<Rightarrow> string \<Rightarrow> bool" where
  "conf_tagger get nm \<longleftrightarrow> get nm \<noteq> None \<and> get nm \<noteq> Some []"

definition staticConfInit :: "params \<Rightarrow> TextConf \<Rightarrow> TextConf run" where
  "staticConfInit get cf0 =
     (let cf1 = conf_number get ''maxtermlength'' (\<lambda>n cf. cf\<lparr>o_maxWordLength := n\<rparr>) cf0;
          cf2 = conf_number get ''maxwordsinspan'' (\<lambda>n cf. cf\<lparr>o_maxWordsInSpan := n\<rparr>) cf1;
          r3 = conf_flag get ''numberdashspans'' (\<lambda>b cf. cf\<lparr>o_numberDashSpans := b\<rparr>) (Inr cf2);
          r4 = conf_cjk get (map_sum id (conf_punct get) r3);
          r5 = conf_flag get ''nonumbers'' (\<lambda>b cf. cf\<lparr>o_noNumbers := b\<rparr>) r4;
          r6 = conf_flag get ''dehyphenate'' (\<lambda>b cf. cf\<lparr>o_deHyphenate := b\<rparr>) r5;
          r7 = conf_flag get ''backslashasletter'' (\<lambda>b cf. if b then cf\<lparr>backslash_letter := True\<rparr> else cf) r6;
          r8 = conf_flag get ''underscoreasletter'' (\<lambda>b cf. if b then cf\<lparr>underscore_letter := True\<rparr> else cf) r7
      in map_sum id (\<lambda>cf. cf\<lparr>o_exthangultagger := o_exthangultagger cf \<or> conf_tagger get ''hangultagger'',
                             o_extchinesetagger := o_extchinesetagger cf \<or> conf_tagger get ''chinesetagger''\<rparr>) r8)"

section \<open>Safe configurations\<close>

lemma conf_flag_keeps:
  assumes "\<And>b cf. P cf \<Longrightarrow> P (f b cf)" "\<And>cf. r = Inr cf \<Longrightarrow> P cf"
  shows "conf_flag get nm f r = Inr cf1 \<Longrightarrow> P cf1"
  using assms by (auto simp: conf_flag_def split: sum.splits option.splits)

text \<open>A number that is not set, or set to decimal digits in a range.\<close>

definition param_in :: "params \<Rightarrow> string \<Rightarrow> int \<Rightarrow> int \<Rightarrow> bool" where
  "param_in get nm a b \<longleftrightarrow> (case get nm of None \<Rightarrow> True | Some v \<Rightarrow> \<exists>z. v = dec_int_string z \<and> a \<le> z \<and> z \<le> b)"

definition safe_params :: "params \<Rightarrow> bool" where
  "safe_params get \<longleftrightarrow> param_in get ''maxwordsinspan'' 1 (2 ^ 31 - 1) \<and> param_in get ''cjkngramlen'' 1 4 \<and>
     \<not> conf_tagger get ''hangultagger'' \<and> \<not> conf_tagger get ''chinesetagger''"

lemma conf_number_param_in:
  assumes "param_in get nm a b" "- (2 ^ 31) \<le> a" "b < 2 ^ 31"
  shows "conf_number get nm f cf = cf \<or> (\<exists>z. a \<le> z \<and> z \<le> b \<and> conf_number get nm f cf = f z cf)"
proof (cases "get nm")
  case (Some v)
  then obtain z where z: "v = dec_int_string z" "a \<le> z" "z \<le> b"
    using assms(1) by (auto simp: param_in_def)
  then have "getConfParam_int get nm = Some z"
    using Some assms(2,3) getConfParam_int_dec [of get nm z] by (simp add: int_of_long_id)
  with z show ?thesis
    by (auto simp: conf_number_def)
qed (simp add: conf_number_def getConfParam_int_def)

lemma staticConfInit_safe:
  assumes "staticConfInit get cf0 = Inr cf" "safe_params get" "splitter_conf cf0"
  shows "splitter_conf cf"
proof -
  let ?cf1 = "conf_number get ''maxtermlength'' (\<lambda>n cf. cf\<lparr>o_maxWordLength := n\<rparr>) cf0"
  let ?cf2 = "conf_number get ''maxwordsinspan'' (\<lambda>n cf. cf\<lparr>o_maxWordsInSpan := n\<rparr>) ?cf1"
  have c1: "splitter_conf ?cf1"
    using assms(3) by (auto simp: conf_number_def splitter_conf_def split: option.split)
  have c2: "splitter_conf ?cf2"
    using conf_number_param_in [of get "''maxwordsinspan''" 1 "2 ^ 31 - 1" "\<lambda>n cf. cf\<lparr>o_maxWordsInSpan := n\<rparr>" ?cf1] assms(2) c1
    by (auto simp: safe_params_def splitter_conf_def)
  have cjk: "splitter_conf cf" if "conf_cjk get r = Inr cf" "\<And>cf. r = Inr cf \<Longrightarrow> splitter_conf cf" for r cf
  proof -
    from that(1) obtain cf' where r: "r = Inr cf'"
      by (auto simp: conf_cjk_def split: sum.splits)
    then have c: "splitter_conf cf'"
      using that(2) by blast
    let ?f = "\<lambda>n cf. cf\<lparr>o_CJKNgramLen := (if n \<le> CJKMaxNgramLen then n else CJKMaxNgramLen)\<rparr>"
    have "param_in get ''cjkngramlen'' 1 4"
      using assms(2) by (simp add: safe_params_def)
    then consider "conf_number get ''cjkngramlen'' ?f (cf'\<lparr>o_processCJK := True\<rparr>) = cf'\<lparr>o_processCJK := True\<rparr>"
      | z where "1 \<le> z" "z \<le> 4" "conf_number get ''cjkngramlen'' ?f (cf'\<lparr>o_processCJK := True\<rparr>) = ?f z (cf'\<lparr>o_processCJK := True\<rparr>)"
      using conf_number_param_in [of get "''cjkngramlen''" 1 4 ?f "cf'\<lparr>o_processCJK := True\<rparr>"] by fastforce
    then have n: "splitter_conf (conf_number get ''cjkngramlen'' ?f (cf'\<lparr>o_processCJK := True\<rparr>))"
      by cases (use c in \<open>simp_all add: splitter_conf_def CJKMaxNgramLen_def\<close>)
    have "splitter_conf (cf'\<lparr>o_processCJK := False\<rparr>)"
      using c by (simp add: splitter_conf_def)
    then show ?thesis
      using n that(1) by (auto simp: conf_cjk_def r split: sum.splits if_splits)
  qed
  have punct: "splitter_conf (conf_punct get cf)" if "splitter_conf cf" for cf
    using that by (auto simp: conf_punct_def splitter_conf_def split: option.split)
  define r3 where "r3 = conf_flag get ''numberdashspans'' (\<lambda>b cf. cf\<lparr>o_numberDashSpans := b\<rparr>) (Inr ?cf2)"
  define r4 where "r4 = conf_cjk get (map_sum id (conf_punct get) r3)"
  define r5 where "r5 = conf_flag get ''nonumbers'' (\<lambda>b cf. cf\<lparr>o_noNumbers := b\<rparr>) r4"
  define r6 where "r6 = conf_flag get ''dehyphenate'' (\<lambda>b cf. cf\<lparr>o_deHyphenate := b\<rparr>) r5"
  define r7 where "r7 = conf_flag get ''backslashasletter'' (\<lambda>b cf. if b then cf\<lparr>backslash_letter := True\<rparr> else cf) r6"
  define r8 where "r8 = conf_flag get ''underscoreasletter'' (\<lambda>b cf. if b then cf\<lparr>underscore_letter := True\<rparr> else cf) r7"
  note flag = conf_flag_keeps [where P = splitter_conf, rotated 2]
  have r3: "splitter_conf cf" if "r3 = Inr cf" for cf
    by (rule flag [OF that [unfolded r3_def]]) (use c2 in \<open>auto simp: splitter_conf_def\<close>)
  have r4: "splitter_conf cf" if "r4 = Inr cf" for cf
    using cjk [OF that [unfolded r4_def]] r3 punct by (cases r3) auto
  have r5: "splitter_conf cf" if "r5 = Inr cf" for cf
    by (rule flag [OF that [unfolded r5_def]]) (use r4 in \<open>auto simp: splitter_conf_def\<close>)
  have r6: "splitter_conf cf" if "r6 = Inr cf" for cf
    by (rule flag [OF that [unfolded r6_def]]) (use r5 in \<open>auto simp: splitter_conf_def\<close>)
  have r7: "splitter_conf cf" if "r7 = Inr cf" for cf
    by (rule flag [OF that [unfolded r7_def]]) (use r6 in \<open>auto simp: splitter_conf_def\<close>)
  have r8: "splitter_conf cf" if "r8 = Inr cf" for cf
    by (rule flag [OF that [unfolded r8_def]]) (use r7 in \<open>auto simp: splitter_conf_def\<close>)
  have "map_sum id (\<lambda>cf. cf\<lparr>o_exthangultagger := o_exthangultagger cf \<or> conf_tagger get ''hangultagger'',
      o_extchinesetagger := o_extchinesetagger cf \<or> conf_tagger get ''chinesetagger''\<rparr>) r8 = Inr cf"
    using assms(1) by (simp only: staticConfInit_def Let_def r3_def r4_def r5_def r6_def r7_def r8_def)
  then show ?thesis
    using r8 assms(2) by (cases r8) (auto simp: safe_params_def splitter_conf_def)
qed

text \<open>
  C6. With the parameters that \<open>staticConfInit\<close> takes from a configuration whose limits are numbers in their ranges and that
  names no external program, the splitter returns for every text and client, and without an error.
\<close>

theorem configured_split_returns:
  assumes "staticConfInit get text_conf = Inr cf" "safe_params get"
  shows "\<exists>ok u1. text_to_words cf sink ext flags u t = Some (Inr (ok, u1))"
  using any_client.text_to_words_keeps [OF order_refl _ staticConfInit_safe [OF assms split_text_conf]] by simp

theorem configured_split_returns_witness:
  "\<exists>cf ok u1. staticConfInit (\<lambda>n. if n = ''cjkngramlen'' then Some (dec_int_string 3) else None) text_conf = Inr cf \<and>
     text_to_words cf log_sink no_ext 0 [] han = Some (Inr (ok, u1))"
proof -
  let ?get = "\<lambda>n. if n = ''cjkngramlen'' then Some (dec_int_string 3) else None"
  obtain cf where cf: "staticConfInit ?get text_conf = Inr cf"
    by (simp add: staticConfInit_def Let_def conf_number_def conf_flag_def conf_cjk_def conf_punct_def getConfParam_int_def
        getConfParam_bool_def)
  moreover have "safe_params ?get"
    by (auto simp: safe_params_def param_in_def conf_tagger_def intro!: exI [of _ 3])
  ultimately show ?thesis
    using configured_split_returns [OF cf, of log_sink no_ext 0 "[]" han] by blast
qed

text \<open>The limit \<open>max_ngramlen\<close> that \<open>staticConfInit\<close> applies is a value that the n-gram splitter refuses.\<close>

lemma configured_ngram_limit:
  assumes "get = (\<lambda>n. if n = ''cjkngramlen'' then Some (dec_int_string z) else None)" "5 \<le> z" "z < 2 ^ 31"
  shows "\<exists>cf. staticConfInit get text_conf = Inr cf \<and> text_to_words cf log_sink no_ext 0 [] han = Some (Inl AbortCalled)"
proof -
  have "getConfParam_int get ''cjkngramlen'' = Some z"
    using assms by (simp add: getConfParam_int_dec int_of_long_id)
  then have "staticConfInit get text_conf = Inr (text_conf\<lparr>o_CJKNgramLen := CJKMaxNgramLen\<rparr>)"
    using assms by (simp add: staticConfInit_def Let_def conf_number_def conf_flag_def conf_cjk_def conf_punct_def
        getConfParam_int_def getConfParam_bool_def conf_tagger_def text_conf_def CJKMaxNgramLen_def)
  then show ?thesis
    using split_bad_conf(2) by blast
qed

end
