(* ===== verification/Text_Plain.thy ===== *)
theory Text_Plain
  imports Text_Safe
begin

text \<open>
  What the splitter sends for plain text, of ASCII letters and blanks: the words, in order, one position each, with their
  offsets, whatever the flags. And \<open>TextSplit::stringToStrings\<close>, which on ASCII text is the function
  of the same name for bytes.
\<close>

section \<open>ASCII characters and the iterator\<close>

definition is_ascii :: "char \<Rightarrow> bool" where
  "is_ascii c \<longleftrightarrow> (of_char c :: nat) < 128"

lemma char_len_ascii: "is_ascii c \<Longrightarrow> char_len (c # r) = 1"
  by (simp add: is_ascii_def char_len_def lead_len_def Let_def)

lemma sr_char_ascii:
  assumes "drop p t = c # r" "is_ascii c"
  shows "sr_char (at_pos t p n) = int (of_char c)"
proof -
  have "t ! p = c"
    using nth_of_drop [of p t "[c]" r 0] assms(1) by simp
  then have d: "utf8_deref (at_pos t p n) = ucast (byte_of c)"
    using assms by (simp add: utf8_deref_def char_len_ascii getvalueat_def ubyte_def)
  have "(of_char c :: nat) < 2 ^ LENGTH(32)"
    by (rule less_le_trans [OF of_char_nat_less]) simp
  then have "unat (ucast (byte_of c) :: 32 word) = of_char c"
    using unat_byte_of [of c] by (simp add: unsigned_ucast_eq take_bit_nat_eq_self)
  then show ?thesis
    by (simp only: sr_char_def d uint_nat)
qed

lemma iter_ascii:
  assumes "drop p t = c # r" "is_ascii c"
  shows "\<not> utf8_eof (at_pos t p n)" "\<not> utf8_error (at_pos t p n)" "m_cl (at_pos t p n) = 1"
    "utf8_char_string (at_pos t p n) = [c]" "fst (utf8_next (at_pos t p n)) = at_pos t (p + 1) (n + 1)"
  using assms by (auto simp: char_len_ascii utf8_char_string_at utf8_next_at)

lemma drop_Suc_Cons: "drop p t = c # r \<Longrightarrow> drop (p + 1) t = r"
  by (metis Suc_eq_plus1 drop_Suc list.sel(3) tl_drop)

section \<open>Strings in quotes\<close>

lemma of_char_is:
  "(of_char c :: nat) = 34 \<longleftrightarrow> c = dquote" "(of_char c :: nat) = 92 \<longleftrightarrow> c = backslash" "(of_char c :: nat) = 32 \<longleftrightarrow> c = blank"
  "(of_char c :: nat) = 9 \<longleftrightarrow> c = tab" "(of_char c :: nat) = 10 \<longleftrightarrow> c = newline" "(of_char c :: nat) = 13 \<longleftrightarrow> c = cret"
  using of_char_eq_iff [of c dquote] of_char_eq_iff [of c backslash] of_char_eq_iff [of c blank] of_char_eq_iff [of c tab]
    of_char_eq_iff [of c newline] of_char_eq_iff [of c cret]
  by simp_all

lemma white_ascii:
  assumes "is_ascii c"
  shows "isvisiblewhite (int (of_char c)) \<longleftrightarrow> c = blank \<or> c = tab \<or> c = newline \<or> c = cret"
proof -
  have "isvisiblewhite (int (of_char c)) \<longleftrightarrow> (of_char c :: nat) \<in> {9, 10, 13, 32}"
    using assms by (auto simp: isvisiblewhite_def avsbwht_def is_ascii_def)
  then show ?thesis
    by (auto simp: of_char_is)
qed

lemma u8_step_ascii:
  assumes "is_ascii c"
  shows "u8_step (if isvisiblewhite (int (of_char c)) then 32 else int (of_char c)) [c] st = sts_step [] c st"
proof (cases st)
  case (fields tokens current state)
  have k: "int (of_char c) = 34 \<longleftrightarrow> c = dquote" "int (of_char c) = 92 \<longleftrightarrow> c = backslash" "int (of_char c) = 32 \<longleftrightarrow> c = blank"
    "int (of_char c) = 9 \<longleftrightarrow> c = tab" "int (of_char c) = 10 \<longleftrightarrow> c = newline" "int (of_char c) = 13 \<longleftrightarrow> c = cret"
    using of_char_is [of c] by (metis int_eq_iff_numeral of_nat_eq_iff of_nat_numeral)+
  consider "c = dquote" | "c = backslash" | "isvisiblewhite (int (of_char c))" "c = blank \<or> c = tab \<or> c = newline \<or> c = cret"
    | "\<not> isvisiblewhite (int (of_char c))" "c \<noteq> dquote" "c \<noteq> backslash" "c \<noteq> blank" "c \<noteq> tab" "c \<noteq> newline" "c \<noteq> cret"
    using white_ascii [OF assms] by blast
  then show ?thesis
  proof cases
    case 3
    then show ?thesis
      by (cases state) (auto simp: fields sts_step_def)
  next
    case 4
    then show ?thesis
      using k by (cases state) (simp_all add: fields sts_step_def del: of_nat_of_char)
  qed (use white_ascii [OF assms] in \<open>cases state; simp add: fields sts_step_def\<close>)+
qed

lemma u8_loop_ascii:
  assumes "drop p t = s" "list_all is_ascii s" "p \<le> length t"
  shows "u8_loop (at_pos t p n) st = fold (sts_step []) s st"
  using assms
proof (induction s arbitrary: p n st)
  case Nil
  then show ?case
    by (simp add: u8_loop.simps [of "at_pos t p n"])
next
  case (Cons c r)
  then have c: "drop p t = c # r" "is_ascii c"
    by auto
  then have "p < length t"
    by (metis drop_eq_Nil list.distinct(1) not_le_imp_less)
  then have "u8_loop (at_pos t (p + 1) (n + 1)) st' = fold (sts_step []) r st'" for st'
    using Cons.prems drop_Suc_Cons [OF c(1)] by (intro Cons.IH) auto
  then show ?case
    unfolding u8_loop.simps [of "at_pos t p n"] Let_def iter_ascii(4,5) [OF c] sr_char_ascii [OF c] u8_step_ascii [OF c(2)]
    using iter_ascii(1,2) [OF c] by simp
qed

text \<open>
  On ASCII text \<open>TextSplit::stringToStrings\<close>, which knows the white space of Unicode, is the function of the same name for bytes.
\<close>

theorem u8_strings_ascii:
  assumes "list_all is_ascii s"
  shows "u8stringToStrings s = stringToStrings s []"
  using u8_loop_ascii [of 0 s s 0] assms
  by (simp add: u8stringToStrings_def stringToStrings_def utf8_iter_at split: prod.split tok_state.split)

theorem u8_strings_ascii_witness:
  "u8stringToStrings (stringsToString [''one'', ''two words'']) = (True, [''one'', ''two words''])"
proof -
  have "list_all is_ascii (stringsToString [''one'', ''two words''])"
    by (simp add: stringsToString_def stringsToString_app_def token_text_def is_ascii_def has_blanks_iff)
  moreover have "stringToStrings (stringsToString [''one'', ''two words'']) [] = (True, [''one'', ''two words''])"
  proof (rule stringToStrings_stringsToString)
    have all: "list_all token_survives [''one'', ''two words'']"
      by code_simp
    show "token_survives t" if t: "t \<in> set [''one'', ''two words'']" for t
      by (rule bspec [OF all [unfolded list.pred_set] t])
  qed
  ultimately show ?thesis
    using u8_strings_ascii by simp
qed

section \<open>Plain text\<close>

definition is_letter :: "char \<Rightarrow> bool" where
  "is_letter c \<longleftrightarrow> is_lower c \<or> is_upper c"

text \<open>The event for a word at a position and an offset, and the events for a text.\<close>

definition word_event :: "TextConf \<Rightarrow> string \<Rightarrow> int \<Rightarrow> nat \<Rightarrow> tsevent" where
  "word_event cf w pos p =
     (if o_maxWordLength cf < int (length w) then Discarded w pos (int p) (int (p + length w)) WORD_TOO_LONG
      else TakeWord w pos (int p) (int (p + length w)))"

function plain_events :: "TextConf \<Rightarrow> int \<Rightarrow> nat \<Rightarrow> string \<Rightarrow> tsevent list" where
  "plain_events cf pos p s =
     (if s = [] then []
      else if is_letter (hd s) then
        (let w = takeWhile is_letter s
         in word_event cf w pos p # plain_events cf (pos + 1) (p + length w) (drop (length w) s))
      else plain_events cf pos (p + 1) (tl s))"
  by pat_completeness auto
termination
proof (relation "measure (\<lambda>(cf, pos, p, s). length s)", goal_cases)
  case (2 cf pos p s x)
  then show ?case
    by (cases s) auto
qed auto

declare plain_events.simps [simp del]

lemma letter_ascii: "is_letter c \<Longrightarrow> is_ascii c" "is_ascii blank" "is_letter c \<Longrightarrow> c \<noteq> CHR ''.''" "\<not> is_letter blank"
  by (auto simp: is_letter_def is_lower_def is_upper_def is_ascii_def)

lemma charclasses_letter:
  "97 \<le> n \<Longrightarrow> n \<le> 122 \<Longrightarrow> charclasses cf n = A_LLETTER" "65 \<le> n \<Longrightarrow> n \<le> 90 \<Longrightarrow> charclasses cf n = A_ULETTER"
  by (simp_all add: charclasses_def)

lemma whatcc_lower: "97 \<le> n \<Longrightarrow> n \<le> 122 \<Longrightarrow> whatcc cf n = A_LLETTER"
  by (simp add: whatcc_def charclasses_letter)

lemma whatcc_upper: "65 \<le> n \<Longrightarrow> n \<le> 90 \<Longrightarrow> whatcc cf n = A_ULETTER"
  by (simp add: whatcc_def charclasses_letter)

lemma one_byte_letter:
  assumes "is_letter c"
  shows "one_byte_term cf k c"
proof -
  have "int (of_char c) = of_char c"
    by (rule of_nat_of_char)
  then have "97 \<le> (of_char c :: int) \<and> (of_char c :: int) \<le> 122 \<or> 65 \<le> (of_char c :: int) \<and> (of_char c :: int) \<le> 90"
    using assms unfolding is_letter_def is_lower_def is_upper_def by linarith
  then show ?thesis
    by (auto simp: one_byte_term_def charclasses_letter Let_def)
qed

lemma whatcc_plain:
  "is_letter c \<Longrightarrow> whatcc cf (int (of_char c)) = (if is_lower c then A_LLETTER else A_ULETTER)"
  "whatcc cf 32 = SPACE_CC"
  by (auto simp: is_letter_def is_lower_def is_upper_def intro: whatcc_lower whatcc_upper)
    (simp add: whatcc_def charclasses_def)

lemma csc_ascii: "is_ascii c \<Longrightarrow> char_span_class cf (int (of_char c)) = CSC_OTHER"
  by (simp add: is_ascii_def char_span_class_def isKATAKANA_def isHANGUL_def isCHINESE_def UNICODE_IN_HANGUL_RANGE_def
      UNICODE_IN_CHINESE_RANGE_def UNICODE_IS_CJK_def UNICODE_IS_OTHER_NGRAM_def in_ranges_def)

text \<open>The state inside the current word \<open>w\<close> of the text, at byte \<open>p\<close>.\<close>

definition in_plain :: "string \<Rightarrow> nat \<Rightarrow> int \<Rightarrow> string \<Rightarrow> 'u SplitRun \<Rightarrow> bool" where
  "in_plain t p pos w s \<longleftrightarrow> (\<exists>n. sr_it s = at_pos t p n) \<and> m_span s = w \<and> m_words_in_span s = [] \<and> m_wordStart s = 0 \<and>
     m_wordLen s = length w \<and> \<not> m_inNumber s \<and> m_wordpos s = pos \<and> m_spanpos s = pos \<and>
     (m_prevlen s = 0 \<or> m_prevpos s < pos) \<and> \<not> sr_pagepending s \<and> \<not> sr_nlpending s \<and> length w \<le> p \<and>
     (w \<noteq> [] \<longrightarrow> sr_prev_csc s = Some CSC_OTHER) \<and> list_all is_letter w"

definition plain_conf :: "TextConf \<Rightarrow> bool" where
  "plain_conf cf \<longleftrightarrow> 2 \<le> o_maxWordsInSpan cf \<and> 1 \<le> o_maxWordLength cf \<and> \<not> o_haveidxpunct cf"

lemma utf8len_ascii: "list_all is_ascii w \<Longrightarrow> utf8len w = length w"
proof -
  assume "list_all is_ascii w"
  then have "length (utf8_chars w) = length w"
    by (induction w) (simp_all add: utf8_chars_step char_len_ascii)
  then show ?thesis
    by (simp add: utf8len_chars)
qed

text \<open>The events that are still to come inside the word \<open>w\<close>.\<close>

definition plain_rest :: "TextConf \<Rightarrow> int \<Rightarrow> nat \<Rightarrow> string \<Rightarrow> string \<Rightarrow> tsevent list" where
  "plain_rest cf pos p w r =
     (if w = [] then plain_events cf pos p r
      else let v = takeWhile is_letter r
        in word_event cf (w @ v) pos (p - length w) # plain_events cf (pos + 1) (p + length v) (drop (length v) r))"

lemma plain_events_steps:
  "plain_events cf pos p [] = []"
  "\<not> is_letter c \<Longrightarrow> plain_events cf pos p (c # r) = plain_events cf pos (p + 1) r"
  "is_letter c \<Longrightarrow> plain_events cf pos p (c # r) = word_event cf (c # takeWhile is_letter r) pos p #
     plain_events cf (pos + 1) (p + 1 + length (takeWhile is_letter r)) (drop (length (takeWhile is_letter r)) r)"
  by (subst plain_events.simps; simp add: Let_def)+

lemma plain_rest_steps:
  "plain_rest cf pos p w [] = (if w = [] then [] else [word_event cf w pos (p - length w)])"
  "is_letter c \<Longrightarrow> plain_rest cf pos p w (c # r) = plain_rest cf pos (p + 1) (w @ [c]) r"
  "plain_rest cf pos p w (blank # r) = (if w = [] then [] else [word_event cf w pos (p - length w)]) @
     plain_rest cf (if w = [] then pos else pos + 1) (p + 1) [] r"
  by (auto simp: plain_rest_def plain_events_steps Let_def letter_ascii)

text \<open>A client that accepts every event, and its state behind a list of events.\<close>

definition after :: "'u sink \<Rightarrow> tsevent list \<Rightarrow> 'u \<Rightarrow> 'u" where
  "after sink es u = fold (\<lambda>e u. snd (sink u e)) es u"

lemma after_simps [simp]:
  "after sink [] u = u" "after sink (e # es) u = after sink es (snd (sink u e))"
  "after sink (xs @ ys) u = after sink ys (after sink xs u)"
  by (simp_all add: after_def)

locale accepting =
  fixes sink :: "'u sink"
  assumes accepts: "fst (sink u e)"
begin

lemma emit_word:
  assumes "plain_conf cf" "list_all is_letter w" "w \<noteq> []" "m_prevlen s = 0 \<or> m_prevpos s < pos"
  shows "emitterm cf sink w pos (int p) (int (p + length w)) s =
    (True, if o_maxWordLength cf < int (length w) then s\<lparr>ts_sink := snd (sink (ts_sink s) (word_event cf w pos p))\<rparr>
       else s\<lparr>ts_sink := snd (sink (ts_sink s) (word_event cf w pos p)), m_prevpos := pos, m_prevlen := length w\<rparr>)"
proof -
  have "list_all is_ascii w"
    using assms(2) letter_ascii(1) by (rule list.pred_mono_strong)
  then have l: "utf8len w = length w"
    by (rule utf8len_ascii)
  have "one_byte_term cf k (hd w)" for k
    using assms(2,3) one_byte_letter by (cases w) auto
  then show ?thesis
    using assms l
    by (cases "o_maxWordLength cf < int (length w)")
      (auto simp: emitterm_def Let_def send_def word_event_def accepts plain_conf_def split_beta)
qed

lemma doemit_word:
  assumes "plain_conf cf" "in_plain t p pos w s" "w \<noteq> []"
  shows "\<exists>s1. doemit cf sink True (int p) s = Inr (True, s1) \<and> in_plain t p (pos + 1) [] s1 \<and>
    ts_sink s1 = snd (sink (ts_sink s) (word_event cf w pos (p - length w)))"
proof -
  let ?s1 = "s\<lparr>m_words_in_span := [(0, length w)], m_wordpos := pos + 1, m_wordLen := 0\<rparr>"
  have w: "m_span s = w" "m_words_in_span s = []" "m_wordStart s = 0" "m_wordLen s = length w" "\<not> m_inNumber s" "m_wordpos s = pos"
    "m_spanpos s = pos" "m_prevlen s = 0 \<or> m_prevpos s < pos" "length w \<le> p" "list_all is_letter w"
    using assms(2) by (auto simp: in_plain_def)
  have r: "remember_word cf sink True s = Inr (True, ?s1)"
    using w assms by (simp add: remember_word_def plain_conf_def Let_def)
  have "span_is_initials ?s1 = None"
  proof (cases "1 < length w")
    case True
    then have "w ! 1 \<noteq> CHR ''.''"
      using w(10) letter_ascii(3) by (simp add: list_all_length)
    then have "list_ex (\<lambda>i. odd i \<and> w ! i \<noteq> CHR ''.'') [0..<length w]"
      using True unfolding list_ex_iff by (intro bexI [of _ 1]) simp_all
    then show ?thesis
      using w(1) by (simp add: span_is_initials_def Let_def)
  next
    case False
    then show ?thesis
      using w(1) by (auto simp: span_is_initials_def Let_def)
  qed
  then have i: "emit_initials cf sink (int p) ?s1 = (True, ?s1)"
    by (simp add: emit_initials_def)
  have "emitterm cf sink w pos (int p - int (length w)) (int p) ?s1 =
    (True, if o_maxWordLength cf < int (length w) then ?s1\<lparr>ts_sink := snd (sink (ts_sink s) (word_event cf w pos (p - length w)))\<rparr>
       else ?s1\<lparr>ts_sink := snd (sink (ts_sink s) (word_event cf w pos (p - length w))), m_prevpos := pos, m_prevlen := length w\<rparr>)"
    using emit_word [OF assms(1) w(10) assms(3), of ?s1 pos "p - length w"] w by (simp add: of_nat_diff)
  then have "words_from_span cf sink (int p) ?s1 = Inr
    (True, if o_maxWordLength cf < int (length w) then ?s1\<lparr>ts_sink := snd (sink (ts_sink s) (word_event cf w pos (p - length w)))\<rparr>
       else ?s1\<lparr>ts_sink := snd (sink (ts_sink s) (word_event cf w pos (p - length w))), m_prevpos := pos, m_prevlen := length w\<rparr>)"
    using w assms(3) by (simp add: words_from_span_def dehyphenated_def Let_def substr_run_def substr_def)
  then show ?thesis
    using r i w assms(2) by (auto simp: doemit_def discardspan_def in_plain_def)
qed

lemma turn_ascii:
  assumes "in_plain t p pos w s" "drop p t = c # r" "is_ascii c"
  shows "tsp_turn cf sink ext s = flow_turn (tsp_step cf sink (int (of_char c)) (s\<lparr>sr_prev_csc := Some CSC_OTHER\<rparr>))"
proof -
  obtain n where it: "sr_it s = at_pos t p n"
    using assms(1) by (auto simp: in_plain_def)
  have c: "sr_char (sr_it s) = int (of_char c)"
    using sr_char_ascii [OF assms(2,3)] it by simp
  have "tsp_script cf sink CSC_OTHER s = Inr (True, s\<lparr>sr_prev_csc := Some CSC_OTHER\<rparr>)"
    using assms(1) by (auto simp: tsp_script_def in_plain_def sr_finish_def and_then_def)
  moreover have "int (of_char c) \<noteq> no_char"
    using assms(3) by (auto simp: is_ascii_def no_char_def)
  ultimately show ?thesis
    unfolding tsp_turn_def Let_def c csc_ascii [OF assms(3)] by (simp add: and_then_def)
qed

lemma turn_letter:
  assumes "in_plain t p pos w s" "drop p t = c # r" "is_letter c"
  shows "\<exists>s1. tsp_turn cf sink ext s = Inr (Goes_On s1) \<and> ts_sink s1 = ts_sink s \<and>
    in_plain t (p + 1) pos (w @ [c]) (s1\<lparr>sr_it := fst (utf8_next (sr_it s1))\<rparr>)"
proof -
  have a: "is_ascii c"
    using assms(3) by (rule letter_ascii)
  obtain n where it: "sr_it s = at_pos t p n"
    using assms(1) by (auto simp: in_plain_def)
  let ?s = "s\<lparr>sr_prev_csc := Some CSC_OTHER\<rparr>"
  define cc where "cc = whatcc cf (int (of_char c))"
  have "cc = A_LLETTER \<or> cc = A_ULETTER"
    using whatcc_plain(1) [OF assms(3)] by (simp add: cc_def)
  then have "tsp_step cf sink (int (of_char c)) ?s = Inr (True, (append_word ?s)\<lparr>sr_softhyphen := False, sr_prevc := cc\<rparr>)"
    using assms(1) by (auto simp: tsp_step_def tsp_class_def tsp_normal_def and_then_def in_plain_def Let_def
        cc_def [symmetric] A_LLETTER_def A_ULETTER_def SKIP_def DIGIT_def SPACE_CC_def WILD_def)
  then have "tsp_turn cf sink ext s = Inr (Goes_On ((append_word ?s)\<lparr>sr_softhyphen := False, sr_prevc := cc\<rparr>))"
    using turn_ascii [OF assms(1,2) a] by (simp add: flow_turn_def)
  moreover have "in_plain t (p + 1) pos (w @ [c]) (((append_word ?s)\<lparr>sr_softhyphen := False, sr_prevc := cc\<rparr>)\<lparr>sr_it := at_pos t (p + 1) (n + 1)\<rparr>)"
    using assms it iter_ascii [OF assms(2) a, of n]
    by (auto simp: in_plain_def append_word_def append_span_def appendchartostring_def)
  ultimately show ?thesis
    using it iter_ascii(5) [OF assms(2) a, of n] by (auto simp: append_word_def append_span_def)
qed

lemma turn_blank:
  assumes "in_plain t p pos w s" "drop p t = blank # r" "plain_conf cf"
  shows "\<exists>s1. tsp_turn cf sink ext s = Inr (Goes_On s1) \<and>
    ts_sink s1 = after sink (if w = [] then [] else [word_event cf w pos (p - length w)]) (ts_sink s) \<and>
    in_plain t (p + 1) (if w = [] then pos else pos + 1) [] (s1\<lparr>sr_it := fst (utf8_next (sr_it s1))\<rparr>)"
proof -
  let ?s = "s\<lparr>sr_prev_csc := Some CSC_OTHER\<rparr>"
  obtain n where it: "sr_it s = at_pos t p n"
    using assms(1) by (auto simp: in_plain_def)
  have s: "in_plain t p pos w ?s"
    using assms(1) by (auto simp: in_plain_def)
  have next_it: "fst (utf8_next (at_pos t p m)) = at_pos t (p + 1) (m + 1)" for m
    using iter_ascii(5) [OF assms(2) letter_ascii(2)] .
  have "\<exists>s1. tsp_space cf sink 32 ?s = Inr (True, s1) \<and>
    ts_sink s1 = after sink (if w = [] then [] else [word_event cf w pos (p - length w)]) (ts_sink s) \<and>
    in_plain t p (if w = [] then pos else pos + 1) [] s1"
  proof (cases "w = []")
    case True
    then show ?thesis
      using s assms(3) by (auto simp: tsp_space_def and_then_def sr_pending_def sr_idxpunct_def plain_conf_def in_plain_def Let_def)
  next
    case False
    obtain s1 where "doemit cf sink True (int p) ?s = Inr (True, s1)" "in_plain t p (pos + 1) [] s1"
      "ts_sink s1 = snd (sink (ts_sink s) (word_event cf w pos (p - length w)))"
      using doemit_word [OF assms(3) s False] by auto
    then show ?thesis
      using False s assms(3) it
      by (auto simp: tsp_space_def sr_emit_def sr_bpos_def and_then_def sr_pending_def sr_idxpunct_def plain_conf_def in_plain_def Let_def)
  qed
  then obtain s1 where sp: "tsp_space cf sink 32 ?s = Inr (True, s1)"
    and s1: "ts_sink s1 = after sink (if w = [] then [] else [word_event cf w pos (p - length w)]) (ts_sink s)"
      "in_plain t p (if w = [] then pos else pos + 1) [] s1"
    by blast
  have "tsp_step cf sink 32 ?s = Inr (True, s1\<lparr>sr_softhyphen := False, sr_prevc := SPACE_CC\<rparr>)"
    using sp by (simp add: tsp_step_def tsp_class_def whatcc_plain and_then_def SKIP_def SPACE_CC_def DIGIT_def)
  then have "tsp_turn cf sink ext s = Inr (Goes_On (s1\<lparr>sr_softhyphen := False, sr_prevc := SPACE_CC\<rparr>))"
    using turn_ascii [OF assms(1,2) letter_ascii(2)] by (simp add: flow_turn_def)
  moreover have "in_plain t (p + 1) (if w = [] then pos else pos + 1) []
      ((s1\<lparr>sr_softhyphen := False, sr_prevc := SPACE_CC\<rparr>)\<lparr>sr_it := fst (utf8_next (sr_it s1))\<rparr>)"
    using s1(2) next_it by (auto simp: in_plain_def)
  ultimately show ?thesis
    using s1(1) by auto
qed

lemma plain_loop:
  assumes "in_plain t p pos w s" "drop p t = r" "p \<le> length t" "list_all (\<lambda>c. is_letter c \<or> c = blank) r" "plain_conf cf"
  shows "\<exists>s1. tsp_loop cf sink ext s = Some (Inr (True, s1)) \<and> ts_sink s1 = after sink (plain_rest cf pos p w r) (ts_sink s)"
  using assms(1-4)
proof (induction r arbitrary: p pos w s)
  case Nil
  then obtain n where it: "sr_it s = at_pos t p n" and sp: "m_span s = w" "m_wordLen s = length w"
    by (auto simp: in_plain_def)
  have "utf8_eof (sr_it s)"
    using Nil it by simp
  then have "tsp_loop cf sink ext s = Some (sr_finish cf sink s)"
    by (subst tsp_loop.simps) simp
  moreover have "\<exists>s1. sr_finish cf sink s = Inr (True, s1) \<and> ts_sink s1 = after sink (plain_rest cf pos p w []) (ts_sink s)"
    using doemit_word [OF assms(5) Nil.prems(1)] sp it
    by (auto simp: sr_finish_def sr_emit_def sr_bpos_def plain_rest_steps)
  ultimately show ?case
    by auto
next
  case (Cons c r)
  then have c: "is_letter c \<or> c = blank" and rest: "list_all (\<lambda>c. is_letter c \<or> c = blank) r" and "p < length t"
    by (auto simp: not_le [symmetric])
  obtain n where it: "sr_it s = at_pos t p n"
    using Cons.prems(1) by (auto simp: in_plain_def)
  have "is_ascii c"
    using c letter_ascii by blast
  then have run: "tsp_loop cf sink ext s = tsp_loop cf sink ext (s1\<lparr>sr_it := fst (utf8_next (sr_it s1))\<rparr>)"
    if "tsp_turn cf sink ext s = Inr (Goes_On s1)" for s1
    using that it iter_ascii(1,2) [OF Cons.prems(2), of n] by (simp add: tsp_loop.simps [of cf sink ext s])
  note next_text = drop_Suc_Cons [OF Cons.prems(2)]
  show ?case
  proof (cases "c = blank")
    case True
    then obtain s1 where s1: "tsp_turn cf sink ext s = Inr (Goes_On s1)"
      "ts_sink s1 = after sink (if w = [] then [] else [word_event cf w pos (p - length w)]) (ts_sink s)"
      "in_plain t (p + 1) (if w = [] then pos else pos + 1) [] (s1\<lparr>sr_it := fst (utf8_next (sr_it s1))\<rparr>)"
      using turn_blank [OF Cons.prems(1) _ assms(5)] Cons.prems(2) by blast
    from Cons.IH [OF s1(3) next_text _ rest] \<open>p < length t\<close> show ?thesis
      using run [OF s1(1)] s1(2) True by (auto simp: plain_rest_steps(3))
  next
    case False
    then have l: "is_letter c"
      using c by blast
    then obtain s1 where s1: "tsp_turn cf sink ext s = Inr (Goes_On s1)" "ts_sink s1 = ts_sink s"
      "in_plain t (p + 1) pos (w @ [c]) (s1\<lparr>sr_it := fst (utf8_next (sr_it s1))\<rparr>)"
      using turn_letter [OF Cons.prems(1,2)] by blast
    from Cons.IH [OF s1(3) next_text _ rest] \<open>p < length t\<close> show ?thesis
      using run [OF s1(1)] s1(2) l by (auto simp: plain_rest_steps(2))
  qed
qed

lemma plain_text_to_words:
  assumes "list_all (\<lambda>c. is_letter c \<or> c = blank) t" "plain_conf cf"
  shows "text_to_words cf sink ext flags u t = Some (Inr (True, after sink (plain_events cf 0 0 t) u))"
proof (cases "t = []")
  case False
  have "in_plain t 0 0 [] (split_start flags u t)"
    by (auto simp: in_plain_def split_start_def utf8_iter_at)
  from plain_loop [OF this _ _ assms, of ext] False show ?thesis
    by (auto simp: text_to_words_def plain_rest_def split_start_def)
qed (simp add: text_to_words_def plain_events_steps)

end

interpretation log_accepts: accepting log_sink
  by unfold_locales (simp add: log_sink_def)

lemma after_log: "after log_sink es u = u @ es"
  by (induction es arbitrary: u) (simp_all add: log_sink_def)

text \<open>
  C8. From a text of ASCII letters and blanks the client gets the maximal runs of letters, in order, at positions 0, 1 and so on, with
  the offsets of their bytes, for every combination of the flags; a run that is longer than the maximum is announced
  as discarded and keeps its position.
\<close>

theorem split_plain_text:
  assumes "list_all (\<lambda>c. is_letter c \<or> c = blank) t" "plain_conf cf"
  shows "text_to_words cf log_sink ext flags [] t = Some (Inr (True, plain_events cf 0 0 t))"
  using log_accepts.plain_text_to_words [OF assms] by (simp add: after_log)

theorem split_plain_text_witness:
  "text_to_words text_conf log_sink no_ext TXTS_ONLYSPANS [] ''The  word'' =
     Some (Inr (True, [TakeWord ''The'' 0 0 3, TakeWord ''word'' 1 5 9]))"
proof -
  have e: "plain_events text_conf 0 0 ''The  word'' = [TakeWord ''The'' 0 0 3, TakeWord ''word'' 1 5 9]"
    by code_simp
  have "list_all (\<lambda>c. is_letter c \<or> c = blank) ''The  word''" "plain_conf text_conf"
    by code_simp+
  then have "text_to_words text_conf log_sink no_ext TXTS_ONLYSPANS [] ''The  word'' =
      Some (Inr (True, plain_events text_conf 0 0 ''The  word''))"
    by (rule split_plain_text)
  then show ?thesis
    by (simp only: e)
qed

end
