(* ===== verification/Hl_Data.thy ===== *)
theory Hl_Data
  imports Prelude "HOL-Library.Multiset"
begin

text \<open>
  The terms of a query as the text to be highlighted sees them, and the search for groups of terms that are near each other
  (\<open>query/hldata.h\<close>, \<open>query/hldata.cpp\<close>). Positions are natural numbers, compared as integers; an \<open>OrPList\<close> merges the
  sorted positions of alternative terms, \<open>-1\<close> is its end. The recursion over the lists of
  a group is one on their number. The lists of a group that is not a phrase are sorted by size, in
  a stable way as the library does for less than 17 of them. Sums of positions and the window fit an \<open>int\<close>.
\<close>

section \<open>Query data\<close>

datatype TGK = TGK_TERM | TGK_NEAR | TGK_PHRASE

record TermGroup =
  tg_term :: string
  orgroups :: "string list list"
  slack :: int
  grpsugidx :: nat
  tg_kind :: TGK

record HighlightData =
  uterms :: "string set"
  hl_terms :: "string \<rightharpoonup> string"
  ugroups :: "string list list"
  index_term_groups :: "TermGroup list"
  spellexpands :: "string list"

definition hl_empty :: HighlightData where
  "hl_empty = \<lparr>uterms = {}, hl_terms = Map.empty, ugroups = [], index_term_groups = [], spellexpands = []\<rparr>"

text \<open>\<open>append\<close>: what is in the map stays, the indices into the user groups are moved.\<close>

definition hl_append :: "HighlightData \<Rightarrow> HighlightData \<Rightarrow> HighlightData" where
  "hl_append h hl = \<lparr>uterms = uterms h \<union> uterms hl, hl_terms = hl_terms hl ++ hl_terms h,
     ugroups = ugroups h @ ugroups hl,
     index_term_groups = index_term_groups h @
       map (\<lambda>g. g\<lparr>grpsugidx := grpsugidx g + length (ugroups h)\<rparr>) (index_term_groups hl),
     spellexpands = spellexpands h @ spellexpands hl\<rparr>"

section \<open>Merged positions\<close>

record OrPList =
  plists :: "nat list list"
  indexes :: "nat list"
  currentidx :: "nat option"
  totalsize :: nat

definition orp_empty :: OrPList where
  "orp_empty = \<lparr>plists = [], indexes = [], currentidx = None, totalsize = 0\<rparr>"

definition addplist :: "nat list \<Rightarrow> OrPList \<Rightarrow> OrPList" where
  "addplist pl o1 = o1\<lparr>plists := plists o1 @ [pl], indexes := indexes o1 @ [0], totalsize := totalsize o1 + length pl\<rparr>"

definition INT_MAX :: int where "INT_MAX = 2147483647"

text \<open>The scan of the heads of the lists for the first of the smallest: its value and its index.\<close>

fun orp_min :: "(nat list \<times> nat) list \<Rightarrow> nat \<Rightarrow> int \<times> nat option \<Rightarrow> int \<times> nat option" where
  "orp_min [] ii acc = acc"
| "orp_min ((pl, ix) # ps) ii (minval, minidx) =
     orp_min ps (ii + 1) (if length pl \<le> ix then (minval, minidx)
       else if int (pl ! ix) < minval then (int (pl ! ix), Some ii) else (minval, minidx))"

definition orp_value :: "OrPList \<Rightarrow> int \<times> OrPList" where
  "orp_value o1 =
     (case orp_min (zip (plists o1) (indexes o1)) 0 (INT_MAX, None) of
        (minval, None) \<Rightarrow> (-1, o1)
      | (minval, Some ii) \<Rightarrow> (minval, o1\<lparr>currentidx := Some ii\<rparr>))"

definition orp_step :: "OrPList \<Rightarrow> OrPList" where
  "orp_step o1 =
     (case currentidx o1 of None \<Rightarrow> o1 | Some i \<Rightarrow> o1\<lparr>indexes := (indexes o1)[i := indexes o1 ! i + 1]\<rparr>)"

definition orp_next :: "OrPList \<Rightarrow> int \<times> OrPList" where
  "orp_next o1 = orp_value (orp_step o1)"

definition orp_rewind :: "OrPList \<Rightarrow> OrPList" where
  "orp_rewind o1 = o1\<lparr>indexes := map (\<lambda>i. 0) (indexes o1), currentidx := None\<rparr>"

text \<open>The entries of the lists that have not been passed.\<close>

definition orp_left :: "OrPList \<Rightarrow> nat" where
  "orp_left o1 = sum_list (map (\<lambda>(pl, ix). length pl - ix) (zip (plists o1) (indexes o1)))"

lemma orp_min_idx:
  "orp_min ps ii (mv, mi) = (v, Some k) \<Longrightarrow>
    mi = Some k \<and> v = mv \<or> ii \<le> k \<and> k - ii < length ps \<and> snd (ps ! (k - ii)) < length (fst (ps ! (k - ii))) \<and>
      v = int (fst (ps ! (k - ii)) ! snd (ps ! (k - ii))) \<and> v < mv"
proof (induction ps ii "(mv, mi)" arbitrary: mv mi rule: orp_min.induct)
  case (2 pl ix ps ii minval minidx)
  let ?acc = "if length pl \<le> ix then (minval, minidx) else if int (pl ! ix) < minval then (int (pl ! ix), Some ii) else (minval, minidx)"
  obtain mv1 mi1 where acc: "?acc = (mv1, mi1)"
    by (cases ?acc)
  have "orp_min ps (ii + 1) (mv1, mi1) = (v, Some k)"
    using "2.prems" unfolding orp_min.simps acc .
  from "2.hyps" [OF acc this] show ?case
    using acc by (cases "k = ii") (auto simp: nth_Cons' Suc_diff_le split: if_splits)
qed simp

lemma sum_list_bump:
  "k < length ps \<Longrightarrow> k < length is \<Longrightarrow> is ! k < length (ps ! k) \<Longrightarrow>
    sum_list (map (\<lambda>(pl, ix). length pl - ix) (zip ps (is[k := is ! k + 1]))) <
    sum_list (map (\<lambda>(pl, ix). length pl - ix) (zip ps is))"
proof (induction ps arbitrary: k "is")
  case (Cons p ps)
  then show ?case
    by (cases "is"; cases k) auto
qed simp

lemma orp_value_left:
  assumes "orp_value o1 = (v, o2)" "v \<noteq> -1"
  shows "orp_left (orp_step o2) < orp_left o1"
proof -
  obtain k mv where m: "orp_min (zip (plists o1) (indexes o1)) 0 (INT_MAX, None) = (mv, Some k)" and o2: "o2 = o1\<lparr>currentidx := Some k\<rparr>"
    using assms by (auto simp: orp_value_def split: prod.splits option.splits)
  have "k < length (plists o1)" "k < length (indexes o1)" "indexes o1 ! k < length (plists o1 ! k)"
    using orp_min_idx [OF m] by auto
  then show ?thesis
    using sum_list_bump [of k "plists o1" "indexes o1"] by (simp add: orp_left_def orp_step_def o2)
qed

text \<open>The positions that are left, and what the two operations do to them.\<close>

definition orp_ok :: "OrPList \<Rightarrow> bool" where
  "orp_ok o1 \<longleftrightarrow> length (indexes o1) = length (plists o1) \<and> list_all sorted (plists o1)"

definition orp_rest :: "OrPList \<Rightarrow> nat set" where
  "orp_rest o1 = (\<Union>(pl, ix) \<in> set (zip (plists o1) (indexes o1)). set (drop ix pl))"

lemma orp_min_least:
  assumes "\<forall>(pl, ix) \<in> set ps. sorted pl"
  shows "orp_min ps ii (mv, mi) = (v, k) \<Longrightarrow> v \<le> mv \<and> (\<forall>(pl, ix) \<in> set ps. \<forall>x \<in> set (drop ix pl). v \<le> int x)"
  using assms
proof (induction ps ii "(mv, mi)" arbitrary: mv mi rule: orp_min.induct)
  case (2 pl ix ps ii minval minidx)
  let ?acc = "if length pl \<le> ix then (minval, minidx) else if int (pl ! ix) < minval then (int (pl ! ix), Some ii) else (minval, minidx)"
  obtain mv1 mi1 where acc: "?acc = (mv1, mi1)"
    by (cases ?acc)
  have "orp_min ps (ii + 1) (mv1, mi1) = (v, k)"
    using "2.prems"(1) unfolding orp_min.simps acc .
  from "2.hyps" [OF acc this] "2.prems"(2)
  have v: "v \<le> mv1" "\<forall>(pl, ix) \<in> set ps. \<forall>x \<in> set (drop ix pl). v \<le> int x"
    by auto
  have "int (pl ! ix) \<le> int x" if "x \<in> set (drop ix pl)" for x
  proof -
    from that obtain i where "i < length (drop ix pl)" "x = drop ix pl ! i"
      by (auto simp: in_set_conv_nth)
    then have "ix + i < length pl" "x = pl ! (ix + i)"
      by auto
    then show ?thesis
      using "2.prems"(2) by (auto intro: sorted_nth_mono)
  qed
  moreover have "mv1 \<le> minval" "ix < length pl \<Longrightarrow> mv1 \<le> int (pl ! ix)"
    using acc by (auto split: if_splits)
  moreover have "ix < length pl" if "x \<in> set (drop ix pl)" for x
    using that by (cases "ix < length pl") auto
  ultimately have "v \<le> int x" if "x \<in> set (drop ix pl)" for x
    using v(1) that by (meson order_trans)
  then show ?case
    using v \<open>mv1 \<le> minval\<close> by auto
qed auto

lemma orp_min_none: "orp_min ps ii (mv, mi) = (v, None) \<Longrightarrow> mi = None \<and> v = mv"
proof (induction ps ii "(mv, mi)" arbitrary: mv mi rule: orp_min.induct)
  case (2 pl ix ps ii minval minidx)
  let ?acc = "if length pl \<le> ix then (minval, minidx) else if int (pl ! ix) < minval then (int (pl ! ix), Some ii) else (minval, minidx)"
  obtain mv1 mi1 where acc: "?acc = (mv1, mi1)"
    by (cases ?acc)
  have "orp_min ps (ii + 1) (mv1, mi1) = (v, None)"
    using "2.prems"(1) unfolding orp_min.simps acc .
  from "2.hyps" [OF acc this] show ?case
    using acc by (auto split: if_splits)
qed auto

lemma in_orp_rest:
  "orp_ok o1 \<Longrightarrow> x \<in> orp_rest o1 \<longleftrightarrow> (\<exists>i < length (plists o1). x \<in> set (drop (indexes o1 ! i) (plists o1 ! i)))"
proof -
  assume "orp_ok o1"
  then have l: "min (length (plists o1)) (length (indexes o1)) = length (plists o1)"
    by (simp add: orp_ok_def)
  have "set (zip (plists o1) (indexes o1)) = {(plists o1 ! i, indexes o1 ! i) |i. i < length (plists o1)}"
    unfolding set_zip l ..
  then show ?thesis
    unfolding orp_rest_def by auto
qed

lemma orp_value_spec:
  assumes "orp_ok o1" "orp_value o1 = (v, o2)"
  shows "orp_ok o2" "orp_rest o2 = orp_rest o1" "plists o2 = plists o1"
    "v = -1 \<Longrightarrow> x \<in> orp_rest o1 \<Longrightarrow> INT_MAX \<le> int x"
    "v \<noteq> -1 \<Longrightarrow> 0 \<le> v \<and> nat v \<in> orp_rest o1 \<and> v < INT_MAX \<and> (\<forall>x \<in> orp_rest o1. v \<le> int x)"
    "v \<noteq> -1 \<Longrightarrow> orp_ok (orp_step o2) \<and> orp_rest (orp_step o2) \<subseteq> orp_rest o1 \<and> orp_rest o1 \<subseteq> insert (nat v) (orp_rest (orp_step o2)) \<and>
       plists (orp_step o2) = plists o1"
proof -
  have sorted: "\<forall>(pl, ix) \<in> set (zip (plists o1) (indexes o1)). sorted pl"
    using assms(1) by (auto simp: orp_ok_def list_all_iff dest: set_zip_leftD)
  obtain mv mi where m: "orp_min (zip (plists o1) (indexes o1)) 0 (INT_MAX, None) = (mv, mi)"
    by fastforce
  have least: "mv \<le> INT_MAX" "\<forall>x \<in> orp_rest o1. mv \<le> int x"
    using orp_min_least [OF sorted m] by (auto simp: orp_rest_def)
  show "orp_ok o2" "orp_rest o2 = orp_rest o1" "plists o2 = plists o1"
    using assms m by (auto simp: orp_value_def orp_ok_def orp_rest_def split: option.splits)
  show "v = -1 \<Longrightarrow> x \<in> orp_rest o1 \<Longrightarrow> INT_MAX \<le> int x"
    using assms(2) m least orp_min_none [of "zip (plists o1) (indexes o1)" 0 INT_MAX None mv]
      orp_min_idx [of "zip (plists o1) (indexes o1)" 0 INT_MAX None mv]
    by (fastforce simp: orp_value_def split: option.splits)
  assume "v \<noteq> -1"
  then obtain k where k: "mi = Some k" "v = mv" "o2 = o1\<lparr>currentidx := Some k\<rparr>"
    using assms(2) m by (auto simp: orp_value_def split: option.splits)
  have kk: "k < length (plists o1)" "k < length (indexes o1)" "indexes o1 ! k < length (plists o1 ! k)"
    "mv = int (plists o1 ! k ! (indexes o1 ! k))" "mv < INT_MAX"
    using orp_min_idx [OF m [unfolded k(1)]] by auto
  then have d: "drop (indexes o1 ! k) (plists o1 ! k) = nat mv # drop (Suc (indexes o1 ! k)) (plists o1 ! k)"
    by (simp add: Cons_nth_drop_Suc)
  have "nat mv \<in> orp_rest o1"
    using in_orp_rest [OF assms(1), of "nat mv"] kk(1) d by auto
  then show "0 \<le> v \<and> nat v \<in> orp_rest o1 \<and> v < INT_MAX \<and> (\<forall>x \<in> orp_rest o1. v \<le> int x)"
    using least kk by (simp add: k(2))
  have ok: "orp_ok (orp_step o2)"
    using assms(1) by (simp add: orp_ok_def orp_step_def k(3))
  have "set (drop (indexes (orp_step o2) ! i) (plists o1 ! i)) \<subseteq> set (drop (indexes o1 ! i) (plists o1 ! i)) \<and>
      set (drop (indexes o1 ! i) (plists o1 ! i)) \<subseteq> insert (nat mv) (set (drop (indexes (orp_step o2) ! i) (plists o1 ! i)))" for i
    using d kk by (cases "i = k") (auto simp: orp_step_def k(3))
  moreover have "plists (orp_step o2) = plists o1"
    by (simp add: orp_step_def k(3))
  ultimately show "orp_ok (orp_step o2) \<and> orp_rest (orp_step o2) \<subseteq> orp_rest o1 \<and>
      orp_rest o1 \<subseteq> insert (nat v) (orp_rest (orp_step o2)) \<and> plists (orp_step o2) = plists o1"
    using in_orp_rest [OF assms(1)] in_orp_rest [OF ok] ok by (auto simp: k(2) subset_iff) blast+
qed

section \<open>Groups of terms\<close>

type_synonym prox_res = "bool \<times> OrPList list \<times> int \<times> int"

text \<open>The first position that is not below a bound.\<close>

function prox_skip :: "int \<Rightarrow> OrPList \<Rightarrow> OrPList" where
  "prox_skip act pl =
     (let r = orp_value pl in if fst r \<noteq> -1 \<and> fst r < act then prox_skip act (orp_step (snd r)) else snd r)"
  by pat_completeness auto
termination
  by (relation "measure (\<lambda>(act, pl). orp_left pl)") (auto simp: orp_value_left prod_eq_iff)

declare prox_skip.simps [simp del]

text \<open>
  The second loop of \<open>do_proximity_test\<close>, over the positions of a list; \<open>f\<close> is the test of the next lists, \<open>None\<close> behind
  the last one. The window grows with every position that was tried.
\<close>

function prox_loop ::
  "(int \<Rightarrow> int \<Rightarrow> OrPList list \<Rightarrow> int \<Rightarrow> int \<Rightarrow> prox_res) option \<Rightarrow> int \<Rightarrow> OrPList \<Rightarrow> OrPList list \<Rightarrow>
   int \<Rightarrow> int \<Rightarrow> int \<Rightarrow> int \<Rightarrow> prox_res" where
  "prox_loop f window pl rest mn mx sp ep =
     (let r = orp_value pl; nextpos = fst r; pl1 = snd r in
      if nextpos = -1 \<or> mn + window - 1 < nextpos then (False, pl1 # rest, sp, ep)
      else case f of
          None \<Rightarrow> (True, pl1 # rest, min sp nextpos, max ep nextpos)
        | Some g \<Rightarrow>
            (let (ok, rest1, sp1, ep1) = g (min mn nextpos) (max mx nextpos) rest sp ep
             in if ok then (True, pl1 # rest1, sp1, ep1)
                else prox_loop f window (orp_step pl1) rest1 (min mn nextpos) (max mx nextpos) sp1 ep1))"
  by pat_completeness auto
termination
  by (relation "measure (\<lambda>(f, window, pl, rest, mn, mx, sp, ep). orp_left pl)") (auto simp: orp_value_left prod_eq_iff)

declare prox_loop.simps [simp del]

definition prox_list ::
  "(int \<Rightarrow> int \<Rightarrow> OrPList list \<Rightarrow> int \<Rightarrow> int \<Rightarrow> prox_res) option \<Rightarrow> bool \<Rightarrow> int \<Rightarrow> int \<Rightarrow>
   int \<Rightarrow> int \<Rightarrow> OrPList list \<Rightarrow> int \<Rightarrow> int \<Rightarrow> prox_res" where
  "prox_list f isphrase window minpos mn mx pls sp ep =
     (case pls of
        [] \<Rightarrow> (False, [], sp, ep)
      | pl # rest \<Rightarrow>
          (let act = (if isphrase then mx + 1 else mx + 1 - window)
           in prox_loop f window (prox_skip (if act < minpos then minpos else act) pl) rest mn mx sp ep))"

text \<open>The test, by the number of the lists behind the current one.\<close>

primrec do_proximity_test ::
  "bool \<Rightarrow> int \<Rightarrow> int \<Rightarrow> nat \<Rightarrow> int \<Rightarrow> int \<Rightarrow> OrPList list \<Rightarrow> int \<Rightarrow> int \<Rightarrow> prox_res" where
  "do_proximity_test isphrase window minpos 0 = prox_list None isphrase window minpos"
| "do_proximity_test isphrase window minpos (Suc n) =
     prox_list (Some (do_proximity_test isphrase window minpos n)) isphrase window minpos"

text \<open>The merged positions of each group of alternatives; a group with none ends the search.\<close>

fun or_lists :: "(string \<Rightarrow> nat list option) \<Rightarrow> string list list \<Rightarrow> OrPList list option" where
  "or_lists inplists [] = Some []"
| "or_lists inplists (g # gs) =
     (let o1 = fold (\<lambda>t o1. case inplists t of None \<Rightarrow> o1 | Some pl \<Rightarrow> addplist pl o1) g orp_empty
      in if plists o1 = [] then None else map_option ((#) o1) (or_lists inplists gs))"

type_synonym GroupMatchEntry = "(nat \<times> nat) \<times> nat"

text \<open>The walk of the first list.\<close>

function match_loop ::
  "bool \<Rightarrow> int \<Rightarrow> (nat \<Rightarrow> (nat \<times> nat) option) \<Rightarrow> nat \<Rightarrow> OrPList \<Rightarrow> OrPList list \<Rightarrow> int \<Rightarrow> GroupMatchEntry list \<Rightarrow>
   GroupMatchEntry list" where
  "match_loop isphrase window gpostobytes grpidx pl rest minpos tboffs =
     (let r = orp_value pl; pos = fst r; pl1 = orp_step (snd r) in
      if pos = -1 then tboffs
      else let (ok, rest1, sta, sto) =
             (if rest = [] then (False, [], INT_MAX, 0)
              else do_proximity_test isphrase window minpos (length rest - 1) pos pos rest (INT_MAX) 0)
        in if \<not> ok then match_loop isphrase window gpostobytes grpidx pl1 rest1 minpos tboffs
           else let sta1 = min sta pos; sto1 = max sto pos
             in match_loop isphrase window gpostobytes grpidx pl1 rest1 (sto1 + 1)
                  (case (gpostobytes (nat sta1), gpostobytes (nat sto1)) of
                     (Some b1, Some b2) \<Rightarrow> tboffs @ [((fst b1, snd b2), grpidx)]
                   | _ \<Rightarrow> tboffs))"
  by pat_completeness auto
termination
  by (relation "measure (\<lambda>(p, w, g, i, pl, rest, mp, t). orp_left pl)") (auto simp: orp_value_left prod_eq_iff)

declare match_loop.simps [simp del]

definition matchGroup ::
  "HighlightData \<Rightarrow> nat \<Rightarrow> (string \<Rightarrow> nat list option) \<Rightarrow> (nat \<Rightarrow> (nat \<times> nat) option) \<Rightarrow> GroupMatchEntry list \<Rightarrow>
   bool \<times> GroupMatchEntry list" where
  "matchGroup hldata grpidx inplists gpostobytes tboffs =
     (let tg = index_term_groups hldata ! grpidx;
          isphrase = (tg_kind tg = TGK_PHRASE);
          window = int (length (orgroups tg)) + slack tg
      in case or_lists inplists (orgroups tg) of
           None \<Rightarrow> (False, tboffs)
         | Some ls \<Rightarrow>
             if length ls < 2 then (False, tboffs)
             else let ls1 = (if isphrase then ls else sort_key totalsize ls);
                      t = match_loop isphrase window gpostobytes grpidx (hd ls1) (tl ls1) 0 tboffs
               in (t \<noteq> [], t))"

section \<open>What is matched\<close>

text \<open>Positions, one of each list, that are in order for a phrase, are all within the window, and fit what is already chosen.\<close>

definition chosen :: "bool \<Rightarrow> int \<Rightarrow> int list \<Rightarrow> bool" where
  "chosen isphrase window ps \<longleftrightarrow> (\<forall>x \<in> set ps. \<forall>y \<in> set ps. x - y < window) \<and> (isphrase \<longrightarrow> sorted_wrt (<) ps)"

definition fits :: "bool \<Rightarrow> int \<Rightarrow> int \<Rightarrow> int \<Rightarrow> int \<Rightarrow> nat list list list \<Rightarrow> int list \<Rightarrow> bool" where
  "fits isphrase window minpos mn mx pss ps \<longleftrightarrow> ps \<noteq> [] \<and> chosen isphrase window ps \<and>
     list_all2 (\<lambda>pss p. 0 \<le> p \<and> nat p \<in> set (concat pss)) pss ps \<and>
     (\<forall>p \<in> set ps. minpos \<le> p \<and> mx + 1 - window \<le> p \<and> p \<le> mn + window - 1 \<and> (isphrase \<longrightarrow> mx < p))"

definition prox_ok :: "bool \<Rightarrow> int \<Rightarrow> int \<Rightarrow> int \<Rightarrow> int \<Rightarrow> nat list list list \<Rightarrow> int \<Rightarrow> int \<Rightarrow> prox_res \<Rightarrow> bool" where
  "prox_ok isphrase window minpos mn mx pss sp ep r \<longleftrightarrow>
     (case r of (ok, pls, sp1, ep1) \<Rightarrow> map plists pls = pss \<and> list_all orp_ok pls \<and>
        (if ok then \<exists>ps. fits isphrase window minpos mn mx pss ps \<and> sp1 = min sp (last ps) \<and> ep1 = max ep (last ps)
         else sp1 = sp \<and> ep1 = ep))"

lemma fits_Cons:
  assumes "fits isphrase window minpos (min mn p) (max mx p) pss ps" "0 \<le> p" "nat p \<in> set (concat pls)" "minpos \<le> p"
    "mx0 + 1 - window \<le> p" "p \<le> mn + window - 1" "isphrase \<longrightarrow> mx0 < p" "1 \<le> window" "mn \<le> mn0" "mx0 \<le> mx"
  shows "fits isphrase window minpos mn0 mx0 (pls # pss) (p # ps)"
proof -
  have ps: "ps \<noteq> []" "chosen isphrase window ps" "list_all2 (\<lambda>pss p. 0 \<le> p \<and> nat p \<in> set (concat pss)) pss ps"
    and fit: "\<And>q. q \<in> set ps \<Longrightarrow> minpos \<le> q \<and> max mx p + 1 - window \<le> q \<and> q \<le> min mn p + window - 1 \<and> (isphrase \<longrightarrow> max mx p < q)"
    using assms(1) by (auto simp: fits_def)
  have near: "q - p < window" "p - q < window" "isphrase \<Longrightarrow> p < q" "minpos \<le> q" "mx0 + 1 - window \<le> q" "q \<le> mn0 + window - 1"
    "isphrase \<Longrightarrow> mx0 < q" if "q \<in> set ps" for q
    using fit [OF that] assms(9,10) by linarith+
  have "chosen isphrase window (p # ps)"
    using ps(2) near assms(8) by (auto simp: chosen_def)
  moreover have "list_all2 (\<lambda>pss p. 0 \<le> p \<and> nat p \<in> set (concat pss)) (pls # pss) (p # ps)"
    using ps(3) assms(2,3) by simp
  moreover have "p \<le> mn0 + window - 1"
    using assms(6,9) by linarith
  then have "minpos \<le> q \<and> mx0 + 1 - window \<le> q \<and> q \<le> mn0 + window - 1 \<and> (isphrase \<longrightarrow> mx0 < q)" if "q \<in> set (p # ps)" for q
    using near [of q] assms(4,5,7) that by (cases "q = p") simp_all
  ultimately show ?thesis
    unfolding fits_def by blast
qed

lemma orp_rest_all: "orp_ok o1 \<Longrightarrow> x \<in> orp_rest o1 \<Longrightarrow> x \<in> set (concat (plists o1))"
  by (auto simp: in_orp_rest dest: in_set_dropD)

lemma prox_skip_spec:
  assumes "orp_ok pl"
  shows "orp_ok (prox_skip act pl) \<and> plists (prox_skip act pl) = plists pl \<and> orp_rest (prox_skip act pl) \<subseteq> orp_rest pl \<and>
    (\<forall>x \<in> orp_rest (prox_skip act pl). int x < INT_MAX \<longrightarrow> act \<le> int x) \<and>
    (\<forall>x \<in> orp_rest pl. act \<le> int x \<longrightarrow> x \<in> orp_rest (prox_skip act pl))"
  using assms
proof (induction act pl rule: prox_skip.induct)
  case (1 act pl)
  obtain v pl1 where r: "orp_value pl = (v, pl1)"
    by fastforce
  note spec = orp_value_spec [OF "1.prems" r]
  show ?case
  proof (cases "v \<noteq> -1 \<and> v < act")
    case True
    then have "prox_skip act pl = prox_skip act (orp_step pl1)"
      by (subst prox_skip.simps) (simp add: r)
    moreover have "orp_ok (orp_step pl1)" "orp_rest (orp_step pl1) \<subseteq> orp_rest pl" "plists (orp_step pl1) = plists pl"
      "orp_rest pl \<subseteq> insert (nat v) (orp_rest (orp_step pl1))" "0 \<le> v"
      using spec True by auto
    moreover from "1.IH" [OF refl] this r True have "orp_ok (prox_skip act (orp_step pl1)) \<and>
      plists (prox_skip act (orp_step pl1)) = plists (orp_step pl1) \<and> orp_rest (prox_skip act (orp_step pl1)) \<subseteq> orp_rest (orp_step pl1) \<and>
      (\<forall>x \<in> orp_rest (prox_skip act (orp_step pl1)). int x < INT_MAX \<longrightarrow> act \<le> int x) \<and>
      (\<forall>x \<in> orp_rest (orp_step pl1). act \<le> int x \<longrightarrow> x \<in> orp_rest (prox_skip act (orp_step pl1)))"
      by simp
    moreover have "x \<in> orp_rest (orp_step pl1)" if "x \<in> orp_rest pl" "act \<le> int x" for x
      using that calculation(5,6) True by auto
    ultimately show ?thesis
      by auto
  next
    case False
    then have "prox_skip act pl = pl1"
      by (subst prox_skip.simps) (auto simp: r)
    then show ?thesis
      using spec False by (cases "v = -1") force+
  qed
qed

lemma prox_loop_ok:
  assumes "orp_ok pl" "list_all orp_ok rest" "\<forall>x \<in> orp_rest pl. int x < INT_MAX \<longrightarrow> act \<le> int x" "1 \<le> window"
    "minpos \<le> act" "mx0 + 1 - window \<le> act" "isphrase \<longrightarrow> mx0 < act" "mn \<le> mn0" "mx0 \<le> mx" "map plists rest = pss"
    "f = None \<longrightarrow> rest = []"
    "\<And>g mn mx rest sp ep. f = Some g \<Longrightarrow> list_all orp_ok rest \<Longrightarrow> map plists rest = pss \<Longrightarrow>
      prox_ok isphrase window minpos mn mx pss sp ep (g mn mx rest sp ep)"
  shows "prox_ok isphrase window minpos mn0 mx0 (plists pl # pss) sp ep (prox_loop f window pl rest mn mx sp ep)"
  using assms
proof (induction "orp_left pl" arbitrary: pl rest mn mx sp ep rule: less_induct)
  case less
  obtain v pl1 where r: "orp_value pl = (v, pl1)"
    by fastforce
  note spec = orp_value_spec [OF less.prems(1) r]
  show ?case
  proof (cases "v = -1 \<or> mn + window - 1 < v")
    case True
    then show ?thesis
      using spec less.prems by (subst prox_loop.simps) (auto simp: r prox_ok_def Let_def)
  next
    case False
    then have v: "0 \<le> v" "nat v \<in> set (concat (plists pl))" "act \<le> v"
      using spec less.prems(1,3) orp_rest_all by force+
    show ?thesis
    proof (cases f)
      case None
      have "fits isphrase window minpos mn0 mx0 [plists pl] [v]"
        using v False less.prems by (auto simp: fits_def chosen_def)
      then show ?thesis
        using None False spec(1,3) less.prems(10,11) by (subst prox_loop.simps) (auto simp: r prox_ok_def Let_def intro!: exI [of _ "[v]"])
    next
      case (Some g)
      obtain ok rest1 sp1 ep1 where g: "g (min mn v) (max mx v) rest sp ep = (ok, rest1, sp1, ep1)"
        by (metis prod_cases4)
      have gk: "prox_ok isphrase window minpos (min mn v) (max mx v) pss sp ep (ok, rest1, sp1, ep1)"
        using less.prems(12) [OF Some less.prems(2,10), of "min mn v" "max mx v" sp ep] unfolding g .
      show ?thesis
      proof (cases ok)
        case True
        then obtain ps where ps: "fits isphrase window minpos (min mn v) (max mx v) pss ps" "sp1 = min sp (last ps)" "ep1 = max ep (last ps)"
          using gk by (auto simp: prox_ok_def)
        then have "fits isphrase window minpos mn0 mx0 (plists pl # pss) (v # ps)"
          using v False less.prems by (intro fits_Cons) auto
        moreover have "ps \<noteq> []"
          using ps(1) by (simp add: fits_def)
        ultimately show ?thesis
          using True gk ps spec(1,3) Some False g
          by (subst prox_loop.simps) (auto simp: r prox_ok_def Let_def intro!: exI [of _ "v # ps"])
      next
        case no: False
        have st: "orp_ok (orp_step pl1)" "orp_rest (orp_step pl1) \<subseteq> orp_rest pl" "plists (orp_step pl1) = plists pl"
          using spec False by auto
        have eq: "prox_loop f window pl rest mn mx sp ep = prox_loop f window (orp_step pl1) rest1 (min mn v) (max mx v) sp1 ep1"
          using no False Some g by (subst prox_loop.simps) (auto simp: r Let_def)
        have "prox_ok isphrase window minpos mn0 mx0 (plists (orp_step pl1) # pss) sp1 ep1
            (prox_loop f window (orp_step pl1) rest1 (min mn v) (max mx v) sp1 ep1)"
        proof (rule less.hyps)
          show "orp_left (orp_step pl1) < orp_left pl"
            using orp_value_left [OF r] False by simp
          show "f = None \<longrightarrow> rest1 = []"
            using Some by simp
          show "prox_ok isphrase window minpos mn mx pss sp ep (g mn mx rest sp ep)"
            if "f = Some g" "list_all orp_ok rest" "map plists rest = pss" for g mn mx rest sp ep
            using less.prems(12) [OF that] .
        qed (use no gk st less.prems in \<open>auto simp: prox_ok_def\<close>)
        moreover have "sp1 = sp" "ep1 = ep"
          using no gk by (simp_all add: prox_ok_def)
        ultimately show ?thesis
          unfolding eq st(3) by simp
      qed
    qed
  qed
qed

lemma prox_list_ok:
  assumes "list_all orp_ok pls" "pls \<noteq> []" "1 \<le> window" "f = None \<longrightarrow> length pls = 1"
    "\<And>g mn mx rest sp ep. f = Some g \<Longrightarrow> list_all orp_ok rest \<Longrightarrow> map plists rest = map plists (tl pls) \<Longrightarrow>
      prox_ok isphrase window minpos mn mx (map plists (tl pls)) sp ep (g mn mx rest sp ep)"
  shows "prox_ok isphrase window minpos mn mx (map plists pls) sp ep (prox_list f isphrase window minpos mn mx pls sp ep)"
proof -
  obtain pl rest where pls: "pls = pl # rest"
    using assms(2) by (cases pls) auto
  define act where "act = (if isphrase then mx + 1 else mx + 1 - window)"
  define act1 where "act1 = (if act < minpos then minpos else act)"
  have sk: "orp_ok (prox_skip act1 pl)" "plists (prox_skip act1 pl) = plists pl"
    "\<forall>x \<in> orp_rest (prox_skip act1 pl). int x < INT_MAX \<longrightarrow> act1 \<le> int x"
    using prox_skip_spec [of pl act1] assms(1) by (auto simp: pls)
  have "prox_ok isphrase window minpos mn mx (plists (prox_skip act1 pl) # map plists rest) sp ep
      (prox_loop f window (prox_skip act1 pl) rest mn mx sp ep)"
    by (rule prox_loop_ok [OF sk(1) _ sk(3)]) (use assms in \<open>auto simp: pls act_def act1_def\<close>)
  then show ?thesis
    by (simp add: prox_list_def pls act_def [symmetric] act1_def [symmetric] Let_def sk(2))
qed

lemma do_proximity_test_ok:
  assumes "list_all orp_ok pls" "length pls = Suc n" "1 \<le> window"
  shows "prox_ok isphrase window minpos mn mx (map plists pls) sp ep (do_proximity_test isphrase window minpos n mn mx pls sp ep)"
  using assms(1,2)
proof (induction n arbitrary: mn mx pls sp ep)
  case 0
  then show ?case
    using assms(3) by (simp only: do_proximity_test.simps) (rule prox_list_ok; auto)
next
  case (Suc n)
  show ?case
    unfolding do_proximity_test.simps
  proof (rule prox_list_ok)
    show "prox_ok isphrase window minpos mn mx (map plists (tl pls)) sp ep (g mn mx rest sp ep)"
      if "Some (do_proximity_test isphrase window minpos n) = Some g" "list_all orp_ok rest" "map plists rest = map plists (tl pls)"
      for g mn mx rest sp ep
    proof -
      have "length rest = Suc n"
        using that(3) Suc.prems(2) by (metis diff_Suc_1 length_map length_tl)
      then show ?thesis
        using Suc.IH [OF that(2)] that(1,3) by fastforce
    qed
  qed (use Suc.prems assms(3) in auto)
qed

text \<open>An entry that stands for a choice of positions, one of each group; its bytes are those from the first to the last group.\<close>

definition match_entry ::
  "bool \<Rightarrow> int \<Rightarrow> (nat \<Rightarrow> (nat \<times> nat) option) \<Rightarrow> nat \<Rightarrow> nat list list list \<Rightarrow> GroupMatchEntry \<Rightarrow> bool" where
  "match_entry isphrase window gpostobytes grpidx pss e \<longleftrightarrow>
     (\<exists>ps b1 b2. ps \<noteq> [] \<and> chosen isphrase window ps \<and> list_all2 (\<lambda>pss p. 0 \<le> p \<and> nat p \<in> set (concat pss)) pss ps \<and>
        gpostobytes (nat (min (hd ps) (last ps))) = Some b1 \<and> gpostobytes (nat (max (hd ps) (last ps))) = Some b2 \<and>
        e = ((fst b1, snd b2), grpidx))"

lemma list_all2_nonneg: "list_all2 (\<lambda>pss p. (0 :: int) \<le> p \<and> R pss p) pss ps \<Longrightarrow> p \<in> set ps \<Longrightarrow> 0 \<le> p"
  by (induction pss ps rule: list_all2_induct) auto

lemma match_loop_sound:
  assumes "orp_ok pl" "list_all orp_ok rest" "rest \<noteq> []" "1 \<le> window" "map plists rest = pss"
  shows "\<exists>new. match_loop isphrase window gpostobytes grpidx pl rest minpos tboffs = tboffs @ new \<and>
    list_all (match_entry isphrase window gpostobytes grpidx (plists pl # pss)) new"
  using assms
proof (induction "orp_left pl" arbitrary: pl rest minpos tboffs rule: less_induct)
  case less
  obtain v pl1 where r: "orp_value pl = (v, pl1)"
    by fastforce
  note spec = orp_value_spec [OF less.prems(1) r]
  show ?case
  proof (cases "v = -1")
    case True
    then show ?thesis
      by (subst match_loop.simps) (simp add: r)
  next
    case False
    have st: "orp_ok (orp_step pl1)" "plists (orp_step pl1) = plists pl"
      using spec False by auto
    have v: "0 \<le> v" "nat v \<in> set (concat (plists pl))" "v < INT_MAX"
      using spec(5) [OF False] orp_rest_all [OF less.prems(1)] by auto
    obtain ok rest1 sta sto where t: "do_proximity_test isphrase window minpos (length rest - 1) v v rest (INT_MAX) 0 = (ok, rest1, sta, sto)"
      by (metis prod_cases4)
    have "prox_ok isphrase window minpos v v pss (INT_MAX) 0 (ok, rest1, sta, sto)"
      using do_proximity_test_ok [of rest "length rest - 1" window isphrase minpos v v "INT_MAX" 0] less.prems t by simp
    then have rest1: "map plists rest1 = pss" "list_all orp_ok rest1"
      and found: "ok \<Longrightarrow> \<exists>ps. fits isphrase window minpos v v pss ps \<and> sta = min (INT_MAX) (last ps) \<and> sto = max 0 (last ps)"
      by (auto simp: prox_ok_def)
    then have ne: "rest1 \<noteq> []"
      using less.prems(3,5) by auto
    note step = less.hyps [of "orp_step pl1" rest1, OF _ st(1) rest1(2) ne less.prems(4) rest1(1), unfolded st(2)]
    have dec: "orp_left (orp_step pl1) < orp_left pl"
      using orp_value_left [OF r False] .
    show ?thesis
    proof (cases ok)
      case no: False
      then have "match_loop isphrase window gpostobytes grpidx pl rest minpos tboffs =
          match_loop isphrase window gpostobytes grpidx (orp_step pl1) rest1 minpos tboffs"
        using False t less.prems(3) by (subst match_loop.simps) (simp add: r)
      then show ?thesis
        using step [OF dec] by simp
    next
      case True
      then obtain ps where ps: "fits isphrase window minpos v v pss ps" "sta = min (INT_MAX) (last ps)" "sto = max 0 (last ps)"
        using found by blast
      have l2: "list_all2 (\<lambda>pss p. 0 \<le> p \<and> nat p \<in> set (concat pss)) pss ps" and "ps \<noteq> []"
        using ps(1) by (auto simp: fits_def)
      then have last: "0 \<le> last ps"
        using list_all2_nonneg by (metis last_in_set)
      have fits: "fits isphrase window 0 v (v - 1) (plists pl # pss) (v # ps)"
      proof (rule fits_Cons [where mn = v and mx = v])
        show "fits isphrase window 0 (min v v) (max v v) pss ps"
          using ps(1) list_all2_nonneg [OF l2] by (auto simp: fits_def)
      qed (use v less.prems(4) in auto)
      define new where "new = (case (gpostobytes (nat (min v (last ps))), gpostobytes (nat (max v (last ps)))) of
           (Some b1, Some b2) \<Rightarrow> [((fst b1, snd b2), grpidx)] | _ \<Rightarrow> [])"
      have new_ok: "list_all (match_entry isphrase window gpostobytes grpidx (plists pl # pss)) new"
        using fits \<open>ps \<noteq> []\<close> by (auto simp: new_def match_entry_def fits_def split: option.split intro!: exI [of _ "v # ps"])
      have "min sta v = min v (last ps)" "max sto v = max v (last ps)"
        using ps(2,3) v(1,3) last by auto
      then have "match_loop isphrase window gpostobytes grpidx pl rest minpos tboffs =
          match_loop isphrase window gpostobytes grpidx (orp_step pl1) rest1 (max v (last ps) + 1) (tboffs @ new)"
        using False True t less.prems(3) by (subst match_loop.simps) (simp add: r new_def split: option.split)
      then show ?thesis
        using step [OF dec, of "max v (last ps) + 1" "tboffs @ new"] new_ok by auto
    qed
  qed
qed

text \<open>A term of a group of alternatives is at a position.\<close>

definition term_at :: "(string \<Rightarrow> nat list option) \<Rightarrow> string list \<Rightarrow> nat \<Rightarrow> bool" where
  "term_at inplists g p \<longleftrightarrow> (\<exists>t \<in> set g. \<exists>pl. inplists t = Some pl \<and> p \<in> set pl)"

definition plists_sorted :: "(string \<Rightarrow> nat list option) \<Rightarrow> bool" where
  "plists_sorted inplists \<longleftrightarrow> (\<forall>t pl. inplists t = Some pl \<longrightarrow> sorted pl)"

definition or_list :: "(string \<Rightarrow> nat list option) \<Rightarrow> string list \<Rightarrow> OrPList \<Rightarrow> bool" where
  "or_list inplists g o1 \<longleftrightarrow> orp_ok o1 \<and> orp_rest o1 = set (concat (plists o1)) \<and>
     set (concat (plists o1)) = {p. term_at inplists g p}"

lemma fold_addplist:
  "fold (\<lambda>t o1. case inplists t of None \<Rightarrow> o1 | Some pl \<Rightarrow> addplist pl o1) g o1 =
     o1\<lparr>plists := plists o1 @ List.map_filter inplists g, indexes := indexes o1 @ map (\<lambda>t. 0) (List.map_filter inplists g),
        totalsize := totalsize o1 + length (concat (List.map_filter inplists g))\<rparr>"
  by (induction g arbitrary: o1) (auto simp: addplist_def map_filter_simps split: option.split)

lemma or_list_new:
  assumes "plists_sorted inplists"
  shows "or_list inplists g (fold (\<lambda>t o1. case inplists t of None \<Rightarrow> o1 | Some pl \<Rightarrow> addplist pl o1) g orp_empty)"
proof -
  let ?pls = "List.map_filter inplists g"
  let ?o = "fold (\<lambda>t o1. case inplists t of None \<Rightarrow> o1 | Some pl \<Rightarrow> addplist pl o1) g orp_empty"
  have o: "plists ?o = ?pls" "indexes ?o = map (\<lambda>t. 0) ?pls"
    by (simp_all add: fold_addplist orp_empty_def)
  have mf: "set ?pls = {pl. \<exists>t \<in> set g. inplists t = Some pl}"
    by (force simp: List.map_filter_def)
  have ok: "orp_ok ?o"
    using assms mf by (auto simp: orp_ok_def o list_all_iff plists_sorted_def)
  have "orp_rest ?o = set (concat ?pls)"
    unfolding orp_rest_def o by (simp add: zip_map2 zip_same_conv_map)
  then show ?thesis
    using ok mf by (auto simp: or_list_def o term_at_def)
qed

lemma or_lists_ok:
  "plists_sorted inplists \<Longrightarrow> or_lists inplists gs = Some ls \<Longrightarrow> list_all2 (or_list inplists) gs ls"
  by (induction gs arbitrary: ls) (auto simp: Let_def or_list_new split: if_splits)

lemma or_lists_None: "or_lists inplists gs = None \<Longrightarrow> \<exists>g \<in> set gs. \<forall>p. \<not> term_at inplists g p"
proof (induction gs)
  case (Cons g gs)
  show ?case
  proof (cases "List.map_filter inplists g = []")
    case True
    then have "\<not> term_at inplists g p" for p
      by (auto simp: term_at_def map_filter_def filter_empty_conv)
    then show ?thesis
      by simp
  next
    case False
    then show ?thesis
      using Cons by (auto simp: Let_def fold_addplist orp_empty_def)
  qed
qed simp

text \<open>A match that the search may report: a position for each group, in the order of the groups for a phrase.\<close>

definition group_match ::
  "TermGroup \<Rightarrow> (string \<Rightarrow> nat list option) \<Rightarrow> (nat \<Rightarrow> (nat \<times> nat) option) \<Rightarrow> nat \<Rightarrow> GroupMatchEntry \<Rightarrow> bool" where
  "group_match tg inplists gpostobytes grpidx e \<longleftrightarrow>
     (\<exists>gs ps b1 b2. mset gs = mset (orgroups tg) \<and> (tg_kind tg = TGK_PHRASE \<longrightarrow> gs = orgroups tg) \<and> ps \<noteq> [] \<and>
        list_all2 (\<lambda>g p. 0 \<le> p \<and> term_at inplists g (nat p)) gs ps \<and>
        chosen (tg_kind tg = TGK_PHRASE) (int (length (orgroups tg)) + slack tg) ps \<and>
        gpostobytes (nat (min (hd ps) (last ps))) = Some b1 \<and> gpostobytes (nat (max (hd ps) (last ps))) = Some b2 \<and>
        e = ((fst b1, snd b2), grpidx))"

lemma matchGroup_sound:
  assumes "plists_sorted inplists" "tg = index_term_groups hldata ! grpidx" "1 \<le> int (length (orgroups tg)) + slack tg"
    "matchGroup hldata grpidx inplists gpostobytes tboffs = (ok, out)"
  shows "\<exists>new. out = tboffs @ new \<and> list_all (group_match tg inplists gpostobytes grpidx) new"
proof (cases "or_lists inplists (orgroups tg)")
  case None
  then show ?thesis
    using assms by (auto simp: matchGroup_def Let_def)
next
  case (Some ls)
  define phrase where "phrase \<longleftrightarrow> tg_kind tg = TGK_PHRASE"
  define ls1 where "ls1 = (if phrase then ls else sort_key totalsize ls)"
  have l2: "list_all2 (or_list inplists) (orgroups tg) ls"
    using or_lists_ok [OF assms(1) Some] .
  have "mset ls1 = mset ls"
    by (simp add: ls1_def)
  have "list_all2 (\<lambda>o1 g. or_list inplists g o1) ls (orgroups tg)"
    using l2 by (simp add: list_all2_conv_all_nth)
  from list_all2_reorder_left_invariance [OF this \<open>mset ls1 = mset ls\<close>]
  obtain gs1 where gs1: "list_all2 (\<lambda>o1 g. or_list inplists g o1) ls1 gs1" "mset gs1 = mset (orgroups tg)"
    by blast
  define gs where "gs = (if phrase then orgroups tg else gs1)"
  have gs: "list_all2 (or_list inplists) gs ls1" "mset gs = mset (orgroups tg)" "phrase \<longrightarrow> gs = orgroups tg"
    using gs1 l2 by (auto simp: gs_def ls1_def list_all2_conv_all_nth)
  show ?thesis
  proof (cases "length ls < 2")
    case True
    then show ?thesis
      using assms Some by (auto simp: matchGroup_def Let_def)
  next
    case False
    have "length ls1 = length ls"
      by (simp add: ls1_def)
    then obtain pl rest where pr: "ls1 = pl # rest" "rest \<noteq> []"
      using False by (cases ls1; cases "tl ls1") auto
    have ok: "orp_ok pl" "list_all orp_ok rest"
    proof -
      have "list_all orp_ok ls1"
        using gs(1) by (auto simp: list_all2_conv_all_nth list_all_length or_list_def)
      then show "orp_ok pl" "list_all orp_ok rest"
        by (simp_all add: pr)
    qed
    obtain new where new: "match_loop phrase (int (length (orgroups tg)) + slack tg) gpostobytes grpidx pl rest 0 tboffs = tboffs @ new"
      "list_all (match_entry phrase (int (length (orgroups tg)) + slack tg) gpostobytes grpidx (plists pl # map plists rest)) new"
      using match_loop_sound [OF ok pr(2) assms(3) refl] by blast
    have l2p: "list_all2 (\<lambda>g pss. set (concat pss) = {p. term_at inplists g p}) gs (plists pl # map plists rest)"
    proof -
      have "list_all2 (\<lambda>g o1. set (concat (plists o1)) = {p. term_at inplists g p}) gs ls1"
        using gs(1) by (rule list_all2_mono) (simp add: or_list_def)
      then show ?thesis
        by (simp only: list.map(2) [symmetric] pr(1) [symmetric] list_all2_map2)
    qed
    have "group_match tg inplists gpostobytes grpidx e"
      if "match_entry phrase (int (length (orgroups tg)) + slack tg) gpostobytes grpidx (plists pl # map plists rest) e" for e
    proof -
      from that obtain ps b1 b2 where e: "ps \<noteq> []" "chosen phrase (int (length (orgroups tg)) + slack tg) ps"
        "list_all2 (\<lambda>pss p. 0 \<le> p \<and> nat p \<in> set (concat pss)) (plists pl # map plists rest) ps"
        "gpostobytes (nat (min (hd ps) (last ps))) = Some b1" "gpostobytes (nat (max (hd ps) (last ps))) = Some b2"
        "e = ((fst b1, snd b2), grpidx)"
        unfolding match_entry_def by blast
      have "list_all2 (\<lambda>g p. 0 \<le> p \<and> term_at inplists g (nat p)) gs ps"
        by (rule list_all2_trans [OF _ l2p e(3)]) auto
      then show ?thesis
        using e gs(2,3) unfolding group_match_def phrase_def by blast
    qed
    then have "list_all (group_match tg inplists gpostobytes grpidx) new"
      using new(2) by (auto simp: list_all_iff)
    moreover have "out = tboffs @ new"
      using assms(2,4) Some False new(1) pr(1)
      by (auto simp: matchGroup_def Let_def phrase_def ls1_def)
    ultimately show ?thesis
      by blast
  qed
qed

text \<open>
  The same with what the region is: it goes from the position of the first to that of the last group in the order of the
  search, whichever comes first in the text, and these are the ends of the match for a phrase and for two groups.
\<close>

definition region_match ::
  "TermGroup \<Rightarrow> (string \<Rightarrow> nat list option) \<Rightarrow> (nat \<Rightarrow> (nat \<times> nat) option) \<Rightarrow> nat \<Rightarrow> GroupMatchEntry \<Rightarrow> bool" where
  "region_match tg inplists gpostobytes grpidx e \<longleftrightarrow>
     (\<exists>gs ps b1 b2. mset gs = mset (orgroups tg) \<and> (tg_kind tg = TGK_PHRASE \<longrightarrow> gs = orgroups tg) \<and> ps \<noteq> [] \<and>
        list_all2 (\<lambda>g p. 0 \<le> p \<and> term_at inplists g (nat p)) gs ps \<and>
        chosen (tg_kind tg = TGK_PHRASE) (int (length (orgroups tg)) + slack tg) ps \<and>
        gpostobytes (nat (min (hd ps) (last ps))) = Some b1 \<and> gpostobytes (nat (max (hd ps) (last ps))) = Some b2 \<and>
        e = ((fst b1, snd b2), grpidx) \<and>
        (tg_kind tg = TGK_PHRASE \<or> length (orgroups tg) = 2 \<longrightarrow>
          min (hd ps) (last ps) = Min (set ps) \<and> max (hd ps) (last ps) = Max (set ps)))"

lemma sorted_ends: "sorted_wrt (<) (ps :: int list) \<Longrightarrow> ps \<noteq> [] \<Longrightarrow> hd ps = Min (set ps) \<and> last ps = Max (set ps)"
proof (induction ps)
  case (Cons p ps)
  show ?case
  proof (cases "ps = []")
    case False
    then have e: "hd ps = Min (set ps)" "last ps = Max (set ps)" and "p < hd ps" "p < last ps"
      using Cons by auto
    then have "p \<le> Min (set ps)" "p \<le> Max (set ps)"
      by simp_all
    then show ?thesis
      using False e by (simp add: min.absorb1 max.absorb2 del: Min_ge_iff Max_ge_iff)
  qed simp
qed simp

lemma group_match_region: "group_match tg inplists gpostobytes grpidx e \<Longrightarrow> region_match tg inplists gpostobytes grpidx e"
proof -
  assume "group_match tg inplists gpostobytes grpidx e"
  then obtain gs ps b1 b2 where m: "mset gs = mset (orgroups tg)" "tg_kind tg = TGK_PHRASE \<longrightarrow> gs = orgroups tg" "ps \<noteq> []"
    "list_all2 (\<lambda>g p. 0 \<le> p \<and> term_at inplists g (nat p)) gs ps"
    "chosen (tg_kind tg = TGK_PHRASE) (int (length (orgroups tg)) + slack tg) ps"
    "gpostobytes (nat (min (hd ps) (last ps))) = Some b1" "gpostobytes (nat (max (hd ps) (last ps))) = Some b2"
    "e = ((fst b1, snd b2), grpidx)"
    unfolding group_match_def by blast
  have phrase: "min (hd ps) (last ps) = Min (set ps) \<and> max (hd ps) (last ps) = Max (set ps)" if "tg_kind tg = TGK_PHRASE"
  proof -
    have ends: "hd ps = Min (set ps)" "last ps = Max (set ps)"
      using sorted_ends [of ps] m(3,5) that by (simp_all add: chosen_def)
    moreover have "Min (set ps) \<le> Max (set ps)"
      using m(3) by simp
    ultimately show ?thesis
      by simp
  qed
  have two: "min (hd ps) (last ps) = Min (set ps) \<and> max (hd ps) (last ps) = Max (set ps)" if "length (orgroups tg) = 2"
  proof -
    have "length ps = 2"
      using list_all2_lengthD [OF m(4)] that mset_eq_length [OF m(1)] by simp
    then obtain x y where "ps = [x, y]"
      by (auto simp: length_Suc_conv numeral_2_eq_2)
    then show ?thesis
      by simp
  qed
  show ?thesis
    unfolding region_match_def using m
    by (intro exI [of _ gs] exI [of _ ps] exI [of _ b1] exI [of _ b2] conjI impI) (use phrase two in \<open>auto simp only:\<close>)
qed

text \<open>
  C14. Every match that is reported for a group of terms is one: its terms are at positions that are all within the window, in order for
  a phrase. Its bytes are those from the position of the first to the position of the last of the lists as they are searched, which are the ends of the
  match for a phrase and for two lists, but not always for more; the matches that were already there stay.
\<close>

theorem match_group_sound:
  assumes "plists_sorted inplists" "tg = index_term_groups hldata ! grpidx" "1 \<le> int (length (orgroups tg)) + slack tg"
    "matchGroup hldata grpidx inplists gpostobytes tboffs = (ok, out)"
  shows "\<exists>new. out = tboffs @ new \<and> list_all (region_match tg inplists gpostobytes grpidx) new"
proof -
  obtain new where "out = tboffs @ new" "list_all (group_match tg inplists gpostobytes grpidx) new"
    using matchGroup_sound [OF assms] by blast
  then show ?thesis
    using group_match_region by (auto simp: list_all_iff)
qed

definition group_of :: "TGK \<Rightarrow> int \<Rightarrow> string list \<Rightarrow> HighlightData" where
  "group_of k sl ts = hl_empty\<lparr>index_term_groups := [\<lparr>tg_term = [], orgroups = map (\<lambda>t. [t]) ts, slack = sl, grpsugidx = 0,
     tg_kind = k\<rparr>]\<rparr>"

definition ab_plists :: "nat list \<Rightarrow> nat list \<Rightarrow> nat list \<Rightarrow> string \<Rightarrow> nat list option" where
  "ab_plists a b c t = (if t = ''a'' then Some a else if t = ''b'' then Some b else if t = ''c'' then Some c else None)"

definition two_bytes :: "nat \<Rightarrow> (nat \<times> nat) option" where
  "two_bytes p = (if p < 1000 then Some (2 * p, 2 * p + 1) else None)"

lemma ab_plists_sorted: "sorted a \<Longrightarrow> sorted b \<Longrightarrow> sorted c \<Longrightarrow> plists_sorted (ab_plists a b c)"
  by (auto simp: plists_sorted_def ab_plists_def)

theorem match_group_sound_witness:
  "\<exists>new. snd (matchGroup (group_of TGK_PHRASE 0 [''a'', ''b'']) 0 (ab_plists [1, 7] [8] []) two_bytes [((0, 1), 3)]) =
     [((0, 1), 3)] @ new \<and>
     list_all (region_match (index_term_groups (group_of TGK_PHRASE 0 [''a'', ''b'']) ! 0) (ab_plists [1, 7] [8] []) two_bytes 0) new"
proof -
  let ?h = "group_of TGK_PHRASE 0 [''a'', ''b'']"
  have "plists_sorted (ab_plists [1, 7] [8] [])"
    by (rule ab_plists_sorted) simp_all
  from match_group_sound [OF this refl, of ?h 0 two_bytes "[((0, 1), 3)]", OF _ prod.collapse [symmetric]]
  show ?thesis
    by (simp add: group_of_def)
qed

section \<open>Groups of two terms\<close>

lemma two_test:
  assumes "orp_ok q" "y \<in> orp_rest q" "int y < INT_MAX" "minpos \<le> 0" "0 \<le> v" "(if isphrase then v + 1 else v + 1 - window) \<le> int y"
  shows "\<exists>q1 sp ep. do_proximity_test isphrase window minpos 0 v v [q] sp0 ep0 = (int y \<le> v + window - 1 \<or> fst (orp_value q1) \<le> v + window - 1, [q1], sp, ep) \<and>
    orp_ok q1 \<and> y \<in> orp_rest q1 \<and> plists q1 = plists q"
proof -
  define act where "act = (if isphrase then v + 1 else v + 1 - window)"
  define q0 where "q0 = prox_skip (if act < minpos then minpos else act) q"
  have q0: "orp_ok q0" "plists q0 = plists q" "y \<in> orp_rest q0"
    using prox_skip_spec [OF assms(1)] assms(2,4,6) by (auto simp: q0_def act_def)
  obtain n q1 where r: "orp_value q0 = (n, q1)"
    by fastforce
  note spec = orp_value_spec [OF q0(1) r]
  have n: "n \<noteq> -1" "n \<le> int y"
    using spec(4) [OF _ q0(3)] spec(5) q0(3) assms(3) by (cases "n = -1"; auto)+
  have "indexes q1 = indexes q0"
    using r by (auto simp: orp_value_def split: prod.splits option.splits)
  then have v1: "fst (orp_value q1) = n"
    using r spec(3) by (auto simp: orp_value_def split: prod.splits option.splits)
  have "do_proximity_test isphrase window minpos 0 v v [q] sp0 ep0 = prox_loop None window q0 [] v v sp0 ep0"
    by (simp add: prox_list_def q0_def act_def Let_def)
  also have "\<dots> = (if v + window - 1 < n then (False, [q1], sp0, ep0) else (True, [q1], min sp0 n, max ep0 n))"
    using n(1) by (subst prox_loop.simps) (simp add: r Let_def)
  finally show ?thesis
    using spec(1,2,3) q0 n v1 by auto
qed

lemma match_loop_two:
  assumes "orp_ok pl" "orp_ok q" "x \<in> orp_rest pl" "y \<in> orp_rest q" "int y < INT_MAX" "1 \<le> window"
    "chosen isphrase window [int x, int y]" "\<forall>p \<in> set (concat (plists pl)) \<union> set (concat (plists q)). int p < INT_MAX \<and> gpostobytes p \<noteq> None"
  shows "match_loop isphrase window gpostobytes grpidx pl [q] 0 [] \<noteq> []"
  using assms
proof (induction "orp_left pl" arbitrary: pl q rule: less_induct)
  case less
  obtain v pl1 where r: "orp_value pl = (v, pl1)"
    by fastforce
  note spec = orp_value_spec [OF less.prems(1) r]
  have "int x < INT_MAX"
    using less.prems(1,3,8) orp_rest_all by blast
  then have "v \<noteq> -1"
    using spec(4) [OF _ less.prems(3)] by (cases "v = -1") auto
  then have v: "0 \<le> v" "nat v \<in> orp_rest pl" "v \<le> int x" "v < INT_MAX"
    using spec(5) less.prems(3) by auto
  have win: "int y - int x < window" "int x - int y < window" "isphrase \<Longrightarrow> x < y"
    using less.prems(7) by (auto simp: chosen_def)
  have "(if isphrase then v + 1 else v + 1 - window) \<le> int y"
    using win v(3) by (auto split: if_splits)
  from two_test [OF less.prems(2,4,5) order_refl v(1) this, of "INT_MAX" 0]
  obtain q1 sp ep ok where t: "do_proximity_test isphrase window 0 0 v v [q] (INT_MAX) 0 = (ok, [q1], sp, ep)"
    and ok: "ok \<longleftrightarrow> int y \<le> v + window - 1 \<or> fst (orp_value q1) \<le> v + window - 1"
    and q1: "orp_ok q1" "y \<in> orp_rest q1" "plists q1 = plists q"
    by blast
  show ?case
  proof (cases ok)
    case True
    have "prox_ok isphrase window 0 v v [plists q] (INT_MAX) 0 (ok, [q1], sp, ep)"
      using do_proximity_test_ok [of "[q]" 0 window isphrase 0 v v "INT_MAX" 0] less.prems(2,6) t by simp
    then obtain ps where ps: "fits isphrase window 0 v v [plists q] ps" "sp = min (INT_MAX) (last ps)" "ep = max 0 (last ps)"
      using True by (auto simp: prox_ok_def)
    then have "list_all2 (\<lambda>pss p. 0 \<le> p \<and> nat p \<in> set (concat pss)) [plists q] ps"
      by (simp add: fits_def)
    then obtain z where "ps = [z]" "0 \<le> z" "nat z \<in> set (concat (plists q))"
      by (auto simp only: list_all2_Cons1 list_all2_Nil)
    then have z: "0 \<le> z" "nat z \<in> set (concat (plists q))" "sp = min (INT_MAX) z" "ep = max 0 z"
      using ps(2,3) by simp_all
    then have s: "min sp v \<in> {z, v}" "max ep v \<in> {z, v}"
      using v less.prems(8) by (auto simp: min_def max_def)
    have bytes: "gpostobytes (nat w) \<noteq> None" if "w \<in> {z, v}" for w
      using that z v(2) less.prems(1,8) orp_rest_all by blast
    obtain b1 b2 where b: "gpostobytes (nat (min sp v)) = Some b1" "gpostobytes (nat (max ep v)) = Some b2"
      using bytes [OF s(1)] bytes [OF s(2)] by auto
    have "\<exists>mp. match_loop isphrase window gpostobytes grpidx pl [q] 0 [] =
        match_loop isphrase window gpostobytes grpidx (orp_step pl1) [q1] mp [((fst b1, snd b2), grpidx)]"
      using \<open>v \<noteq> -1\<close> True t b by (subst match_loop.simps) (auto simp: r)
    moreover have "match_loop isphrase window gpostobytes grpidx (orp_step pl1) [q1] mp [((fst b1, snd b2), grpidx)] \<noteq> []" for mp
    proof -
      have "orp_ok (orp_step pl1)" "list_all orp_ok [q1]"
        using spec(6) \<open>v \<noteq> -1\<close> q1(1) by auto
      from match_loop_sound [OF this _ less.prems(6) refl, of isphrase gpostobytes grpidx mp "[((fst b1, snd b2), grpidx)]"]
      show ?thesis
        by auto
    qed
    ultimately show ?thesis
      by metis
  next
    case False
    then have "nat v \<noteq> x"
      using ok win(1) v(1) by auto
    then have "x \<in> orp_rest (orp_step pl1)"
      using spec(6) \<open>v \<noteq> -1\<close> less.prems(3) by blast
    moreover have "match_loop isphrase window gpostobytes grpidx pl [q] 0 [] =
        match_loop isphrase window gpostobytes grpidx (orp_step pl1) [q1] 0 []"
      using \<open>v \<noteq> -1\<close> False t by (subst match_loop.simps) (simp add: r)
    moreover have "orp_ok (orp_step pl1)" "plists (orp_step pl1) = plists pl"
      using spec(6) \<open>v \<noteq> -1\<close> by auto
    ultimately show ?thesis
      using less.hyps [of "orp_step pl1" q1] orp_value_left [OF r \<open>v \<noteq> -1\<close>] q1 less.prems(5-8) by simp
  qed
qed

lemma chosen_swap: "chosen False window [x, y] \<longleftrightarrow> chosen False window [y, x]"
  by (auto simp: chosen_def)

text \<open>
  C13. For a group of two terms the search is exact: it reports a match if and only if there are positions of the two, within the
  window, and in order for a phrase.
\<close>

theorem match_two_exact:
  assumes "plists_sorted inplists" "tg = index_term_groups hldata ! grpidx" "orgroups tg = [g1, g2]" "- 1 \<le> slack tg"
    "\<forall>g p. term_at inplists g p \<longrightarrow> int p < INT_MAX \<and> gpostobytes p \<noteq> None"
  shows "fst (matchGroup hldata grpidx inplists gpostobytes []) \<longleftrightarrow>
    (\<exists>x y. term_at inplists g1 x \<and> term_at inplists g2 y \<and> chosen (tg_kind tg = TGK_PHRASE) (2 + slack tg) [int x, int y])"
proof
  assume m: "fst (matchGroup hldata grpidx inplists gpostobytes [])"
  obtain ok out where r: "matchGroup hldata grpidx inplists gpostobytes [] = (ok, out)"
    by fastforce
  have "1 \<le> int (length (orgroups tg)) + slack tg"
    using assms(3,4) by simp
  from matchGroup_sound [OF assms(1,2) this r] have "list_all (group_match tg inplists gpostobytes grpidx) out"
    by simp
  moreover have "out \<noteq> []"
    using m r by (auto simp: matchGroup_def Let_def split: option.splits if_splits)
  ultimately obtain e where "group_match tg inplists gpostobytes grpidx e"
    by (cases out) auto
  then obtain gs ps where gs: "mset gs = mset (orgroups tg)" "tg_kind tg = TGK_PHRASE \<longrightarrow> gs = orgroups tg"
    "list_all2 (\<lambda>g p. 0 \<le> p \<and> term_at inplists g (nat p)) gs ps"
    "chosen (tg_kind tg = TGK_PHRASE) (int (length (orgroups tg)) + slack tg) ps"
    unfolding group_match_def by blast
  have "length gs = length (orgroups tg)"
    using gs(1) by (rule mset_eq_length)
  then obtain a b where ab: "gs = [a, b]"
    using assms(3) by (auto simp: length_Suc_conv)
  then obtain p q where pq: "ps = [p, q]" "0 \<le> p" "0 \<le> q" "term_at inplists a (nat p)" "term_at inplists b (nat q)"
    using gs(3) by (auto simp: list_all2_Cons1)
  have "a = g1 \<and> b = g2 \<or> a = g2 \<and> b = g1 \<and> tg_kind tg \<noteq> TGK_PHRASE"
    using gs(1,2) ab assms(3) by (auto simp: add_eq_conv_ex add_mset_eq_singleton_iff)
  then show "\<exists>x y. term_at inplists g1 x \<and> term_at inplists g2 y \<and> chosen (tg_kind tg = TGK_PHRASE) (2 + slack tg) [int x, int y]"
  proof
    assume "a = g1 \<and> b = g2"
    then show ?thesis
      using pq gs(4) assms(3) by (intro exI [of _ "nat p"] exI [of _ "nat q"]) simp
  next
    assume "a = g2 \<and> b = g1 \<and> tg_kind tg \<noteq> TGK_PHRASE"
    then show ?thesis
      using pq gs(4) assms(3) chosen_swap [of _ p q] by (intro exI [of _ "nat q"] exI [of _ "nat p"]) simp
  qed
next
  assume "\<exists>x y. term_at inplists g1 x \<and> term_at inplists g2 y \<and> chosen (tg_kind tg = TGK_PHRASE) (2 + slack tg) [int x, int y]"
  then obtain x y where xy: "term_at inplists g1 x" "term_at inplists g2 y"
    "chosen (tg_kind tg = TGK_PHRASE) (2 + slack tg) [int x, int y]"
    by blast
  obtain ls where ls: "or_lists inplists [g1, g2] = Some ls"
    using or_lists_None [of inplists "[g1, g2]"] xy by (cases "or_lists inplists [g1, g2]") auto
  have "list_all2 (or_list inplists) [g1, g2] ls"
    using or_lists_ok [OF assms(1) ls] .
  then obtain o1 o2 where o: "ls = [o1, o2]" "or_list inplists g1 o1" "or_list inplists g2 o2"
    by (auto simp: list_all2_Cons1)
  have run: "match_loop (tg_kind tg = TGK_PHRASE) (2 + slack tg) gpostobytes grpidx p [q] 0 [] \<noteq> []"
    if "or_list inplists g p" "or_list inplists h q" "term_at inplists g z" "term_at inplists h w"
      "chosen (tg_kind tg = TGK_PHRASE) (2 + slack tg) [int z, int w]" for p q g h z w
    using that assms(4,5) by (intro match_loop_two [of p q z w]) (auto simp: or_list_def)
  have swap: "chosen (tg_kind tg = TGK_PHRASE) (2 + slack tg) [int y, int x]" if "tg_kind tg \<noteq> TGK_PHRASE"
    using xy(3) that chosen_swap by simp
  show "fst (matchGroup hldata grpidx inplists gpostobytes [])"
    using run [OF o(2,3) xy] run [OF o(3,2) xy(2,1) swap] assms(2,3) ls o(1)
    by (cases "tg_kind tg = TGK_PHRASE"; cases "totalsize o1 \<le> totalsize o2") (auto simp: matchGroup_def Let_def)
qed

theorem match_two_exact_witness:
  "fst (matchGroup (group_of TGK_NEAR 1 [''a'', ''b'']) 0 (ab_plists [1, 9] [7] []) two_bytes []) \<longleftrightarrow>
    (\<exists>x y. term_at (ab_plists [1, 9] [7] []) [''a''] x \<and> term_at (ab_plists [1, 9] [7] []) [''b''] y \<and> chosen False 3 [int x, int y])"
proof -
  let ?h = "group_of TGK_NEAR 1 [''a'', ''b'']"
  let ?tg = "index_term_groups ?h ! 0"
  have "plists_sorted (ab_plists [1, 9] [7] [])"
    by (rule ab_plists_sorted) simp_all
  moreover have "orgroups ?tg = [[''a''], [''b'']]" "slack ?tg = 1" "tg_kind ?tg = TGK_NEAR"
    by (simp_all add: group_of_def)
  moreover have "int p < INT_MAX \<and> two_bytes p \<noteq> None" if "term_at (ab_plists [1, 9] [7] []) g p" for g p
    using that by (auto simp: term_at_def ab_plists_def two_bytes_def INT_MAX_def split: if_splits)
  ultimately show ?thesis
    using match_two_exact [of "ab_plists [1, 9] [7] []" ?tg ?h 0 "[''a'']" "[''b'']" two_bytes] by simp
qed

section \<open>Limits\<close>

text \<open>
  Groups of three terms. A position of the second list that was tried with the first position of the first list is gone for the
  next one: the terms at 4, 3 and 5 are not found. Only the first and the last list give the region: the
  term at 3 is outside the region of the match at 5, 3 and 4. The first list is not held to the
  end of the previous match: two regions overlap.
\<close>

lemma match_three_missed:
  "matchGroup (group_of TGK_NEAR 0 [''a'', ''b'', ''c'']) 0 (ab_plists [1, 4] [3, 50] [5, 60, 70]) two_bytes [] = (False, [])"
  "chosen False 3 [4, 3, 5]"
  by code_simp+

lemma match_three_region:
  "matchGroup (group_of TGK_NEAR 0 [''a'', ''b'', ''c'']) 0 (ab_plists [5] [3] [4]) two_bytes [] = (True, [((8, 11), 0)])"
  by code_simp

lemma match_overlap:
  "matchGroup (group_of TGK_PHRASE 1 [''a'', ''b'']) 0 (ab_plists [1, 2] [3, 4] []) two_bytes [] =
     (True, [((2, 7), 0), ((4, 9), 0)])"
  by code_simp

section \<open>Merging of query data\<close>

definition hl_wf :: "HighlightData \<Rightarrow> bool" where
  "hl_wf h \<longleftrightarrow> list_all (\<lambda>g. grpsugidx g < length (ugroups h)) (index_term_groups h)"

text \<open>
  C15. Merging keeps the data well-formed: every group refers to an existing user group, the one it referred to before; no user term or
  expansion is lost, and the expansions that were there have precedence.
\<close>

theorem hl_append_wf:
  assumes "hl_wf h" "hl_wf hl"
  shows "hl_wf (hl_append h hl) \<and>
    map (\<lambda>g. (ugroups (hl_append h hl) ! grpsugidx g, orgroups g)) (index_term_groups (hl_append h hl)) =
      map (\<lambda>g. (ugroups h ! grpsugidx g, orgroups g)) (index_term_groups h) @
      map (\<lambda>g. (ugroups hl ! grpsugidx g, orgroups g)) (index_term_groups hl) \<and>
    hl_terms h \<subseteq>\<^sub>m hl_terms (hl_append h hl) \<and> uterms (hl_append h hl) = uterms h \<union> uterms hl"
  using assms by (auto simp: hl_wf_def hl_append_def list_all_iff nth_append map_le_def)

theorem hl_append_wf_witness:
  "hl_wf (hl_append (hl_empty\<lparr>ugroups := [[''x'']]\<rparr>) ((group_of TGK_NEAR 0 [''a''])\<lparr>ugroups := [[''a'']]\<rparr>))"
  by (rule hl_append_wf [THEN conjunct1]) (simp_all add: hl_wf_def hl_empty_def group_of_def)

end
