(* ===== verification/Syn_Groups.thy ===== *)
theory Syn_Groups
  imports Conf_Write Str_Tokens
begin

text \<open>
  The groups of synonyms (\<open>common/syngroups.cpp\<close>): the parser of the file, the map from a term to its group, and the synonyms of
  several words, for the generation of terms. The canonical form of a path, the properties of a file (modification time
  and size) and its contents are functions. Reading does not fail.
\<close>

record SynGroups =
  sg_ok :: bool
  sg_terms :: "string \<rightharpoonup> nat"
  sg_groups :: "string list list"
  sg_multiwords :: "string list"
  sg_maxlen :: nat
  sg_path :: string
  sg_st :: "int \<times> int"

definition sg_clear :: SynGroups where
  "sg_clear = \<lparr>sg_ok = False, sg_terms = Map.empty, sg_groups = [], sg_multiwords = [], sg_maxlen = 0, sg_path = [], sg_st = (0, 0)\<rparr>"

definition sg_setpath ::
  "(string \<Rightarrow> string) \<Rightarrow> (string \<Rightarrow> (int \<times> int) option) \<Rightarrow> string \<Rightarrow> SynGroups \<Rightarrow> SynGroups" where
  "sg_setpath canon props fn g =
     (let p = canon fn in g\<lparr>sg_path := p, sg_st := (case props p of None \<Rightarrow> sg_st g | Some st \<Rightarrow> st)\<rparr>)"

definition sg_samefile ::
  "(string \<Rightarrow> string) \<Rightarrow> (string \<Rightarrow> (int \<times> int) option) \<Rightarrow> string \<Rightarrow> SynGroups \<Rightarrow> bool" where
  "sg_samefile canon props fn g \<longleftrightarrow>
     (let p1 = canon fn in sg_path g = p1 \<and> (case props p1 of None \<Rightarrow> False | Some st1 \<Rightarrow> st1 = sg_st g))"

text \<open>A term: white space inside it becomes one blank.\<close>

definition sg_word :: "string \<Rightarrow> string" where
  "sg_word w =
     (if find_first_of w [blank, tab] 0 \<noteq> None
      then tokensToString (stringToTokens w [] [blank, tab] True False) [blank] else w)"

text \<open>A line that is complete; the messages about bad lines are dropped.\<close>

definition sg_line :: "string \<Rightarrow> SynGroups \<Rightarrow> SynGroups" where
  "sg_line line g =
     (case stringToStrings line [] of
        (ok, words) \<Rightarrow>
          if \<not> ok \<or> length words \<le> 1 then g
          else let ws = map sg_word words
            in g\<lparr>sg_terms := fold (\<lambda>w m. m(w \<mapsto> length (sg_groups g))) ws (sg_terms g), sg_groups := sg_groups g @ [ws]\<rparr>)"

definition sg_trim :: "string \<Rightarrow> string" where
  "sg_trim l = trimstring l [blank, tab]"

lemma sg_trim_length: "length (sg_trim l) \<le> length l"
  by (auto simp: sg_trim_def trimstring_def ltrimstring_dropWhile rtrimstring_dropWhile
      intro!: order_trans [OF length_dropWhile_le])

text \<open>The loop: the text that is left, the line so far, and whether the next line continues it.\<close>

function sg_loop :: "string \<Rightarrow> string \<Rightarrow> bool \<Rightarrow> SynGroups \<Rightarrow> SynGroups" where
  "sg_loop rest line appending g =
     (let (cline, rest', good) = get_line rest;
          l = sg_trim (if appending then line @ chomp cline else chomp cline)
      in if l = [] \<or> hd l = CHR ''#'' then (if \<not> good then g else sg_loop rest' l appending g)
         else if last l = backslash then sg_loop rest' (butlast l) True g
         else sg_loop rest' l False (sg_line l g))"
  by pat_completeness auto

lemma sg_loop_decreases:
  assumes g: "get_line rest = (cline, rest', good)"
  shows "sg_trim (line @ chomp cline) \<noteq> [] \<Longrightarrow> length rest' < length rest \<or>
      length rest' = length rest \<and> length (sg_trim (line @ chomp cline)) \<le> length line"
    and "sg_trim (chomp cline) \<noteq> [] \<Longrightarrow> length rest' < length rest"
  using get_line_rest [OF g] sg_trim_length [of line] sg_trim_length [of "[]"] by auto

termination sg_loop
  by (relation "measures [\<lambda>(rest, line, appending, g). length rest,
      \<lambda>(rest, line, appending, g). if appending then Suc (length line) else 0]")
    (auto dest!: sym [of _ "get_line _"] dest: get_line_good sg_loop_decreases)

declare sg_loop.simps [simp del]

definition sg_parse :: "string \<Rightarrow> SynGroups" where
  "sg_parse text = sg_loop text [] False sg_clear"

text \<open>The terms of several words, and the number of words of the longest.\<close>

definition sg_multi :: "SynGroups \<Rightarrow> SynGroups" where
  "sg_multi g =
     (let ms = filter (\<lambda>t. blank \<in> set t) (concat (sg_groups g))
      in g\<lparr>sg_multiwords := remdups ms, sg_maxlen := fold (\<lambda>t n. max n (length (filter ((=) blank) t) + 1)) ms 0\<rparr>)"

definition sg_setfile ::
  "(string \<Rightarrow> string) \<Rightarrow> (string \<Rightarrow> (int \<times> int) option) \<Rightarrow> (string \<Rightarrow> string option) \<Rightarrow> string \<Rightarrow> SynGroups \<Rightarrow> bool \<times> SynGroups" where
  "sg_setfile canon props content fn g =
     (if fn = [] then (True, sg_clear)
      else if sg_samefile canon props fn g then (True, g)
      else case content fn of
          None \<Rightarrow> (False, g)
        | Some text \<Rightarrow> (True, sg_setpath canon props fn ((sg_multi (sg_parse text))\<lparr>sg_ok := True\<rparr>)))"

definition getgroup :: "SynGroups \<Rightarrow> string \<Rightarrow> string list" where
  "getgroup g term =
     (if \<not> sg_ok g then []
      else case sg_terms g term of
          None \<Rightarrow> []
        | Some idx \<Rightarrow> if length (sg_groups g) \<le> idx then [] else sg_groups g ! idx)"

text \<open>The words of a synonym, with a blank between them.\<close>

fun join_words :: "string list \<Rightarrow> string" where
  "join_words [] = []"
| "join_words [w] = w"
| "join_words (w # ws) = w @ [blank] @ join_words ws"

lemma join_words_snoc: "ws \<noteq> [] \<Longrightarrow> join_words (ws @ [w]) = join_words ws @ [blank] @ w"
  by (induction ws rule: join_words.induct) simp_all

section \<open>Lookups\<close>

text \<open>The index of the last group that holds a term.\<close>

definition last_group :: "string list list \<Rightarrow> string \<Rightarrow> nat option" where
  "last_group gs t = find_last_idx (\<lambda>g. t \<in> set g) gs"

definition sg_inv :: "SynGroups \<Rightarrow> bool" where
  "sg_inv g \<longleftrightarrow> sg_terms g = last_group (sg_groups g) \<and> list_all (\<lambda>ws. 2 \<le> length ws) (sg_groups g)"

lemma find_last_idx_snoc: "find_last_idx P (xs @ [x]) = (if P x then Some (length xs) else find_last_idx P xs)"
  by (induction xs) (auto split: option.split)

lemma fold_map_upd: "fold (\<lambda>w m. m(w \<mapsto> n)) ws m t = (if t \<in> set ws then Some n else m t)"
  by (induction ws arbitrary: m) auto

lemma sg_line_inv: "sg_inv g \<Longrightarrow> sg_inv (sg_line l g)"
  by (auto simp: sg_inv_def sg_line_def last_group_def find_last_idx_snoc fold_map_upd fun_eq_iff Let_def split: prod.split)

lemma sg_loop_inv: "sg_inv g \<Longrightarrow> sg_inv (sg_loop rest line appending g)"
proof (induction rest line appending g rule: sg_loop.induct)
  case (1 rest line appending g)
  obtain cline rest' good where gl: "get_line rest = (cline, rest', good)"
    by (metis prod_cases3)
  define l where "l = sg_trim (if appending then line @ chomp cline else chomp cline)"
  note IH = "1.IH" [OF gl [symmetric] refl refl, folded l_def]
  show ?case
    using IH "1.prems" sg_line_inv
    by (subst sg_loop.simps) (cases "l = []"; simp add: gl l_def [symmetric] Let_def)
qed

lemma sg_parse_inv: "sg_inv (sg_parse text)"
  unfolding sg_parse_def by (rule sg_loop_inv) (simp add: sg_inv_def sg_clear_def last_group_def fun_eq_iff)

section \<open>Files\<close>

text \<open>
  A file as it is meant: comments, blank lines, and groups of terms, each written as a list of quoted strings that may be broken
  anywhere behind its first character by a backslash at the end of the line. A term of several words is meant with one blank between them.
\<close>

datatype syn_item = SynComment string string | SynBlank string | SynGroup "string list" "string list"

fun syn_lines :: "string list \<Rightarrow> string" where
  "syn_lines [] = []"
| "syn_lines [p] = p @ [newline]"
| "syn_lines (p # ps) = p @ [backslash, newline] @ syn_lines ps"

fun syn_file :: "syn_item \<Rightarrow> string" where
  "syn_file (SynComment b c) = b @ [CHR ''#''] @ c @ [newline]"
| "syn_file (SynBlank b) = b @ [newline]"
| "syn_file (SynGroup ws ps) = syn_lines ps"

definition line_ok :: "string \<Rightarrow> bool" where
  "line_ok t \<longleftrightarrow> t \<noteq> [] \<and> hd t \<notin> {blank, tab, CHR ''#''} \<and> last t \<notin> {blank, tab, backslash} \<and> newline \<notin> set t \<and> cret \<notin> set t"

fun item_ok :: "syn_item \<Rightarrow> bool" where
  "item_ok (SynComment b c) \<longleftrightarrow> set b \<subseteq> {blank, tab} \<and> newline \<notin> set c \<and> cret \<notin> set c"
| "item_ok (SynBlank b) \<longleftrightarrow> set b \<subseteq> {blank, tab}"
| "item_ok (SynGroup ws ps) \<longleftrightarrow> 2 \<le> length ws \<and> list_all token_survives ws \<and> ps \<noteq> [] \<and> hd ps \<noteq> [] \<and>
     concat ps = stringsToString ws \<and> line_ok (stringsToString ws)"

definition syn_term :: "string \<Rightarrow> string" where
  "syn_term w = (if blank \<in> set w \<or> tab \<in> set w then join_words (words_by (\<lambda>c. c = blank \<or> c = tab) w) else w)"

fun item_group :: "syn_item \<Rightarrow> string list list" where
  "item_group (SynGroup ws ps) = [map syn_term ws]"
| "item_group _ = []"

lemma join_words_Cons: "join_words (w # ws) = w @ concat (map ((#) blank) ws)"
  by (induction ws arbitrary: w) simp_all

lemma tokensToString_from_concat:
  "out \<noteq> [] \<Longrightarrow> tokensToString_from sep out ws = out @ concat (map ((@) sep) ws)"
  by (induction ws arbitrary: out) simp_all

lemma tokensToString_join: "list_all (\<lambda>w. w \<noteq> []) ws \<Longrightarrow> tokensToString ws [blank] = join_words ws"
proof (cases ws)
  case (Cons w us)
  assume "list_all (\<lambda>w. w \<noteq> []) ws"
  moreover have "(@) [blank] = (#) blank"
    by (simp add: fun_eq_iff)
  ultimately show ?thesis
    using Cons by (simp add: tokensToString_def tokensToString_from_concat join_words_Cons)
qed (simp add: tokensToString_def)

lemma sg_word_term: "sg_word w = syn_term w"
proof -
  let ?ws = "words_by (\<lambda>c. c = blank \<or> c = tab) w"
  have "list_all (\<lambda>w. w \<noteq> []) ?ws"
    using words_no_delim by (auto simp: list_all_iff)
  then show ?thesis
    by (auto simp: sg_word_def syn_term_def find_first_of_None stringToTokens_words_by tokensToString_join)
qed

lemma chomp_clean: "newline \<notin> set x \<Longrightarrow> cret \<notin> set x \<Longrightarrow> chomp x = x"
  by (rule chomp_id) (metis last_in_set)

lemma sg_trim_ends: "l = [] \<or> hd l \<notin> {blank, tab} \<and> last l \<notin> {blank, tab} \<Longrightarrow> sg_trim l = l"
  unfolding sg_trim_def by (rule trimstring_ends) simp

lemma sg_trim_blank: "set b \<subseteq> {blank, tab} \<Longrightarrow> sg_trim (b @ l) = sg_trim l"
proof -
  assume b: "set b \<subseteq> {blank, tab}"
  show ?thesis
  proof (cases "set l \<subseteq> {blank, tab}")
    case True
    have "sg_trim x = []" if "set x \<subseteq> {blank, tab}" for x
    proof -
      have "dropWhile (\<lambda>c. c \<in> set [blank, tab]) (rev x) = []"
        using that by (auto simp: dropWhile_eq_Nil_conv)
      then show ?thesis
        by (simp add: sg_trim_def trimstring_def ltrimstring_dropWhile rtrimstring_dropWhile del: dropWhile_eq_Nil_conv)
    qed
    then show ?thesis
      using True b by simp
  next
    case False
    then obtain x where "x \<in> set (rev l)" "\<not> x \<in> set [blank, tab]"
      by auto
    then have r: "dropWhile (\<lambda>c. c \<in> set [blank, tab]) (rev l @ rev b) = dropWhile (\<lambda>c. c \<in> set [blank, tab]) (rev l) @ rev b"
      by (rule dropWhile_append1)
    moreover have "dropWhile (\<lambda>c. c \<in> set [blank, tab]) (b @ y) = dropWhile (\<lambda>c. c \<in> set [blank, tab]) y" for y
      using b by (intro dropWhile_append2) auto
    ultimately show ?thesis
      by (simp add: sg_trim_def trimstring_def ltrimstring_dropWhile rtrimstring_dropWhile del: set_simps)
  qed
qed

text \<open>The loop on the lines of an item.\<close>

lemma sg_loop_blank:
  assumes "set b \<subseteq> {blank, tab}"
  shows "sg_loop (b @ newline # r) line False g = sg_loop r [] False g"
proof -
  have "chomp b = b"
    using assms by (intro chomp_id) (cases b rule: rev_cases; auto)
  moreover have "newline \<notin> set b" "sg_trim b = []"
    using assms sg_trim_blank [OF assms, of "[]"] sg_trim_ends [of "[]"] by auto
  ultimately show ?thesis
    by (subst sg_loop.simps) (simp add: get_line_newline)
qed

lemma sg_loop_comment:
  assumes "set b \<subseteq> {blank, tab}" "newline \<notin> set c" "cret \<notin> set c"
  shows "\<exists>l. sg_loop (b @ CHR ''#'' # c @ newline # r) line False g = sg_loop r l False g"
proof -
  let ?x = "b @ CHR ''#'' # c"
  have x: "newline \<notin> set ?x" "chomp ?x = ?x"
    using assms by (auto intro!: chomp_clean)
  have "dropWhile (\<lambda>c. c \<in> set [blank, tab]) (xs @ [CHR ''#'']) = dropWhile (\<lambda>c. c \<in> set [blank, tab]) xs @ [CHR ''#'']" for xs
    by (induction xs) simp_all
  then have y: "sg_trim (CHR ''#'' # c) = CHR ''#'' # rev (dropWhile (\<lambda>c. c \<in> set [blank, tab]) (rev c))"
    unfolding sg_trim_def trimstring_def ltrimstring_dropWhile rtrimstring_dropWhile by simp
  have "get_line (b @ CHR ''#'' # c @ newline # r) = (?x, r, True)"
    using get_line_newline [OF x(1), of r] by simp
  then show ?thesis
    using x(2) sg_trim_blank [OF assms(1), of "CHR ''#'' # c"] y
    by (subst sg_loop.simps) (auto simp: Let_def)
qed

lemma sg_loop_pieces:
  assumes "line_ok (acc @ concat ps)" "ps \<noteq> []" "acc \<noteq> [] \<or> hd ps \<noteq> []" "app \<or> acc = []"
  shows "sg_loop (syn_lines ps @ r) (if app then acc else line) app g = sg_loop r (acc @ concat ps) False (sg_line (acc @ concat ps) g)"
  using assms
proof (induction ps arbitrary: acc app line rule: syn_lines.induct)
  case (2 p)
  have l: "acc @ p \<noteq> []" "hd (acc @ p) \<notin> {blank, tab, CHR ''#''}" "last (acc @ p) \<notin> {blank, tab, backslash}"
    "newline \<notin> set p" "sg_trim (acc @ p) = acc @ p"
    using 2 by (auto simp: line_ok_def simp del: last_append hd_append intro!: sg_trim_ends)
  moreover have "chomp p = p"
    using 2(1) by (intro chomp_clean) (auto simp: line_ok_def)
  ultimately show ?case
    using 2(4) by (subst sg_loop.simps) (auto simp: get_line_newline Let_def)
next
  case (3 p q ps)
  let ?x = "p @ [backslash]"
  have c: "newline \<notin> set p" "cret \<notin> set p"
    using 3 by (auto simp: line_ok_def)
  have a: "acc @ p \<noteq> []" "hd (acc @ p) \<notin> {blank, tab, CHR ''#''}"
    using 3 by (auto simp: line_ok_def hd_append split: if_splits)
  then have l: "sg_trim (acc @ ?x) = acc @ ?x" "acc @ ?x \<noteq> []" "hd (acc @ ?x) \<noteq> CHR ''#''" "last (acc @ ?x) = backslash"
    by (auto intro!: sg_trim_ends simp: hd_append split: if_splits)
  have "chomp ?x = ?x"
    by (rule chomp_id) simp
  moreover have "get_line (syn_lines (p # q # ps) @ r) = (?x, syn_lines (q # ps) @ r, True)"
    using get_line_newline [of ?x "syn_lines (q # ps) @ r"] c by simp
  ultimately have "sg_loop (syn_lines (p # q # ps) @ r) (if app then acc else line) app g = sg_loop (syn_lines (q # ps) @ r) (acc @ p) True g"
    using l 3(5) by (subst sg_loop.simps) (auto simp: Let_def butlast_append)
  then show ?case
    using "3.IH" [of "acc @ p" True] 3(2) a(1) by simp
qed simp

definition add_group :: "string list \<Rightarrow> SynGroups \<Rightarrow> SynGroups" where
  "add_group ws g = g\<lparr>sg_terms := fold (\<lambda>w m. m(w \<mapsto> length (sg_groups g))) ws (sg_terms g), sg_groups := sg_groups g @ [ws]\<rparr>"

lemma sg_line_strings:
  assumes "2 \<le> length ws" "list_all token_survives ws"
  shows "sg_line (stringsToString ws) g = add_group (map syn_term ws) g"
proof -
  have "stringToStrings (stringsToString ws) [] = (True, ws)"
    using assms(2) by (intro stringToStrings_stringsToString) (simp add: list_all_iff)
  moreover have "sg_word = syn_term"
    by (simp add: fun_eq_iff sg_word_term)
  ultimately show ?thesis
    using assms(1) by (simp add: sg_line_def add_group_def Let_def)
qed

lemma sg_loop_item:
  assumes "item_ok it"
  shows "\<exists>l. sg_loop (syn_file it @ r) line False g = sg_loop r l False (fold add_group (item_group it) g)"
proof (cases it)
  case (SynComment b c)
  then show ?thesis
    using assms sg_loop_comment [of b c r line g] by simp
next
  case (SynBlank b)
  then show ?thesis
    using assms sg_loop_blank [of b r line g] by auto
next
  case (SynGroup ws ps)
  then show ?thesis
    using assms sg_loop_pieces [of "[]" ps False r line g] sg_line_strings [of ws g] by auto
qed

lemma sg_loop_items:
  "list_all item_ok its \<Longrightarrow> \<exists>l. sg_loop (concat (map syn_file its) @ r) line False g =
    sg_loop r l False (fold add_group (concat (map item_group its)) g)"
proof (induction its arbitrary: line g)
  case (Cons it its)
  obtain l where "sg_loop (syn_file it @ concat (map syn_file its) @ r) line False g =
      sg_loop (concat (map syn_file its) @ r) l False (fold add_group (item_group it) g)"
    using sg_loop_item [of it "concat (map syn_file its) @ r" line g] Cons.prems by auto
  then show ?case
    using Cons by auto
qed auto

lemma sg_loop_end: "sg_loop [] line False g = g"
proof -
  have "sg_trim [] = []"
    by (rule sg_trim_ends) simp
  then show ?thesis
    by (subst sg_loop.simps) (simp add: get_line_def chomp_id)
qed

lemma add_groups: "sg_groups (fold add_group gs g) = sg_groups g @ gs"
  by (induction gs arbitrary: g) (simp_all add: add_group_def)

lemma sg_parse_items:
  assumes "list_all item_ok its"
  shows "sg_groups (sg_parse (concat (map syn_file its))) = concat (map item_group its)"
proof -
  obtain l where "sg_loop (concat (map syn_file its) @ []) [] False sg_clear = sg_loop [] l False (fold add_group (concat (map item_group its)) sg_clear)"
    using sg_loop_items [OF assms, of "[]" "[]" sg_clear] by blast
  then show ?thesis
    by (simp add: sg_parse_def sg_loop_end add_groups) (simp add: sg_clear_def)
qed

lemma fold_max_Max: "fold (\<lambda>t n. max n (f t)) ms n = Max (insert n (f ` set ms))" for n :: nat
proof (induction ms arbitrary: n)
  case (Cons m ms)
  have "insert n (f ` set (m # ms)) = insert n (insert (f m) (f ` set ms))"
    by simp
  then show ?case
    using Cons [of "max n (f m)"] by (cases "set ms = {}") (simp_all add: max.assoc max.commute)
qed simp

text \<open>
  C16. After a file of synonyms was read, the group of a term is the last one that holds it, which has at least two terms; every
  term of every group has one. The terms of several words are those of the groups, and the maximum is the exact number of words of the longest,
  0 without any. When the file was written from comments, blank lines and groups of at least two terms, broken into lines by backslashes or not, the groups are
  those it was written from, the words of a term with one blank between them.
\<close>

theorem synonyms_of_file:
  assumes "sg_setfile canon props content fn g = (True, g1)" "fn \<noteq> []" "\<not> sg_samefile canon props fn g"
  shows "getgroup g1 t = (case last_group (sg_groups g1) t of None \<Rightarrow> [] | Some i \<Rightarrow> sg_groups g1 ! i) \<and>
    (getgroup g1 t \<noteq> [] \<longleftrightarrow> (\<exists>ws \<in> set (sg_groups g1). t \<in> set ws)) \<and>
    (getgroup g1 t \<noteq> [] \<longrightarrow> t \<in> set (getgroup g1 t) \<and> 2 \<le> length (getgroup g1 t)) \<and>
    (t \<in> set (sg_multiwords g1) \<longleftrightarrow> blank \<in> set t \<and> (\<exists>ws \<in> set (sg_groups g1). t \<in> set ws)) \<and>
    sg_maxlen g1 = Max (insert 0 ((\<lambda>t. length (filter ((=) blank) t) + 1) ` set (sg_multiwords g1))) \<and>
    (\<forall>its. list_all item_ok its \<and> content fn = Some (concat (map syn_file its)) \<longrightarrow> sg_groups g1 = concat (map item_group its))"
proof -
  obtain tx where tx: "content fn = Some tx" and g1: "g1 = sg_setpath canon props fn ((sg_multi (sg_parse tx))\<lparr>sg_ok := True\<rparr>)"
    using assms by (auto simp: sg_setfile_def split: option.splits if_splits)
  let ?gs = "sg_groups (sg_parse tx)"
  define ms where "ms = filter (\<lambda>t. blank \<in> set t) (concat ?gs)"
  have f: "sg_ok g1" "sg_groups g1 = ?gs" "sg_terms g1 = last_group ?gs" "sg_multiwords g1 = remdups ms"
    "sg_maxlen g1 = fold (\<lambda>t n. max n (length (filter ((=) blank) t) + 1)) ms 0" "list_all (\<lambda>ws. 2 \<le> length ws) ?gs"
    using sg_parse_inv [of tx] by (simp_all add: g1 sg_setpath_def sg_multi_def Let_def sg_inv_def ms_def)
  have idx: "i < length ?gs \<and> t \<in> set (?gs ! i)" if "last_group ?gs t = Some i" for i
    using that by (auto simp: last_group_def find_last_idx_Some)
  have get: "getgroup g1 t = (case last_group ?gs t of None \<Rightarrow> [] | Some i \<Rightarrow> ?gs ! i)"
    using idx by (auto simp: getgroup_def f split: option.split)
  have in_g: "last_group ?gs t \<noteq> None \<longleftrightarrow> (\<exists>ws \<in> set ?gs. t \<in> set ws)"
    by (auto simp: last_group_def find_last_idx_None)
  have two: "2 \<le> length (?gs ! i)" if "i < length ?gs" for i
    using f(6) that by (simp add: list_all_length)
  show ?thesis
  proof (intro conjI)
    show "getgroup g1 t \<noteq> [] \<longleftrightarrow> (\<exists>ws \<in> set (sg_groups g1). t \<in> set ws)"
      using get in_g idx by (cases "last_group ?gs t") (auto simp: f(2))
    show "getgroup g1 t \<noteq> [] \<longrightarrow> t \<in> set (getgroup g1 t) \<and> 2 \<le> length (getgroup g1 t)"
      using get idx two by (cases "last_group ?gs t") auto
    show "t \<in> set (sg_multiwords g1) \<longleftrightarrow> blank \<in> set t \<and> (\<exists>ws \<in> set (sg_groups g1). t \<in> set ws)"
      by (auto simp: f ms_def)
    show "sg_maxlen g1 = Max (insert 0 ((\<lambda>t. length (filter ((=) blank) t) + 1) ` set (sg_multiwords g1)))"
      by (simp only: f(4,5) fold_max_Max set_remdups)
    show "\<forall>its. list_all item_ok its \<and> content fn = Some (concat (map syn_file its)) \<longrightarrow> sg_groups g1 = concat (map item_group its)"
      using sg_parse_items tx by (auto simp: f(2))
  qed (simp only: get f(2))
qed

definition syn_items :: "syn_item list" where
  "syn_items = [SynGroup [''usa'', ''united  states''] [''usa '' @ [dquote], ''united  states'' @ [dquote]], SynBlank [tab], SynComment [blank] ''comment'',
     SynGroup [''car'', ''auto'', ''motor''] [''car auto'', '' mo'', ''tor'']]"

theorem synonyms_of_file_witness:
  "\<exists>g1. sg_setfile id (\<lambda>p. Some (7, 50)) (\<lambda>p. Some (concat (map syn_file syn_items))) ''syn'' sg_clear = (True, g1) \<and>
     getgroup g1 ''usa'' = [''usa'', ''united states''] \<and> getgroup g1 ''motor'' = [''car'', ''auto'', ''motor'']"
proof -
  let ?r = "sg_setfile id (\<lambda>p. Some (7, 50)) (\<lambda>p. Some (concat (map syn_file syn_items))) ''syn'' sg_clear"
  have r: "?r = (True, snd ?r)"
    by (simp add: sg_setfile_def sg_samefile_def sg_clear_def)
  have "\<not> sg_samefile id (\<lambda>p. Some (7, 50)) ''syn'' sg_clear"
    by (simp add: sg_samefile_def sg_clear_def)
  note syn = synonyms_of_file [OF r _ this]
  have items: "list_all item_ok syn_items" "concat (map item_group syn_items) = [[''usa'', ''united states''], [''car'', ''auto'', ''motor'']]"
    by code_simp+
  then have gs: "sg_groups (snd ?r) = [[''usa'', ''united states''], [''car'', ''auto'', ''motor'']]"
    using syn by auto
  have "last_group (sg_groups (snd ?r)) ''usa'' = Some 0" "last_group (sg_groups (snd ?r)) ''motor'' = Some 1"
    unfolding gs by code_simp+
  then show ?thesis
    using syn [THEN conjunct1] r gs by (intro exI [of _ "snd ?r"]) simp
qed

text \<open>
  A comment behind an empty line that is continued takes the place of the line so far, and the continuation does not end: the rest of the
  file belongs to the comment.
\<close>

lemma comment_takes_file:
  "sg_groups (sg_parse ([backslash, newline] @ ''# comment'' @ [newline] @ ''car auto'' @ [newline] @ ''one two'' @ [newline])) = []"
  by code_simp

end
