(* ===== verification/Unac_Util.thy ===== *)
theory Unac_Util
  imports Utf8
begin

text \<open>
  Removal of accents and folding of cases (\<open>common/unacpp.cpp\<close>). The library for the conversion is a function from the operation
  and a string to the converted string, \<open>None\<close> when it fails; what is then left in the output is the text of an error number.
  A loop that does not end is \<open>None\<close>.
\<close>

datatype UnacOp = UNACOP_UNAC | UNACOP_FOLD | UNACOP_UNACFOLD

type_synonym unac = "UnacOp \<Rightarrow> string \<Rightarrow> string option"

definition unacmaybefold :: "unac \<Rightarrow> string \<Rightarrow> string \<Rightarrow> UnacOp \<Rightarrow> bool \<times> string" where
  "unacmaybefold unac errno s what =
     (case unac what s of
        None \<Rightarrow> (False, ''unac_string failed, errno : '' @ errno)
      | Some cout \<Rightarrow> (True, cout))"

definition unactolower :: "unac \<Rightarrow> string \<Rightarrow> string \<Rightarrow> string" where
  "unactolower unac errno s = snd (unacmaybefold unac errno s UNACOP_FOLD)"

definition unaciscapital :: "unac \<Rightarrow> string \<Rightarrow> bool" where
  "unaciscapital unac s =
     (if s = [] then False
      else let it = utf8_iter s; shorter = fst (appendchartostring it [])
        in case unac UNACOP_FOLD shorter of
             None \<Rightarrow> False
           | Some lower \<Rightarrow> utf8_deref it \<noteq> utf8_deref (utf8_iter lower))"

text \<open>The loop does not test the iterator for an error, and an iterator in error does not move.\<close>

partial_function (option) prefold_loop :: "Utf8Iter \<Rightarrow> string \<Rightarrow> string option" where
  "prefold_loop it s =
     (if utf8_eof it then Some s
      else let c = utf8_deref it in
        prefold_loop (fst (utf8_next it))
          (if c = 0xdf then s @ ''ss'' else if c = 0x3c2 then s @ [CHR 0xCF, CHR 0x83] else fst (appendchartostring it s)))"

definition unachasuppercase :: "unac \<Rightarrow> string \<Rightarrow> bool option" where
  "unachasuppercase unac s =
     (if s = [] then Some False
      else case prefold_loop (utf8_iter s) [] of
          None \<Rightarrow> None
        | Some w \<Rightarrow> Some (case unac UNACOP_FOLD w of None \<Rightarrow> False | Some lower \<Rightarrow> lower \<noteq> w))"

definition unachasaccents :: "unac \<Rightarrow> string \<Rightarrow> bool" where
  "unachasaccents unac s =
     (if s = [] then False else case unac UNACOP_UNAC s of None \<Rightarrow> False | Some noac \<Rightarrow> noac \<noteq> s)"

text \<open>The characters of the string, with the two special cases folded.\<close>

definition prefold_char :: "string \<Rightarrow> string" where
  "prefold_char w = (let c = getvalueat w 0 (length w) in
     if c = 0xdf then ''ss'' else if c = 0x3c2 then [CHR 0xCF, CHR 0x83] else w)"

lemma getvalueat_drop:
  "p + l \<le> length s \<Longrightarrow> getvalueat s p l = getvalueat (take l (drop p s)) 0 l"
  by (rule getvalueat_take [symmetric])

lemma prefold_loop_valid:
  assumes "p \<le> length s" "utf8_valid (drop p s)"
  shows "prefold_loop (at_pos s p n) out = Some (out @ concat (map prefold_char (utf8_chars (drop p s))))"
  using assms
proof (induction "length s - p" arbitrary: p n out rule: less_induct)
  case less
  show ?case
  proof (cases "p = length s")
    case True
    then show ?thesis
      by (subst prefold_loop.simps) simp
  next
    case False
    let ?l = "char_len (drop p s)"
    have l: "?l \<noteq> 0"
    proof
      assume "?l = 0"
      then have "drop p s = []"
        using less.prems(2) by (simp add: utf8_valid_def utf8_chars_bad)
      then show False
        using less.prems(1) False by simp
    qed
    have le: "p + ?l \<le> length s"
      using char_len_le [of "drop p s"] less.prems(1) by simp
    have dd: "drop (p + ?l) s = drop ?l (drop p s)"
      by (simp add: add.commute)
    have ch: "utf8_chars (drop p s) = take ?l (drop p s) # utf8_chars (drop (p + ?l) s)"
      using utf8_chars_step [OF l] unfolding dd .
    have "concat (utf8_chars (drop p s)) = drop p s"
      using less.prems(2) by (simp add: utf8_valid_def)
    then have "take ?l (drop p s) @ concat (utf8_chars (drop (p + ?l) s)) = take ?l (drop p s) @ drop (p + ?l) s"
      unfolding ch dd by (simp del: drop_drop)
    then have v: "utf8_valid (drop (p + ?l) s)"
      by (simp add: utf8_valid_def)
    have "length (take ?l (drop p s)) = ?l"
      using le by simp
    then have "(if utf8_deref (at_pos s p n) = 0xdf then out @ ''ss'' else if utf8_deref (at_pos s p n) = 0x3c2 then out @ [CHR 0xCF, CHR 0x83]
        else fst (appendchartostring (at_pos s p n) out)) = out @ prefold_char (take ?l (drop p s))"
      using l getvalueat_drop [OF le]
      by (simp add: utf8_deref_def prefold_char_def appendchartostring_def utf8_char_string_at Let_def)
    then have "prefold_loop (at_pos s p n) out = prefold_loop (at_pos s (p + ?l) (n + 1)) (out @ prefold_char (take ?l (drop p s)))"
      using False l by (subst prefold_loop.simps) (simp add: utf8_next_at Let_def)
    also have "\<dots> = Some ((out @ prefold_char (take ?l (drop p s))) @ concat (map prefold_char (utf8_chars (drop (p + ?l) s))))"
      using l le v by (intro less.hyps) auto
    finally show ?thesis
      unfolding ch by simp
  qed
qed

text \<open>
  On valid UTF-8 the test for upper case returns, and compares the text, its sharp s and final sigma replaced, with what the folding
  makes of it.
\<close>

theorem unachasuppercase_valid:
  assumes "utf8_valid s" "s \<noteq> []"
  shows "unachasuppercase unac s = Some (case unac UNACOP_FOLD (concat (map prefold_char (utf8_chars s))) of
    None \<Rightarrow> False | Some lower \<Rightarrow> lower \<noteq> concat (map prefold_char (utf8_chars s)))"
  using prefold_loop_valid [of 0 s 0 "[]"] assms by (simp add: unachasuppercase_def utf8_iter_at)

theorem unachasuppercase_valid_witness:
  "unachasuppercase (\<lambda>what s. Some s) ''word'' = Some False"
proof -
  have "utf8_valid ''word''"
    by code_simp
  then show ?thesis
    by (subst unachasuppercase_valid) simp_all
qed

lemma prefold_loop_stuck: "prefold_loop it s = Some r \<Longrightarrow> m_cl it = 0 \<longrightarrow> utf8_eof it"
proof -
  assume ret: "prefold_loop it s = Some r"
  show ?thesis
  proof (rule prefold_loop.raw_induct [where P = "\<lambda>it s r. m_cl it = 0 \<longrightarrow> utf8_eof it", OF _ ret])
    fix f :: "Utf8Iter \<Rightarrow> string \<Rightarrow> string option" and it s r
    assume IH: "\<And>it s r. f it s = Some r \<Longrightarrow> m_cl it = 0 \<longrightarrow> utf8_eof it"
      and run: "(if utf8_eof it then Some s
        else let c = utf8_deref it in
          f (fst (utf8_next it)) (if c = 0xdf then s @ ''ss'' else if c = 0x3c2 then s @ [CHR 0xCF, CHR 0x83]
            else fst (appendchartostring it s))) = Some r"
    show "m_cl it = 0 \<longrightarrow> utf8_eof it"
    proof
      assume "m_cl it = 0"
      then have "fst (utf8_next it) = it"
        by (simp add: utf8_next_def)
      then show "utf8_eof it"
        using IH [of it] run \<open>m_cl it = 0\<close> by (auto simp: Let_def split: if_splits)
    qed
  qed
qed

text \<open>
  C17. On a text that does not begin with a character of UTF-8 the test never returns.
\<close>

theorem unachasuppercase_hangs:
  assumes "char_len s = 0" "s \<noteq> []"
  shows "unachasuppercase unac s = None"
  using prefold_loop_stuck [of "utf8_iter s" "[]"] assms
  by (cases "prefold_loop (utf8_iter s) []") (auto simp: unachasuppercase_def utf8_iter_at)

theorem unachasuppercase_hangs_witness: "unachasuppercase (\<lambda>what s. Some s) [CHR 0xFF] = None"
  by (rule unachasuppercase_hangs) (simp_all add: char_len_def lead_len_def)

end
