(* ===== verification/Term_Proc.thy ===== *)
theory Term_Proc
  imports Text_Plain Syn_Groups Unac_Util
begin

text \<open>
  The pipeline of terms (\<open>rcldb/termproc.h\<close>) and the stop words (\<open>rcldb/stoplist.cpp\<close>). A processor is a record of its virtual
  functions on its state, which holds the state of the next one; the subclasses update the record of the base class, as
  they override its functions. The front is a client of the splitter. The locale \<open>term_end\<close> is what a
  processor promises: a predicate on its state that it keeps for the terms it is meant for.
\<close>

section \<open>Stop words\<close>

definition set_stop_file ::
  "unac \<Rightarrow> string \<Rightarrow> (string \<Rightarrow> string option) \<Rightarrow> string \<Rightarrow> bool \<times> string set" where
  "set_stop_file unac errno content filename =
     (case content filename of
        None \<Rightarrow> (False, {})
      | Some stoptext \<Rightarrow>
          (True, set (map (\<lambda>w. snd (unacmaybefold unac errno w UNACOP_UNACFOLD)) (snd (stringToStrings stoptext [])))))"

definition isStop :: "string set \<Rightarrow> string \<Rightarrow> bool" where
  "isStop stops t \<longleftrightarrow> stops \<noteq> {} \<and> t \<in> stops"

lemma isStop_iff: "isStop stops t \<longleftrightarrow> t \<in> stops"
  by (auto simp: isStop_def)

section \<open>The base class\<close>

record 'u termproc =
  tp_takeword :: "'u \<Rightarrow> string \<Rightarrow> int \<Rightarrow> int \<Rightarrow> int \<Rightarrow> bool \<times> 'u"
  tp_newpage :: "'u \<Rightarrow> int \<Rightarrow> 'u"
  tp_flush :: "'u \<Rightarrow> bool \<times> 'u"

text \<open>With a next processor, and without one.\<close>

definition term_proc :: "'u termproc \<Rightarrow> ('s \<times> 'u) termproc" where
  "term_proc nxt =
     \<lparr>tp_takeword = \<lambda>(s, u) t pos bs be. map_prod id (Pair s) (tp_takeword nxt u t pos bs be),
      tp_newpage = \<lambda>(s, u) pos. (s, tp_newpage nxt u pos),
      tp_flush = \<lambda>(s, u). map_prod id (Pair s) (tp_flush nxt u)\<rparr>"

definition term_last :: "'u termproc" where
  "term_last = \<lparr>tp_takeword = \<lambda>u t pos bs be. (True, u), tp_newpage = \<lambda>u pos. u, tp_flush = \<lambda>u. (True, u)\<rparr>"

text \<open>
  \<open>TextSplitP\<close>: the events go to the first processor, if no subclass takes them first, and the end of the text flushes the
  pipeline.
\<close>

definition splitp_sink :: "'u termproc \<Rightarrow> 'u sink" where
  "splitp_sink prc u e =
     (case e of
        TakeWord t pos bs be \<Rightarrow> tp_takeword prc u t pos bs be
      | NewPage pos \<Rightarrow> (True, tp_newpage prc u pos)
      | _ \<Rightarrow> (True, u))"

definition splitp_flush :: "'u termproc \<Rightarrow> bool \<times> 'u \<Rightarrow> bool \<times> 'u" where
  "splitp_flush prc r = (case tp_flush prc (snd r) of (fl, u) \<Rightarrow> (if \<not> fl then False else fst r, u))"

definition splitp_text_to_words ::
  "TextConf \<Rightarrow> 'u sink \<Rightarrow> 'u termproc \<Rightarrow> 'u splitter \<Rightarrow> 32 word \<Rightarrow> 'u \<Rightarrow> string \<Rightarrow> (bool \<times> 'u) run option" where
  "splitp_text_to_words cf sink prc ext flags u t =
     map_option (map_sum id (splitp_flush prc)) (text_to_words cf sink ext flags u t)"

section \<open>Accents and cases\<close>

record TermProcPrep =
  m_totalterms :: int
  m_unacerrors :: int

definition prep_init :: TermProcPrep where
  "prep_init = \<lparr>m_totalterms = 0, m_unacerrors = 0\<rparr>"

text \<open>The last character of a string, for the long vowel mark of Katakana.\<close>

function prep_last :: "Utf8Iter \<Rightarrow> Utf8Iter \<Rightarrow> Utf8Iter" where
  "prep_last itprev it =
     (if utf8_deref it = - 1 then itprev else prep_last it (fst (utf8_next it)))"
  by pat_completeness auto
termination
  by (relation "measure (\<lambda>(a, it). utf8_left it)") (auto simp: utf8_deref_def split: if_splits intro!: utf8_next_ok)

declare prep_last.simps [simp del]

definition prep_katakana :: "string \<Rightarrow> string" where
  "prep_katakana otrm =
     (if 127 < (of_char (hd otrm) :: nat) then
        let it = utf8_iter otrm
        in if isKATAKANA (uint (utf8_deref it)) then
             let itprev = prep_last it it
             in if utf8_deref itprev = 0x30fc \<or> utf8_deref itprev = 0xff70 then take (m_pos itprev) otrm else otrm
           else otrm
      else otrm)"

text \<open>Several terms at one position; the first that is refused ends it.\<close>

fun each_term :: "'u termproc \<Rightarrow> int \<Rightarrow> int \<Rightarrow> int \<Rightarrow> string list \<Rightarrow> 'u \<Rightarrow> bool \<times> 'u" where
  "each_term nxt pos bs be [] u = (True, u)"
| "each_term nxt pos bs be (t # ts) u =
     (let r = tp_takeword nxt u t pos bs be in if fst r then each_term nxt pos bs be ts (snd r) else (False, snd r))"

text \<open>The division of the two counters is one of doubles, which is exact enough for the comparison.\<close>

definition prep_takeword ::
  "unac \<Rightarrow> 'u termproc \<Rightarrow> TermProcPrep \<times> 'u \<Rightarrow> string \<Rightarrow> int \<Rightarrow> int \<Rightarrow> int \<Rightarrow> bool \<times> TermProcPrep \<times> 'u" where
  "prep_takeword unac nxt su itrm pos bs be =
     (let s = (fst su)\<lparr>m_totalterms := m_totalterms (fst su) + 1\<rparr>; u = snd su in
      case unac UNACOP_UNACFOLD itrm of
        None \<Rightarrow>
          let s1 = s\<lparr>m_unacerrors := m_unacerrors s + 1\<rparr>
          in (\<not> (500 < m_unacerrors s1 \<and> m_totalterms s1 < 2 * m_unacerrors s1), s1, u)
      | Some otrm \<Rightarrow>
          if otrm = [] then (True, s, u)
          else let otrm1 = prep_katakana otrm
            in if otrm1 = [] then (True, s, u)
               else if blank \<in> set otrm1
               then map_prod id (Pair s) (each_term nxt pos bs be (stringToTokens otrm1 [] [blank] True False) u)
               else map_prod id (Pair s) (tp_takeword nxt u otrm1 pos bs be))"

definition term_prep :: "unac \<Rightarrow> 'u termproc \<Rightarrow> (TermProcPrep \<times> 'u) termproc" where
  "term_prep unac nxt = (term_proc nxt)\<lparr>tp_takeword := prep_takeword unac nxt,
     tp_flush := \<lambda>(s, u). tp_flush (term_proc nxt) (s\<lparr>m_unacerrors := 0, m_totalterms := 0\<rparr>, u)\<rparr>"

section \<open>Stop words in the pipeline\<close>

definition term_stop :: "string set \<Rightarrow> 'u termproc \<Rightarrow> (unit \<times> 'u) termproc" where
  "term_stop stops nxt = (term_proc nxt)\<lparr>tp_takeword :=
     \<lambda>su t pos bs be. if isStop stops t then (True, su) else tp_takeword (term_proc nxt) su t pos bs be\<rparr>"

section \<open>Synonyms of several words\<close>

text \<open>
  The state is the queue of the last terms. Positions and offsets are of type \<open>size_t\<close>: the subtractions wrap. What the
  next processor answers for a synonym is ignored.
\<close>

definition size_t_minus :: "int \<Rightarrow> int \<Rightarrow> int" where
  "size_t_minus a b = (a - b) mod 2 ^ 64"

fun multi_loop ::
  "string set \<Rightarrow> 'u termproc \<Rightarrow> int \<Rightarrow> int \<Rightarrow> int \<Rightarrow> string \<Rightarrow> int \<Rightarrow> string list \<Rightarrow> 'u \<Rightarrow> 'u" where
  "multi_loop groups nxt pos bs be cp gsz [] u = u"
| "multi_loop groups nxt pos bs be cp gsz (g # gs) u =
     (if cp = [] then multi_loop groups nxt pos bs be g gsz gs u
      else let cp1 = cp @ [blank] @ g; gsz1 = gsz + 1
        in multi_loop groups nxt pos bs be cp1 gsz1 gs
             (if cp1 \<in> groups
              then snd (tp_takeword nxt u cp1 (size_t_minus (pos + 1) gsz1) (size_t_minus bs (int (length cp1))) be)
              else u))"

definition multi_push :: "nat \<Rightarrow> string \<Rightarrow> string list \<Rightarrow> string list" where
  "multi_push maxl t ts = (let ts1 = ts @ [t] in if maxl < length ts1 then tl ts1 else ts1)"

definition multi_takeword ::
  "string set \<Rightarrow> nat \<Rightarrow> 'u termproc \<Rightarrow> string list \<times> 'u \<Rightarrow> string \<Rightarrow> int \<Rightarrow> int \<Rightarrow> int \<Rightarrow> bool \<times> string list \<times> 'u" where
  "multi_takeword groups maxl nxt su t pos bs be =
     (if maxl < 2 then tp_takeword (term_proc nxt) su t pos bs be
      else let ts = multi_push maxl t (fst su)
        in tp_takeword (term_proc nxt) (ts, multi_loop groups nxt pos bs be [] 1 ts (snd su)) t pos bs be)"

definition term_multi :: "SynGroups \<Rightarrow> 'u termproc \<Rightarrow> (string list \<times> 'u) termproc" where
  "term_multi sg nxt = (term_proc nxt)\<lparr>tp_takeword := multi_takeword (set (sg_multiwords sg)) (sg_maxlen sg) nxt\<rparr>"

section \<open>Common grams\<close>

text \<open>The members that the constructor leaves undefined are not read before the first term; they are 0 here.\<close>

record TermProcCommongrams =
  m_prevterm :: string
  m_prevstop :: bool
  cg_prevpos :: int
  m_prevbs :: int
  m_prevbe :: int
  m_prevsent :: bool
  m_onlygrams :: bool

definition commongrams_init :: "bool \<Rightarrow> TermProcCommongrams" where
  "commongrams_init only = \<lparr>m_prevterm = [], m_prevstop = False, cg_prevpos = 0, m_prevbs = 0, m_prevbe = 0,
     m_prevsent = False, m_onlygrams = only\<rparr>"

definition commongrams_takeword ::
  "string set \<Rightarrow> 'u termproc \<Rightarrow> TermProcCommongrams \<times> 'u \<Rightarrow> string \<Rightarrow> int \<Rightarrow> int \<Rightarrow> int \<Rightarrow>
   bool \<times> TermProcCommongrams \<times> 'u" where
  "commongrams_takeword stops nxt su t pos bs be =
     (let (s, u) = su; stop = isStop stops t;
          gram = (m_prevterm s \<noteq> [] \<and> (m_prevstop s \<or> stop));
          r = (if gram then tp_takeword nxt u (m_prevterm s @ [blank] @ t) (cg_prevpos s) 0 0 else (True, u))
      in if \<not> fst r then (False, s\<lparr>m_prevterm := []\<rparr>, snd r)
         else let s1 = s\<lparr>m_prevterm := t, m_prevstop := stop, cg_prevpos := pos, m_prevsent := False, m_prevbs := bs, m_prevbe := be\<rparr>
           in if \<not> m_onlygrams s1 \<or> \<not> stop \<and> \<not> gram then
                let r1 = tp_takeword nxt (snd r) t pos bs be
                in if fst r1 then (True, s1\<lparr>m_prevsent := True\<rparr>, snd r1) else (False, s1, snd r1)
              else (True, s1, snd r))"

definition commongrams_flush ::
  "'u termproc \<Rightarrow> TermProcCommongrams \<times> 'u \<Rightarrow> bool \<times> TermProcCommongrams \<times> 'u" where
  "commongrams_flush nxt su =
     (let (s, u) = su;
          r = (if \<not> m_prevsent s \<and> m_prevterm s \<noteq> []
               then tp_takeword nxt u (m_prevterm s) (cg_prevpos s) (m_prevbs s) (m_prevbe s) else (True, u))
      in if \<not> fst r then (False, s, snd r)
         else tp_flush (term_proc nxt) (s\<lparr>m_prevterm := [], m_prevsent := True\<rparr>, snd r))"

definition term_commongrams :: "string set \<Rightarrow> 'u termproc \<Rightarrow> (TermProcCommongrams \<times> 'u) termproc" where
  "term_commongrams stops nxt = (term_proc nxt)\<lparr>tp_takeword := commongrams_takeword stops nxt, tp_flush := commongrams_flush nxt\<rparr>"

section \<open>What the processors promise\<close>

text \<open>The terms that the preparation makes of a word.\<close>

definition prep_terms :: "unac \<Rightarrow> string \<Rightarrow> string list" where
  "prep_terms unac w =
     (case unac UNACOP_UNACFOLD w of
        None \<Rightarrow> []
      | Some otrm \<Rightarrow>
          if otrm = [] \<or> prep_katakana otrm = [] then []
          else if blank \<in> set (prep_katakana otrm) then stringToTokens (prep_katakana otrm) [] [blank] True False
          else [prep_katakana otrm])"

lemma prep_terms_clean: "t \<in> set (prep_terms unac w) \<Longrightarrow> t \<noteq> [] \<and> blank \<notin> set t"
  by (auto simp: prep_terms_def stringToTokens_words_by split: option.splits if_splits dest: words_no_delim)

text \<open>\<open>Q\<close> is kept for the terms of \<open>T\<close>, whatever is answered; \<open>term_end\<close> also keeps it at the end of the text.\<close>

locale term_words =
  fixes nxt :: "'u termproc" and Q :: "'u \<Rightarrow> bool" and T :: "string \<Rightarrow> int \<Rightarrow> int \<Rightarrow> int \<Rightarrow> bool"
  assumes word_keeps: "Q u \<Longrightarrow> T t pos bs be \<Longrightarrow> Q (snd (tp_takeword nxt u t pos bs be))"
    and page_keeps: "Q u \<Longrightarrow> Q (tp_newpage nxt u pos)"
begin

lemma stronger_words: "(\<And>t pos bs be. T1 t pos bs be \<Longrightarrow> T t pos bs be) \<Longrightarrow> term_words nxt Q T1"
  using word_keeps page_keeps by unfold_locales auto

lemma base_words: "term_words (term_proc nxt) (\<lambda>su. Q (snd su)) T"
  using word_keeps page_keeps by unfold_locales (auto simp: term_proc_def)

lemma each_keeps: "Q u \<Longrightarrow> list_all (\<lambda>t. T t pos bs be) ts \<Longrightarrow> Q (snd (each_term nxt pos bs be ts u))"
  using word_keeps by (induction ts arbitrary: u) (auto simp: Let_def)

lemma prep_words: "term_words (term_prep unac nxt) (\<lambda>su. Q (snd su)) (\<lambda>w pos bs be. list_all (\<lambda>t. T t pos bs be) (prep_terms unac w))"
proof
  show "Q (snd (snd (tp_takeword (term_prep unac nxt) su w pos bs be)))"
    if "Q (snd su)" "list_all (\<lambda>t. T t pos bs be) (prep_terms unac w)" for su w pos bs be
    using that each_keeps word_keeps
    by (cases "unac UNACOP_UNACFOLD w") (auto simp: term_prep_def prep_takeword_def prep_terms_def Let_def split: if_splits)
qed (use page_keeps in \<open>auto simp: term_prep_def term_proc_def\<close>)

lemma stop_words: "term_words (term_stop stops nxt) (\<lambda>su. Q (snd su)) (\<lambda>t pos bs be. t \<in> stops \<or> T t pos bs be)"
  using word_keeps page_keeps by unfold_locales (auto simp: term_stop_def term_proc_def isStop_iff)

lemma multi_loop_keeps:
  "Q u \<Longrightarrow> (\<And>g p b. g \<in> groups \<Longrightarrow> T g p b be) \<Longrightarrow> Q (multi_loop groups nxt pos bs be cp gsz ts u)"
  using word_keeps by (induction ts arbitrary: cp gsz u) (simp_all add: Let_def)

lemma multi_words:
  "term_words (term_multi sg nxt) (\<lambda>su. Q (snd su))
     (\<lambda>t pos bs be. T t pos bs be \<and> (\<forall>g \<in> set (sg_multiwords sg). \<forall>p b. T g p b be))"
  using word_keeps page_keeps multi_loop_keeps
  by unfold_locales (auto simp: term_multi_def term_proc_def multi_takeword_def Let_def)

lemma after_words: "(\<And>t pos bs be. T t pos bs be) \<Longrightarrow> Q u \<Longrightarrow> Q (after (splitp_sink nxt) es u)"
  using word_keeps page_keeps by (induction es arbitrary: u) (simp_all add: splitp_sink_def split: tsevent.split)

lemma splitp_client:
  assumes "\<And>t pos bs be. 0 \<le> bs \<Longrightarrow> bs \<le> be \<Longrightarrow> be \<le> int L \<Longrightarrow> T t pos bs be"
  shows "client (splitp_sink nxt) Q L"
  using assms word_keeps page_keeps by unfold_locales (auto simp: splitp_sink_def split: tsevent.split)

end

locale term_end = term_words +
  assumes flush_keeps: "Q u \<Longrightarrow> Q (snd (tp_flush nxt u))"
begin

lemma stronger: "(\<And>t pos bs be. T1 t pos bs be \<Longrightarrow> T t pos bs be) \<Longrightarrow> term_end nxt Q T1"
  using flush_keeps by (intro term_end.intro term_end_axioms.intro stronger_words)

lemma base_end: "term_end (term_proc nxt) (\<lambda>su. Q (snd su)) T"
  using flush_keeps by (intro term_end.intro term_end_axioms.intro base_words) (auto simp: term_proc_def)

lemma prep_end: "term_end (term_prep unac nxt) (\<lambda>su. Q (snd su)) (\<lambda>w pos bs be. list_all (\<lambda>t. T t pos bs be) (prep_terms unac w))"
  using flush_keeps by (intro term_end.intro term_end_axioms.intro prep_words) (auto simp: term_prep_def term_proc_def)

lemma stop_end: "term_end (term_stop stops nxt) (\<lambda>su. Q (snd su)) (\<lambda>t pos bs be. t \<in> stops \<or> T t pos bs be)"
  using flush_keeps by (intro term_end.intro term_end_axioms.intro stop_words) (auto simp: term_stop_def term_proc_def)

lemma multi_end:
  "term_end (term_multi sg nxt) (\<lambda>su. Q (snd su))
     (\<lambda>t pos bs be. T t pos bs be \<and> (\<forall>g \<in> set (sg_multiwords sg). \<forall>p b. T g p b be))"
  using flush_keeps by (intro term_end.intro term_end_axioms.intro multi_words) (auto simp: term_multi_def term_proc_def)

text \<open>The pipeline on any text.\<close>

lemma splitp_keeps:
  assumes "client sink Q (length t1)" "Q u" "splitter_conf cf"
  shows "\<exists>ok u1. splitp_text_to_words cf sink nxt ext flags u t1 = Some (Inr (ok, u1)) \<and> Q u1"
proof -
  obtain ok u1 where "text_to_words cf sink ext flags u t1 = Some (Inr (ok, u1))" "Q u1"
    using client.text_to_words_keeps [OF assms(1) order_refl assms(2,3)] by blast
  then show ?thesis
    using flush_keeps [of u1] by (simp add: splitp_text_to_words_def splitp_flush_def split_beta)
qed

end

text \<open>No call is refused, and the terms that were taken at a position, \<open>D\<close>, stay.\<close>

locale term_collect =
  fixes nxt :: "'u termproc" and D :: "'u \<Rightarrow> string \<Rightarrow> int \<Rightarrow> bool"
  assumes takes: "fst (tp_takeword nxt u t pos bs be)" "fst (tp_flush nxt u)"
    and stays: "D u t p \<Longrightarrow> D (snd (tp_takeword nxt u t1 pos bs be)) t p" "D u t p \<Longrightarrow> D (tp_newpage nxt u pos) t p"
      "D u t p \<Longrightarrow> D (snd (tp_flush nxt u)) t p"
    and adds: "t \<noteq> [] \<Longrightarrow> D (snd (tp_takeword nxt u t pos bs be)) t pos"
begin

lemma base_collect: "term_collect (term_proc nxt) (\<lambda>su. D (snd su))"
  using takes stays adds by unfold_locales (auto simp: term_proc_def)

lemma stop_collect: "term_collect (term_stop stops nxt) (\<lambda>su t p. t \<in> stops \<or> D (snd su) t p)"
  using takes stays adds by unfold_locales (auto simp: term_stop_def term_proc_def isStop_iff)

lemma each_takes: "fst (each_term nxt pos bs be ts u)"
  using takes by (induction ts arbitrary: u) (auto simp: Let_def)

lemma each_stays: "D u t p \<Longrightarrow> D (snd (each_term nxt pos bs be ts u)) t p"
  using stays by (induction ts arbitrary: u) (auto simp: Let_def)

lemma each_adds: "t \<in> set ts \<Longrightarrow> t \<noteq> [] \<Longrightarrow> D (snd (each_term nxt pos bs be ts u)) t pos"
  using takes adds each_stays by (induction ts arbitrary: u) (auto simp: Let_def)

lemma multi_loop_stays: "D u t p \<Longrightarrow> D (multi_loop groups nxt pos bs be cp gsz ts u) t p"
  using stays by (induction ts arbitrary: cp gsz u) (simp_all add: Let_def)

lemma multi_collect: "term_collect (term_multi sg nxt) (\<lambda>su. D (snd su))"
  using takes stays adds multi_loop_stays
  by unfold_locales (auto simp: term_multi_def term_proc_def multi_takeword_def Let_def)

lemma prep_collect:
  assumes "\<And>w. unac UNACOP_UNACFOLD w \<noteq> None"
  shows "term_collect (term_prep unac nxt) (\<lambda>su w p. \<forall>t \<in> set (prep_terms unac w). D (snd su) t p)"
proof
  have some: "\<exists>v. unac UNACOP_UNACFOLD w = Some v" for w
    using assms by blast
  show "fst (tp_takeword (term_prep unac nxt) su w pos bs be)" for su w pos bs be
    using some [of w] takes each_takes by (auto simp: term_prep_def prep_takeword_def Let_def)
  show "\<forall>t \<in> set (prep_terms unac w). D (snd (snd (tp_takeword (term_prep unac nxt) su w1 pos bs be))) t p"
    if "\<forall>t \<in> set (prep_terms unac w). D (snd su) t p" for su w w1 p pos bs be
    using that some [of w1] stays each_stays by (auto simp: term_prep_def prep_takeword_def Let_def)
  show "\<forall>t \<in> set (prep_terms unac w). D (snd (snd (tp_takeword (term_prep unac nxt) su w pos bs be))) t pos" for su w pos bs be
  proof
    fix t
    assume t: "t \<in> set (prep_terms unac w)"
    note prep_terms_clean [OF t]
    with t some [of w] show "D (snd (snd (tp_takeword (term_prep unac nxt) su w pos bs be))) t pos"
      using adds each_adds by (auto simp: term_prep_def prep_takeword_def prep_terms_def Let_def split: if_splits)
  qed
qed (use takes stays in \<open>auto simp: term_prep_def term_proc_def\<close>)

lemma splitp_accepting: "accepting (splitp_sink nxt)"
  using takes by unfold_locales (simp add: splitp_sink_def split: tsevent.split)

lemma after_stays: "D u t p \<Longrightarrow> D (after (splitp_sink nxt) es u) t p"
  using stays by (induction es arbitrary: u) (simp_all add: splitp_sink_def split: tsevent.split)

lemma after_adds: "TakeWord w p b e \<in> set es \<Longrightarrow> w \<noteq> [] \<Longrightarrow> D (after (splitp_sink nxt) es u) w p"
proof (induction es arbitrary: u)
  case (Cons x es)
  have "D (snd (splitp_sink nxt u x)) w p" if "x = TakeWord w p b e"
    using adds Cons.prems(2) that by (simp add: splitp_sink_def)
  then show ?case
    using Cons after_stays by auto
qed simp

end

text \<open>The pipeline on plain text.\<close>

lemma splitp_plain:
  assumes "accepting sink" "\<And>u. fst (tp_flush prc u)" "list_all (\<lambda>c. is_letter c \<or> c = blank) t" "plain_conf cf"
  shows "splitp_text_to_words cf sink prc ext flags u t =
    Some (Inr (True, snd (tp_flush prc (after sink (plain_events cf 0 0 t) u))))"
  using accepting.plain_text_to_words [OF assms(1,3,4), of ext flags u] assms(2)
  by (simp add: splitp_text_to_words_def splitp_flush_def split_beta)

end
