(* ===== verification/Term_Index.thy ===== *)
theory Term_Index
  imports Term_Proc Conf_Map Date_Range
begin

text \<open>
  The two ends of the pipeline: the indexing of the fields and of the text of a document (\<open>TermProcIdx\<close> of
  \<open>rcldb/rcldb.cpp\<close>, \<open>TextSplitDb\<close> of \<open>rcldb/rcldb_p.h\<close>, the loop over the fields in \<open>rcldb/rclndb.cpp\<close>), and the terms of a phrase of a query (\<open>TermProcQ\<close> and
  \<open>TextSplitQ\<close> of \<open>rcldb/searchdatatox.cpp\<close>). The document of the index library is the list of the calls that were made; which
  calls raise an exception is a parameter. The states of all the processors of a pipeline are always
  there, and one that the configuration leaves out is an object of the base class, which forwards everything.
\<close>

section \<open>Indexing\<close>

record FieldTraits =
  ft_pfx :: string
  ft_wdfinc :: int
  ft_pfxonly :: bool

datatype xcall = AddPosting string "32 word" int | AddTerm string int

type_synonym xraises = "xcall list \<Rightarrow> xcall \<Rightarrow> bool"

record TermIdx =
  ti_ft :: FieldTraits
  basepos :: "32 word"
  curpos :: "32 word"
  ti_doc :: "xcall list"
  m_lastpagepos :: "32 word"
  m_pageincr :: int
  m_pageincrvec :: "(int \<times> int) list"

text \<open>The parameters of the index: whether terms are stripped of accents and case, and whether there are no positions.\<close>

record IdxConf =
  o_index_stripchars :: bool
  o_no_term_positions :: bool

definition baseTextPosition :: int where "baseTextPosition = 100000"
definition page_break_term :: string where "page_break_term = ''XXPG/''"

definition start_of_field_term :: "IdxConf \<Rightarrow> string" where
  "start_of_field_term ic = (if o_index_stripchars ic then ''XXST'' else ''XXST/'')"

definition end_of_field_term :: "IdxConf \<Rightarrow> string" where
  "end_of_field_term ic = (if o_index_stripchars ic then ''XXND'' else ''XXND/'')"

definition xcall_try :: "xraises \<Rightarrow> xcall \<Rightarrow> TermIdx \<Rightarrow> bool \<times> TermIdx" where
  "xcall_try xr c s = (if xr (ti_doc s) c then (False, s) else (True, s\<lparr>ti_doc := ti_doc s @ [c]\<rparr>))"

text \<open>A term is indexed without the prefix of its field, unless this is forbidden, and with it, if there is one.\<close>

definition idx_call :: "IdxConf \<Rightarrow> string \<Rightarrow> int \<Rightarrow> TermIdx \<Rightarrow> xcall" where
  "idx_call ic t pos s =
     (if \<not> o_no_term_positions ic then AddPosting t (word_of_int pos) (ft_wdfinc (ti_ft s)) else AddTerm t (ft_wdfinc (ti_ft s)))"

definition idx_takeword ::
  "IdxConf \<Rightarrow> xraises \<Rightarrow> TermIdx \<Rightarrow> string \<Rightarrow> int \<Rightarrow> int \<Rightarrow> int \<Rightarrow> bool \<times> TermIdx" where
  "idx_takeword ic xr s0 t pos0 bs be =
     (let s = s0\<lparr>curpos := word_of_int pos0\<rparr>; pos = pos0 + uint (basepos s)
      in if t = [] then (True, s)
         else case (if \<not> ft_pfxonly (ti_ft s) then xcall_try xr (idx_call ic t pos s) s else (True, s)) of
             (ok, s1) \<Rightarrow>
               if \<not> ok then (False, s1)
               else if ft_pfx (ti_ft s1) \<noteq> [] then xcall_try xr (idx_call ic (ft_pfx (ti_ft s1) @ t) pos s1) s1
               else (True, s1))"

text \<open>
  A page break; several at one position are counted. The call for its term is outside every handler of exceptions; it
  does not raise one here.
\<close>

definition idx_pageincr :: "TermIdx \<Rightarrow> TermIdx" where
  "idx_pageincr s =
     (if 0 < m_pageincr s
      then s\<lparr>m_pageincrvec := m_pageincrvec s @ [(sint (m_lastpagepos s - word_of_int baseTextPosition), m_pageincr s)], m_pageincr := 0\<rparr>
      else s)"

definition idx_newpage :: "IdxConf \<Rightarrow> TermIdx \<Rightarrow> int \<Rightarrow> TermIdx" where
  "idx_newpage ic s pos0 =
     (let pos = pos0 + uint (basepos s)
      in if pos < baseTextPosition then s
         else let s1 = (if \<not> o_no_term_positions ic
                        then s\<lparr>ti_doc := ti_doc s @ [AddPosting (ft_pfx (ti_ft s) @ page_break_term) (word_of_int pos) 1]\<rparr> else s);
                  s2 = (if pos = uint (m_lastpagepos s1) then s1\<lparr>m_pageincr := m_pageincr s1 + 1\<rparr>
                        else (idx_pageincr s1)\<lparr>m_pageincr := 0\<rparr>)
           in s2\<lparr>m_lastpagepos := word_of_int pos\<rparr>)"

definition term_idx :: "IdxConf \<Rightarrow> xraises \<Rightarrow> TermIdx termproc" where
  "term_idx ic xr = \<lparr>tp_takeword = idx_takeword ic xr, tp_newpage = idx_newpage ic, tp_flush = \<lambda>s. (True, idx_pageincr s)\<rparr>"

type_synonym index_state = "TermProcPrep \<times> string list \<times> unit \<times> TermIdx"

definition index_pipeline ::
  "IdxConf \<Rightarrow> xraises \<Rightarrow> unac \<Rightarrow> string set \<Rightarrow> SynGroups \<Rightarrow> index_state termproc" where
  "index_pipeline ic xr unac stops sg =
     (let nxt = term_stop stops (term_idx ic xr);
          nxt1 = (if 1 < sg_maxlen sg then term_multi sg nxt else term_proc nxt)
      in if o_index_stripchars ic then term_prep unac nxt1 else term_proc nxt1)"

definition idx_of :: "index_state \<Rightarrow> TermIdx" where
  "idx_of su = snd (snd (snd su))"

definition idx_upd :: "(TermIdx \<Rightarrow> TermIdx) \<Rightarrow> index_state \<Rightarrow> index_state" where
  "idx_upd f = apsnd (apsnd (apsnd f))"

definition idx_try :: "xraises \<Rightarrow> xcall \<Rightarrow> index_state \<Rightarrow> bool \<times> index_state" where
  "idx_try xr c su = (fst (xcall_try xr c (idx_of su)), idx_upd (\<lambda>s. snd (xcall_try xr c s)) su)"

definition idx_count :: "bool \<times> index_state \<Rightarrow> bool \<times> index_state" where
  "idx_count r = (fst r, if fst r then idx_upd (\<lambda>s. s\<lparr>basepos := basepos s + 1\<rparr>) (snd r) else snd r)"

text \<open>
  A field: the start anchor, the terms, the end anchor, and the gap to the next field; a failure skips to
  the gap.
\<close>

definition idx_out :: "index_state \<Rightarrow> index_state" where
  "idx_out = idx_upd (\<lambda>s. s\<lparr>basepos := basepos s + (curpos s + 100)\<rparr>)"

definition db_text_to_words ::
  "TextConf \<Rightarrow> index_state splitter \<Rightarrow> IdxConf \<Rightarrow> xraises \<Rightarrow> unac \<Rightarrow> string set \<Rightarrow> SynGroups \<Rightarrow> index_state \<Rightarrow> string \<Rightarrow>
   (bool \<times> index_state) run option" where
  "db_text_to_words cf ext ic xr unac stops sg su t =
     (let s = idx_of su;
          prc = index_pipeline ic xr unac stops sg;
          r = (if \<not> o_no_term_positions ic
               then idx_count (idx_try xr (AddPosting (ft_pfx (ti_ft s) @ start_of_field_term ic) (basepos s) (ft_wdfinc (ti_ft s))) su)
               else (True, su))
      in if \<not> fst r then Some (Inr (True, idx_out (snd r)))
         else map_option (map_sum id (\<lambda>(ok, su1).
           let s1 = idx_of su1
           in (True, idx_out (if ok \<and> \<not> o_no_term_positions ic
                then snd (idx_count (idx_try xr (AddPosting (ft_pfx (ti_ft s1) @ end_of_field_term ic) (basepos s1 + curpos s1 + 1)
                  (ft_wdfinc (ti_ft s1))) su1))
                else su1))))
           (splitp_text_to_words cf (splitp_sink prc) prc ext 0 (snd r) t))"

definition setTraits :: "IdxConf \<Rightarrow> FieldTraits \<Rightarrow> index_state \<Rightarrow> index_state" where
  "setTraits ic ftp = idx_upd (\<lambda>s. s\<lparr>ti_ft := (if ft_pfx ftp \<noteq> [] then ftp\<lparr>ft_pfx := wrap_prefix (o_index_stripchars ic) (ft_pfx ftp)\<rparr> else ftp)\<rparr>)"

text \<open>The fields with a prefix, in the order of their names, and then the text; \<open>traits\<close> looks up the description of a field.\<close>

fun index_fields ::
  "TextConf \<Rightarrow> index_state splitter \<Rightarrow> IdxConf \<Rightarrow> xraises \<Rightarrow> unac \<Rightarrow> string set \<Rightarrow> SynGroups \<Rightarrow> (string \<Rightarrow> FieldTraits option) \<Rightarrow>
   (string \<times> string) list \<Rightarrow> index_state \<Rightarrow> index_state run option" where
  "index_fields cf ext ic xr unac stops sg traits [] su = Some (Inr su)"
| "index_fields cf ext ic xr unac stops sg traits ((fld, mdata) # fs) su =
     (if mdata = [] then index_fields cf ext ic xr unac stops sg traits fs su
      else case traits fld of
          None \<Rightarrow> index_fields cf ext ic xr unac stops sg traits fs su
        | Some ftp \<Rightarrow>
            if ft_pfx ftp = [] then index_fields cf ext ic xr unac stops sg traits fs su
            else case db_text_to_words cf ext ic xr unac stops sg (setTraits ic ftp su) mdata of
                None \<Rightarrow> None
              | Some (Inl e) \<Rightarrow> Some (Inl e)
              | Some (Inr r) \<Rightarrow> index_fields cf ext ic xr unac stops sg traits fs (snd r))"

definition body_start :: "IdxConf \<Rightarrow> index_state \<Rightarrow> index_state" where
  "body_start ic su =
     idx_upd (\<lambda>s. if uint (curpos s) < baseTextPosition then s\<lparr>basepos := word_of_int baseTextPosition\<rparr> else s)
       (setTraits ic \<lparr>ft_pfx = [], ft_wdfinc = 1, ft_pfxonly = False\<rparr> su)"

definition index_doc ::
  "TextConf \<Rightarrow> index_state splitter \<Rightarrow> IdxConf \<Rightarrow> xraises \<Rightarrow> unac \<Rightarrow> string set \<Rightarrow> SynGroups \<Rightarrow> (string \<Rightarrow> FieldTraits option) \<Rightarrow>
   (string \<times> string) list \<Rightarrow> string \<Rightarrow> index_state \<Rightarrow> index_state run option" where
  "index_doc cf ext ic xr unac stops sg traits meta body su =
     (case index_fields cf ext ic xr unac stops sg traits meta su of
        None \<Rightarrow> None
      | Some (Inl e) \<Rightarrow> Some (Inl e)
      | Some (Inr su1) \<Rightarrow> map_option (map_sum id snd) (db_text_to_words cf ext ic xr unac stops sg (body_start ic su1) body))"

definition index_init :: index_state where
  "index_init = (prep_init, [], (), \<lparr>ti_ft = \<lparr>ft_pfx = [], ft_wdfinc = 1, ft_pfxonly = False\<rparr>, basepos = 1, curpos = 0,
     ti_doc = [], m_lastpagepos = 0, m_pageincr = 0, m_pageincrvec = []\<rparr>)"

section \<open>Queries\<close>

text \<open>The last two members are those of the splitter, which the processor reads.\<close>

record TermQ =
  m_alltermcount :: int
  q_lastpos :: int
  m_vterms :: "string list"
  m_vnostemexps :: "bool list"
  m_terms :: "(int, string) omap"
  m_nste :: "(int, bool) omap"
  m_nostemexp :: bool
  m_problemterm :: string

definition q_init :: TermQ where
  "q_init = \<lparr>m_alltermcount = 0, q_lastpos = 0, m_vterms = [], m_vnostemexps = [], m_terms = [], m_nste = [],
     m_nostemexp = False, m_problemterm = []\<rparr>"

definition q_takeword :: "TermQ \<Rightarrow> string \<Rightarrow> int \<Rightarrow> int \<Rightarrow> int \<Rightarrow> bool \<times> TermQ" where
  "q_takeword s t ipos bs be =
     (let s1 = s\<lparr>m_alltermcount := m_alltermcount s + 1, q_lastpos := (if q_lastpos s < ipos then ipos else q_lastpos s)\<rparr>;
          noexpand = (if be \<noteq> 0 then m_nostemexp s1 else True);
          old = omap_find (<) ipos (m_terms s1);
          s2 = (if old = None then s1\<lparr>m_terms := omap_put (<) ipos [] (m_terms s1)\<rparr> else s1)
      in (True, if length (case old of None \<Rightarrow> [] | Some w \<Rightarrow> w) < length t
                then s2\<lparr>m_terms := omap_put (<) ipos t (m_terms s2), m_nste := omap_put (<) ipos noexpand (m_nste s2)\<rparr> else s2))"

definition q_flush :: "TermQ \<Rightarrow> bool \<times> TermQ" where
  "q_flush s = (True, s\<lparr>m_vterms := m_vterms s @ map snd (m_terms s),
     m_vnostemexps := m_vnostemexps s @ map (\<lambda>e. omap_find (<) (fst e) (m_nste s) = Some True) (m_terms s)\<rparr>)"

definition term_q :: "TermQ termproc" where
  "term_q = \<lparr>tp_takeword = q_takeword, tp_newpage = \<lambda>s pos. s, tp_flush = q_flush\<rparr>"

type_synonym query_state = "TermProcPrep \<times> unit \<times> TermQ"

definition query_pipeline :: "IdxConf \<Rightarrow> unac \<Rightarrow> string set \<Rightarrow> query_state termproc" where
  "query_pipeline ic unac stops =
     (let nxt = term_stop stops term_q in if o_index_stripchars ic then term_prep unac nxt else term_proc nxt)"

text \<open>\<open>TextSplitQ\<close>: capitals stop the expansion of a term, a term that is too long is remembered.\<close>

definition tsq_sink :: "unac \<Rightarrow> query_state termproc \<Rightarrow> query_state sink" where
  "tsq_sink unac prc su e =
     (case e of
        TakeWord t pos bs be \<Rightarrow> splitp_sink prc (apsnd (apsnd (\<lambda>s. s\<lparr>m_nostemexp := unaciscapital unac t\<rparr>)) su) e
      | Discarded t pos bs be reason \<Rightarrow> (True, apsnd (apsnd (\<lambda>s. s\<lparr>m_problemterm := t\<rparr>)) su)
      | _ \<Rightarrow> splitp_sink prc su e)"

text \<open>The terms of a word or phrase, and what the distance of its terms adds to the slack.\<close>

definition query_terms ::
  "TextConf \<Rightarrow> query_state splitter \<Rightarrow> IdxConf \<Rightarrow> unac \<Rightarrow> string set \<Rightarrow> bool \<Rightarrow> string \<Rightarrow> (bool \<times> TermQ) run option" where
  "query_terms cf ext ic unac stops nowildexp wordorphrase =
     (let prc = query_pipeline ic unac stops;
          flags = (if \<not> nowildexp then TXTS_ONLYSPANS OR TXTS_KEEPWILD else TXTS_ONLYSPANS)
      in map_option (map_sum id (\<lambda>(ok, su). (ok, snd (snd su))))
           (splitp_text_to_words cf (tsq_sink unac prc) prc ext flags (prep_init, (), q_init) wordorphrase))"

definition query_slack :: "int \<Rightarrow> TermQ \<Rightarrow> int" where
  "query_slack slack0 s = slack0 + (q_lastpos s - int (length (m_vterms s)) + 1)"

end
