(* ===== verification/Term_Find.thy ===== *)
theory Term_Find
  imports Term_Index
begin

text \<open>
  What the two pipelines have in common: the interpretations of the locales of \<open>Term_Proc\<close> on the ends of the pipelines, the
  terms that reach the index, and that the words of a phrase of a text are found in its index, at their distances.
\<close>

section \<open>The ends of the pipelines\<close>

definition no_raise :: xraises where "no_raise cs c \<longleftrightarrow> False"

definition idx_has :: "IdxConf \<Rightarrow> TermIdx \<Rightarrow> string \<Rightarrow> int \<Rightarrow> bool" where
  "idx_has ic s t p \<longleftrightarrow>
     (\<not> ft_pfxonly (ti_ft s) \<longrightarrow> idx_call ic t (p + uint (basepos s)) s \<in> set (ti_doc s)) \<and>
     (ft_pfx (ti_ft s) \<noteq> [] \<longrightarrow> idx_call ic (ft_pfx (ti_ft s) @ t) (p + uint (basepos s)) s \<in> set (ti_doc s))"

interpretation idx_collect: term_collect "term_idx ic no_raise" "idx_has ic" for ic
  by unfold_locales
    (auto simp: term_idx_def idx_has_def idx_takeword_def idx_newpage_def idx_pageincr_def idx_call_def xcall_try_def no_raise_def Let_def)

interpretation idx_field: term_end "term_idx ic xr" "\<lambda>s. basepos s = B \<and> ti_ft s = F" "\<lambda>t pos bs be. True" for ic xr B F
  by unfold_locales
    (auto simp: term_idx_def idx_takeword_def idx_newpage_def idx_pageincr_def xcall_try_def Let_def split: if_splits)

text \<open>The terms of the calls, without the prefix of the field; the anchors and page breaks have names of their own.\<close>

fun call_term :: "xcall \<Rightarrow> string" where
  "call_term (AddPosting t p w) = t"
| "call_term (AddTerm t w) = t"

definition call_of :: "IdxConf \<Rightarrow> string \<Rightarrow> (string \<Rightarrow> bool) \<Rightarrow> xcall \<Rightarrow> bool" where
  "call_of ic pfx G c \<longleftrightarrow> (\<exists>t. (t \<noteq> [] \<and> G t \<or> t = page_break_term \<or> t = start_of_field_term ic \<or> t = end_of_field_term ic) \<and>
     (call_term c = t \<or> call_term c = pfx @ t))"

definition calls_ok :: "IdxConf \<Rightarrow> FieldTraits \<Rightarrow> (string \<Rightarrow> bool) \<Rightarrow> xcall list \<Rightarrow> TermIdx \<Rightarrow> bool" where
  "calls_ok ic F G cs0 s \<longleftrightarrow> ti_ft s = F \<and> (\<exists>cs. ti_doc s = cs0 @ cs \<and> list_all (call_of ic (ft_pfx F) G) cs)"

lemma calls_ok_add:
  "calls_ok ic F G cs0 s \<Longrightarrow> call_of ic (ft_pfx F) G c \<Longrightarrow> calls_ok ic F G cs0 (s\<lparr>ti_doc := ti_doc s @ [c]\<rparr>)"
  by (auto simp: calls_ok_def)

lemma calls_ok_upd [simp]:
  "calls_ok ic F G cs0 (s\<lparr>curpos := a\<rparr>) = calls_ok ic F G cs0 s"
  "calls_ok ic F G cs0 (s\<lparr>basepos := b\<rparr>) = calls_ok ic F G cs0 s"
  "calls_ok ic F G cs0 (s\<lparr>m_lastpagepos := b\<rparr>) = calls_ok ic F G cs0 s"
  "calls_ok ic F G cs0 (s\<lparr>m_pageincr := i\<rparr>) = calls_ok ic F G cs0 s"
  "calls_ok ic F G cs0 (s\<lparr>m_pageincrvec := v\<rparr>) = calls_ok ic F G cs0 s"
  "calls_ok ic F G cs0 (s\<lparr>m_pageincrvec := v, m_pageincr := i\<rparr>) = calls_ok ic F G cs0 s"
  by (simp_all add: calls_ok_def)

lemma call_term_idx_call [simp]: "call_term (idx_call ic t p s) = t"
  by (simp add: idx_call_def)

lemma calls_ok_try:
  "calls_ok ic F G cs0 s \<Longrightarrow> t \<noteq> [] \<Longrightarrow> G t \<Longrightarrow> call_term c = t \<or> call_term c = ft_pfx F @ t \<Longrightarrow>
    calls_ok ic F G cs0 (snd (xcall_try xr c s))"
  by (auto simp: xcall_try_def call_of_def intro!: calls_ok_add)

lemma calls_ok_ft: "calls_ok ic F G cs0 s \<Longrightarrow> ti_ft s = F"
  by (simp add: calls_ok_def)

interpretation idx_calls: term_end "term_idx ic xr" "calls_ok ic F G cs0" "\<lambda>t pos bs be. t = [] \<or> G t" for ic xr F G cs0
proof
  show "calls_ok ic F G cs0 (snd (tp_takeword (term_idx ic xr) s t pos bs be))"
    if s: "calls_ok ic F G cs0 s" and t: "t = [] \<or> G t" for s t pos bs be
  proof (cases "t = []")
    case False
    let ?s = "s\<lparr>curpos := word_of_int pos\<rparr>"
    let ?pos = "pos + uint (basepos ?s)"
    let ?r = "if \<not> ft_pfxonly (ti_ft ?s) then xcall_try xr (idx_call ic t ?pos ?s) ?s else (True, ?s)"
    have "calls_ok ic F G cs0 (snd ?r)"
      using s t False calls_ok_try [of ic F G cs0 ?s t "idx_call ic t ?pos ?s" xr] by simp
    moreover obtain ok s1 where r: "?r = (ok, s1)"
      by force
    ultimately have s1: "calls_ok ic F G cs0 s1"
      by simp
    have "calls_ok ic F G cs0 (snd (xcall_try xr (idx_call ic (ft_pfx (ti_ft s1) @ t) ?pos s1) s1))"
      using s1 t False calls_ok_ft [OF s1] by (intro calls_ok_try [of _ _ _ _ _ t]) simp_all
    then have "calls_ok ic F G cs0 (snd (idx_takeword ic xr s t pos bs be))"
      using s1 False unfolding idx_takeword_def Let_def r by (simp split: prod.split)
    then show ?thesis
      by (simp add: term_idx_def)
  qed (use s in \<open>simp add: term_idx_def idx_takeword_def Let_def\<close>)
  show "calls_ok ic F G cs0 (tp_newpage (term_idx ic xr) s pos)" if "calls_ok ic F G cs0 s" for s pos
    using that calls_ok_ft [OF that]
    by (auto simp: term_idx_def idx_newpage_def idx_pageincr_def Let_def call_of_def intro!: calls_ok_add)
qed (simp add: term_idx_def idx_pageincr_def)

text \<open>The terms of a query.\<close>

lemma omap_put_int: "x \<in> set (omap_put (<) (k :: int) v m) \<Longrightarrow> x = (k, v) \<or> x \<in> set m"
  by (induction m) (auto split: if_splits)

lemma omap_put_twice: "omap_put (<) (k :: int) v (omap_put (<) k w m) = omap_put (<) k v m"
  by (induction m) auto

definition q_ok :: "(string \<Rightarrow> int \<Rightarrow> bool) \<Rightarrow> TermQ \<Rightarrow> bool" where
  "q_ok R s \<longleftrightarrow> (\<forall>(p, t) \<in> set (m_terms s). t \<noteq> [] \<and> R t p \<and> p \<le> q_lastpos s) \<and> m_vterms s = []"

interpretation q_words: term_words term_q "q_ok R" "\<lambda>t pos bs be. t \<noteq> [] \<and> R t pos" for R
proof
  show "q_ok R (snd (tp_takeword term_q s t pos bs be))" if "q_ok R s" "t \<noteq> [] \<and> R t pos" for s t pos bs be
    using that
    by (fastforce simp: q_ok_def term_q_def q_takeword_def Let_def omap_put_twice dest!: omap_put_int split: option.splits)
qed (simp add: term_q_def)

interpretation q_collect: term_collect term_q "\<lambda>s t p. True"
  by unfold_locales (auto simp: term_q_def q_takeword_def q_flush_def Let_def)

section \<open>The pipelines\<close>

text \<open>The conversion of accents and cases does not fail.\<close>

definition unac_total :: "unac \<Rightarrow> bool" where
  "unac_total unac \<longleftrightarrow> (\<forall>w. unac UNACOP_UNACFOLD w \<noteq> None)"

text \<open>The terms that the first processor makes of a word.\<close>

definition word_terms :: "IdxConf \<Rightarrow> unac \<Rightarrow> string \<Rightarrow> string list" where
  "word_terms ic unac w = (if o_index_stripchars ic then prep_terms unac w else [w])"

lemma index_pipeline_collect:
  assumes "unac_total unac"
  shows "term_collect (index_pipeline ic no_raise unac stops sg)
    (\<lambda>su w p. \<forall>t \<in> set (word_terms ic unac w). t \<in> stops \<or> idx_has ic (idx_of su) t p)"
proof -
  let ?nxt = "if 1 < sg_maxlen sg then term_multi sg (term_stop stops (term_idx ic no_raise))
    else term_proc (term_stop stops (term_idx ic no_raise))"
  have s: "term_collect (term_stop stops (term_idx ic no_raise)) (\<lambda>su t p. t \<in> stops \<or> idx_has ic (snd su) t p)"
    by (rule idx_collect.stop_collect)
  have n: "term_collect ?nxt (\<lambda>su t p. t \<in> stops \<or> idx_has ic (snd (snd su)) t p)"
    by (simp add: term_collect.multi_collect [OF s] term_collect.base_collect [OF s])
  have "term_collect (term_prep unac ?nxt) (\<lambda>su w p. \<forall>t \<in> set (prep_terms unac w). t \<in> stops \<or> idx_has ic (snd (snd (snd su))) t p)"
    by (rule term_collect.prep_collect [OF n]) (use assms in \<open>simp add: unac_total_def\<close>)
  moreover have "term_collect (term_proc ?nxt :: index_state termproc) (\<lambda>su w p. w \<in> stops \<or> idx_has ic (snd (snd (snd su))) w p)"
    by (rule term_collect.base_collect [OF n])
  ultimately show ?thesis
    by (cases "o_index_stripchars ic") (simp_all add: index_pipeline_def Let_def word_terms_def idx_of_def)
qed

lemma index_pipeline_end:
  assumes "term_end (term_idx ic xr) Q (\<lambda>t pos bs be. T t)"
  shows "term_end (index_pipeline ic xr unac stops sg) (\<lambda>su. Q (idx_of su))
    (\<lambda>w pos bs be. \<forall>t \<in> set (word_terms ic unac w) \<union> set (sg_multiwords sg). t \<in> stops \<or> T t)"
proof -
  let ?nxt = "if 1 < sg_maxlen sg then term_multi sg (term_stop stops (term_idx ic xr))
    else term_proc (term_stop stops (term_idx ic xr))"
  let ?T = "\<lambda>t. t \<in> stops \<or> T t"
  have s: "term_end (term_stop stops (term_idx ic xr)) (\<lambda>su. Q (snd su)) (\<lambda>t pos bs be. ?T t)"
    by (rule term_end.stop_end [OF assms])
  have "term_end (term_multi sg (term_stop stops (term_idx ic xr))) (\<lambda>su. Q (snd (snd su)))
      (\<lambda>t pos bs be. ?T t \<and> (\<forall>g \<in> set (sg_multiwords sg). ?T g))"
    using term_end.multi_end [OF s] by (rule term_end.stronger) auto
  moreover have "term_end (term_proc (term_stop stops (term_idx ic xr)) :: (string list \<times> unit \<times> TermIdx) termproc) (\<lambda>su. Q (snd (snd su)))
      (\<lambda>t pos bs be. ?T t \<and> (\<forall>g \<in> set (sg_multiwords sg). ?T g))"
    using term_end.base_end [OF s] by (rule term_end.stronger) auto
  ultimately have n: "term_end ?nxt (\<lambda>su. Q (snd (snd su))) (\<lambda>t pos bs be. ?T t \<and> (\<forall>g \<in> set (sg_multiwords sg). ?T g))"
    by simp
  let ?W = "\<lambda>w pos bs be. \<forall>t \<in> set (word_terms ic unac w) \<union> set (sg_multiwords sg). ?T t"
  have "term_end (term_prep unac ?nxt) (\<lambda>su. Q (snd (snd (snd su)))) ?W" if "o_index_stripchars ic"
    using term_end.prep_end [OF n] by (rule term_end.stronger) (use that in \<open>auto simp: word_terms_def list_all_iff\<close>)
  moreover have "term_end (term_proc ?nxt :: index_state termproc) (\<lambda>su. Q (snd (snd (snd su)))) ?W" if "\<not> o_index_stripchars ic"
    using term_end.base_end [OF n] by (rule term_end.stronger) (use that in \<open>auto simp: word_terms_def\<close>)
  ultimately show ?thesis
    by (cases "o_index_stripchars ic") (simp_all add: index_pipeline_def Let_def idx_of_def)
qed

lemma idx_of_upd [simp]: "idx_of (idx_upd f su) = f (idx_of su)"
  by (simp add: idx_of_def idx_upd_def)

lemma idx_of_try: "idx_of (snd (idx_try xr c su)) = snd (xcall_try xr c (idx_of su))"
  by (simp add: idx_try_def)

lemma idx_of_count: "idx_of (snd (idx_count r)) = (if fst r then idx_of (snd r)\<lparr>basepos := basepos (idx_of (snd r)) + 1\<rparr> else idx_of (snd r))"
  by (simp add: idx_count_def)

lemma calls_ok_anchor:
  "calls_ok ic F G cs0 s \<Longrightarrow> t = start_of_field_term ic \<or> t = end_of_field_term ic \<Longrightarrow> call_term c = ft_pfx F @ t \<Longrightarrow>
    calls_ok ic F G cs0 (snd (xcall_try xr c s))"
  by (auto simp: xcall_try_def call_of_def intro!: calls_ok_add)

section \<open>What is indexed\<close>

text \<open>The terms that may be indexed.\<close>

definition index_term :: "IdxConf \<Rightarrow> string set \<Rightarrow> SynGroups \<Rightarrow> string \<Rightarrow> bool" where
  "index_term ic stops sg t \<longleftrightarrow> t \<notin> stops \<and> (o_index_stripchars ic \<longrightarrow> blank \<in> set t \<longrightarrow> t \<in> set (sg_multiwords sg))"

lemma index_splits:
  assumes "splitter_conf cf" "calls_ok ic F (index_term ic stops sg) cs0 (idx_of su)"
  shows "\<exists>ok su1. splitp_text_to_words cf (splitp_sink (index_pipeline ic xr unac stops sg)) (index_pipeline ic xr unac stops sg) ext flags su t =
      Some (Inr (ok, su1)) \<and> calls_ok ic F (index_term ic stops sg) cs0 (idx_of su1)"
proof -
  let ?G = "index_term ic stops sg"
  have e: "term_end (index_pipeline ic xr unac stops sg) (\<lambda>su. calls_ok ic F ?G cs0 (idx_of su))
    (\<lambda>w pos bs be. \<forall>t \<in> set (word_terms ic unac w) \<union> set (sg_multiwords sg). t \<in> stops \<or> t = [] \<or> ?G t)"
    by (rule index_pipeline_end) (rule idx_calls.term_end_axioms)
  have "t \<in> stops \<or> t = [] \<or> ?G t" if "t \<in> set (word_terms ic unac w) \<union> set (sg_multiwords sg)" for t w
    using that prep_terms_clean [of t unac w] by (auto simp: index_term_def word_terms_def)
  then show ?thesis
    by (intro term_end.splitp_keeps [OF e] term_words.splitp_client [OF term_end.axioms(1) [OF e]] assms) blast
qed

text \<open>
  C10. Indexing a field, whatever its text, returns; the calls it makes are for the anchors, for page breaks, or for terms
  that are not empty, not a stop word and, when accents are stripped, without a blank if they are no synonym of several words, with
  or without the prefix of the field.
\<close>

theorem index_field_safe:
  assumes "splitter_conf cf"
  shows "\<exists>su1 cs. db_text_to_words cf ext ic xr unac stops sg su t = Some (Inr (True, su1)) \<and>
    ti_doc (idx_of su1) = ti_doc (idx_of su) @ cs \<and>
    list_all (call_of ic (ft_pfx (ti_ft (idx_of su))) (index_term ic stops sg)) cs"
proof -
  let ?F = "ti_ft (idx_of su)"
  let ?ok = "calls_ok ic ?F (index_term ic stops sg) (ti_doc (idx_of su))"
  let ?anchor = "\<lambda>s t p. AddPosting (ft_pfx (ti_ft s) @ t) p (ft_wdfinc (ti_ft s))"
  have anchor: "?ok (idx_of (snd (idx_count (idx_try xr (?anchor (idx_of s) t p) s))))"
    if "?ok (idx_of s)" "t = start_of_field_term ic \<or> t = end_of_field_term ic" for s t p
    using calls_ok_anchor [OF that, of "?anchor (idx_of s) t p" xr] calls_ok_ft [OF that(1)]
    by (simp add: idx_of_count idx_of_try)
  let ?r = "if \<not> o_no_term_positions ic then idx_count (idx_try xr (?anchor (idx_of su) (start_of_field_term ic) (basepos (idx_of su))) su)
    else (True, su)"
  have "?ok (idx_of su)"
    by (simp add: calls_ok_def)
  then have ok_r: "?ok (idx_of (snd ?r))"
    using anchor by simp
  obtain b su0 where r: "?r = (b, su0)"
    by (meson surj_pair)
  have su0: "?ok (idx_of su0)"
    using ok_r unfolding r snd_conv .
  let ?p = "index_pipeline ic xr unac stops sg"
  obtain ok su1 where s: "splitp_text_to_words cf (splitp_sink ?p) ?p ext 0 su0 t = Some (Inr (ok, su1))" and su1: "?ok (idx_of su1)"
    using index_splits [OF assms su0] by blast
  let ?su2 = "if \<not> b then su0 else if ok \<and> \<not> o_no_term_positions ic
    then snd (idx_count (idx_try xr (?anchor (idx_of su1) (end_of_field_term ic) (basepos (idx_of su1) + curpos (idx_of su1) + 1)) su1))
    else su1"
  have "db_text_to_words cf ext ic xr unac stops sg su t = Some (Inr (True, idx_out ?su2))"
    using s unfolding db_text_to_words_def Let_def r by simp
  moreover have "?ok (idx_of ?su2)"
    using su0 su1 anchor [OF su1] by simp
  then have "?ok (idx_of (idx_out ?su2))"
    by (simp add: idx_out_def)
  ultimately obtain su2 where "db_text_to_words cf ext ic xr unac stops sg su t = Some (Inr (True, su2))" "?ok (idx_of su2)"
    by blast
  then show ?thesis
    by (auto simp: calls_ok_def)
qed

section \<open>Words of a plain text\<close>

fun shift_event :: "int \<Rightarrow> nat \<Rightarrow> tsevent \<Rightarrow> tsevent" where
  "shift_event k l (TakeWord w p b e) = TakeWord w (p + k) (b + int l) (e + int l)"
| "shift_event k l (Discarded w p b e r) = Discarded w (p + k) (b + int l) (e + int l) r"
| "shift_event k l e = e"

lemma plain_shift: "plain_events cf (pos + k) (p + l) s = map (shift_event k l) (plain_events cf pos p s)"
proof (induction cf pos p s rule: plain_events.induct)
  case (1 cf pos p s)
  show ?case
  proof (cases "s = []")
    case False
    have w: "word_event cf v (pos + k) (p + l) = shift_event k l (word_event cf v pos p)" for v
      by (simp add: word_event_def)
    show ?thesis
      using 1 False w
      by (subst (1 2) plain_events.simps) (simp add: Let_def algebra_simps)
  qed (simp add: plain_events_steps)
qed

lemma takeWhile_letter_append: "takeWhile is_letter (a @ blank # r) = takeWhile is_letter a"
  by (induction a) (simp_all add: is_letter_def is_lower_def is_upper_def)

lemma plain_append:
  "plain_events cf pos p (a @ blank # r) = plain_events cf pos p a @
    plain_events cf (pos + int (length (plain_events cf pos p a))) (p + length a + 1) r"
proof (induction cf pos p a rule: plain_events.induct)
  case (1 cf pos p a)
  show ?case
  proof (cases a)
    case Nil
    have "\<not> is_letter blank"
      by (simp add: is_letter_def is_lower_def is_upper_def)
    then show ?thesis
      using Nil by (simp add: plain_events_steps)
  next
    case (Cons c a1)
    show ?thesis
    proof (cases "is_letter c")
      case True
      let ?v = "takeWhile is_letter a1"
      have len: "length ?v \<le> length a1"
        by (rule length_takeWhile_le)
      have "plain_events cf (pos + 1) (p + length (c # ?v)) (drop (length ?v) a1 @ blank # r) =
          plain_events cf (pos + 1) (p + length (c # ?v)) (drop (length ?v) a1) @
          plain_events cf (pos + 1 + int (length (plain_events cf (pos + 1) (p + length (c # ?v)) (drop (length ?v) a1))))
            (p + length (c # ?v) + length (drop (length ?v) a1) + 1) r"
        using "1.IH"(1) [of "c # ?v"] Cons True by simp
      then show ?thesis
        using Cons True len by (simp add: plain_events_steps takeWhile_letter_append algebra_simps)
    next
      case False
      then show ?thesis
        using "1.IH"(2) Cons by (simp add: plain_events_steps algebra_simps)
    qed
  qed
qed

text \<open>A word of a part of a text is one of the text.\<close>

lemma plain_infix:
  assumes "TakeWord w p b e \<in> set (plain_events cf 0 0 q)"
  shows "\<exists>b1 e1. TakeWord w (int (length (plain_events cf 0 0 a)) + p) b1 e1 \<in> set (plain_events cf 0 0 (a @ [blank] @ q @ [blank] @ r))"
proof -
  let ?n = "int (length (plain_events cf 0 0 a))"
  have "plain_events cf ?n (length a + 1) q = map (shift_event ?n (length a + 1)) (plain_events cf 0 0 q)"
    using plain_shift [of cf 0 ?n 0 "length a + 1" q] by simp
  then have "shift_event ?n (length a + 1) (TakeWord w p b e) \<in> set (plain_events cf ?n (length a + 1) q)"
    using assms by (metis image_eqI list.set_map)
  then show ?thesis
    by (auto simp: plain_append add.commute)
qed

lemma plain_word: "TakeWord w p b e \<in> set (plain_events cf pos l s) \<Longrightarrow> w \<noteq> [] \<and> pos \<le> p"
proof (induction cf pos l s rule: plain_events.induct)
  case (1 cf pos l s)
  show ?case
  proof (cases s)
    case (Cons c s1)
    then show ?thesis
      using 1 by (cases "is_letter c") (fastforce simp: plain_events_steps word_event_def Let_def split: if_splits)+
  qed (use 1 in \<open>simp add: plain_events_steps\<close>)
qed

section \<open>Phrases\<close>

lemma after_keeps:
  "(\<And>e u. e \<in> set es \<Longrightarrow> Q u \<Longrightarrow> Q (snd (sink u e))) \<Longrightarrow> Q u \<Longrightarrow> Q (after sink es u)"
  by (induction es arbitrary: u) simp_all

lemma query_pipeline_words:
  assumes "term_words term_q Q (\<lambda>t pos bs be. T t pos)"
  shows "term_words (query_pipeline ic unac stops) (\<lambda>su. Q (snd (snd su)))
    (\<lambda>w pos bs be. \<forall>t \<in> set (word_terms ic unac w). t \<in> stops \<or> T t pos)"
proof -
  let ?nxt = "term_stop stops term_q"
  have s: "term_words ?nxt (\<lambda>su. Q (snd su)) (\<lambda>t pos bs be. t \<in> stops \<or> T t pos)"
    by (rule term_words.stop_words [OF assms])
  let ?W = "\<lambda>w pos bs be. \<forall>t \<in> set (word_terms ic unac w). t \<in> stops \<or> T t pos"
  have "term_words (term_prep unac ?nxt) (\<lambda>su. Q (snd (snd su))) ?W" if "o_index_stripchars ic"
    using term_words.prep_words [OF s] by (rule term_words.stronger_words) (use that in \<open>auto simp: word_terms_def list_all_iff\<close>)
  moreover have "term_words (term_proc ?nxt :: query_state termproc) (\<lambda>su. Q (snd (snd su))) ?W" if "\<not> o_index_stripchars ic"
    using term_words.base_words [OF s] by (rule term_words.stronger_words) (use that in \<open>auto simp: word_terms_def\<close>)
  ultimately show ?thesis
    by (cases "o_index_stripchars ic") (simp_all add: query_pipeline_def Let_def)
qed

lemma query_pipeline_takes:
  assumes "unac_total unac"
  shows "fst (tp_takeword (query_pipeline ic unac stops) u t pos bs be)" "fst (tp_flush (query_pipeline ic unac stops) u)"
proof -
  have s: "term_collect (term_stop stops term_q) (\<lambda>su t p. t \<in> stops \<or> True)"
    by (rule q_collect.stop_collect)
  have "term_collect (term_prep unac (term_stop stops term_q)) (\<lambda>su w p. \<forall>t \<in> set (prep_terms unac w). t \<in> stops \<or> True)"
    by (rule term_collect.prep_collect [OF s]) (use assms in \<open>simp add: unac_total_def\<close>)
  note takes = term_collect.takes [OF this] term_collect.takes [OF term_collect.base_collect [OF s]]
  show "fst (tp_takeword (query_pipeline ic unac stops) u t pos bs be)"
    unfolding query_pipeline_def Let_def by (cases "o_index_stripchars ic") (simp_all only: if_True if_False simp_thms takes)
  show "fst (tp_flush (query_pipeline ic unac stops) u)"
    unfolding query_pipeline_def Let_def by (cases "o_index_stripchars ic") (simp_all only: if_True if_False simp_thms takes)
qed

text \<open>The flush of the query pipeline is that of its end.\<close>

lemma query_pipeline_flush: "snd (snd (snd (tp_flush (query_pipeline ic unac stops) su))) = snd (q_flush (snd (snd su)))"
  by (cases su) (simp add: query_pipeline_def Let_def term_prep_def term_proc_def term_stop_def term_q_def)

definition query_word :: "TextConf \<Rightarrow> IdxConf \<Rightarrow> unac \<Rightarrow> string set \<Rightarrow> string \<Rightarrow> string \<Rightarrow> int \<Rightarrow> bool" where
  "query_word cf ic unac stops q t p \<longleftrightarrow> t \<notin> stops \<and>
     (\<exists>w b e. TakeWord w p b e \<in> set (plain_events cf 0 0 q) \<and> t \<in> set (word_terms ic unac w))"

lemma query_plain:
  assumes "unac_total unac" "list_all (\<lambda>c. is_letter c \<or> c = blank) q" "plain_conf cf"
  shows "\<exists>s. query_terms cf ext ic unac stops nowildexp q = Some (Inr (True, s)) \<and> m_vterms s = map snd (m_terms s) \<and>
    (\<forall>(p, t) \<in> set (m_terms s). t \<noteq> [] \<and> query_word cf ic unac stops q t p \<and> 0 \<le> p \<and> p \<le> q_lastpos s)"
proof -
  let ?prc = "query_pipeline ic unac stops" and ?es = "plain_events cf 0 0 q"
  let ?sink = "tsq_sink unac ?prc" and ?R = "query_word cf ic unac stops q"
  have acc: "accepting ?sink"
    using query_pipeline_takes(1) [OF assms(1)]
    by unfold_locales (simp add: tsq_sink_def splitp_sink_def split: tsevent.split)
  have wds: "term_words ?prc (\<lambda>su. q_ok ?R (snd (snd su))) (\<lambda>w pos bs be. \<forall>t \<in> set (word_terms ic unac w). t \<in> stops \<or> t \<noteq> [] \<and> ?R t pos)"
    by (rule query_pipeline_words) (rule q_words.term_words_axioms)
  have upd [simp]: "q_ok ?R (s\<lparr>m_nostemexp := b\<rparr>) = q_ok ?R s" "q_ok ?R (s\<lparr>m_problemterm := w\<rparr>) = q_ok ?R s" for s b w
    by (simp_all add: q_ok_def)
  have "q_ok ?R (snd (snd (snd (?sink su e))))" if e: "e \<in> set ?es" and q: "q_ok ?R (snd (snd su))" for su e
  proof (cases e)
    case (TakeWord w p b e1)
    have "t \<in> stops \<or> t \<noteq> [] \<and> ?R t p" if "t \<in> set (word_terms ic unac w)" for t
      using that e plain_word [of w p b e1 cf 0 0 q] prep_terms_clean [of t unac w]
      by (auto simp: TakeWord query_word_def word_terms_def split: if_splits)
    then show ?thesis
      using q by (simp add: TakeWord tsq_sink_def splitp_sink_def term_words.word_keeps [OF wds])
  qed (use q in \<open>simp_all add: tsq_sink_def splitp_sink_def term_words.page_keeps [OF wds]\<close>)
  then have ok: "q_ok ?R (snd (snd (after ?sink ?es (prep_init, (), q_init))))"
    by (intro after_keeps [where Q = "\<lambda>su. q_ok ?R (snd (snd su))"]) (auto simp: q_ok_def q_init_def)
  define s0 where "s0 = snd (snd (after ?sink ?es (prep_init, (), q_init)))"
  have "query_terms cf ext ic unac stops nowildexp q = Some (Inr (True, snd (q_flush s0)))"
    using splitp_plain [OF acc query_pipeline_takes(2) [OF assms(1)] assms(2,3)]
    by (simp add: query_terms_def Let_def query_pipeline_flush s0_def)
  moreover have "m_vterms (snd (q_flush s0)) = map snd (m_terms (snd (q_flush s0)))"
    "m_terms (snd (q_flush s0)) = m_terms s0" "q_lastpos (snd (q_flush s0)) = q_lastpos s0"
    using ok by (simp_all add: q_flush_def q_ok_def s0_def)
  moreover have "0 \<le> p" if "?R t p" for t p
    using that plain_word unfolding query_word_def by blast
  then have "\<forall>(p, t) \<in> set (m_terms s0). t \<noteq> [] \<and> ?R t p \<and> 0 \<le> p \<and> p \<le> q_lastpos s0"
    using ok unfolding q_ok_def s0_def by blast
  ultimately show ?thesis
    by (intro exI [of _ "snd (q_flush s0)"]) simp
qed

text \<open>The words of a plain text arrive, at the position of the field plus their own.\<close>

lemma index_plain:
  assumes "unac_total unac" "list_all (\<lambda>c. is_letter c \<or> c = blank) t" "plain_conf cf"
    "basepos (idx_of su) = B" "ti_ft (idx_of su) = F"
  shows "\<exists>su1. splitp_text_to_words cf (splitp_sink (index_pipeline ic no_raise unac stops sg)) (index_pipeline ic no_raise unac stops sg) ext flags su t =
      Some (Inr (True, su1)) \<and> basepos (idx_of su1) = B \<and> ti_ft (idx_of su1) = F \<and>
    (\<forall>w p b e v. TakeWord w p b e \<in> set (plain_events cf 0 0 t) \<longrightarrow> v \<in> set (word_terms ic unac w) \<longrightarrow> v \<notin> stops \<longrightarrow>
      idx_has ic (idx_of su1) v p)"
proof -
  let ?p = "index_pipeline ic no_raise unac stops sg"
  let ?D = "\<lambda>su w p. \<forall>v \<in> set (word_terms ic unac w). v \<in> stops \<or> idx_has ic (idx_of su) v p"
  let ?u = "after (splitp_sink ?p) (plain_events cf 0 0 t) su"
  have c: "term_collect ?p ?D"
    by (rule index_pipeline_collect) (rule assms(1))
  have e: "term_end ?p (\<lambda>su. basepos (idx_of su) = B \<and> ti_ft (idx_of su) = F)
    (\<lambda>w pos bs be. \<forall>v \<in> set (word_terms ic unac w) \<union> set (sg_multiwords sg). v \<in> stops \<or> True)"
    by (rule index_pipeline_end [where Q = "\<lambda>s. basepos s = B \<and> ti_ft s = F"]) (rule idx_field.term_end_axioms)
  have u: "basepos (idx_of ?u) = B \<and> ti_ft (idx_of ?u) = F"
    by (rule term_words.after_words [OF term_end.axioms(1) [OF e]]) (simp_all add: assms)
  have "?D (snd (tp_flush ?p ?u)) w p" if "TakeWord w p b e \<in> set (plain_events cf 0 0 t)" for w p b e
    using term_collect.stays(3) [OF c term_collect.after_adds [OF c that]] plain_word [OF that] by blast
  then show ?thesis
    using splitp_plain [OF term_collect.splitp_accepting [OF c] term_collect.takes(2) [OF c] assms(2,3), of ext flags su]
      term_end.flush_keeps [OF e u] by blast
qed

definition with_prefix :: "FieldTraits \<Rightarrow> string \<Rightarrow> bool" where
  "with_prefix F x \<longleftrightarrow> x = [] \<and> \<not> ft_pfxonly F \<or> x \<noteq> [] \<and> x = ft_pfx F"

lemma idx_has_calls:
  "idx_has ic s t p \<Longrightarrow> with_prefix (ti_ft s) x \<Longrightarrow> idx_call ic (x @ t) (p + uint (basepos s)) s \<in> set (ti_doc s)"
  by (auto simp: idx_has_def with_prefix_def)

lemma index_plain_field:
  assumes "unac_total unac" "list_all (\<lambda>c. is_letter c \<or> c = blank) t" "plain_conf cf" "\<not> o_no_term_positions ic"
  shows "\<exists>su1. db_text_to_words cf ext ic no_raise unac stops sg su t = Some (Inr (True, su1)) \<and>
    (\<forall>w p b e v x. TakeWord w p b e \<in> set (plain_events cf 0 0 t) \<longrightarrow> v \<in> set (word_terms ic unac w) \<longrightarrow> v \<notin> stops \<longrightarrow>
      with_prefix (ti_ft (idx_of su)) x \<longrightarrow>
      AddPosting (x @ v) (basepos (idx_of su) + 1 + word_of_int p) (ft_wdfinc (ti_ft (idx_of su))) \<in> set (ti_doc (idx_of su1)))"
proof -
  let ?s = "idx_of su"
  let ?c = "AddPosting (ft_pfx (ti_ft ?s) @ start_of_field_term ic) (basepos ?s) (ft_wdfinc (ti_ft ?s))"
  define su0 where "su0 = snd (idx_count (idx_try no_raise ?c su))"
  have su0: "basepos (idx_of su0) = basepos ?s + 1" "ti_ft (idx_of su0) = ti_ft ?s"
    by (simp_all add: su0_def idx_of_count idx_of_try idx_try_def xcall_try_def no_raise_def)
  have r: "idx_count (idx_try no_raise ?c su) = (True, su0)"
    by (simp add: su0_def idx_count_def idx_try_def xcall_try_def no_raise_def)
  let ?p = "index_pipeline ic no_raise unac stops sg"
  obtain su1 where s1: "splitp_text_to_words cf (splitp_sink ?p) ?p ext 0 su0 t = Some (Inr (True, su1))"
    "basepos (idx_of su1) = basepos ?s + 1" "ti_ft (idx_of su1) = ti_ft ?s"
    and has: "\<And>w p b e v. TakeWord w p b e \<in> set (plain_events cf 0 0 t) \<Longrightarrow> v \<in> set (word_terms ic unac w) \<Longrightarrow> v \<notin> stops \<Longrightarrow>
      idx_has ic (idx_of su1) v p"
    using index_plain [OF assms(1-3) su0, of ic stops sg ext 0] by blast
  define su2 where "su2 = snd (idx_count (idx_try no_raise (AddPosting (ft_pfx (ti_ft (idx_of su1)) @ end_of_field_term ic)
    (basepos (idx_of su1) + curpos (idx_of su1) + 1) (ft_wdfinc (ti_ft (idx_of su1)))) su1))"
  have db: "db_text_to_words cf ext ic no_raise unac stops sg su t = Some (Inr (True, idx_out su2))"
    using s1(1) assms(4) r by (simp add: db_text_to_words_def Let_def su2_def)
  have doc: "set (ti_doc (idx_of su1)) \<subseteq> set (ti_doc (idx_of (idx_out su2)))"
    by (auto simp: su2_def idx_out_def idx_of_count idx_of_try xcall_try_def no_raise_def)
  have "AddPosting (x @ v) (basepos ?s + 1 + word_of_int p) (ft_wdfinc (ti_ft ?s)) \<in> set (ti_doc (idx_of (idx_out su2)))"
    if "TakeWord w p b e \<in> set (plain_events cf 0 0 t)" "v \<in> set (word_terms ic unac w)" "v \<notin> stops" "with_prefix (ti_ft ?s) x" for w p b e v x
  proof -
    have "idx_call ic (x @ v) (p + uint (basepos (idx_of su1))) (idx_of su1) \<in> set (ti_doc (idx_of su1))"
      using idx_has_calls [OF has [OF that(1-3)]] that(4) s1(3) by simp
    moreover have "word_of_int (p + uint (basepos (idx_of su1))) = basepos ?s + 1 + word_of_int p"
      by (simp add: s1(2))
    ultimately show ?thesis
      using assms(4) s1(3) doc by (auto simp: idx_call_def ac_simps)
  qed
  then show ?thesis
    using db by blast
qed

text \<open>
  C9. A phrase of a text is found in the index of the text. For a text and a phrase of letters and blanks, every term of the query at position p
  is in the index, without and with the prefix of the field as the field asks for it, at the position p behind
  the first word of the phrase in the text; the window of the search, which has a place for every term and the slack for
  stop words, is large enough for their distances. This holds with stop words, synonyms, and every conversion of accents and cases that does not
  fail.
\<close>

theorem phrase_found:
  assumes "unac_total unac" "list_all (\<lambda>c. is_letter c \<or> c = blank) (a @ [blank] @ q @ [blank] @ r)" "plain_conf cf"
    "\<not> o_no_term_positions ic"
  shows "\<exists>su1 s. db_text_to_words cf ext ic no_raise unac stops sg su (a @ [blank] @ q @ [blank] @ r) = Some (Inr (True, su1)) \<and>
    query_terms cf qext ic unac stops nowildexp q = Some (Inr (True, s)) \<and> m_vterms s = map snd (m_terms s) \<and>
    (\<forall>(p, t) \<in> set (m_terms s). \<forall>x. with_prefix (ti_ft (idx_of su)) x \<longrightarrow>
      AddPosting (x @ t) (basepos (idx_of su) + 1 + word_of_int (int (length (plain_events cf 0 0 a)) + p)) (ft_wdfinc (ti_ft (idx_of su)))
        \<in> set (ti_doc (idx_of su1))) \<and>
    (\<forall>(p, t) \<in> set (m_terms s). \<forall>(p1, t1) \<in> set (m_terms s). p1 - p < int (length (m_vterms s)) + query_slack 0 s)"
proof -
  have q: "list_all (\<lambda>c. is_letter c \<or> c = blank) q"
    using assms(2) by simp
  obtain s where s: "query_terms cf qext ic unac stops nowildexp q = Some (Inr (True, s))" "m_vterms s = map snd (m_terms s)"
    and t: "\<forall>(p, t) \<in> set (m_terms s). t \<noteq> [] \<and> query_word cf ic unac stops q t p \<and> 0 \<le> p \<and> p \<le> q_lastpos s"
    using query_plain [OF assms(1) q assms(3), of qext ic stops nowildexp] by blast
  obtain su1 where db: "db_text_to_words cf ext ic no_raise unac stops sg su (a @ [blank] @ q @ [blank] @ r) = Some (Inr (True, su1))"
    and has: "\<And>w p b e v x. TakeWord w p b e \<in> set (plain_events cf 0 0 (a @ [blank] @ q @ [blank] @ r)) \<Longrightarrow> v \<in> set (word_terms ic unac w) \<Longrightarrow>
      v \<notin> stops \<Longrightarrow> with_prefix (ti_ft (idx_of su)) x \<Longrightarrow>
      AddPosting (x @ v) (basepos (idx_of su) + 1 + word_of_int p) (ft_wdfinc (ti_ft (idx_of su))) \<in> set (ti_doc (idx_of su1))"
    using index_plain_field [OF assms(1-4), of ext stops sg su] by blast
  have "AddPosting (x @ t) (basepos (idx_of su) + 1 + word_of_int (int (length (plain_events cf 0 0 a)) + p)) (ft_wdfinc (ti_ft (idx_of su)))
      \<in> set (ti_doc (idx_of su1))" if qw: "query_word cf ic unac stops q t p" and pre: "with_prefix (ti_ft (idx_of su)) x" for p t x
  proof -
    obtain w b e where w: "TakeWord w p b e \<in> set (plain_events cf 0 0 q)" "t \<in> set (word_terms ic unac w)" "t \<notin> stops"
      using qw by (auto simp: query_word_def)
    from plain_infix [OF w(1), of a r] show ?thesis
      using has w(2,3) pre by blast
  qed
  moreover have "p1 - p < int (length (m_vterms s)) + query_slack 0 s"
    if "(p, t1) \<in> set (m_terms s)" "(p1, t2) \<in> set (m_terms s)" for p p1 t1 t2
    using bspec [OF t that(1)] bspec [OF t that(2)] by (simp add: query_slack_def)
  ultimately show ?thesis
    using s db t by (intro exI [of _ su1] exI [of _ s]) blast
qed

definition plain_index :: IdxConf where
  "plain_index = \<lparr>o_index_stripchars = True, o_no_term_positions = False\<rparr>"

theorem phrase_found_witness:
  "\<exists>su1 s. db_text_to_words text_conf no_ext plain_index no_raise (\<lambda>what t. Some t) {''the''} sg_clear index_init ''see the big cat now'' =
      Some (Inr (True, su1)) \<and>
    query_terms text_conf no_ext plain_index (\<lambda>what t. Some t) {''the''} True ''big cat'' = Some (Inr (True, s)) \<and>
    (\<forall>(p, t) \<in> set (m_terms s). AddPosting t (4 + word_of_int p) 1 \<in> set (ti_doc (idx_of su1)))"
proof -
  have u: "unac_total (\<lambda>what t. Some t)"
    by (simp add: unac_total_def)
  have l: "list_all (\<lambda>c. is_letter c \<or> c = blank) (''see the'' @ [blank] @ ''big cat'' @ [blank] @ ''now'')" and c: "plain_conf text_conf"
    by code_simp+
  have n: "int (length (plain_events text_conf 0 0 ''see the'')) = 2"
    by code_simp
  have i: "basepos (idx_of index_init) = 1" "ft_wdfinc (ti_ft (idx_of index_init)) = 1" "with_prefix (ti_ft (idx_of index_init)) []"
    by (simp_all add: index_init_def idx_of_def with_prefix_def)
  have "\<not> o_no_term_positions plain_index"
    by (simp add: plain_index_def)
  note found = phrase_found [OF u l c this, of no_ext "{''the''}" sg_clear index_init no_ext True, unfolded n i]
  have "''see the'' @ [blank] @ ''big cat'' @ [blank] @ ''now'' = ''see the big cat now''"
    by simp
  then show ?thesis
    using found i(3) by fastforce
qed

text \<open>
  The test that keeps the text behind the fields looks at the relative position of the last field, not at where the fields
  end: with long fields the text is indexed at positions that they have.
\<close>

lemma body_over_fields:
  assumes "basepos (idx_of su) = 150000" "curpos (idx_of su) = 3"
  shows "basepos (idx_of (body_start ic su)) = 100000"
  using assms by (simp add: body_start_def setTraits_def baseTextPosition_def)

theorem index_field_safe_witness:
  "\<exists>su1 cs. db_text_to_words text_conf no_ext plain_index (\<lambda>cs c. length cs = 2) (\<lambda>what t. None) {''the''} sg_clear index_init [CHR 0xC3, CHR 0xFF] =
      Some (Inr (True, su1)) \<and> ti_doc (idx_of su1) = ti_doc (idx_of index_init) @ cs \<and>
    list_all (call_of plain_index (ft_pfx (ti_ft (idx_of index_init))) (index_term plain_index {''the''} sg_clear)) cs"
  by (rule index_field_safe [OF split_text_conf])

end
