(* ===== verification/Term_Multi.thy ===== *)
theory Term_Multi
  imports Term_Proc
begin

text \<open>
  What the processor for synonyms of several words (\<open>TermProcMulti\<close> of \<open>rcldb/termproc.h\<close>) sends to the next one: a closed form, what it finds
  and what it misses.
\<close>

type_synonym sent = "string \<times> int \<times> int \<times> int"

definition term_log :: "sent list termproc" where
  "term_log = term_last\<lparr>tp_takeword := \<lambda>u t pos bs be. (True, u @ [(t, pos, bs, be)])\<rparr>"

definition feed :: "'u termproc \<Rightarrow> sent list \<Rightarrow> 'u \<Rightarrow> 'u" where
  "feed prc ts u = fold (\<lambda>(t, pos, bs, be) u. snd (tp_takeword prc u t pos bs be)) ts u"

text \<open>The synonyms that are prefixes of the queue, with the position that is computed from their number of words.\<close>

definition synonym_at :: "int \<Rightarrow> int \<Rightarrow> int \<Rightarrow> string list \<Rightarrow> nat \<Rightarrow> sent" where
  "synonym_at pos bs be q k =
     (join_words (take k q), size_t_minus (pos + 1) (int k), size_t_minus bs (int (length (join_words (take k q)))), be)"

definition prefix_synonyms :: "string set \<Rightarrow> int \<Rightarrow> int \<Rightarrow> int \<Rightarrow> string list \<Rightarrow> sent list" where
  "prefix_synonyms groups pos bs be q =
     map (synonym_at pos bs be q) (filter (\<lambda>k. join_words (take k q) \<in> groups) [2..<Suc (length q)])"

lemma term_log_takeword [simp]: "tp_takeword term_log u t pos bs be = (True, u @ [(t, pos, bs, be)])"
  by (simp add: term_log_def)

lemma multi_loop_from:
  "join_words (take k q) \<noteq> [] \<Longrightarrow> 1 \<le> k \<Longrightarrow> k \<le> length q \<Longrightarrow>
    multi_loop groups term_log pos bs be (join_words (take k q)) (int k) (drop k q) u =
      u @ map (synonym_at pos bs be q) (filter (\<lambda>k. join_words (take k q) \<in> groups) [Suc k..<Suc (length q)])"
proof (induction "length q - k" arbitrary: k u)
  case (Suc n)
  then have k: "k < length q"
    by simp
  let ?c = "join_words (take (Suc k) q)"
  have r: "[Suc k..<Suc (length q)] = Suc k # [Suc (Suc k)..<Suc (length q)]"
    using k by (simp only: upt_conv_Cons)
  have j: "join_words (take k q) @ [blank] @ q ! k = ?c"
    using k Suc.prems(2) join_words_snoc [of "take k q" "q ! k"] by (cases "take k q = []") (auto simp: take_Suc_conv_app_nth)
  then have c: "?c \<noteq> []"
    by auto
  have "multi_loop groups term_log pos bs be (join_words (take k q)) (int k) (q ! k # drop (Suc k) q) u =
      multi_loop groups term_log pos bs be ?c (int (Suc k)) (drop (Suc k) q) (if ?c \<in> groups then u @ [synonym_at pos bs be q (Suc k)] else u)"
    using Suc.prems(1) unfolding multi_loop.simps Let_def j synonym_at_def by (simp add: add.commute)
  moreover note Suc.hyps(1) [of "Suc k" "if ?c \<in> groups then u @ [synonym_at pos bs be q (Suc k)] else u"]
  ultimately show ?case
    using Suc.hyps(2) k c unfolding r Cons_nth_drop_Suc [OF k, symmetric] by simp
qed simp

lemma multi_loop_log:
  assumes "list_all (\<lambda>t. t \<noteq> []) q"
  shows "multi_loop groups term_log pos bs be [] 1 q u = u @ prefix_synonyms groups pos bs be q"
proof (cases q)
  case (Cons t ts)
  then have "multi_loop groups term_log pos bs be [] 1 q u = multi_loop groups term_log pos bs be (join_words (take 1 q)) (int 1) (drop 1 q) u"
    by simp
  also have "\<dots> = u @ prefix_synonyms groups pos bs be q"
    using assms Cons by (subst multi_loop_from) (auto simp: prefix_synonyms_def numeral_2_eq_2)
  finally show ?thesis .
qed (simp add: prefix_synonyms_def)

text \<open>The queue: the last words.\<close>

definition last_words :: "nat \<Rightarrow> sent list \<Rightarrow> string list" where
  "last_words maxl ts = map fst (drop (length ts - maxl) ts)"

lemma multi_push_last:
  "1 \<le> maxl \<Longrightarrow> multi_push maxl t (last_words maxl ts) = last_words maxl (ts @ [(t, p, b, e)])"
  by (auto simp: multi_push_def last_words_def Let_def drop_Suc tl_drop drop_map [symmetric] Suc_diff_le)

definition multi_sent :: "string set \<Rightarrow> nat \<Rightarrow> sent list \<Rightarrow> nat \<Rightarrow> sent list" where
  "multi_sent groups maxl ts i =
     (case ts ! i of (t, pos, bs, be) \<Rightarrow> prefix_synonyms groups pos bs be (last_words maxl (take (Suc i) ts)) @ [(t, pos, bs, be)])"

lemma list_all_drop: "list_all P xs \<Longrightarrow> list_all P (drop n xs)"
  by (metis append_take_drop_id list_all_append)

lemma feed_multi:
  assumes "2 \<le> sg_maxlen sg" "list_all (\<lambda>x. fst x \<noteq> []) ts"
  shows "feed (term_multi sg term_log) ts ([], u) =
    (last_words (sg_maxlen sg) ts, u @ concat (map (multi_sent (set (sg_multiwords sg)) (sg_maxlen sg) ts) [0..<length ts]))"
  using assms(2)
proof (induction ts rule: rev_induct)
  case (snoc x ts)
  obtain t pos bs be where x: "x = (t, pos, bs, be)"
    by (cases x)
  let ?q = "last_words (sg_maxlen sg) (ts @ [x])"
  have "list_all (\<lambda>t. t \<noteq> []) ?q"
    using snoc.prems unfolding last_words_def by (simp add: list.pred_map comp_def list_all_drop del: drop_append)
  note loop = multi_loop_log [OF this]
  have q: "multi_push (sg_maxlen sg) t (last_words (sg_maxlen sg) ts) = ?q"
    using assms(1) multi_push_last [of "sg_maxlen sg" t ts pos bs be] by (simp add: x)
  have same: "multi_sent g m (ts @ [x]) i = multi_sent g m ts i" if "i < length ts" for g m i
    using that by (simp add: multi_sent_def nth_append)
  have m: "map (multi_sent g m (ts @ [x])) [0..<length ts] = map (multi_sent g m ts) [0..<length ts]" for g m
    using same by simp
  have "feed (term_multi sg term_log) (ts @ [x]) ([], u) =
      (?q, (u @ concat (map (multi_sent (set (sg_multiwords sg)) (sg_maxlen sg) ts) [0..<length ts])) @
        prefix_synonyms (set (sg_multiwords sg)) pos bs be ?q @ [(t, pos, bs, be)])"
    using snoc assms(1)
    by (simp add: feed_def x term_multi_def multi_takeword_def term_proc_def Let_def q [unfolded x] loop [unfolded x])
  then show ?case
    by (simp add: x m [unfolded x] multi_sent_def [of _ _ "ts @ [_]" "length ts"] del: map_eq_conv)
qed (simp add: feed_def last_words_def)
text \<open>
  C11. From words that are not empty, at any positions, the next processor gets for every word the synonyms that are a prefix, of two words or
  more, of the queue of the last words, and then the word itself, when the longest synonym has two words or more. A synonym of as many words as the queue
  holds is found wherever it stands in the text; when the positions of its words are consecutive, it is sent at the position of its
  first word.
\<close>

theorem multi_terms:
  assumes "2 \<le> sg_maxlen sg" "list_all (\<lambda>x. fst x \<noteq> []) ts"
  shows "snd (feed (term_multi sg term_log) ts ([], u)) =
      u @ concat (map (multi_sent (set (sg_multiwords sg)) (sg_maxlen sg) ts) [0..<length ts]) \<and>
    (\<forall>i. i + sg_maxlen sg \<le> length ts \<and> join_words (map fst (take (sg_maxlen sg) (drop i ts))) \<in> set (sg_multiwords sg) \<longrightarrow>
      (\<exists>p bs be. (join_words (map fst (take (sg_maxlen sg) (drop i ts))), p, bs, be) \<in> set (snd (feed (term_multi sg term_log) ts ([], u))) \<and>
        (\<forall>q. 0 \<le> q \<and> q < 2 ^ 64 \<and> fst (snd (ts ! i)) = q \<and>
          fst (snd (ts ! (i + sg_maxlen sg - 1))) = q + int (sg_maxlen sg) - 1 \<longrightarrow> p = q)))"
proof (intro conjI allI impI)
  show f: "snd (feed (term_multi sg term_log) ts ([], u)) =
      u @ concat (map (multi_sent (set (sg_multiwords sg)) (sg_maxlen sg) ts) [0..<length ts])"
    using feed_multi [OF assms, of u] by simp
  let ?m = "sg_maxlen sg" and ?g = "set (sg_multiwords sg)"
  fix i
  assume i: "i + ?m \<le> length ts \<and> join_words (map fst (take ?m (drop i ts))) \<in> ?g"
  let ?j = "i + ?m - 1"
  have j: "?j < length ts" "Suc ?j = i + ?m"
    using assms(1) i by auto
  obtain t pos bs be where x: "ts ! ?j = (t, pos, bs, be)"
    by (cases "ts ! ?j")
  let ?q = "last_words ?m (take (i + ?m) ts)"
  have q: "?q = map fst (take ?m (drop i ts))"
    using conjunct1 [OF i] by (simp add: last_words_def drop_take min_def)
  have len: "length ?q = ?m"
    unfolding q using conjunct1 [OF i] by simp
  have "synonym_at pos bs be ?q ?m \<in> set (prefix_synonyms ?g pos bs be ?q)"
    using assms(1) i len unfolding q [symmetric] by (auto simp: prefix_synonyms_def)
  then have "synonym_at pos bs be ?q ?m \<in> set (multi_sent ?g ?m ts ?j)"
    unfolding multi_sent_def x j(2) by simp
  then have "synonym_at pos bs be ?q ?m \<in> set (concat (map (multi_sent ?g ?m ts) [0..<length ts]))"
    using j(1) by auto
  moreover have "synonym_at pos bs be ?q ?m = (join_words (map fst (take ?m (drop i ts))), size_t_minus (pos + 1) (int ?m),
      size_t_minus bs (int (length (join_words (take ?m ?q)))), be)"
    using len q by (simp add: synonym_at_def)
  moreover have "size_t_minus (pos + 1) (int ?m) = p" if "0 \<le> p \<and> p < 2 ^ 64 \<and> fst (snd (ts ! i)) = p \<and> fst (snd (ts ! ?j)) = p + int ?m - 1" for p
    using that unfolding x by (simp add: size_t_minus_def)
  ultimately show "\<exists>p bs be. (join_words (map fst (take ?m (drop i ts))), p, bs, be) \<in> set (snd (feed (term_multi sg term_log) ts ([], u))) \<and>
      (\<forall>q. 0 \<le> q \<and> q < 2 ^ 64 \<and> fst (snd (ts ! i)) = q \<and> fst (snd (ts ! ?j)) = q + int ?m - 1 \<longrightarrow> p = q)"
    unfolding f by (intro exI [of _ "size_t_minus (pos + 1) (int ?m)"] exI [of _ be] exI [of _ "size_t_minus bs (int (length (join_words (take ?m ?q))))"]) auto
qed

definition syn_of :: "string list \<Rightarrow> nat \<Rightarrow> SynGroups" where
  "syn_of ws n = sg_clear\<lparr>sg_multiwords := ws, sg_maxlen := n\<rparr>"

theorem multi_terms_witness:
  "\<exists>bs be. (''a b'', 1, bs, be) \<in> set (snd (feed (term_multi (syn_of [''a b''] 2) term_log) [(''x'', 0, 0, 1), (''a'', 1, 2, 3), (''b'', 2, 4, 5)] ([], [])))"
proof -
  let ?ts = "[(''x'', 0, 0, 1), (''a'', 1, 2, 3), (''b'', 2, 4, 5)] :: sent list"
  have "2 \<le> sg_maxlen (syn_of [''a b''] 2)" "list_all (\<lambda>x. fst x \<noteq> []) ?ts"
    by (simp_all add: syn_of_def)
  note multi_terms [OF this, of "[]", THEN conjunct2, rule_format, of 1]
  then show ?thesis
    by (auto simp: syn_of_def)
qed

text \<open>
  A shorter synonym is found only at the start of the queue: it is missed at the end of a text, found several times at its start, and gets
  a position that is not that of its first word. The offset is computed from the start of the last word and wraps
  around.
\<close>

lemma multi_missed:
  "snd (feed (term_multi (syn_of [''a b'', ''u v w''] 3) term_log) [(''x'', 0, 0, 1), (''a'', 1, 2, 3), (''b'', 2, 4, 5)] ([], [])) =
     [(''x'', 0, 0, 1), (''a'', 1, 2, 3), (''b'', 2, 4, 5)]"
  by code_simp

lemma multi_wrong_position:
  "snd (feed (term_multi (syn_of [''a b'', ''u v w''] 3) term_log) [(''a'', 0, 0, 1), (''b'', 1, 2, 3), (''x'', 2, 4, 5)] ([], [])) =
     [(''a'', 0, 0, 1), (''a b'', 0, 18446744073709551615, 3), (''b'', 1, 2, 3), (''a b'', 1, 1, 5), (''x'', 2, 4, 5)]"
  by code_simp

text \<open>The queue is not emptied at the end of a text: the last words of one field make a synonym with the first of the next.\<close>

lemma multi_over_texts:
  "let prc = term_multi (syn_of [''a b''] 2) term_log; su = feed prc [(''a'', 7, 0, 1)] ([], [])
   in snd (feed prc [(''b'', 0, 0, 1)] (snd (tp_flush prc su))) =
     [(''a'', 7, 0, 1), (''a b'', 18446744073709551615, 18446744073709551613, 1), (''b'', 0, 0, 1)]"
  by code_simp

end
