(* ===== verification/Spec2Isabelle.thy ===== *)
theory Spec2Isabelle
  imports Base64 Str_Basic Str_Tokens Str_Escape Str_Number Utf8 Conf_Write Conf_Tree Path_Util Work_Queue File_Udi Transcode Mime_Params Date_Search Cir_Prop Text_Conf Text_Plain Hl_Data Term_Find Term_Multi
begin

text \<open>
  Recoll indexes the texts of a user's documents and searches them. The indexer walks the files, turns each into one or more texts by
  handlers, cuts the texts into terms and gives the terms, with their positions, to the Xapian library; a query is cut into
  terms in the same way, expanded, and its results are shown with the places of its terms. This development models the parts of the
  C++ program (paths below are under \<open>src/src/\<close>) that are computation of its own: the way of a text to its terms and of a query to
  its terms and dates, the circular cache, the queue between the threads, the configuration files, the decoders of mail headers, and the string,
  path and character set utilities under all of them.

  \<^bold>\<open>Reading the model.\<close> A \<open>std::string\<close> is the list of its bytes, a class with state a record with the names of its members, an
  operation a function from the state and the arguments to the results and the new state. A run that ends in an exception, \<open>abort()\<close>
  or undefined behaviour is \<open>Inl\<close> of an error (\<open>cxx_error\<close> of \<open>Prelude\<close>). There is no fuel: a loop whose end depends on the data is a
  partial function to \<open>option\<close>, where \<open>None\<close> is a run that does not end (\<open>scan_loop\<close>, \<open>tsp_loop\<close>, \<open>transcode_loop\<close>, \<open>prefold_loop\<close>, the loops of
  \<open>utf8truncate\<close>), and the properties say where they return; every other loop is total, with a termination proof where the
  recursion is not structural. Widths matter and are kept in the counters of the queue, MD5, the base 64 and UTF-8 codecs, the cache's headers and
  the splitter's \<open>size_t\<close> differences; other sums are assumed to fit, as said in the theories.

  \<^bold>\<open>Strings\<close> (\<open>utils/smallut.cpp\<close>, \<open>utils/base64.cpp\<close>, \<open>utils/md5.cpp\<close>, \<open>utils/utf8iter.*\<close>, \<open>common/rclutil.cpp\<close>).
  \<open>Str_Basic\<close>, \<open>Str_Tokens\<close>, \<open>Str_Escape\<close>, \<open>Str_Number\<close>, \<open>Base64\<close>, \<open>Md5\<close> and \<open>Utf8\<close> hold the functions of these files in their order; \<open>C_Number\<close> and \<open>Calendar\<close> what the
  program uses of the C library. Lemmas: round trips of the pairs of functions, with the strings that do not survive them, exact results against
  reference definitions, the locale \<open>char_escaper\<close> for the three escapers, termination and non-termination of the loops over UTF-8.

  \<^bold>\<open>Paths and identifiers\<close> (\<open>utils/pathut.cpp\<close>, \<open>utils/fileudi.cpp\<close>). \<open>Path_Util\<close>: canonical paths against the resolution of their
  components, descendants, creation of parents. \<open>File_Udi\<close>: the shape of identifiers and when two are equal.

  \<^bold>\<open>Configuration\<close> (\<open>utils/conftree.*\<close>, \<open>common/rclconfig.cpp\<close>). \<open>Conf_Map\<close> is \<open>std::map\<close> with the comparator of the classes, its laws proved once in
  the locale \<open>keyed_order\<close>; \<open>Conf_Simple\<close> the object with its maps and its order data, from text or file, with set, erase and write; \<open>Conf_Write\<close> the round
  trip through the written text; \<open>Conf_Tree\<close> path sections and stacks, over the interface \<open>conf_element\<close>; \<open>Conf_Value\<close> and \<open>Rcl_Param\<close> the typed
  lookups. The central invariant, \<open>conf_made_safe\<close>, is that each variable has its line in the order data.

  \<^bold>\<open>Mail headers and character sets\<close> (\<open>utils/mimeparse.cpp\<close>, \<open>utils/transcode.cpp\<close>). \<open>Mime_Decode\<close>, \<open>Mime_Params\<close> and \<open>Mime_Date\<close>: the decoders read
  back what a writer makes, and the departures from the RFCs. \<open>Transcode\<close>: the loop around \<open>iconv\<close>, which is a parameter.

  \<^bold>\<open>Work queue\<close> (\<open>utils/workqueue.h\<close>). \<open>Work_Queue\<close>: a step relation, one step per stretch of a call under the mutex; invariants by
  induction over runs, for every interleaving and spurious wake-up; the queue refines a first-in first-out list.

  \<^bold>\<open>Circular cache\<close> (\<open>utils/circache.cpp\<close>). \<open>Cir_Entry\<close>: the format in bytes. \<open>Cir_Cache\<close>: the object and all its operations. \<open>Cir_Scan\<close>, \<open>Cir_Get\<close>,
  \<open>Cir_Put\<close>, \<open>Cir_Erase\<close>: the scan as a walk over a list of entries, and each operation as one on that list. \<open>Cir_Run\<close>, \<open>Cir_Prop\<close>: the states reachable
  from a new cache are well-formed, and the operations are those of a bounded first-in first-out list. The map of offsets is keyed
  by four bytes of a digest: what happens when two identifiers share them is part of the statements.

  \<^bold>\<open>From a text to its terms\<close> (\<open>common/textsplit.cpp\<close>, \<open>common/cjksplitter.cpp\<close>, \<open>common/unacpp.cpp\<close>, \<open>common/syngroups.cpp\<close>, \<open>rcldb/termproc.h\<close>, \<open>rcldb/stoplist.cpp\<close>,
  \<open>rcldb/rcldb.cpp\<close>, \<open>rcldb/searchdatatox.cpp\<close>). \<open>Text_Class\<close>: character classes. \<open>Text_Split\<close>, \<open>Text_Cjk\<close>, \<open>Text_Words\<close>: the splitter, its members and local
  variables as a record, one function per label of its switch. \<open>Text_Safe\<close>: for every text it returns and its offsets are in the text, for any client
  that satisfies the locale \<open>client\<close>. \<open>Text_Conf\<close>: which configurations are safe. \<open>Text_Plain\<close>: exactly what it sends for words. \<open>Unac_Util\<close>,
  \<open>Syn_Groups\<close>, \<open>Term_Proc\<close>: the processors of the pipeline, each of which forwards to the next, with the locales \<open>term_words\<close>, \<open>term_end\<close> and
  \<open>term_collect\<close> for what the end of a pipeline promises. \<open>Term_Multi\<close>: synonyms of several words. \<open>Term_Index\<close>, \<open>Term_Find\<close>: the two ends, indexing
  and query, and that the words of a phrase of a text are found at their distances.

  \<^bold>\<open>Queries\<close> (\<open>common/rclutil.cpp\<close>, \<open>rcldb/daterange.cpp\<close>, \<open>rcldb/searchdatatox.cpp\<close>, \<open>query/hldata.*\<close>). \<open>Date_Interval\<close>, \<open>Date_Range\<close>, \<open>Date_Search\<close>: dates are parsed,
  turned into terms and find the documents of their days. \<open>Hl_Data\<close>: the positions of the terms of a group that are near each other, for highlighting.

  \<^bold>\<open>Parameters.\<close> The libraries and the system are arguments: \<open>iconv\<close>, zlib, the conversion \<open>unac\<close>, the external splitters, the index library (the list
  of its calls), the environment, the current directory, the contents of files. What a property needs of them is a named hypothesis, which its witness
  satisfies.

  \<^bold>\<open>Not modelled.\<close> The Xapian database and the building of queries on it, the query language parser, the document handlers, the walk over the file
  system and its monitor, the presentation of results, the graphical interface, processes, sockets and files, and vendored code (unac, simdutf,
  miniz, the MIME parser): they are input and output, generated, or calls of libraries whose code is not here. In the modelled files: messages, statistics, branches
  for Windows, failing system calls, \<open>getFloat\<close>. Three places stay closer to the intent than to the machine: \<open>doemit\<close> of the splitter does not cut a byte
  position to \<open>int\<close>, which matters for texts of over 2 GB; \<open>readEntryHeader\<close> of the cache reads its 64 bytes as a string that ends, where \<open>sscanf\<close> could
  read beyond a buffer without a null; and \<open>idx_newpage\<close> leaves out an exception of the index library's call for a page break,
  which the code does not catch there.
\<close>

end
